(* ===== verification/Prelude.thy ===== *)
theory Prelude
  imports Main "HOL-Library.Word" "HOL-Library.List_Lexorder" "HOL-Library.Monad_Syntax"
begin

text \<open>
  Shared vocabulary of the development: byte strings and machine integers, the error
  values of \<^verbatim>\<open>common/result.h\<close>, message formatting, ordered association lists for
  \<^verbatim>\<open>std::map\<close>, and the generic lemmas on lists, options and words that the component
  theories use.

  Conventions. A \<^verbatim>\<open>std::string\<close> or \<^verbatim>\<open>std::string_view\<close> is a list of bytes. Unsigned
  integers that are stored, compared or encoded keep their width as words. Signed times
  and priorities are \<open>int\<close> (signed overflow is undefined in C++; the ranges are
  hypotheses where they matter). A failed \<^verbatim>\<open>BATON_CHECK\<close> aborts the process; an
  operation that contains such a check has an \<open>option\<close> result, and \<open>None\<close> is the
  abort.
\<close>

unbundle bit_operations_syntax

named_theorems codec_simps \<open>round trips of the primitive encodings\<close>
named_theorems frame_simps \<open>fields an operation leaves alone\<close>

section \<open>Bytes and machine integers\<close>

type_synonym byte = "8 word"
type_synonym bytes = "byte list"
type_synonym u32 = "32 word"
type_synonym u64 = "64 word"
type_synonym Lsn = u64

definition str :: "string \<Rightarrow> bytes" where
  "str s = map of_char s"

lemma length_str [simp]: "length (str s) = length s"
  by (simp add: str_def)

lemma str_append [simp]: "str (a @ b) = str a @ str b"
  by (simp add: str_def)

lemma str_Nil [simp]: "str [] = []"
  by (simp add: str_def)

text \<open>Decimal rendering, as \<^verbatim>\<open>std::format("{}", n)\<close> and \<^verbatim>\<open>std::to_string\<close> produce it.\<close>

fun nat_dec :: "nat \<Rightarrow> bytes" where
  "nat_dec n = (if n < 10 then [48 + of_nat n] else nat_dec (n div 10) @ [48 + of_nat (n mod 10)])"

declare nat_dec.simps [simp del]

definition int_dec :: "int \<Rightarrow> bytes" where
  "int_dec i = (if i < 0 then 45 # nat_dec (nat (- i)) else nat_dec (nat i))"

text \<open>The arguments of a \<^verbatim>\<open>std::format\<close> call, in the order of the text.\<close>

datatype fmt_arg = FS string | FU nat | FI int | FB bytes

fun fmt :: "fmt_arg list \<Rightarrow> bytes" where
  "fmt [] = []"
| "fmt (FS s # as) = str s @ fmt as"
| "fmt (FU n # as) = nat_dec n @ fmt as"
| "fmt (FI i # as) = int_dec i @ fmt as"
| "fmt (FB b # as) = b @ fmt as"

section \<open>Errors as values\<close>

datatype ErrorCode =
    kInvalidArgument | kNotFound | kAlreadyExists | kFailedPrecondition | kStaleToken
  | kLimitExceeded | kUnauthenticated | kProtocol | kIo | kCorruption | kUnavailable | kInternal

record Error =
  err_code :: ErrorCode
  err_message :: bytes

type_synonym 'a Result = "Error + 'a"

definition mk_error :: "ErrorCode \<Rightarrow> fmt_arg list \<Rightarrow> Error" where
  "mk_error c as = \<lparr>err_code = c, err_message = fmt as\<rparr>"

lemma err_code_mk_error [simp]: "err_code (mk_error c as) = c"
  by (simp add: mk_error_def)

definition ok :: "'a Result \<Rightarrow> bool" where
  "ok r = (case r of Inl _ \<Rightarrow> False | Inr _ \<Rightarrow> True)"

lemma ok_simps [simp]: "ok (Inr x)" "\<not> ok (Inl e)"
  by (simp_all add: ok_def)

text \<open>\<^verbatim>\<open>BATON_ASSIGN_OR_RETURN\<close> and \<^verbatim>\<open>BATON_RETURN_IF_ERROR\<close>.\<close>

definition assign_or_return :: "'a Result \<Rightarrow> ('a \<Rightarrow> 'b Result) \<Rightarrow> 'b Result" where
  "assign_or_return r f = (case r of Inl e \<Rightarrow> Inl e | Inr x \<Rightarrow> f x)"

lemma assign_or_return_simps [simp]:
  "assign_or_return (Inl e) f = Inl e"
  "assign_or_return (Inr x) f = f x"
  by (simp_all add: assign_or_return_def)

lemma assign_or_return_Inr:
  "assign_or_return r f = Inr y \<longleftrightarrow> (\<exists>x. r = Inr x \<and> f x = Inr y)"
  by (cases r) auto

definition to_string_code :: "ErrorCode \<Rightarrow> bytes" where
  "to_string_code c = str (case c of
      kInvalidArgument \<Rightarrow> ''invalid argument''
    | kNotFound \<Rightarrow> ''not found''
    | kAlreadyExists \<Rightarrow> ''already exists''
    | kFailedPrecondition \<Rightarrow> ''failed precondition''
    | kStaleToken \<Rightarrow> ''stale token''
    | kLimitExceeded \<Rightarrow> ''limit exceeded''
    | kUnauthenticated \<Rightarrow> ''unauthenticated''
    | kProtocol \<Rightarrow> ''protocol error''
    | kIo \<Rightarrow> ''io error''
    | kCorruption \<Rightarrow> ''corruption''
    | kUnavailable \<Rightarrow> ''unavailable''
    | kInternal \<Rightarrow> ''internal error'')"

definition error_to_string :: "Error \<Rightarrow> bytes" where
  "error_to_string e = fmt [FB (to_string_code (err_code e)), FS '': '', FB (err_message e)]"

section \<open>Aborts\<close>

text \<open>\<open>baton_check c\<close> is \<open>None\<close> (the process aborts) when the condition is false.\<close>

definition baton_check :: "bool \<Rightarrow> unit option" where
  "baton_check c = (if c then Some () else None)"

lemma baton_check_simps [simp]: "baton_check True = Some ()" "baton_check False = None"
  by (simp_all add: baton_check_def)

lemma baton_check_Some [simp]: "baton_check c = Some u \<longleftrightarrow> c"
  by (simp add: baton_check_def)

section \<open>Ordered maps\<close>

text \<open>
  \<^verbatim>\<open>std::map\<close> is an association list kept sorted by key: iteration order is list order.
\<close>

fun omap_insert :: "'k::linorder \<Rightarrow> 'v \<Rightarrow> ('k \<times> 'v) list \<Rightarrow> ('k \<times> 'v) list" where
  "omap_insert k v [] = [(k, v)]"
| "omap_insert k v ((k', v') # m) =
     (if k < k' then (k, v) # (k', v') # m
      else if k = k' then (k, v) # m
      else (k', v') # omap_insert k v m)"

fun omap_update :: "'k \<Rightarrow> ('v \<Rightarrow> 'v) \<Rightarrow> ('k \<times> 'v) list \<Rightarrow> ('k \<times> 'v) list" where
  "omap_update k f [] = []"
| "omap_update k f ((k', v') # m) =
     (if k = k' then (k', f v') # m else (k', v') # omap_update k f m)"

definition omap_wf :: "('k::linorder \<times> 'v) list \<Rightarrow> bool" where
  "omap_wf m \<longleftrightarrow> sorted_wrt (<) (map fst m)"

lemma map_of_omap_insert [simp]: "map_of (omap_insert k v m) = (map_of m)(k \<mapsto> v)"
  by (induction m) (auto simp: fun_eq_iff)

lemma map_of_omap_update [simp]:
  "map_of (omap_update k f m) = (map_of m)(k := map_option f (map_of m k))"
  by (induction m) (auto simp: fun_eq_iff)

lemma fst_omap_update [simp]: "map fst (omap_update k f m) = map fst m"
  by (induction m) auto

lemma set_fst_omap_insert [simp]: "fst ` set (omap_insert k v m) = insert k (fst ` set m)"
  by (simp flip: dom_map_of_conv_image_fst)

lemma omap_wf_Nil [simp]: "omap_wf []"
  by (simp add: omap_wf_def)

lemma omap_wf_update [simp]: "omap_wf (omap_update k f m) = omap_wf m"
  by (simp add: omap_wf_def)

lemma omap_wf_insert [simp]: "omap_wf m \<Longrightarrow> omap_wf (omap_insert k v m)"
proof (induction m)
  case (Cons x m)
  have keys: "fst ` set (omap_insert k v m) = insert k (fst ` set m)"
    by simp
  from Cons show ?case
    using keys by (cases x) (force simp: omap_wf_def)
qed (simp add: omap_wf_def)

lemma omap_wf_distinct: "omap_wf m \<Longrightarrow> distinct (map fst m)"
  by (simp add: omap_wf_def strict_sorted_iff)

section \<open>List updates\<close>

lemma nth_upd: "xs[i := x] ! j = (if i = j \<and> i < length xs then x else xs ! j)"
  by (cases "i < length xs") (auto simp: nth_list_update list_update_beyond)

end
