(* ===== verification/Codec.thy ===== *)
theory Codec
  imports Prelude "HOL-Library.State_Monad"
begin

text \<open>
  \<^verbatim>\<open>common/codec.h\<close>: the binary encoding helpers. A \<^verbatim>\<open>ByteWriter\<close> only ever appends to
  its string, so each of its methods is modelled by the bytes it appends. A
  \<^verbatim>\<open>ByteReader\<close> is its two fields; every read returns the value and the reader after
  it. The lemmas are the round trips of the primitives, the sticky failure flag, and
  the stability of successful reads when more input follows.
\<close>

section \<open>ByteWriter\<close>

definition w_u8 :: "byte \<Rightarrow> bytes" where
  "w_u8 v = [v]"

text \<open>\<open>fixed\<close>: the little-endian bytes of a word, lowest first.\<close>

fun le_bytes :: "nat \<Rightarrow> 'a::len word \<Rightarrow> bytes" where
  "le_bytes 0 v = []"
| "le_bytes (Suc n) v = ucast v # le_bytes n (drop_bit 8 v)"

definition w_u32 :: "u32 \<Rightarrow> bytes" where
  "w_u32 v = le_bytes 4 v"

definition w_u64 :: "u64 \<Rightarrow> bytes" where
  "w_u64 v = le_bytes 8 v"

lemma unat_drop_bit_7: "unat (drop_bit 7 v :: u64) = unat v div 128"
  by (simp add: drop_bit_eq_div unat_div)

function w_varint :: "u64 \<Rightarrow> bytes" where
  "w_varint v = (if v \<ge> 0x80 then ucast ((v AND 0x7F) OR 0x80) # w_varint (drop_bit 7 v)
                 else [ucast v])"
  by pat_completeness auto
termination
  by (relation "measure unat") (auto simp: unat_drop_bit_7 word_le_nat_alt)

declare w_varint.simps [simp del]

definition w_svarint :: "int \<Rightarrow> bytes" where
  "w_svarint v = w_varint (push_bit 1 (word_of_int v) XOR word_of_int (drop_bit 63 v))"

definition w_bytes :: "bytes \<Rightarrow> bytes" where
  "w_bytes v = w_varint (of_nat (length v)) @ v"

section \<open>ByteReader\<close>

record Reader =
  rin :: bytes
  rok :: bool

definition mk_reader :: "bytes \<Rightarrow> Reader" where
  "mk_reader v = \<lparr>rin = v, rok = True\<rparr>"

definition at_end :: "Reader \<Rightarrow> bool" where
  "at_end r \<longleftrightarrow> rin r = []"

definition remaining :: "Reader \<Rightarrow> nat" where
  "remaining r = length (rin r)"

definition r_fail :: "Reader \<Rightarrow> Reader" where
  "r_fail r = \<lparr>rin = [], rok = False\<rparr>"

text \<open>\<open>need n\<close>: when it is false the caller's reader is the failed one.\<close>

definition need :: "nat \<Rightarrow> Reader \<Rightarrow> bool" where
  "need n r \<longleftrightarrow> rok r \<and> n \<le> length (rin r)"

definition remove_prefix :: "nat \<Rightarrow> Reader \<Rightarrow> Reader" where
  "remove_prefix n r = r\<lparr>rin := drop n (rin r)\<rparr>"

definition r_u8 :: "Reader \<Rightarrow> byte \<times> Reader" where
  "r_u8 r = (if need 1 r then (hd (rin r), remove_prefix 1 r) else (0, r_fail r))"

fun le_word :: "bytes \<Rightarrow> 'a::len word" where
  "le_word [] = 0"
| "le_word (b # bs) = ucast b OR push_bit 8 (le_word bs)"

definition r_u32 :: "Reader \<Rightarrow> u32 \<times> Reader" where
  "r_u32 r = (if need 4 r then (le_word (take 4 (rin r)), remove_prefix 4 r) else (0, r_fail r))"

definition r_u64 :: "Reader \<Rightarrow> u64 \<times> Reader" where
  "r_u64 r = (if need 8 r then (le_word (take 8 (rin r)), remove_prefix 8 r) else (0, r_fail r))"

function r_varint_from :: "nat \<Rightarrow> u64 \<Rightarrow> Reader \<Rightarrow> u64 \<times> Reader" where
  "r_varint_from shift result r =
     (if shift < 64 then
        if need 1 r then
          let byte = hd (rin r); r' = remove_prefix 1 r in
          if shift = 63 \<and> byte > 1 then (0, r_fail r')
          else
            let result' = result OR push_bit shift (ucast (byte AND 0x7F)) in
            if byte AND 0x80 = 0 then (result', r') else r_varint_from (shift + 7) result' r'
        else (0, r_fail r)
      else (0, r_fail r))"
  by pat_completeness auto
termination
  by (relation "measure (\<lambda>(shift, result, r). 64 - shift)") auto

declare r_varint_from.simps [simp del]

definition r_varint :: "Reader \<Rightarrow> u64 \<times> Reader" where
  "r_varint r = r_varint_from 0 0 r"

definition r_svarint :: "Reader \<Rightarrow> int \<times> Reader" where
  "r_svarint r = (let (z, r') = r_varint r in
     (sint (drop_bit 1 z XOR (NOT (z AND 1) + 1)), r'))"

definition r_raw :: "nat \<Rightarrow> Reader \<Rightarrow> bytes \<times> Reader" where
  "r_raw n r = (if need n r then (take n (rin r), remove_prefix n r) else ([], r_fail r))"

definition r_bytes :: "Reader \<Rightarrow> bytes \<times> Reader" where
  "r_bytes r = (let (n, r') = r_varint r in
     if \<not> rok r' \<or> unat n > length (rin r') then ([], r_fail r') else r_raw (unat n) r')"

section \<open>Fixed-width integers\<close>

lemma length_le_bytes [simp]: "length (le_bytes n v) = n"
  by (induction n v rule: le_bytes.induct) auto

lemma le_word_le_bytes: "le_word (le_bytes n v) = take_bit (8 * n) (v :: 'a::len word)"
proof (induction n arbitrary: v)
  case (Suc n)
  show ?case
    by (rule bit_word_eqI) (auto simp: Suc bit_simps)
qed simp

lemma length_w_u32 [simp]: "length (w_u32 v) = 4"
  by (simp add: w_u32_def)

lemma length_w_u64 [simp]: "length (w_u64 v) = 8"
  by (simp add: w_u64_def)

lemma le_word_w_u32 [simp]: "le_word (w_u32 v) = v"
  by (simp add: w_u32_def le_word_le_bytes take_bit_word_eq_self)

lemma le_word_w_u64 [simp]: "le_word (w_u64 v) = v"
  by (simp add: w_u64_def le_word_le_bytes take_bit_word_eq_self)

lemma r_u8_w [codec_simps]:
  "r_u8 \<lparr>rin = w_u8 v @ rest, rok = True\<rparr> = (v, \<lparr>rin = rest, rok = True\<rparr>)"
  by (simp add: r_u8_def w_u8_def need_def remove_prefix_def)

lemma r_u32_w [codec_simps]:
  "r_u32 \<lparr>rin = w_u32 v @ rest, rok = True\<rparr> = (v, \<lparr>rin = rest, rok = True\<rparr>)"
  by (simp add: r_u32_def need_def remove_prefix_def)

lemma r_u64_w [codec_simps]:
  "r_u64 \<lparr>rin = w_u64 v @ rest, rok = True\<rparr> = (v, \<lparr>rin = rest, rok = True\<rparr>)"
  by (simp add: r_u64_def need_def remove_prefix_def)

lemma r_raw_append [codec_simps]:
  "n = length v \<Longrightarrow> r_raw n \<lparr>rin = v @ rest, rok = True\<rparr> = (v, \<lparr>rin = rest, rok = True\<rparr>)"
  by (simp add: r_raw_def need_def remove_prefix_def)

section \<open>Varints\<close>

lemma push_bit_split_7:
  "push_bit s (v AND 0x7F) OR push_bit (s + 7) (drop_bit 7 v) = push_bit s (v :: u64)"
proof (rule bit_word_eqI)
  fix n
  have mask: "(0x7F :: u64) = mask 7"
    by (simp add: mask_eq_exp_minus_1)
  have "n < s + 7 \<or> (\<exists>k. n = s + 7 + k)"
    by (metis le_Suc_ex not_less)
  then show "bit (push_bit s (v AND 0x7F) OR push_bit (s + 7) (drop_bit 7 v)) n = bit (push_bit s v) n"
    by (auto simp: mask bit_simps)
qed

lemma bit_128: "bit (128 :: int) n \<longleftrightarrow> n = 7" "bit (128 :: nat) n \<longleftrightarrow> n = 7"
proof -
  have "(128 :: int) = 2 ^ 7" "(128 :: nat) = 2 ^ 7" by simp_all
  then show "bit (128 :: int) n \<longleftrightarrow> n = 7" "bit (128 :: nat) n \<longleftrightarrow> n = 7"
    by (simp_all only: bit_exp_iff) auto
qed

lemma small_byte:
  assumes "\<not> (0x80 \<le> (v :: u64))"
  shows "(ucast v :: byte) AND 0x80 = 0"
    and "ucast ((ucast v :: byte) AND 0x7F) = v"
    and "unat (ucast v :: byte) = unat v"
proof -
  have lt: "v < 2 ^ 7"
    using assms by simp
  have m: "(0x7F :: u64) = mask 7" "(0x7F :: byte) = mask 7"
    "(0x80 :: byte) = push_bit 7 1"
    by (simp_all add: mask_eq_exp_minus_1)
  have v: "v = v AND mask 7"
    using lt by (simp add: less_mask_eq)
  have hi: "\<not> bit v n" if "n \<ge> 7" for n
    using that by (subst v) (simp add: bit_simps)
  have lo: "n < 7" if "bit v n" for n
    using hi that by (meson not_less)
  show "(ucast v :: byte) AND 0x80 = 0"
    unfolding m by (rule bit_word_eqI) (auto simp: bit_simps hi bit_128)
  show "ucast ((ucast v :: byte) AND 0x7F) = v"
    unfolding m by (rule bit_word_eqI) (auto simp: bit_simps dest: lo)
  have "unat v < 2 ^ 7"
    using lt by (simp add: word_less_nat_alt)
  then show "unat (ucast v :: byte) = unat v"
    by (simp add: unsigned_ucast_eq take_bit_nat_eq_self)
qed

lemma byte_low7: "ucast ((ucast (v AND 0x7F OR 0x80 :: u64) :: byte) AND 0x7F) = v AND 0x7F"
proof (rule bit_word_eqI)
  fix n
  have m: "(0x7F :: u64) = mask 7" "(0x7F :: byte) = mask 7"
    by (simp_all add: mask_eq_exp_minus_1)
  show "bit (ucast ((ucast (v AND 0x7F OR 0x80) :: byte) AND 0x7F) :: u64) n = bit (v AND 0x7F) n"
    by (auto simp: m bit_simps bit_128)
qed

lemma byte_high: "(ucast (v AND 0x7F OR 0x80 :: u64) :: byte) AND 0x80 \<noteq> 0"
proof -
  have "bit ((ucast (v AND 0x7F OR 0x80) :: byte) AND 0x80) 7"
    by (auto simp: bit_simps bit_128)
  then show ?thesis by auto
qed
lemma r_varint_from_w:
  assumes "unat v < 2 ^ (64 - shift)" and "shift < 64"
  shows "r_varint_from shift acc \<lparr>rin = w_varint v @ rest, rok = True\<rparr> =
    (acc OR push_bit shift v, \<lparr>rin = rest, rok = True\<rparr>)"
  using assms
proof (induction v arbitrary: shift acc rule: w_varint.induct)
  case (1 v)
  show ?case
  proof (cases "0x80 \<le> v")
    case True
    then have big: "128 \<le> unat v"
      by (simp add: word_le_nat_alt)
    have s: "shift < 57"
    proof (rule ccontr)
      assume "\<not> shift < 57"
      then have "(2::nat) ^ (64 - shift) \<le> 2 ^ 7"
        by (intro power_increasing) auto
      with big 1(2) show False by simp
    qed
    have "64 - shift = 64 - (shift + 7) + 7"
      using s by simp
    then have "(2::nat) ^ (64 - shift) = 2 ^ (64 - (shift + 7)) * 2 ^ 7"
      by (simp only: power_add)
    with 1(2) have "unat (drop_bit 7 v) < 2 ^ (64 - (shift + 7))"
      by (simp add: unat_drop_bit_7 div_less_iff_less_mult)
    from 1(1) [OF True this] s
    have IH: "r_varint_from (shift + 7) a \<lparr>rin = w_varint (drop_bit 7 v) @ rest, rok = True\<rparr> =
        (a OR push_bit (shift + 7) (drop_bit 7 v), \<lparr>rin = rest, rok = True\<rparr>)" for a
      by simp
    from True s show ?thesis
      by (subst w_varint.simps, subst r_varint_from.simps)
        (simp add: need_def remove_prefix_def Let_def byte_high byte_low7 IH
          or.assoc push_bit_split_7 del: push_bit_and)
  next
    case False
    have "unat (ucast v :: byte) \<le> 1" if "shift = 63"
      using that 1(2) by (simp add: small_byte(3) [OF False])
    then have "\<not> (ucast v :: byte) > 1" if "shift = 63"
      using that by (simp add: word_less_nat_alt)
    with False 1(3) show ?thesis
      by (subst w_varint.simps, subst r_varint_from.simps)
        (auto simp add: need_def remove_prefix_def Let_def small_byte(1,2))
  qed
qed

lemma r_varint_w [codec_simps]:
  "r_varint \<lparr>rin = w_varint v @ rest, rok = True\<rparr> = (v, \<lparr>rin = rest, rok = True\<rparr>)"
  using r_varint_from_w [of v 0 0 rest] unsigned_less [of v]
  by (simp add: r_varint_def)


lemma drop_bit_63_int:
  assumes "- (2 ^ 63) \<le> v" "v < 2 ^ 63"
  shows "drop_bit 63 v = (if v < 0 then - 1 else 0 :: int)"
proof (cases "v < 0")
  case True
  have "v div 2 ^ 63 = - 1"
    using True assms(1) by (intro int_div_pos_eq [where r = "v + 2 ^ 63"]) auto
  with True show ?thesis by (simp add: drop_bit_eq_div)
next
  case False
  with assms(2) show ?thesis by (simp add: drop_bit_eq_div)
qed

lemma sint_zigzag:
  assumes "- (2 ^ 63) \<le> v" "v < 2 ^ 63"
  defines "z \<equiv> push_bit 1 (word_of_int v) XOR word_of_int (drop_bit 63 v) :: u64"
  shows "sint (drop_bit 1 z XOR (NOT (z AND 1) + 1)) = v"
proof -
  let ?w = "word_of_int v :: u64"
  have sw: "sint ?w = v"
    using assms(1,2) by (simp add: signed_take_bit_int_eq_self sint_sbintrunc')
  have top: "bit ?w 63 \<longleftrightarrow> v < 0"
    by (simp add: bit_word_of_int_iff bit_iff_odd_drop_bit [of v] drop_bit_63_int [OF assms(1,2)])
  have zbit: "bit z n \<longleftrightarrow> n < 64 \<and> ((1 \<le> n \<and> bit ?w (n - 1)) \<noteq> (v < 0))" for n
    unfolding z_def drop_bit_63_int [OF assms(1,2)] bit_xor_iff bit_push_bit_iff
    by (auto simp: bit_simps)
  have z1: "z AND 1 = (if v < 0 then 1 else 0)"
    by (rule bit_word_eqI) (auto simp: bit_and_iff bit_1_iff zbit)
  have "drop_bit 1 z XOR (NOT (z AND 1) + 1) = ?w"
  proof (rule bit_word_eqI)
    fix n assume "n < LENGTH(64)"
    then consider "n < 63" | "n = 63" by fastforce
    then show "bit (drop_bit 1 z XOR (NOT (z AND 1) + 1)) n = bit ?w n"
      unfolding z1
      by cases (use top in \<open>auto simp: bit_xor_iff bit_drop_bit_eq bit_minus_1_iff zbit\<close>)
  qed
  with sw show ?thesis by simp
qed

lemma r_svarint_w [codec_simps]:
  "- (2 ^ 63) \<le> v \<Longrightarrow> v < 2 ^ 63 \<Longrightarrow>
    r_svarint \<lparr>rin = w_svarint v @ rest, rok = True\<rparr> = (v, \<lparr>rin = rest, rok = True\<rparr>)"
  using sint_zigzag [of v] by (simp add: r_svarint_def w_svarint_def r_varint_w)

lemma r_bytes_w [codec_simps]:
  "length v < 2 ^ 64 \<Longrightarrow>
    r_bytes \<lparr>rin = w_bytes v @ rest, rok = True\<rparr> = (v, \<lparr>rin = rest, rok = True\<rparr>)"
  by (simp add: r_bytes_def w_bytes_def r_varint_w r_raw_append unat_of_nat)

section \<open>The sticky failure flag and the reader contract\<close>

lemma rok_r_fail [simp]: "\<not> rok (r_fail r)" "rin (r_fail r) = []"
  by (simp_all add: r_fail_def)

lemma r_varint_from_failed:
  "\<not> rok r \<Longrightarrow> r_varint_from shift acc r = (0, r_fail r)"
  by (simp add: r_varint_from.simps need_def)

lemma r_varint_from_extend:
  assumes "rok (snd (r_varint_from shift acc r))"
  shows "r_varint_from shift acc (r\<lparr>rin := rin r @ s\<rparr>) =
    (fst (r_varint_from shift acc r),
     (snd (r_varint_from shift acc r))\<lparr>rin := rin (snd (r_varint_from shift acc r)) @ s\<rparr>)"
  using assms
proof (induction shift acc r rule: r_varint_from.induct)
  case (1 shift acc r)
  show ?case
  proof (cases "shift < 64 \<and> need 1 r")
    case True
    then have ne: "rin r \<noteq> []" "rok r" by (auto simp: need_def)
    let ?b = "hd (rin r)" and ?r = "remove_prefix 1 r"
    let ?acc = "acc OR push_bit shift (ucast (?b AND 0x7F))"
    note IH = 1(1) [OF _ _ refl refl _ refl]
    have unf: "r_varint_from shift acc r =
      (if shift = 63 \<and> ?b > 1 then (0, r_fail ?r)
       else if ?b AND 0x80 = 0 then (?acc, ?r) else r_varint_from (shift + 7) ?acc ?r)"
      using True by (subst r_varint_from.simps) (simp add: Let_def)
    have unf_s: "r_varint_from shift acc (r\<lparr>rin := rin r @ s\<rparr>) =
      (if shift = 63 \<and> ?b > 1 then (0, r_fail ?r)
       else if ?b AND 0x80 = 0 then (?acc, ?r\<lparr>rin := rin ?r @ s\<rparr>)
       else r_varint_from (shift + 7) ?acc (?r\<lparr>rin := rin ?r @ s\<rparr>))"
      using True ne
      by (subst r_varint_from.simps) (simp add: Let_def need_def remove_prefix_def r_fail_def)
    from 1(2) True IH show ?thesis
      unfolding unf unf_s by (auto split: if_splits)
  next
    case False
    with 1(2) show ?thesis
      by (subst (asm) r_varint_from.simps) (auto simp: need_def split: if_splits)
  qed
qed

text \<open>
  The contract of a field of an encoding: reading back what was written gives the value
  and the rest of the input, a failed reader stays failed, and a successful read does
  not depend on what follows it.
\<close>

locale field_codec =
  fixes enc :: "'a \<Rightarrow> bytes"
    and dec :: "Reader \<Rightarrow> 'a \<times> Reader"
    and valid :: "'a \<Rightarrow> bool"
  assumes dec_enc: "valid v \<Longrightarrow>
      dec \<lparr>rin = enc v @ rest, rok = True\<rparr> = (v, \<lparr>rin = rest, rok = True\<rparr>)"
    and dec_failed: "\<not> rok r \<Longrightarrow> \<not> rok (snd (dec r))"
    and dec_extend: "rok (snd (dec \<lparr>rin = p, rok = True\<rparr>)) \<Longrightarrow>
      dec \<lparr>rin = p @ s, rok = True\<rparr> =
        (fst (dec \<lparr>rin = p, rok = True\<rparr>),
         \<lparr>rin = rin (snd (dec \<lparr>rin = p, rok = True\<rparr>)) @ s, rok = True\<rparr>)"
begin

lemma dec_enc_end: "valid v \<Longrightarrow> dec \<lparr>rin = enc v, rok = True\<rparr> = (v, \<lparr>rin = [], rok = True\<rparr>)"
  using dec_enc [of v "[]"] by simp

text \<open>No proper prefix of an encoding can be read.\<close>

lemma no_proper_prefix:
  assumes "valid v" "enc v = p @ s" "s \<noteq> []"
  shows "\<not> rok (snd (dec \<lparr>rin = p, rok = True\<rparr>))"
proof
  assume "rok (snd (dec \<lparr>rin = p, rok = True\<rparr>))"
  from dec_extend [OF this, of s] dec_enc_end [OF assms(1)] assms(2,3)
  show False by simp
qed

lemma enc_inj: "valid v \<Longrightarrow> valid w \<Longrightarrow> enc v = enc w \<Longrightarrow> v = w"
  using dec_enc_end [of v] dec_enc_end [of w] by (metis fst_conv)

end

interpretation u8_field: field_codec w_u8 r_u8 "\<lambda>_. True"
  by unfold_locales
    (auto simp: w_u8_def r_u8_def need_def remove_prefix_def r_fail_def hd_append
      Suc_le_eq split: if_splits)

interpretation u32_field: field_codec w_u32 r_u32 "\<lambda>_. True"
  by unfold_locales
    (auto simp: r_u32_w r_u32_def need_def remove_prefix_def r_fail_def split: if_splits)

interpretation u64_field: field_codec w_u64 r_u64 "\<lambda>_. True"
  by unfold_locales
    (auto simp: r_u64_w r_u64_def need_def remove_prefix_def r_fail_def split: if_splits)

interpretation varint_field: field_codec w_varint r_varint "\<lambda>_. True"
proof unfold_locales
  show "r_varint \<lparr>rin = w_varint v @ rest, rok = True\<rparr> = (v, \<lparr>rin = rest, rok = True\<rparr>)" for v rest
    by (rule r_varint_w)
  show "\<not> rok (snd (r_varint r))" if "\<not> rok r" for r
    using that by (simp add: r_varint_def r_varint_from_failed)
  show "r_varint \<lparr>rin = p @ s, rok = True\<rparr> =
      (fst (r_varint \<lparr>rin = p, rok = True\<rparr>),
       \<lparr>rin = rin (snd (r_varint \<lparr>rin = p, rok = True\<rparr>)) @ s, rok = True\<rparr>)"
    if "rok (snd (r_varint \<lparr>rin = p, rok = True\<rparr>))" for p s
    using that r_varint_from_extend [of 0 0 "\<lparr>rin = p, rok = True\<rparr>" s]
    by (cases "snd (r_varint \<lparr>rin = p, rok = True\<rparr>)") (simp add: r_varint_def)
qed

definition in_i64 :: "int \<Rightarrow> bool" where
  "in_i64 v \<longleftrightarrow> - (2 ^ 63) \<le> v \<and> v < 2 ^ 63"

interpretation svarint_field: field_codec w_svarint r_svarint in_i64
proof unfold_locales
  show "r_svarint \<lparr>rin = w_svarint v @ rest, rok = True\<rparr> = (v, \<lparr>rin = rest, rok = True\<rparr>)"
    if "in_i64 v" for v rest
    using that by (simp add: in_i64_def r_svarint_w)
  show "\<not> rok (snd (r_svarint r))" if "\<not> rok r" for r
    using varint_field.dec_failed [OF that] by (simp add: r_svarint_def split_def Let_def)
  show "r_svarint \<lparr>rin = p @ s, rok = True\<rparr> =
      (fst (r_svarint \<lparr>rin = p, rok = True\<rparr>),
       \<lparr>rin = rin (snd (r_svarint \<lparr>rin = p, rok = True\<rparr>)) @ s, rok = True\<rparr>)"
    if "rok (snd (r_svarint \<lparr>rin = p, rok = True\<rparr>))" for p s
    using that varint_field.dec_extend [of p s] by (simp add: r_svarint_def split_def Let_def)
qed

interpretation bytes_field: field_codec w_bytes r_bytes "\<lambda>v. length v < 2 ^ 64"
proof unfold_locales
  show "r_bytes \<lparr>rin = w_bytes v @ rest, rok = True\<rparr> = (v, \<lparr>rin = rest, rok = True\<rparr>)"
    if "length v < 2 ^ 64" for v rest
    using that by (rule r_bytes_w)
  show "\<not> rok (snd (r_bytes r))" if "\<not> rok r" for r
    using varint_field.dec_failed [OF that] by (simp add: r_bytes_def split_def Let_def)
  show "r_bytes \<lparr>rin = p @ s, rok = True\<rparr> =
      (fst (r_bytes \<lparr>rin = p, rok = True\<rparr>),
       \<lparr>rin = rin (snd (r_bytes \<lparr>rin = p, rok = True\<rparr>)) @ s, rok = True\<rparr>)"
    if "rok (snd (r_bytes \<lparr>rin = p, rok = True\<rparr>))" for p s
    using that varint_field.dec_extend [of p s]
    by (auto simp add: r_bytes_def split_def Let_def r_raw_def need_def remove_prefix_def split: if_splits)
qed

end
