(* ===== verification/Records.thy ===== *)
theory Records
  imports Codec
begin

text \<open>
  \<^verbatim>\<open>state/records.h\<close> and \<^verbatim>\<open>state/records.cpp\<close>: the vocabulary of logged facts, their
  encoding and the strict decoder. The main facts are the round trip of every record
  whose fields are in range, and that whatever the decoder accepts is in range.
\<close>

section \<open>The record types\<close>

type_synonym JobId = u64
type_synonym LeaseToken = u64
type_synonym WallTime = int
type_synonym DurationMs = int

definition kMaxWallTimeMs :: int where
  "kMaxWallTimeMs = 2 ^ 50"

datatype FailureReason = kWorkerFailed | kLeaseExpired

record JobEnqueued =
  je_id :: JobId
  je_queue :: bytes
  je_payload :: bytes
  je_priority :: int
  je_run_at :: WallTime
  je_max_attempts :: u32
  je_backoff_base_ms :: u32
  je_backoff_cap_ms :: u32
  je_idem_key :: bytes
  je_idem_expires_at :: WallTime
  je_at :: WallTime

record JobLeased =
  jl_id :: JobId
  jl_token :: LeaseToken
  jl_lease_expires_at :: WallTime
  jl_at :: WallTime

record LeaseExtended =
  le_id :: JobId
  le_token :: LeaseToken
  le_lease_expires_at :: WallTime
  le_at :: WallTime

record JobSucceeded =
  js_id :: JobId
  js_token :: LeaseToken
  js_at :: WallTime

record AttemptFailed =
  af_id :: JobId
  af_token :: LeaseToken
  af_reason :: FailureReason
  af_error :: bytes
  af_at :: WallTime
  af_dead :: bool
  af_retry_at :: WallTime

record JobCancelled =
  jc_id :: JobId
  jc_at :: WallTime

record DeadJobRetried =
  dr_id :: JobId
  dr_run_at :: WallTime
  dr_at :: WallTime

record JobsPurged =
  jp_ids :: "JobId list"

datatype Record =
    RJobEnqueued JobEnqueued
  | RJobLeased JobLeased
  | RLeaseExtended LeaseExtended
  | RJobSucceeded JobSucceeded
  | RAttemptFailed AttemptFailed
  | RJobCancelled JobCancelled
  | RDeadJobRetried DeadJobRetried
  | RJobsPurged JobsPurged

text \<open>The wire value of the \<^verbatim>\<open>RecordType\<close>: the index of the variant alternative plus one.\<close>

fun type_of :: "Record \<Rightarrow> byte" where
  "type_of (RJobEnqueued _) = 1"
| "type_of (RJobLeased _) = 2"
| "type_of (RLeaseExtended _) = 3"
| "type_of (RJobSucceeded _) = 4"
| "type_of (RAttemptFailed _) = 5"
| "type_of (RJobCancelled _) = 6"
| "type_of (RDeadJobRetried _) = 7"
| "type_of (RJobsPurged _) = 8"

section \<open>Encoding\<close>

definition kPayloadVersion :: byte where
  "kPayloadVersion = 1"

definition put_time :: "WallTime \<Rightarrow> bytes" where
  "put_time t = w_svarint t"

definition reason_byte :: "FailureReason \<Rightarrow> byte" where
  "reason_byte r = (case r of kWorkerFailed \<Rightarrow> 0 | kLeaseExpired \<Rightarrow> 1)"

fun encode_body :: "Record \<Rightarrow> bytes" where
  "encode_body (RJobEnqueued r) =
     w_varint (je_id r) @ w_bytes (je_queue r) @ w_bytes (je_payload r) @
     w_svarint (je_priority r) @ put_time (je_run_at r) @
     w_varint (ucast (je_max_attempts r)) @ w_varint (ucast (je_backoff_base_ms r)) @
     w_varint (ucast (je_backoff_cap_ms r)) @ w_bytes (je_idem_key r) @
     put_time (je_idem_expires_at r) @ put_time (je_at r)"
| "encode_body (RJobLeased r) =
     w_varint (jl_id r) @ w_varint (jl_token r) @ put_time (jl_lease_expires_at r) @
     put_time (jl_at r)"
| "encode_body (RLeaseExtended r) =
     w_varint (le_id r) @ w_varint (le_token r) @ put_time (le_lease_expires_at r) @
     put_time (le_at r)"
| "encode_body (RJobSucceeded r) =
     w_varint (js_id r) @ w_varint (js_token r) @ put_time (js_at r)"
| "encode_body (RAttemptFailed r) =
     w_varint (af_id r) @ w_varint (af_token r) @ w_u8 (reason_byte (af_reason r)) @
     w_bytes (af_error r) @ put_time (af_at r) @ w_u8 (if af_dead r then 1 else 0) @
     put_time (af_retry_at r)"
| "encode_body (RJobCancelled r) = w_varint (jc_id r) @ put_time (jc_at r)"
| "encode_body (RDeadJobRetried r) =
     w_varint (dr_id r) @ put_time (dr_run_at r) @ put_time (dr_at r)"
| "encode_body (RJobsPurged r) =
     w_varint (of_nat (length (jp_ids r))) @ concat (map w_varint (jp_ids r))"

definition encode_record :: "Record \<Rightarrow> bytes" where
  "encode_record r = w_u8 kPayloadVersion @ encode_body r"

section \<open>Decoding\<close>

text \<open>
  A decoder runs over the reader and the \<^verbatim>\<open>in_range\<close> flag that the narrowing reads
  clear.
\<close>

type_synonym 'a decoder = "(Reader \<times> bool, 'a) state"

definition d_field :: "(Reader \<Rightarrow> 'a \<times> Reader) \<Rightarrow> 'a decoder" where
  "d_field rd = State (\<lambda>(r, g). let (v, r') = rd r in (v, (r', g)))"

definition d_remaining :: "nat decoder" where
  "d_remaining = State (\<lambda>(r, g). (remaining r, (r, g)))"

definition get_time :: "WallTime decoder" where
  "get_time = State (\<lambda>(r, g). let (ms, r') = r_svarint r in
     (ms, (r', g \<and> \<not> (ms < 0 \<or> ms > kMaxWallTimeMs))))"

definition get_u32 :: "u32 decoder" where
  "get_u32 = State (\<lambda>(r, g). let (v, r') = r_varint r in
     (ucast v, (r', g \<and> \<not> v > 0xFFFFFFFF)))"

definition get_i32 :: "int decoder" where
  "get_i32 = State (\<lambda>(r, g). let (v, r') = r_svarint r in
     (sint (word_of_int v :: u32), (r', g \<and> \<not> (v < - (2 ^ 31) \<or> v > 2 ^ 31 - 1))))"

primrec d_ids :: "nat \<Rightarrow> JobId list decoder" where
  "d_ids 0 = State_Monad.return []"
| "d_ids (Suc n) = do {
     i \<leftarrow> d_field r_varint;
     rest \<leftarrow> d_ids n;
     State_Monad.return (i # rest)
   }"

definition bad_record :: "byte \<Rightarrow> string \<Rightarrow> Error" where
  "bad_record type what =
     mk_error kCorruption [FS ''record type '', FU (unat type), FS '': '', FS what]"

definition decode_JobEnqueued :: "Record decoder" where
  "decode_JobEnqueued = do {
     v_id \<leftarrow> d_field r_varint;
     v_queue \<leftarrow> d_field r_bytes;
     v_payload \<leftarrow> d_field r_bytes;
     v_priority \<leftarrow> get_i32;
     v_run_at \<leftarrow> get_time;
     v_max_attempts \<leftarrow> get_u32;
     v_base \<leftarrow> get_u32;
     v_cap \<leftarrow> get_u32;
     v_key \<leftarrow> d_field r_bytes;
     v_expires \<leftarrow> get_time;
     v_at \<leftarrow> get_time;
     State_Monad.return (RJobEnqueued \<lparr>je_id = v_id, je_queue = v_queue, je_payload = v_payload,
       je_priority = v_priority, je_run_at = v_run_at, je_max_attempts = v_max_attempts,
       je_backoff_base_ms = v_base, je_backoff_cap_ms = v_cap, je_idem_key = v_key,
       je_idem_expires_at = v_expires, je_at = v_at\<rparr>)
   }"

definition decode_JobLeased :: "Record decoder" where
  "decode_JobLeased = do {
     v_id \<leftarrow> d_field r_varint;
     v_token \<leftarrow> d_field r_varint;
     v_expires \<leftarrow> get_time;
     v_at \<leftarrow> get_time;
     State_Monad.return (RJobLeased \<lparr>jl_id = v_id, jl_token = v_token,
       jl_lease_expires_at = v_expires, jl_at = v_at\<rparr>)
   }"

definition decode_LeaseExtended :: "Record decoder" where
  "decode_LeaseExtended = do {
     v_id \<leftarrow> d_field r_varint;
     v_token \<leftarrow> d_field r_varint;
     v_expires \<leftarrow> get_time;
     v_at \<leftarrow> get_time;
     State_Monad.return (RLeaseExtended \<lparr>le_id = v_id, le_token = v_token,
       le_lease_expires_at = v_expires, le_at = v_at\<rparr>)
   }"

definition decode_JobSucceeded :: "Record decoder" where
  "decode_JobSucceeded = do {
     v_id \<leftarrow> d_field r_varint;
     v_token \<leftarrow> d_field r_varint;
     v_at \<leftarrow> get_time;
     State_Monad.return (RJobSucceeded \<lparr>js_id = v_id, js_token = v_token, js_at = v_at\<rparr>)
   }"

definition decode_AttemptFailed :: "byte \<Rightarrow> (Record Result) decoder" where
  "decode_AttemptFailed type = do {
     v_id \<leftarrow> d_field r_varint;
     v_token \<leftarrow> d_field r_varint;
     reason \<leftarrow> d_field r_u8;
     if reason > 1 then State_Monad.return (Inl (bad_record type ''unknown failure reason''))
     else do {
       v_error \<leftarrow> d_field r_bytes;
       v_at \<leftarrow> get_time;
       dead \<leftarrow> d_field r_u8;
       if dead > 1 then State_Monad.return (Inl (bad_record type ''invalid outcome''))
       else do {
         v_retry_at \<leftarrow> get_time;
         State_Monad.return (Inr (RAttemptFailed \<lparr>af_id = v_id, af_token = v_token,
           af_reason = (if reason = 0 then kWorkerFailed else kLeaseExpired),
           af_error = v_error, af_at = v_at, af_dead = (dead = 1), af_retry_at = v_retry_at\<rparr>))
       }
     }
   }"

definition decode_JobCancelled :: "Record decoder" where
  "decode_JobCancelled = do {
     v_id \<leftarrow> d_field r_varint;
     v_at \<leftarrow> get_time;
     State_Monad.return (RJobCancelled \<lparr>jc_id = v_id, jc_at = v_at\<rparr>)
   }"

definition decode_DeadJobRetried :: "Record decoder" where
  "decode_DeadJobRetried = do {
     v_id \<leftarrow> d_field r_varint;
     v_run_at \<leftarrow> get_time;
     v_at \<leftarrow> get_time;
     State_Monad.return (RDeadJobRetried \<lparr>dr_id = v_id, dr_run_at = v_run_at, dr_at = v_at\<rparr>)
   }"

definition decode_JobsPurged :: "byte \<Rightarrow> (Record Result) decoder" where
  "decode_JobsPurged type = do {
     count \<leftarrow> d_field r_varint;
     left \<leftarrow> d_remaining;
     if unat count > left
     then State_Monad.return (Inl (bad_record type ''id count exceeds payload''))
     else do {
       v_ids \<leftarrow> d_ids (unat count);
       State_Monad.return (Inr (RJobsPurged \<lparr>jp_ids = v_ids\<rparr>))
     }
   }"

definition lift_ok :: "'a decoder \<Rightarrow> ('a Result) decoder" where
  "lift_ok d = do { v \<leftarrow> d; State_Monad.return (Inr v) }"

text \<open>The switch over the type; \<open>None\<close> is its default branch.\<close>

definition decode_switch :: "byte \<Rightarrow> (Record Result) decoder option" where
  "decode_switch type =
     (if type = 1 then Some (lift_ok decode_JobEnqueued)
      else if type = 2 then Some (lift_ok decode_JobLeased)
      else if type = 3 then Some (lift_ok decode_LeaseExtended)
      else if type = 4 then Some (lift_ok decode_JobSucceeded)
      else if type = 5 then Some (decode_AttemptFailed type)
      else if type = 6 then Some (lift_ok decode_JobCancelled)
      else if type = 7 then Some (lift_ok decode_DeadJobRetried)
      else if type = 8 then Some (decode_JobsPurged type)
      else None)"

definition decode_record :: "byte \<Rightarrow> bytes \<Rightarrow> Record Result" where
  "decode_record type payload =
     (let (version, r0) = r_u8 (mk_reader payload) in
      if version \<noteq> kPayloadVersion \<or> \<not> rok r0
      then Inl (bad_record type ''unknown payload version'')
      else case decode_switch type of
        None \<Rightarrow> Inl (bad_record type ''unknown record type'')
      | Some d \<Rightarrow>
          (case run_state d (r0, True) of (result, (r, in_range)) \<Rightarrow>
             case result of
               Inl e \<Rightarrow> Inl e
             | Inr rec \<Rightarrow>
                 if \<not> rok r then Inl (bad_record type ''truncated payload'')
                 else if \<not> in_range then Inl (bad_record type ''field out of range'')
                 else if \<not> at_end r then Inl (bad_record type ''trailing bytes'')
                 else Inr rec))"

section \<open>Records whose fields are in range\<close>

definition time_in_range :: "WallTime \<Rightarrow> bool" where
  "time_in_range t \<longleftrightarrow> 0 \<le> t \<and> t \<le> kMaxWallTimeMs"

definition in_i32 :: "int \<Rightarrow> bool" where
  "in_i32 v \<longleftrightarrow> - (2 ^ 31) \<le> v \<and> v \<le> 2 ^ 31 - 1"

text \<open>A byte string has a \<^verbatim>\<open>size_t\<close> length.\<close>

definition size_ok :: "'a list \<Rightarrow> bool" where
  "size_ok v \<longleftrightarrow> length v < 2 ^ 64"

fun record_ok :: "Record \<Rightarrow> bool" where
  "record_ok (RJobEnqueued r) \<longleftrightarrow> size_ok (je_queue r) \<and> size_ok (je_payload r) \<and>
     size_ok (je_idem_key r) \<and> in_i32 (je_priority r) \<and> time_in_range (je_run_at r) \<and>
     time_in_range (je_idem_expires_at r) \<and> time_in_range (je_at r)"
| "record_ok (RJobLeased r) \<longleftrightarrow> time_in_range (jl_lease_expires_at r) \<and> time_in_range (jl_at r)"
| "record_ok (RLeaseExtended r) \<longleftrightarrow> time_in_range (le_lease_expires_at r) \<and> time_in_range (le_at r)"
| "record_ok (RJobSucceeded r) \<longleftrightarrow> time_in_range (js_at r)"
| "record_ok (RAttemptFailed r) \<longleftrightarrow> size_ok (af_error r) \<and> time_in_range (af_at r) \<and>
     time_in_range (af_retry_at r)"
| "record_ok (RJobCancelled r) \<longleftrightarrow> time_in_range (jc_at r)"
| "record_ok (RDeadJobRetried r) \<longleftrightarrow> time_in_range (dr_run_at r) \<and> time_in_range (dr_at r)"
| "record_ok (RJobsPurged r) \<longleftrightarrow> size_ok (jp_ids r)"

section \<open>Round trip\<close>

lemma run_d_field [simp]:
  "run_state (d_field rd) (r, g) = (fst (rd r), (snd (rd r), g))"
  by (simp add: d_field_def split_def Let_def)

lemma run_d_remaining [simp]: "run_state d_remaining (r, g) = (remaining r, (r, g))"
  by (simp add: d_remaining_def)

lemma get_time_w [codec_simps]:
  "time_in_range t \<Longrightarrow> run_state get_time (\<lparr>rin = put_time t @ rest, rok = True\<rparr>, g) =
     (t, (\<lparr>rin = rest, rok = True\<rparr>, g))"
  by (simp add: get_time_def put_time_def r_svarint_w time_in_range_def kMaxWallTimeMs_def)

lemma unat_less_32: "unat (v :: u32) < 2 ^ 32"
  using unsigned_less [of v] by simp

lemma get_u32_w [codec_simps]:
  "run_state get_u32 (\<lparr>rin = w_varint (ucast v) @ rest, rok = True\<rparr>, g) =
     (v, (\<lparr>rin = rest, rok = True\<rparr>, g))"
proof -
  have "\<not> (0xFFFFFFFF :: u64) < ucast v"
    using unat_less_32 [of v]
    by (simp add: word_less_nat_alt unsigned_ucast_eq take_bit_nat_eq_self)
  moreover have "ucast (ucast v :: u64) = v"
    by (rule bit_word_eqI) (simp add: bit_simps)
  ultimately show ?thesis
    by (simp add: get_u32_def r_varint_w)
qed

lemma get_i32_w [codec_simps]:
  "in_i32 v \<Longrightarrow> run_state get_i32 (\<lparr>rin = w_svarint v @ rest, rok = True\<rparr>, g) =
     (v, (\<lparr>rin = rest, rok = True\<rparr>, g))"
  by (simp add: get_i32_def in_i32_def r_svarint_w signed_take_bit_int_eq_self sint_sbintrunc')

lemma d_ids_w [codec_simps]:
  "run_state (d_ids (length ids)) (\<lparr>rin = concat (map w_varint ids) @ rest, rok = True\<rparr>, g) =
     (ids, (\<lparr>rin = rest, rok = True\<rparr>, g))"
  by (induction ids) (simp_all add: r_varint_w)

lemma length_w_varint: "1 \<le> length (w_varint v)"
  by (subst w_varint.simps) simp

lemma length_concat_varint: "length ids \<le> length (concat (map w_varint ids))"
proof (induction ids)
  case (Cons a ids)
  then show ?case
    using length_w_varint [of a] by simp
qed simp

lemmas codec_end_simps = codec_simps codec_simps [where rest = "[]", simplified]

text \<open>The decoder succeeds exactly when its branch consumes the whole body in range.\<close>

lemma decode_record_Inr_iff:
  "decode_record type payload = Inr rec \<longleftrightarrow>
     (\<exists>body d. payload = kPayloadVersion # body \<and> decode_switch type = Some d \<and>
        run_state d (\<lparr>rin = body, rok = True\<rparr>, True) =
          (Inr rec, (\<lparr>rin = [], rok = True\<rparr>, True)))"
  by (cases payload)
    (auto simp: decode_record_def mk_reader_def r_u8_def need_def r_fail_def remaining_def
      remove_prefix_def at_end_def
      split: option.splits sum.splits prod.splits if_splits)

lemma run_decode_switch:
  assumes "record_ok r"
  shows "\<exists>d. decode_switch (type_of r) = Some d \<and>
    run_state d (\<lparr>rin = encode_body r, rok = True\<rparr>, True) =
      (Inr r, (\<lparr>rin = [], rok = True\<rparr>, True))"
proof (cases r)
  case (RAttemptFailed x)
  then show ?thesis
    using assms
    by (cases "af_reason x")
      (simp_all add: decode_switch_def decode_AttemptFailed_def codec_end_simps size_ok_def
        reason_byte_def)
next
  case (RJobsPurged x)
  then show ?thesis
    using assms length_concat_varint [of "jp_ids x"] d_ids_w [of "jp_ids x" "[]" True]
    by (simp add: decode_switch_def decode_JobsPurged_def r_varint_w size_ok_def
        unat_of_nat remaining_def)
qed (use assms in \<open>simp_all add: decode_switch_def lift_ok_def
       decode_JobEnqueued_def decode_JobLeased_def decode_LeaseExtended_def
       decode_JobSucceeded_def decode_JobCancelled_def decode_DeadJobRetried_def
       codec_end_simps size_ok_def\<close>)

lemma decode_encode:
  "record_ok r \<Longrightarrow> decode_record (type_of r) (encode_record r) = Inr r"
  using run_decode_switch [of r] by (auto simp: decode_record_Inr_iff encode_record_def w_u8_def)

section \<open>Strictness\<close>

text \<open>
  Everything the decoder accepts is in range and carries the type it was decoded
  as, whatever bytes it was given.
\<close>

lemma size_ok_r_bytes: "size_ok (fst (r_bytes r))"
  using unsigned_less [of "fst (r_varint r)"]
  by (auto simp: r_bytes_def r_raw_def size_ok_def split_def Let_def)

lemma length_d_ids: "length (fst (run_state (d_ids n) s)) = n"
proof (induction n arbitrary: s)
  case (Suc n)
  then show ?case by (cases s) (simp add: split_def)
qed simp

lemma size_ok_d_ids: "size_ok (fst (run_state (d_ids (unat (c :: u64))) s))"
  using unsigned_less [of c] by (simp add: size_ok_def length_d_ids)

lemma in_i32_sint: "in_i32 (sint (v :: u32))"
  using sint_greater_eq [of v] sint_less [of v] by (simp add: in_i32_def)

lemma decode_record_strict:
  assumes "decode_record type payload = Inr rec"
  shows "record_ok rec \<and> type_of rec = type"
proof -
  obtain body d where d: "decode_switch type = Some d"
    and run: "run_state d (\<lparr>rin = body, rok = True\<rparr>, True) = (Inr rec, (\<lparr>rin = [], rok = True\<rparr>, True))"
    using assms by (auto simp: decode_record_Inr_iff)
  show ?thesis
    using d run
    by (auto simp: decode_switch_def lift_ok_def decode_JobEnqueued_def decode_JobLeased_def
        decode_LeaseExtended_def decode_JobSucceeded_def decode_AttemptFailed_def
        decode_JobCancelled_def decode_DeadJobRetried_def decode_JobsPurged_def
        split_def Let_def get_time_def get_u32_def get_i32_def time_in_range_def in_i32_sint
        size_ok_r_bytes size_ok_d_ids split: if_splits)
qed

section \<open>Properties\<close>

text \<open>
  C14: a record whose times lie in \<open>[0, kMaxWallTimeMs]\<close>, whose priority is an
  \<^verbatim>\<open>int32_t\<close> and whose byte strings have a \<^verbatim>\<open>size_t\<close> length is decoded back to itself from
  its own encoding, under its own type byte.
\<close>
theorem record_round_trip:
  assumes "record_ok r"
  shows "decode_record (type_of r) (encode_record r) = Inr r"
  using assms by (rule decode_encode)

theorem record_round_trip_witness:
  "let r = RAttemptFailed \<lparr>af_id = 300, af_token = 7, af_reason = kLeaseExpired,
       af_error = str ''lease expired'', af_at = 1000, af_dead = False, af_retry_at = 2500\<rparr>
   in record_ok r \<and> decode_record 5 (encode_record r) = Inr r"
  using record_round_trip [of "RAttemptFailed \<lparr>af_id = 300, af_token = 7,
       af_reason = kLeaseExpired, af_error = str ''lease expired'', af_at = 1000,
       af_dead = False, af_retry_at = 2500\<rparr>"]
  by (simp add: size_ok_def str_def time_in_range_def kMaxWallTimeMs_def)

end
