(* ===== verification/TimingWheel.thy ===== *)
theory TimingWheel
  imports Prelude
begin

text \<open>
  \<^verbatim>\<open>sched/timing_wheel.h\<close> and \<^verbatim>\<open>sched/timing_wheel.cpp\<close>: the hashed hierarchical timing
  wheel, with its slab of nodes linked by index, its occupancy bitmaps and its
  generation-checked handles. Ticks and bitmaps are 64-bit words and generations are
  32-bit words, so both wrap as in the code; slab indices, list numbers, levels and slots
  are natural numbers, bounded by the slab check and by the constants below. The loops of
  \<^verbatim>\<open>advance\<close> follow the links of the slab and are partial functions, where not returning
  is \<open>None\<close>.
\<close>

section \<open>Data\<close>

definition kLevels :: nat where "kLevels = 6"
definition kSlotBits :: nat where "kSlotBits = 6"
definition kSlotsPerLevel :: nat where "kSlotsPerLevel = 64"
definition kSpan :: u64 where "kSpan = push_bit (kLevels * kSlotBits) 1"
definition kNil :: nat where "kNil = 4294967295"
definition kDueList :: nat where "kDueList = kLevels * kSlotsPerLevel"
definition kFree :: nat where "kFree = kDueList + 1"
definition kTopLevel :: nat where "kTopLevel = kLevels - 1"
definition kSlotMask :: u64 where "kSlotMask = 63"

record TimerHandle =
  th_index :: nat
  th_generation :: u32

definition no_timer :: TimerHandle where
  "no_timer = \<lparr>th_index = kNil, th_generation = 0\<rparr>"

definition valid_handle :: "TimerHandle \<Rightarrow> bool" where
  "valid_handle h \<longleftrightarrow> th_index h \<noteq> kNil"

record TimerEvent =
  te_handle :: TimerHandle
  te_deadline :: u64
  te_id :: u64
  te_kind :: byte

record Node =
  n_deadline :: u64
  n_id :: u64
  n_prev :: nat
  n_next :: nat
  n_generation :: u32
  n_list :: nat
  n_kind :: byte

definition fresh_node :: Node where
  "fresh_node = \<lparr>n_deadline = 0, n_id = 0, n_prev = kNil, n_next = kNil, n_generation = 0,
     n_list = kFree, n_kind = 0\<rparr>"

record Expiration =
  ex_level :: nat
  ex_slot :: nat
  ex_deadline :: u64

record Wheel =
  tw_now :: u64
  tw_size :: nat
  tw_nodes :: "Node list"
  tw_free_head :: nat
  tw_heads :: "nat list"
  tw_occupied :: "u64 list"

definition mk_wheel :: "u64 \<Rightarrow> Wheel" where
  "mk_wheel now = \<lparr>tw_now = now, tw_size = 0, tw_nodes = [], tw_free_head = kNil,
     tw_heads = replicate (kDueList + 1) kNil, tw_occupied = replicate kLevels 0\<rparr>"

definition shift_of :: "nat \<Rightarrow> nat" where
  "shift_of level = level * kSlotBits"

definition slot_width :: "nat \<Rightarrow> u64" where
  "slot_width level = push_bit (shift_of level) 1"

text \<open>\<^verbatim>\<open>std::countl_zero\<close> and \<^verbatim>\<open>std::countr_zero\<close> on 64-bit values.\<close>

definition countl_zero :: "u64 \<Rightarrow> nat" where
  "countl_zero v = length (takeWhile (\<lambda>n. \<not> bit v (63 - n)) [0..<64])"

definition countr_zero :: "u64 \<Rightarrow> nat" where
  "countr_zero v = length (takeWhile (\<lambda>n. \<not> bit v n) [0..<64])"

section \<open>Slab and lists\<close>

definition upd_node :: "nat \<Rightarrow> (Node \<Rightarrow> Node) \<Rightarrow> Wheel \<Rightarrow> Wheel" where
  "upd_node i f w = w\<lparr>tw_nodes := (tw_nodes w)[i := f (tw_nodes w ! i)]\<rparr>"

definition set_head :: "nat \<Rightarrow> nat \<Rightarrow> Wheel \<Rightarrow> Wheel" where
  "set_head l i w = w\<lparr>tw_heads := (tw_heads w)[l := i]\<rparr>"

definition upd_occupied :: "nat \<Rightarrow> (u64 \<Rightarrow> u64) \<Rightarrow> Wheel \<Rightarrow> Wheel" where
  "upd_occupied level f w =
     w\<lparr>tw_occupied := (tw_occupied w)[level := f (tw_occupied w ! level)]\<rparr>"

definition slot_bit :: "nat \<Rightarrow> u64" where
  "slot_bit l = push_bit (l mod kSlotsPerLevel) 1"

definition allocate :: "Wheel \<Rightarrow> (nat \<times> Wheel) option" where
  "allocate w =
     (if tw_free_head w \<noteq> kNil then
        let index = tw_free_head w in
        Some (index, w\<lparr>tw_free_head := n_next (tw_nodes w ! index)\<rparr>)
      else do {
        baton_check (length (tw_nodes w) < kNil);
        Some (length (tw_nodes w), w\<lparr>tw_nodes := tw_nodes w @ [fresh_node]\<rparr>)
      })"

definition release :: "nat \<Rightarrow> Wheel \<Rightarrow> Wheel" where
  "release index w =
     (upd_node index (\<lambda>n. n\<lparr>n_generation := n_generation n + 1, n_list := kFree,
        n_prev := kNil, n_next := tw_free_head w\<rparr>) w)\<lparr>tw_free_head := index\<rparr>"

definition link :: "nat \<Rightarrow> nat \<Rightarrow> Wheel \<Rightarrow> Wheel" where
  "link index list w =
     (let w1 = upd_node index (\<lambda>n. n\<lparr>n_list := list, n_prev := kNil,
                 n_next := tw_heads w ! list\<rparr>) w;
          next = n_next (tw_nodes w1 ! index);
          w2 = (if next \<noteq> kNil then upd_node next (\<lambda>n. n\<lparr>n_prev := index\<rparr>) w1 else w1);
          w3 = set_head list index w2
      in if list < kDueList
         then upd_occupied (list div kSlotsPerLevel) (\<lambda>b. b OR slot_bit list) w3
         else w3)"

definition unlink :: "nat \<Rightarrow> Wheel \<Rightarrow> Wheel" where
  "unlink index w =
     (let node = tw_nodes w ! index;
          w1 = (if n_prev node \<noteq> kNil
                then upd_node (n_prev node) (\<lambda>n. n\<lparr>n_next := n_next node\<rparr>) w
                else set_head (n_list node) (n_next node) w);
          node1 = tw_nodes w1 ! index;
          w2 = (if n_next node1 \<noteq> kNil
                then upd_node (n_next node1) (\<lambda>n. n\<lparr>n_prev := n_prev node1\<rparr>) w1
                else w1);
          node2 = tw_nodes w2 ! index
      in if tw_heads w2 ! n_list node2 = kNil \<and> n_list node2 < kDueList
         then upd_occupied (n_list node2 div kSlotsPerLevel)
                (\<lambda>b. b AND NOT (slot_bit (n_list node2))) w2
         else w2)"

text \<open>The level, the slot and so the list for a deadline that lies in the future.\<close>

definition place_target :: "u64 \<Rightarrow> u64 \<Rightarrow> u64" where
  "place_target now deadline =
     (if deadline - now \<ge> kSpan then now + kSpan - slot_width kTopLevel else deadline)"

definition place_level :: "u64 \<Rightarrow> u64 \<Rightarrow> nat" where
  "place_level now target =
     (let differing = (now XOR target) OR kSlotMask;
          highest_bit = 63 - countl_zero differing
      in min (highest_bit div kSlotBits) kTopLevel)"

definition place_slot :: "nat \<Rightarrow> u64 \<Rightarrow> nat" where
  "place_slot level target = unat (drop_bit (shift_of level) target AND kSlotMask)"

definition place :: "nat \<Rightarrow> Wheel \<Rightarrow> Wheel" where
  "place index w =
     (let deadline = n_deadline (tw_nodes w ! index) in
      if deadline \<le> tw_now w then link index kDueList w
      else
        let target = place_target (tw_now w) deadline;
            level = place_level (tw_now w) target;
            slot = place_slot level target
        in link index (level * kSlotsPerLevel + slot) w)"

section \<open>The public operations\<close>

definition schedule :: "u64 \<Rightarrow> byte \<Rightarrow> u64 \<Rightarrow> Wheel \<Rightarrow> (TimerHandle \<times> Wheel) option" where
  "schedule deadline kind i w = do {
     (index, w1) \<leftarrow> allocate w;
     let w2 = upd_node index (\<lambda>n. n\<lparr>n_deadline := deadline, n_id := i, n_kind := kind\<rparr>) w1;
     let w3 = place index w2;
     let w4 = w3\<lparr>tw_size := tw_size w3 + 1\<rparr>;
     Some (\<lparr>th_index = index, th_generation = n_generation (tw_nodes w4 ! index)\<rparr>, w4)
   }"

definition cancel :: "TimerHandle \<Rightarrow> Wheel \<Rightarrow> bool \<times> Wheel" where
  "cancel handle w =
     (if th_index handle \<ge> length (tw_nodes w) then (False, w)
      else
        let node = tw_nodes w ! th_index handle in
        if n_list node = kFree \<or> n_generation node \<noteq> th_generation handle then (False, w)
        else
          let w1 = release (th_index handle) (unlink (th_index handle) w)
          in (True, w1\<lparr>tw_size := tw_size w1 - 1\<rparr>))"

definition node_event :: "Wheel \<Rightarrow> nat \<Rightarrow> TimerEvent" where
  "node_event w index =
     (let node = tw_nodes w ! index in
      \<lparr>te_handle = \<lparr>th_index = index, th_generation = n_generation node\<rparr>,
       te_deadline = n_deadline node, te_id = n_id node, te_kind = n_kind node\<rparr>)"

definition fire :: "nat \<Rightarrow> Wheel \<times> TimerEvent list \<Rightarrow> Wheel \<times> TimerEvent list" where
  "fire index ws =
     (let (w, fired) = ws; w1 = release index w
      in (w1\<lparr>tw_size := tw_size w1 - 1\<rparr>, fired @ [node_event w index]))"

definition level_expiration :: "Wheel \<Rightarrow> nat \<Rightarrow> Expiration" where
  "level_expiration w level =
     (let occupied = tw_occupied w ! level;
          now_slot = unat (drop_bit (shift_of level) (tw_now w) AND kSlotMask);
          first = (now_slot + 1) mod kSlotsPerLevel;
          distance = countr_zero (word_rotr first occupied);
          slot = (first + distance) mod kSlotsPerLevel;
          rotation = push_bit kSlotBits (slot_width level);
          rotation_start = tw_now w AND NOT (rotation - 1);
          deadline = rotation_start + of_nat slot * slot_width level
      in \<lparr>ex_level = level, ex_slot = slot,
          ex_deadline = (if deadline \<le> tw_now w then deadline + rotation else deadline)\<rparr>)"

definition better :: "Wheel \<Rightarrow> Expiration option \<Rightarrow> nat \<Rightarrow> Expiration option" where
  "better w best level =
     (if tw_occupied w ! level = 0 then best
      else
        let e = level_expiration w level in
        case best of
          None \<Rightarrow> Some e
        | Some b \<Rightarrow> if ex_deadline e < ex_deadline b then Some e else best)"

definition next_expiration :: "Wheel \<Rightarrow> Expiration option" where
  "next_expiration w = foldl (better w) None [0..<kLevels]"

partial_function (option) drain_due ::
  "Wheel \<times> TimerEvent list \<Rightarrow> (Wheel \<times> TimerEvent list) option" where
  "drain_due ws =
     (if tw_heads (fst ws) ! kDueList \<noteq> kNil then
        let index = tw_heads (fst ws) ! kDueList
        in drain_due (fire index (unlink index (fst ws), snd ws))
      else Some ws)"

partial_function (option) drain_slot ::
  "nat \<Rightarrow> Wheel \<times> TimerEvent list \<Rightarrow> (Wheel \<times> TimerEvent list) option" where
  "drain_slot index ws =
     (if index \<noteq> kNil then
        let node = tw_nodes (fst ws) ! index;
            following = n_next node
        in drain_slot following
             (if n_deadline node \<le> tw_now (fst ws) then fire index ws
              else (place index (fst ws), snd ws))
      else Some ws)"

text \<open>One turn of the main loop of \<^verbatim>\<open>advance\<close>: detach the slot of \<open>e\<close> and empty it.\<close>

definition detach_slot :: "Expiration \<Rightarrow> Wheel \<Rightarrow> nat \<times> Wheel" where
  "detach_slot e w =
     (let w1 = w\<lparr>tw_now := ex_deadline e\<rparr>;
          list = ex_level e * kSlotsPerLevel + ex_slot e;
          index = tw_heads w1 ! list;
          w2 = set_head list kNil w1
      in (index, upd_occupied (ex_level e) (\<lambda>b. b AND NOT (push_bit (ex_slot e) 1)) w2))"

partial_function (option) advance_loop ::
  "u64 \<Rightarrow> Wheel \<times> TimerEvent list \<Rightarrow> (Wheel \<times> TimerEvent list) option" where
  "advance_loop now ws =
     (case next_expiration (fst ws) of
        None \<Rightarrow> Some ws
      | Some e \<Rightarrow>
          if ex_deadline e > now then Some ws
          else
            let (index, w1) = detach_slot e (fst ws) in
            (case drain_slot index (w1, snd ws) of
               None \<Rightarrow> None
             | Some ws1 \<Rightarrow> advance_loop now ws1))"

definition advance :: "u64 \<Rightarrow> Wheel \<Rightarrow> (Wheel \<times> TimerEvent list) option" where
  "advance now w =
     (case drain_due (w, []) of
        None \<Rightarrow> None
      | Some ws \<Rightarrow>
          if now \<le> tw_now (fst ws) then Some ws
          else
            (case advance_loop now ws of
               None \<Rightarrow> None
             | Some ws1 \<Rightarrow> Some ((fst ws1)\<lparr>tw_now := now\<rparr>, snd ws1)))"

definition next_wakeup :: "Wheel \<Rightarrow> u64 option" where
  "next_wakeup w =
     (if tw_heads w ! kDueList \<noteq> kNil then Some (tw_now w)
      else map_option ex_deadline (next_expiration w))"

end
