(* ===== verification/Job.thy ===== *)
theory Job
  imports Records TimingWheel
begin

text \<open>
  \<^verbatim>\<open>state/job.h\<close> and \<^verbatim>\<open>state/shared_bytes.h\<close>: the job model. A \<^verbatim>\<open>Job*\<close> is the job's id, a
  \<^verbatim>\<open>Queue*\<close> is the queue's name, a payload is its bytes. The two owned strings of a job
  carry their allocated capacity, which the memory estimate reads.
\<close>

datatype JobState = kScheduled | kReady | kLeased | kSucceeded | kDead | kCancelled

fun to_string_state :: "JobState \<Rightarrow> string" where
  "to_string_state kScheduled = ''scheduled''"
| "to_string_state kReady = ''ready''"
| "to_string_state kLeased = ''leased''"
| "to_string_state kSucceeded = ''succeeded''"
| "to_string_state kDead = ''dead''"
| "to_string_state kCancelled = ''cancelled''"

definition is_pending :: "JobState \<Rightarrow> bool" where
  "is_pending s \<longleftrightarrow> s = kScheduled \<or> s = kReady"

definition is_terminal :: "JobState \<Rightarrow> bool" where
  "is_terminal s \<longleftrightarrow> s = kSucceeded \<or> s = kDead \<or> s = kCancelled"

definition holds_token :: "JobState \<Rightarrow> bool" where
  "holds_token s \<longleftrightarrow> s = kLeased \<or> s = kSucceeded"

definition kNotInHeap :: nat where
  "kNotInHeap = 4294967295"

record Job =
  j_id :: JobId
  j_queue :: bytes
  j_payload :: bytes
  j_priority :: int
  j_attempts :: u32
  j_max_attempts :: u32
  j_backoff_base_ms :: u32
  j_backoff_cap_ms :: u32
  j_state :: JobState
  j_run_at :: WallTime
  j_created_at :: WallTime
  j_finished_at :: WallTime
  j_lease_expires_at :: WallTime
  j_lease_token :: LeaseToken
  j_idem_key :: bytes
  j_idem_key_capacity :: nat
  j_last_error :: bytes
  j_last_error_capacity :: nat
  j_heap_index :: nat
  j_timer :: TimerHandle

type_synonym Jobs = "JobId \<rightharpoonup> Job"

text \<open>\<^verbatim>\<open>SharedBytes::allocated_bytes\<close>.\<close>

definition allocated_bytes :: "bytes \<Rightarrow> u64" where
  "allocated_bytes data = (if data = [] then 0 else of_nat (length data) + 32)"

text \<open>\<^verbatim>\<open>static_cast<uint32_t>\<close> of a size.\<close>

definition cast_u32 :: "nat \<Rightarrow> nat" where
  "cast_u32 n = n mod 4294967296"

lemma is_pending_simps [simp]:
  "is_pending kScheduled" "is_pending kReady" "\<not> is_pending kLeased" "\<not> is_pending kSucceeded"
  "\<not> is_pending kDead" "\<not> is_pending kCancelled"
  by (simp_all add: is_pending_def)

lemma is_terminal_simps [simp]:
  "\<not> is_terminal kScheduled" "\<not> is_terminal kReady" "\<not> is_terminal kLeased" "is_terminal kSucceeded"
  "is_terminal kDead" "is_terminal kCancelled"
  by (simp_all add: is_terminal_def)

lemma holds_token_simps [simp]:
  "\<not> holds_token kScheduled" "\<not> holds_token kReady" "holds_token kLeased" "holds_token kSucceeded"
  "\<not> holds_token kDead" "\<not> holds_token kCancelled"
  by (simp_all add: holds_token_def)

lemma cast_u32_small [simp]: "n < kNotInHeap \<Longrightarrow> cast_u32 n = n"
  by (simp add: cast_u32_def kNotInHeap_def)

end
