(* ===== verification/ReadyHeap.thy ===== *)
theory ReadyHeap
  imports Job
begin

text \<open>
  \<^verbatim>\<open>state/ready_heap.h\<close> and \<^verbatim>\<open>state/ready_heap.cpp\<close>: the indexed binary heap of one queue. The
  vector holds job ids and every operation also updates \<^verbatim>\<open>Job::heap_index\<close> in the map of
  jobs. It is proved that push and remove keep the heap property and the stored indexes,
  change the contents by exactly one job, never abort on a consistent heap, and that the
  front of the vector runs before every other job.
\<close>

section \<open>The code\<close>

definition before :: "Job \<Rightarrow> Job \<Rightarrow> bool" where
  "before a b =
     (if j_priority a \<noteq> j_priority b then j_priority a > j_priority b
      else if j_run_at a \<noteq> j_run_at b then j_run_at a < j_run_at b
      else j_id a < j_id b)"

type_synonym Heap = "JobId list"

definition heap_top :: "Heap \<Rightarrow> JobId option" where
  "heap_top h = (if h = [] then None else Some (hd h))"

definition deref :: "Jobs \<Rightarrow> JobId \<Rightarrow> Job" where
  "deref js p = the (js p)"

definition upd_job :: "JobId \<Rightarrow> (Job \<Rightarrow> Job) \<Rightarrow> Jobs \<Rightarrow> Jobs" where
  "upd_job p f js = js(p \<mapsto> f (deref js p))"

definition heap_place :: "nat \<Rightarrow> JobId \<Rightarrow> Jobs \<times> Heap \<Rightarrow> Jobs \<times> Heap" where
  "heap_place index p s =
     (upd_job p (\<lambda>j. j\<lparr>j_heap_index := cast_u32 index\<rparr>) (fst s), (snd s)[index := p])"

function sift_up_from :: "JobId \<Rightarrow> nat \<Rightarrow> Jobs \<times> Heap \<Rightarrow> Jobs \<times> Heap" where
  "sift_up_from job index s =
     (if index > 0 then
        let parent = (index - 1) div 2 in
        if \<not> before (deref (fst s) job) (deref (fst s) (snd s ! parent))
        then heap_place index job s
        else sift_up_from job parent (heap_place index (snd s ! parent) s)
      else heap_place index job s)"
  by pat_completeness auto
termination
  by (relation "measure (\<lambda>(job, index, s). index)") auto

definition sift_up :: "nat \<Rightarrow> Jobs \<times> Heap \<Rightarrow> Jobs \<times> Heap" where
  "sift_up index s = sift_up_from (snd s ! index) index s"

function sift_down_from :: "JobId \<Rightarrow> nat \<Rightarrow> Jobs \<times> Heap \<Rightarrow> Jobs \<times> Heap" where
  "sift_down_from job index s =
     (let child0 = 2 * index + 1 in
      if child0 \<ge> length (snd s) then heap_place index job s
      else
        let child = (if child0 + 1 < length (snd s) \<and>
                        before (deref (fst s) (snd s ! (child0 + 1))) (deref (fst s) (snd s ! child0))
                     then child0 + 1 else child0)
        in if \<not> before (deref (fst s) (snd s ! child)) (deref (fst s) job)
           then heap_place index job s
           else sift_down_from job child (heap_place index (snd s ! child) s))"
  by pat_completeness auto
termination
  by (relation "measure (\<lambda>(job, index, s). length (snd s) - index)")
    (auto simp: heap_place_def split: if_splits)

definition sift_down :: "nat \<Rightarrow> Jobs \<times> Heap \<Rightarrow> Jobs \<times> Heap" where
  "sift_down index s = sift_down_from (snd s ! index) index s"

declare sift_up_from.simps [simp del] sift_down_from.simps [simp del]

definition heap_push :: "JobId \<Rightarrow> Jobs \<times> Heap \<Rightarrow> (Jobs \<times> Heap) option" where
  "heap_push job s = do {
     baton_check (j_heap_index (deref (fst s) job) = kNotInHeap);
     baton_check (length (snd s) < kNotInHeap);
     let h = snd s @ [job];
     let js = upd_job job (\<lambda>j. j\<lparr>j_heap_index := cast_u32 (length h - 1)\<rparr>) (fst s);
     Some (sift_up (length h - 1) (js, h))
   }"

definition heap_remove :: "JobId \<Rightarrow> Jobs \<times> Heap \<Rightarrow> (Jobs \<times> Heap) option" where
  "heap_remove job s =
     (let index = j_heap_index (deref (fst s) job) in do {
       baton_check (index < length (snd s));
       baton_check (snd s ! index = job);
       let js = upd_job job (\<lambda>j. j\<lparr>j_heap_index := kNotInHeap\<rparr>) (fst s);
       let last_job = last (snd s);
       let h = butlast (snd s);
       if last_job = job then Some (js, h)
       else
         let s1 = sift_up index (heap_place index last_job (js, h))
         in Some (sift_down (j_heap_index (deref (fst s1) last_job)) s1)
     })"

definition is_consistent :: "Jobs \<Rightarrow> Heap \<Rightarrow> bool" where
  "is_consistent js h \<longleftrightarrow>
     (\<forall>i\<in>{0..<length h}. j_heap_index (deref js (h ! i)) = i \<and>
        (i > 0 \<longrightarrow> \<not> before (deref js (h ! i)) (deref js (h ! ((i - 1) div 2)))))"

section \<open>Heaps over a strict weak order\<close>

text \<open>The two sifting loops on a plain list, with a swap for each move of the hole.\<close>

definition par :: "nat \<Rightarrow> nat" where
  "par i = (i - 1) div 2"

definition swap :: "'a list \<Rightarrow> nat \<Rightarrow> nat \<Rightarrow> 'a list" where
  "swap xs i j = xs[i := xs ! j, j := xs ! i]"

definition is_heap :: "('a \<Rightarrow> 'a \<Rightarrow> bool) \<Rightarrow> 'a list \<Rightarrow> bool" where
  "is_heap lt xs \<longleftrightarrow> (\<forall>i. 0 < i \<and> i < length xs \<longrightarrow> \<not> lt (xs ! i) (xs ! par i))"

function up :: "('a \<Rightarrow> 'a \<Rightarrow> bool) \<Rightarrow> 'a list \<Rightarrow> nat \<Rightarrow> 'a list" where
  "up lt xs i = (if 0 < i \<and> lt (xs ! i) (xs ! par i) then up lt (swap xs i (par i)) (par i) else xs)"
  by pat_completeness auto
termination
  by (relation "measure (\<lambda>(lt, xs, i). i)") (auto simp: par_def)

definition child :: "('a \<Rightarrow> 'a \<Rightarrow> bool) \<Rightarrow> 'a list \<Rightarrow> nat \<Rightarrow> nat" where
  "child lt xs i =
     (if 2 * i + 2 < length xs \<and> lt (xs ! (2 * i + 2)) (xs ! (2 * i + 1)) then 2 * i + 2 else 2 * i + 1)"

function down :: "('a \<Rightarrow> 'a \<Rightarrow> bool) \<Rightarrow> 'a list \<Rightarrow> nat \<Rightarrow> 'a list" where
  "down lt xs i =
     (if 2 * i + 1 < length xs \<and> lt (xs ! child lt xs i) (xs ! i)
      then down lt (swap xs i (child lt xs i)) (child lt xs i) else xs)"
  by pat_completeness auto
termination
  by (relation "measure (\<lambda>(lt, xs, i). length xs - i)") (auto simp: swap_def child_def)

declare up.simps [simp del] down.simps [simp del]

lemma length_swap [simp]: "length (swap xs i j) = length xs"
  by (simp add: swap_def)

lemma nth_swap:
  "i < length xs \<Longrightarrow> j < length xs \<Longrightarrow>
   swap xs i j ! k = (if k = j then xs ! i else if k = i then xs ! j else xs ! k)"
  by (auto simp: swap_def nth_upd)

lemma set_swap_eq: "i < length xs \<Longrightarrow> j < length xs \<Longrightarrow> set (swap xs i j) = set xs"
  by (simp add: swap_def set_swap)

lemma distinct_swap_eq: "i < length xs \<Longrightarrow> j < length xs \<Longrightarrow> distinct (swap xs i j) = distinct xs"
  by (simp add: swap_def distinct_swap)

lemma par_less: "0 < i \<Longrightarrow> par i < i"
  by (auto simp: par_def)

lemma par_child: "par j = i \<and> 0 < j \<longleftrightarrow> j = 2 * i + 1 \<or> j = 2 * i + 2"
  by (auto simp: par_def)

text \<open>Heaps in which only the element at \<open>i\<close> may be too small, too large, or either.\<close>

definition heap_up :: "('a \<Rightarrow> 'a \<Rightarrow> bool) \<Rightarrow> 'a list \<Rightarrow> nat \<Rightarrow> bool" where
  "heap_up lt xs i \<longleftrightarrow>
     (\<forall>j. 0 < j \<and> j < length xs \<and> j \<noteq> i \<longrightarrow> \<not> lt (xs ! j) (xs ! par j)) \<and>
     (\<forall>j. 0 < j \<and> j < length xs \<and> par j = i \<and> 0 < i \<longrightarrow> \<not> lt (xs ! j) (xs ! par i))"

definition heap_down :: "('a \<Rightarrow> 'a \<Rightarrow> bool) \<Rightarrow> 'a list \<Rightarrow> nat \<Rightarrow> bool" where
  "heap_down lt xs i \<longleftrightarrow>
     (\<forall>j. 0 < j \<and> j < length xs \<and> par j \<noteq> i \<longrightarrow> \<not> lt (xs ! j) (xs ! par j)) \<and>
     (\<forall>j. 0 < j \<and> j < length xs \<and> par j = i \<and> 0 < i \<longrightarrow> \<not> lt (xs ! j) (xs ! par i))"

definition heap_hole :: "('a \<Rightarrow> 'a \<Rightarrow> bool) \<Rightarrow> 'a list \<Rightarrow> nat \<Rightarrow> bool" where
  "heap_hole lt xs i \<longleftrightarrow>
     (\<forall>j. 0 < j \<and> j < length xs \<and> j \<noteq> i \<and> par j \<noteq> i \<longrightarrow> \<not> lt (xs ! j) (xs ! par j)) \<and>
     (\<forall>j. 0 < j \<and> j < length xs \<and> par j = i \<and> 0 < i \<longrightarrow> \<not> lt (xs ! j) (xs ! par i))"

locale strict_weak_order =
  fixes lt :: "'a \<Rightarrow> 'a \<Rightarrow> bool"
  assumes asym: "lt x y \<Longrightarrow> \<not> lt y x"
    and neg_trans: "\<not> lt x y \<Longrightarrow> \<not> lt y z \<Longrightarrow> \<not> lt x z"
begin

lemma irrefl: "\<not> lt x x"
  using asym by blast

lemma lt_trans: "lt x y \<Longrightarrow> lt y z \<Longrightarrow> lt x z"
  using asym neg_trans by blast

lemma heap_hole_up: "heap_hole lt xs i \<Longrightarrow> lt (xs ! i) (xs ! par i) \<Longrightarrow> 0 < i \<Longrightarrow> heap_up lt xs i"
  unfolding heap_hole_def heap_up_def using lt_trans by metis

lemma heap_hole_down: "heap_hole lt xs i \<Longrightarrow> i = 0 \<or> \<not> lt (xs ! i) (xs ! par i) \<Longrightarrow> heap_down lt xs i"
  unfolding heap_hole_def heap_down_def by (metis less_irrefl)

lemma swap_up:
  assumes h: "heap_up lt xs i" and i: "i < length xs" "0 < i" and l: "lt (xs ! i) (xs ! par i)"
  shows "heap_up lt (swap xs i (par i)) (par i)"
proof -
  let ?p = "par i" and ?ys = "swap xs i (par i)"
  have p: "?p < i" "?p < length xs" using par_less [OF i(2)] i by simp_all
  note ys = nth_swap [OF i(1) p(2)]
  have h1: "\<And>j. 0 < j \<Longrightarrow> j < length xs \<Longrightarrow> j \<noteq> i \<Longrightarrow> \<not> lt (xs ! j) (xs ! par j)"
    and h2: "\<And>j. 0 < j \<Longrightarrow> j < length xs \<Longrightarrow> par j = i \<Longrightarrow> \<not> lt (xs ! j) (xs ! ?p)"
    using h i(2) by (auto simp: heap_up_def)
  have ok: "\<not> lt (?ys ! j) (?ys ! par j)" if j: "0 < j" "j < length xs" "j \<noteq> ?p" for j
  proof (cases "j = i")
    case True
    then show ?thesis using ys p asym [OF l] by simp
  next
    case False
    consider "par j = i" | "par j = ?p" | "par j \<noteq> i" "par j \<noteq> ?p" by blast
    then show ?thesis
    proof cases
      case 1
      then show ?thesis using ys p h2 [OF j(1,2)] False j(3) by simp
    next
      case 2
      then show ?thesis using ys p h1 [OF j(1,2) False] False j(3) l lt_trans by simp blast
    next
      case 3
      then show ?thesis using ys p h1 [OF j(1,2) False] False j(3) by simp
    qed
  qed
  have "\<not> lt (?ys ! j) (?ys ! par ?p)" if j: "0 < j" "j < length xs" "par j = ?p" "0 < ?p" for j
  proof -
    have pp: "par ?p < ?p" using par_less j(4) by blast
    have jp: "j \<noteq> ?p" using par_less [OF j(1)] j(3) by simp
    have gp: "\<not> lt (xs ! ?p) (xs ! par ?p)" using h1 [OF j(4) p(2)] p(1) by simp
    show ?thesis
    proof (cases "j = i")
      case True
      then show ?thesis using ys pp p gp by simp
    next
      case False
      have "\<not> lt (xs ! j) (xs ! ?p)" using h1 [OF j(1,2) False] j(3) by simp
      then have "\<not> lt (xs ! j) (xs ! par ?p)" using gp neg_trans by blast
      then show ?thesis using ys pp p False jp by simp
    qed
  qed
  then show ?thesis using ok by (simp add: heap_up_def)
qed

lemma up_correct:
  assumes "heap_up lt xs i" and "i < length xs"
  shows "is_heap lt (up lt xs i)"
  using assms
proof (induction i arbitrary: xs rule: less_induct)
  case (less i)
  show ?case
  proof (cases "0 < i \<and> lt (xs ! i) (xs ! par i)")
    case True
    then have "heap_up lt (swap xs i (par i)) (par i)" using swap_up less.prems by blast
    then show ?thesis
      using less.IH [of "par i" "swap xs i (par i)"] par_less [of i] less.prems(2) True
      by (subst up.simps) simp
  next
    case False
    then have "is_heap lt xs" using less.prems(1) by (auto simp: is_heap_def heap_up_def)
    then show ?thesis using False by (subst up.simps) auto
  qed
qed

lemma child_facts:
  assumes "2 * i + 1 < length xs"
  shows "child lt xs i < length xs" and "par (child lt xs i) = i" and "0 < child lt xs i"
    and "\<And>j. 0 < j \<Longrightarrow> j < length xs \<Longrightarrow> par j = i \<Longrightarrow> \<not> lt (xs ! j) (xs ! child lt xs i)"
proof -
  show "child lt xs i < length xs" "par (child lt xs i) = i" "0 < child lt xs i"
    using assms by (auto simp: child_def par_def)
  show "\<not> lt (xs ! j) (xs ! child lt xs i)" if "0 < j" "j < length xs" "par j = i" for j
    using that par_child [of j i] asym irrefl by (auto simp: child_def)
qed

lemma swap_down:
  assumes h: "heap_down lt xs i" and i: "2 * i + 1 < length xs" and l: "lt (xs ! child lt xs i) (xs ! i)"
  shows "heap_down lt (swap xs i (child lt xs i)) (child lt xs i)"
proof -
  let ?c = "child lt xs i" and ?ys = "swap xs i (child lt xs i)"
  note c = child_facts [OF i]
  have ic: "i < ?c" "i < length xs" using par_less [OF c(3)] c(1,2) by simp_all
  note ys = nth_swap [OF ic(2) c(1)]
  have h1: "\<And>j. 0 < j \<Longrightarrow> j < length xs \<Longrightarrow> par j \<noteq> i \<Longrightarrow> \<not> lt (xs ! j) (xs ! par j)"
    and h2: "\<And>j. 0 < j \<Longrightarrow> j < length xs \<Longrightarrow> par j = i \<Longrightarrow> 0 < i \<Longrightarrow> \<not> lt (xs ! j) (xs ! par i)"
    using h by (auto simp: heap_down_def)
  have ok: "\<not> lt (?ys ! j) (?ys ! par j)" if j: "0 < j" "j < length xs" "par j \<noteq> ?c" for j
  proof -
    have pj: "par j < j" by (rule par_less [OF j(1)])
    consider "j = i" | "j = ?c" | "j \<noteq> i" "j \<noteq> ?c" "par j = i" | "j \<noteq> i" "j \<noteq> ?c" "par j \<noteq> i" by blast
    then show ?thesis
    proof cases
      case 1
      then show ?thesis using ys ic h2 [OF c(3,1,2)] j pj by simp
    next
      case 2
      then show ?thesis using ys ic c(2) asym [OF l] by simp
    next
      case 3
      then show ?thesis using ys ic c(4) [OF j(1,2)] by simp
    next
      case 4
      then show ?thesis using ys ic h1 [OF j(1,2)] j(3) by simp
    qed
  qed
  have "\<not> lt (?ys ! j) (?ys ! par ?c)" if j: "0 < j" "j < length xs" "par j = ?c" for j
  proof -
    have "j \<noteq> i" "j \<noteq> ?c" using par_less [OF j(1)] j(3) ic(1) by simp_all
    moreover have "\<not> lt (xs ! j) (xs ! ?c)" using h1 [OF j(1,2)] j(3) ic(1) by simp
    ultimately show ?thesis using ys c(2) ic by simp
  qed
  then show ?thesis using ok by (simp add: heap_down_def)
qed

lemma heap_down_heap:
  assumes h: "heap_down lt xs i" and stop: "\<not> (2 * i + 1 < length xs \<and> lt (xs ! child lt xs i) (xs ! i))"
  shows "is_heap lt xs"
  unfolding is_heap_def
proof (intro allI impI)
  fix j assume j: "0 < j \<and> j < length xs"
  show "\<not> lt (xs ! j) (xs ! par j)"
  proof (cases "par j = i")
    case True
    then have i: "2 * i + 1 < length xs" using j par_child [of j i] by auto
    then have "\<not> lt (xs ! child lt xs i) (xs ! i)" using stop by blast
    moreover have "\<not> lt (xs ! j) (xs ! child lt xs i)" using child_facts(4) [OF i] j True by blast
    ultimately show ?thesis using True neg_trans by blast
  qed (use h j in \<open>auto simp: heap_down_def\<close>)
qed

lemma down_correct:
  assumes "heap_down lt xs i"
  shows "is_heap lt (down lt xs i)"
  using assms
proof (induction "length xs - i" arbitrary: xs i rule: less_induct)
  case less
  show ?case
  proof (cases "2 * i + 1 < length xs \<and> lt (xs ! child lt xs i) (xs ! i)")
    case True
    then have "heap_down lt (swap xs i (child lt xs i)) (child lt xs i)" using swap_down less.prems by blast
    moreover have "length xs - child lt xs i < length xs - i" using True by (auto simp: child_def)
    ultimately show ?thesis using less.hyps True by (subst down.simps) simp
  next
    case False
    then show ?thesis using heap_down_heap less.prems by (subst down.simps) auto
  qed
qed

lemma down_heap: "is_heap lt xs \<Longrightarrow> down lt xs i = xs"
  using child_facts(1-3) [of i xs] by (subst down.simps) (auto simp: is_heap_def)

lemma heap_front:
  assumes "is_heap lt xs" and "i < length xs"
  shows "\<not> lt (xs ! i) (xs ! 0)"
  using assms(2)
proof (induction i rule: less_induct)
  case (less i)
  show ?case
  proof (cases "i = 0")
    case False
    then have "\<not> lt (xs ! i) (xs ! par i)" "\<not> lt (xs ! par i) (xs ! 0)"
      using assms(1) less par_less [of i] by (auto simp: is_heap_def)
    then show ?thesis using neg_trans by blast
  qed (simp add: irrefl)
qed

end

interpretation job_order: strict_weak_order before
proof unfold_locales
  fix x y z :: Job
  show "before x y \<Longrightarrow> \<not> before y x"
    by (cases "j_priority x = j_priority y"; cases "j_run_at x = j_run_at y") (auto simp: before_def)
  show "\<not> before x y \<Longrightarrow> \<not> before y z \<Longrightarrow> \<not> before x z"
    by (cases "j_priority x = j_priority y"; cases "j_priority y = j_priority z";
        cases "j_run_at x = j_run_at y"; cases "j_run_at y = j_run_at z") (simp_all add: before_def)
qed

section \<open>The code refines the list version\<close>

text \<open>The jobs without their heap positions, and the order of two jobs given by id.\<close>

definition no_index :: "Jobs \<Rightarrow> Jobs" where
  "no_index js = (\<lambda>q. map_option (\<lambda>j. j\<lparr>j_heap_index := 0\<rparr>) (js q))"

definition bef :: "Jobs \<Rightarrow> JobId \<Rightarrow> JobId \<Rightarrow> bool" where
  "bef js p q \<longleftrightarrow> before (deref js p) (deref js q)"

interpretation bef: strict_weak_order "bef js" for js
  by unfold_locales (auto simp: bef_def dest: job_order.asym job_order.neg_trans)

definition indexed :: "Jobs \<Rightarrow> Heap \<Rightarrow> bool" where
  "indexed js h \<longleftrightarrow> (\<forall>k<length h. j_heap_index (deref js (h ! k)) = k)"

lemma no_index_dom: "no_index js' = no_index js \<Longrightarrow> dom js' = dom js"
  by (auto simp: no_index_def fun_eq_iff dom_def) (metis map_option_is_None not_None_eq)+

lemma no_index_fields:
  assumes "no_index js' = no_index js" and "js p = Some j"
  shows "\<exists>n. js' p = Some (j\<lparr>j_heap_index := n\<rparr>)"
proof -
  have "map_option (\<lambda>j. j\<lparr>j_heap_index := 0\<rparr>) (js' p) = Some (j\<lparr>j_heap_index := 0\<rparr>)"
    using fun_cong [OF assms(1), of p] assms(2) by (simp add: no_index_def)
  then obtain j' where j': "js' p = Some j'" "j'\<lparr>j_heap_index := 0\<rparr> = j\<lparr>j_heap_index := 0\<rparr>" by auto
  have "j' = (j'\<lparr>j_heap_index := 0\<rparr>)\<lparr>j_heap_index := j_heap_index j'\<rparr>" by simp
  also have "\<dots> = j\<lparr>j_heap_index := j_heap_index j'\<rparr>" unfolding j'(2) by simp
  finally have "j' = j\<lparr>j_heap_index := j_heap_index j'\<rparr>" .
  then show ?thesis unfolding j'(1) by (intro exI [of _ "j_heap_index j'"]) (rule arg_cong)
qed

lemma before_reindex [simp]:
  "before (a\<lparr>j_heap_index := n\<rparr>) b = before a b" "before a (b\<lparr>j_heap_index := n\<rparr>) = before a b"
  by (simp_all add: before_def)

lemma bef_reindex:
  assumes "no_index js' = no_index js"
  shows "bef js' = bef js"
proof (intro ext)
  fix p q
  have "\<exists>n. deref js' p = (deref js p)\<lparr>j_heap_index := n\<rparr> \<or> deref js' p = deref js p" for p
  proof (cases "js p")
    case None
    then have "js' p = None" using no_index_dom [OF assms] by blast
    then show ?thesis using None by (simp add: deref_def)
  next
    case (Some j)
    then show ?thesis using no_index_fields [OF assms Some] by (auto simp: deref_def)
  qed
  then show "bef js' p q = bef js p q"
    unfolding bef_def by (metis before_reindex)
qed

lemma heap_place_facts:
  assumes "q \<in> dom js" and "index < kNotInHeap" and "heap_place index q (js, h) = (js', h')"
  shows "h' = h[index := q]" and "no_index js' = no_index js"
    and "j_heap_index (deref js' q) = index" and "\<And>r. r \<noteq> q \<Longrightarrow> js' r = js r"
proof -
  have eq: "js' = js(q \<mapsto> (deref js q)\<lparr>j_heap_index := index\<rparr>)" "h' = h[index := q]"
    using assms(2,3) by (auto simp: heap_place_def upd_job_def)
  show "h' = h[index := q]" "j_heap_index (deref js' q) = index" "\<And>r. r \<noteq> q \<Longrightarrow> js' r = js r"
    by (simp_all add: eq deref_def)
  show "no_index js' = no_index js"
    unfolding eq using assms(1) by (auto simp: no_index_def deref_def fun_eq_iff)
qed

definition reindexed :: "Jobs \<Rightarrow> JobId set \<Rightarrow> Jobs \<times> Heap \<Rightarrow> JobId list \<Rightarrow> bool" where
  "reindexed js X r h' \<longleftrightarrow> snd r = h' \<and> no_index (fst r) = no_index js \<and> indexed (fst r) h' \<and>
     (\<forall>q. q \<notin> X \<longrightarrow> fst r q = js q)"

text \<open>One move of the hole: \<open>v\<close> is the heap with the travelling job in the hole.\<close>

lemma hole_move:
  assumes v: "v = h[i := job]" and i: "i < length h" and k: "k < length h" "k \<noteq> i"
    and dist: "distinct v" and sub: "set v \<subseteq> dom js" and len: "length h \<le> kNotInHeap"
    and idx: "\<And>m. m < length h \<Longrightarrow> m \<noteq> i \<Longrightarrow> j_heap_index (deref js (v ! m)) = m"
    and place: "heap_place i (h ! k) (js, h) = (js1, h1)"
  shows "h1[k := job] = swap v i k" and "length h1 = length h" and "no_index js1 = no_index js"
    and "\<And>m. m < length h \<Longrightarrow> m \<noteq> k \<Longrightarrow> j_heap_index (deref js1 (swap v i k ! m)) = m"
    and "\<And>r. r \<notin> set v \<Longrightarrow> js1 r = js r"
proof -
  have hk: "h ! k = v ! k" "v ! i = job" and lv: "length v = length h" using v i k by simp_all
  have mem: "h ! k \<in> dom js" using sub k hk v by (metis length_list_update nth_mem subsetD)
  have il: "i < kNotInHeap" using i len by simp
  note pf = heap_place_facts [OF mem il place]
  show "h1[k := job] = swap v i k" using pf(1) hk v by (simp add: swap_def)
  show "length h1 = length h" "no_index js1 = no_index js" using pf by simp_all
  show "js1 r = js r" if "r \<notin> set v" for r
    using pf(4) [of r] that hk k v by (metis length_list_update nth_mem)
  show "j_heap_index (deref js1 (swap v i k ! m)) = m" if m: "m < length h" "m \<noteq> k" for m
  proof (cases "m = i")
    case True
    then show ?thesis using pf(3) hk k i lv by (simp add: nth_swap)
  next
    case False
    then have "v ! m \<noteq> v ! k" using dist m k lv by (simp add: nth_eq_iff_index_eq)
    then show ?thesis using idx [OF m(1) False] pf(4) hk(1) False m i k lv by (simp add: nth_swap deref_def)
  qed
qed

lemma place_final:
  assumes v: "v = h[i := job]" and i: "i < length h" and dist: "distinct v" and sub: "set v \<subseteq> dom js"
    and len: "length h \<le> kNotInHeap"
    and idx: "\<And>m. m < length h \<Longrightarrow> m \<noteq> i \<Longrightarrow> j_heap_index (deref js (v ! m)) = m"
  shows "reindexed js (set v) (heap_place i job (js, h)) v"
proof -
  obtain js1 h1 where p: "heap_place i job (js, h) = (js1, h1)" by (metis surj_pair)
  have vi: "v ! i = job" "job \<in> set v" using v i by (auto simp: set_update_memI)
  have mem: "job \<in> dom js" using sub vi by blast
  note pf = heap_place_facts [OF mem _ p]
  have "j_heap_index (deref js1 (v ! m)) = m" if m: "m < length h" for m
  proof (cases "m = i")
    case True
    then show ?thesis using pf(3) vi i len by simp
  next
    case False
    then have "v ! m \<noteq> job" using dist m i v vi by (metis length_list_update nth_eq_iff_index_eq)
    then show ?thesis using idx [OF m False] pf(4) i len by (simp add: deref_def)
  qed
  moreover have "length v = length h" using v by simp
  moreover have "js1 q = js q" if "q \<notin> set v" for q using pf(4) that vi(2) i len by fastforce
  ultimately show ?thesis
    using p pf(1,2) v i len by (simp add: reindexed_def indexed_def)
qed

lemma sift_up_from_correct:
  assumes "v = h[i := job]" and "i < length h" and "distinct v" and "set v \<subseteq> dom js"
    and "length h \<le> kNotInHeap"
    and "\<And>m. m < length h \<Longrightarrow> m \<noteq> i \<Longrightarrow> j_heap_index (deref js (v ! m)) = m"
  shows "reindexed js (set v) (sift_up_from job i (js, h)) (up (bef js) v i)"
  using assms
proof (induction i arbitrary: v h js rule: less_induct)
  case (less i)
  note v = less.prems(1) and i = less.prems(2) and dist = less.prems(3) and sub = less.prems(4)
    and len = less.prems(5) and idx = less.prems(6)
  have vi: "v ! i = job" using v i by simp
  show ?case
  proof (cases "0 < i \<and> bef js job (h ! par i)")
    case True
    have k: "par i < length h" "par i \<noteq> i" "par i < i" using par_less [of i] True i by auto
    have hk: "h ! par i = v ! par i" using v k by simp
    obtain js1 h1 where p: "heap_place i (h ! par i) (js, h) = (js1, h1)" by (metis surj_pair)
    note hm = hole_move [OF v i k(1,2) dist sub len idx p]
    have ih: "reindexed js1 (set (swap v i (par i))) (sift_up_from job (par i) (js1, h1))
        (up (bef js1) (swap v i (par i)) (par i))"
      by (rule less.IH [OF k(3)])
        (use hm k i v dist sub len no_index_dom [OF hm(3)] in \<open>simp_all add: set_swap_eq distinct_swap_eq\<close>)
    have "sift_up_from job i (js, h) = sift_up_from job (par i) (js1, h1)"
      using True p by (subst sift_up_from.simps) (simp add: Let_def par_def bef_def)
    moreover have "up (bef js) v i = up (bef js1) (swap v i (par i)) (par i)"
      using True vi hk bef_reindex [OF hm(3)] by (subst up.simps) simp
    ultimately show ?thesis
      using ih hm(3,5) i k v by (auto simp: reindexed_def set_swap_eq)
  next
    case False
    have "sift_up_from job i (js, h) = heap_place i job (js, h)"
      using False by (subst sift_up_from.simps) (auto simp: Let_def par_def bef_def)
    moreover have "up (bef js) v i = v"
    proof -
      have "par i \<noteq> i" if "0 < i" using par_less [OF that] by simp
      then show ?thesis using False vi v by (subst up.simps) auto
    qed
    ultimately show ?thesis using place_final [OF v i dist sub len idx] by simp
  qed
qed

lemma sift_down_from_correct:
  assumes "v = h[i := job]" and "i < length h" and "distinct v" and "set v \<subseteq> dom js"
    and "length h \<le> kNotInHeap"
    and "\<And>m. m < length h \<Longrightarrow> m \<noteq> i \<Longrightarrow> j_heap_index (deref js (v ! m)) = m"
  shows "reindexed js (set v) (sift_down_from job i (js, h)) (down (bef js) v i)"
  using assms
proof (induction "length h - i" arbitrary: i v h js rule: less_induct)
  case less
  note v = less.prems(1) and i = less.prems(2) and dist = less.prems(3) and sub = less.prems(4)
    and len = less.prems(5) and idx = less.prems(6)
  have vi: "v ! i = job" and lv: "length v = length h" using v i by simp_all
  define c where "c = child (bef js) v i"
  have c_eq: "c = (if 2 * i + 1 + 1 < length h \<and>
      before (deref js (h ! (2 * i + 1 + 1))) (deref js (h ! (2 * i + 1))) then 2 * i + 1 + 1 else 2 * i + 1)"
    using v by (simp add: c_def child_def bef_def)
  show ?case
  proof (cases "2 * i + 1 < length h \<and> bef js (h ! c) job")
    case True
    have k: "c < length h" "c \<noteq> i" "i < c" using True by (auto simp: c_eq)
    have hk: "h ! c = v ! c" using v k by simp
    obtain js1 h1 where p: "heap_place i (h ! c) (js, h) = (js1, h1)" by (metis surj_pair)
    note hm = hole_move [OF v i k(1,2) dist sub len idx p]
    have ih: "reindexed js1 (set (swap v i c)) (sift_down_from job c (js1, h1)) (down (bef js1) (swap v i c) c)"
      by (rule less.hyps)
        (use hm k i v dist sub len no_index_dom [OF hm(3)] in \<open>simp_all add: set_swap_eq distinct_swap_eq\<close>)
    have "sift_down_from job i (js, h) = sift_down_from job c (js1, h1)"
      using True p by (subst sift_down_from.simps)
        (simp only: Let_def fst_conv snd_conv c_eq [symmetric], simp add: bef_def)
    moreover have "down (bef js) v i = down (bef js1) (swap v i c) c"
      using True vi hk lv bef_reindex [OF hm(3)] by (subst down.simps) (simp add: c_def [symmetric])
    ultimately show ?thesis
      using ih hm(3,5) i k v by (auto simp: reindexed_def set_swap_eq)
  next
    case False
    have "sift_down_from job i (js, h) = heap_place i job (js, h)"
      using False by (subst sift_down_from.simps)
        (simp only: Let_def fst_conv snd_conv c_eq [symmetric], simp add: bef_def)
    moreover have "down (bef js) v i = v"
    proof -
      have "c \<noteq> i" by (auto simp: c_eq)
      then have "v ! c = h ! c" using v by simp
      then show ?thesis using False vi lv by (subst down.simps) (auto simp: c_def [symmetric])
    qed
    ultimately show ?thesis using place_final [OF v i dist sub len idx] by simp
  qed
qed

section \<open>Push and remove\<close>

lemma up_perm:
  "i < length xs \<Longrightarrow> set (up lt xs i) = set xs \<and> distinct (up lt xs i) = distinct xs \<and>
     length (up lt xs i) = length xs"
proof (induction lt xs i rule: up.induct)
  case (1 lt xs i)
  have "par i < length xs" if "0 < i" using par_less [OF that] "1.prems" by simp
  then show ?case
    using "1.IH" "1.prems" by (subst (1 2 3) up.simps) (simp add: set_swap_eq distinct_swap_eq)
qed

lemma down_perm:
  "i < length xs \<Longrightarrow> set (down lt xs i) = set xs \<and> distinct (down lt xs i) = distinct xs \<and>
     length (down lt xs i) = length xs"
proof (induction lt xs i rule: down.induct)
  case (1 lt xs i)
  have "child lt xs i < length xs" if "2 * i + 1 < length xs" using that by (auto simp: child_def)
  then show ?case
    using "1.IH" "1.prems" by (subst (1 2 3) down.simps) (simp add: set_swap_eq distinct_swap_eq)
qed

definition heap_ok :: "Jobs \<Rightarrow> Heap \<Rightarrow> bool" where
  "heap_ok js h \<longleftrightarrow> distinct h \<and> set h \<subseteq> dom js \<and> length h \<le> kNotInHeap \<and> is_consistent js h"

lemma is_consistent_iff: "is_consistent js h \<longleftrightarrow> indexed js h \<and> is_heap (bef js) h"
  by (auto simp: is_consistent_def indexed_def is_heap_def bef_def par_def)

lemma heap_ok_reindexed:
  assumes r: "reindexed js X (js', h') h'" and h': "distinct h'" "set h' \<subseteq> dom js" "length h' \<le> kNotInHeap"
    and heap: "is_heap (bef js) h'"
  shows "heap_ok js' h'"
  using r h' heap no_index_dom [of js' js] bef_reindex [of js' js]
  by (simp add: heap_ok_def is_consistent_iff reindexed_def)

lemma is_heap_snoc:
  assumes "is_heap lt h"
  shows "heap_up lt (h @ [p]) (length h)"
  unfolding heap_up_def
proof (intro conjI allI impI)
  fix j assume j: "0 < j \<and> j < length (h @ [p]) \<and> j \<noteq> length h"
  then show "\<not> lt ((h @ [p]) ! j) ((h @ [p]) ! par j)"
    using assms par_less [of j] by (simp add: is_heap_def nth_append)
next
  fix j assume "0 < j \<and> j < length (h @ [p]) \<and> par j = length h \<and> 0 < length h"
  then show "\<not> lt ((h @ [p]) ! j) ((h @ [p]) ! par (length h))" using par_less [of j] by simp
qed

lemma is_heap_butlast:
  assumes "is_heap lt (g @ [l])"
  shows "is_heap lt g"
  unfolding is_heap_def
proof (intro allI impI)
  fix i assume i: "0 < i \<and> i < length g"
  then have "\<not> lt ((g @ [l]) ! i) ((g @ [l]) ! par i)" using assms by (simp add: is_heap_def)
  then show "\<not> lt (g ! i) (g ! par i)" using i par_less [of i] by (simp add: nth_append)
qed

context strict_weak_order
begin

lemma is_heap_hole:
  assumes h: "is_heap lt h" and i: "i < length h - 1"
  shows "heap_hole lt ((butlast h)[i := x]) i"
proof -
  have ok: "\<not> lt (h ! j) (h ! par j)" if "0 < j" "j < length h" for j using h that by (simp add: is_heap_def)
  have ys: "(butlast h)[i := x] ! j = h ! j" if "j < length h - 1" "j \<noteq> i" for j
    using that by (simp add: nth_butlast)
  show ?thesis
    unfolding heap_hole_def
  proof (intro conjI allI impI)
    fix j assume j: "0 < j \<and> j < length ((butlast h)[i := x]) \<and> j \<noteq> i \<and> par j \<noteq> i"
    then show "\<not> lt ((butlast h)[i := x] ! j) ((butlast h)[i := x] ! par j)"
      using ys [of j] ys [of "par j"] ok [of j] par_less [of j] by (cases "j < length h") auto
  next
    fix j assume j: "0 < j \<and> j < length ((butlast h)[i := x]) \<and> par j = i \<and> 0 < i"
    then have b: "0 < j" "j < length h" "0 < i" "i < length h" "par j = i" using i by auto
    have "\<not> lt (h ! j) (h ! i)" "\<not> lt (h ! i) (h ! par i)" using ok [OF b(1,2)] ok [OF b(3,4)] b(5) by auto
    then have "\<not> lt (h ! j) (h ! par i)" using neg_trans by blast
    then show "\<not> lt ((butlast h)[i := x] ! j) ((butlast h)[i := x] ! par i)"
      using j i ys [of j] ys [of "par i"] par_less [of j] par_less [of i] by simp
  qed
qed

text \<open>Sifting the filler of a hole up and then down, from where it went, repairs the heap.\<close>

lemma up_then_down:
  assumes h: "heap_hole lt xs i" and i: "i < length xs" and k: "up lt xs i ! k = xs ! i" "k < length xs" "distinct xs"
  shows "is_heap lt (down lt (up lt xs i) k)"
proof (cases "0 < i \<and> lt (xs ! i) (xs ! par i)")
  case True
  then have "is_heap lt (up lt xs i)" using up_correct [OF heap_hole_up [OF h]] i by blast
  then show ?thesis using down_heap by simp
next
  case False
  then have up: "up lt xs i = xs" by (subst up.simps) auto
  then have "k = i" using k i by (simp add: nth_eq_iff_index_eq)
  moreover have "heap_down lt xs i" using heap_hole_down [OF h] False by auto
  ultimately show ?thesis using down_correct up by simp
qed

end

lemma heap_push_correct:
  assumes ok: "heap_ok js h" and p: "p \<in> dom js" "j_heap_index (deref js p) = kNotInHeap"
    and room: "length h < kNotInHeap"
  shows "\<exists>js' h'. heap_push p (js, h) = Some (js', h') \<and> heap_ok js' h' \<and> set h' = insert p (set h) \<and>
    length h' = length h + 1 \<and> no_index js' = no_index js \<and> (\<forall>q. q \<notin> set h' \<longrightarrow> js' q = js q)"
proof -
  have d: "distinct h" "set h \<subseteq> dom js" "indexed js h" "is_heap (bef js) h"
    using ok by (auto simp: heap_ok_def is_consistent_iff)
  have np: "p \<notin> set h"
    using d(3) p(2) room by (auto simp: in_set_conv_nth indexed_def)
  define n v js1 where "n = length h" and "v = h @ [p]"
    and "js1 = upd_job p (\<lambda>j. j\<lparr>j_heap_index := cast_u32 n\<rparr>) js"
  have js1: "no_index js1 = no_index js" "dom js1 = dom js" "\<And>q. q \<noteq> p \<Longrightarrow> js1 q = js q"
    using p(1) by (auto simp: js1_def upd_job_def no_index_def deref_def fun_eq_iff)
  obtain js' h' where s: "sift_up n (js1, v) = (js', h')" by (metis surj_pair)
  have vn: "v ! n = p" "n < length v" "v[n := p] = v" by (simp_all add: v_def n_def)
  have "reindexed js1 (set v) (sift_up_from p n (js1, v)) (up (bef js1) v n)"
  proof (rule sift_up_from_correct)
    show "j_heap_index (deref js1 (v ! m)) = m" if "m < length v" "m \<noteq> n" for m
    proof -
      have m: "m < length h" using that by (simp add: v_def n_def)
      then have "h ! m \<noteq> p" using np nth_mem by metis
      then show ?thesis using m d(3) js1(3) [of "h ! m"] by (simp add: v_def nth_append indexed_def deref_def)
    qed
  qed (use vn d np p room js1(2) in \<open>auto simp: v_def n_def\<close>)
  then have r: "reindexed js1 (set v) (js', h') (up (bef js1) v n)" using s vn(1) by (simp add: sift_up_def)
  then have h': "h' = up (bef js) v n" using bef_reindex [OF js1(1)] by (simp add: reindexed_def)
  note pm = up_perm [OF vn(2), of "bef js", folded h']
  have "is_heap (bef js) h'"
    unfolding h' using bef.up_correct is_heap_snoc [OF d(4), of p] vn(2) by (simp add: v_def n_def)
  then have "heap_ok js' h'"
    using r h' bef_reindex [OF js1(1)] pm d np p room js1(2)
    by (intro heap_ok_reindexed [of js1 "set v"]) (auto simp: v_def)
  moreover have "heap_push p (js, h) = Some (js', h')"
    using p(2) room s by (simp add: heap_push_def Let_def js1_def n_def v_def)
  moreover have "js' q = js q" if "q \<notin> set h'" for q
    using that r js1(3) [of q] pm(1) by (auto simp: reindexed_def v_def)
  ultimately show ?thesis using r js1(1) pm by (auto simp: v_def reindexed_def)
qed

text \<open>The last job of the vector fills the hole and is sifted to its place.\<close>

lemma refill_correct:
  assumes i: "i < length v" and job: "v ! i = job" and v: "distinct v" "set v \<subseteq> dom js" "length v \<le> kNotInHeap"
    and idx: "indexed js v" and hole: "heap_hole (bef js) v i"
    and s1: "sift_up i (js, v) = s1"
    and s2: "sift_down (j_heap_index (deref (fst s1) job)) s1 = (js', h')"
  shows "heap_ok js' h'" and "set h' = set v" and "length h' = length v" and "no_index js' = no_index js"
    and "\<And>q. q \<notin> set v \<Longrightarrow> js' q = js q"
proof -
  obtain js3 h3 where s1': "s1 = (js3, h3)" by (metis surj_pair)
  have vi: "v = v[i := job]" using job by auto
  have "reindexed js (set v) (sift_up_from job i (js, v)) (up (bef js) v i)"
    by (rule sift_up_from_correct [OF vi i v]) (use idx in \<open>simp add: indexed_def\<close>)
  then have r1: "h3 = up (bef js) v i" "no_index js3 = no_index js" "indexed js3 h3" "\<And>q. q \<notin> set v \<Longrightarrow> js3 q = js q"
    using s1 s1' job by (auto simp: sift_up_def reindexed_def)
  note pm = up_perm [OF i, of "bef js", folded r1(1)]
  have b3: "bef js3 = bef js" by (rule bef_reindex [OF r1(2)])
  define k where "k = j_heap_index (deref js3 job)"
  have "job \<in> set h3" using pm nth_mem [OF i] job by simp
  then have k: "k < length h3" "h3 ! k = job" using r1(3) by (auto simp: in_set_conv_nth indexed_def k_def)
  then have hk: "h3 = h3[k := job]" by auto
  have "reindexed js3 (set h3) (sift_down_from job k (js3, h3)) (down (bef js3) h3 k)"
    by (rule sift_down_from_correct [OF hk k(1)])
      (use pm v no_index_dom [OF r1(2)] r1(3) in \<open>auto simp: indexed_def\<close>)
  then have r2: "reindexed js3 (set h3) (js', h') (down (bef js) h3 k)"
    using s2 s1' k b3 by (simp add: sift_down_def k_def)
  then have h': "h' = down (bef js) h3 k" by (simp add: reindexed_def)
  note pm2 = down_perm [OF k(1), of "bef js", folded h']
  have "is_heap (bef js) h'"
    unfolding h' r1(1) by (rule bef.up_then_down [OF hole i]) (use k r1(1) job pm v(1) in auto)
  then show "heap_ok js' h'"
    using r2 h' b3 pm pm2 v no_index_dom [OF r1(2)] by (intro heap_ok_reindexed [of js3 "set h3"]) auto
  show "set h' = set v" "length h' = length v" using pm pm2 by auto
  show "no_index js' = no_index js" using r2 r1(2) by (simp add: reindexed_def)
  show "js' q = js q" if "q \<notin> set v" for q using r2 r1(4) [OF that] pm that by (simp add: reindexed_def)
qed

lemma heap_remove_correct:
  assumes ok: "heap_ok js h" and p: "p \<in> set h"
  shows "\<exists>js' h'. heap_remove p (js, h) = Some (js', h') \<and> heap_ok js' h' \<and> set h' = set h - {p} \<and>
    length h' + 1 = length h \<and> no_index js' = no_index js \<and> (\<forall>q. q \<notin> set h \<longrightarrow> js' q = js q) \<and>
    j_heap_index (deref js' p) = kNotInHeap"
proof -
  obtain g l where h: "h = g @ [l]" using p by (cases h rule: rev_cases) auto
  have d: "distinct h" "set h \<subseteq> dom js" "indexed js h" "is_heap (bef js) h" "length h \<le> kNotInHeap"
    using ok by (auto simp: heap_ok_def is_consistent_iff)
  define n where "n = j_heap_index (deref js p)"
  have n: "n < length h" "h ! n = p" using d(3) p by (auto simp: in_set_conv_nth indexed_def n_def)
  define js1 where "js1 = upd_job p (\<lambda>j. j\<lparr>j_heap_index := kNotInHeap\<rparr>) js"
  have js1: "no_index js1 = no_index js" "dom js1 = dom js" "\<And>q. q \<noteq> p \<Longrightarrow> js1 q = js q"
    "j_heap_index (deref js1 p) = kNotInHeap"
    using p d(2) by (auto simp: js1_def upd_job_def no_index_def deref_def fun_eq_iff)
  show ?thesis
  proof (cases "l = p")
    case True
    have "j_heap_index (deref js1 (g ! k)) = k" if k: "k < length g" for k
    proof -
      have "g ! k \<noteq> p" using d(1) h True nth_mem [OF k] by auto
      moreover have "j_heap_index (deref js (h ! k)) = k" using d(3) h k by (simp add: indexed_def)
      ultimately show ?thesis using js1(3) h k by (simp add: deref_def nth_append)
    qed
    then have "indexed js1 g" by (simp add: indexed_def)
    moreover have "is_heap (bef js1) g"
      unfolding bef_reindex [OF js1(1)] by (rule is_heap_butlast [OF d(4) [unfolded h]])
    ultimately have "heap_ok js1 g" using d h js1(2) by (auto simp: heap_ok_def is_consistent_iff)
    moreover have "heap_remove p (js, h) = Some (js1, g)"
      using n h True by (simp add: heap_remove_def Let_def n_def [symmetric] js1_def)
    ultimately show ?thesis using js1 h True d(1) p by (intro exI [of _ js1] exI [of _ g]) auto
  next
    case False
    have ng: "n < length g" "g ! n = p" using n h False by (auto simp: nth_append less_Suc_eq)
    obtain js2 v where pl: "heap_place n l (js1, g) = (js2, v)" by (metis surj_pair)
    have "l \<in> dom js1" using d(2) h js1(2) by auto
    note pf = heap_place_facts [OF this _ pl]
    have nk: "n < kNotInHeap" using n d(5) by simp
    have v: "v = g[n := l]" "length v = length g" "distinct v" "set v = set h - {p}"
      using pf(1) nk d(1) h ng False by (auto simp: distinct_list_update set_update_distinct)
    have no2: "no_index js2 = no_index js" using pf(2) nk js1(1) by simp
    have idx: "indexed js2 v"
      unfolding indexed_def
    proof (intro allI impI)
      fix m assume m: "m < length v"
      show "j_heap_index (deref js2 (v ! m)) = m"
      proof (cases "m = n")
        case False
        have mg: "m < length g" "m < length h" using m v(2) h by simp_all
        have hm: "v ! m = h ! m" using v(1) False mg h by (simp add: nth_append)
        have "h ! m \<noteq> h ! n" using nth_eq_iff_index_eq [OF d(1) mg(2) n(1)] False by simp
        moreover have "h ! m \<noteq> h ! length g" using nth_eq_iff_index_eq [OF d(1) mg(2), of "length g"] mg(1) h by simp
        ultimately have vm: "v ! m \<noteq> p" "v ! m \<noteq> l" using hm n(2) h by simp_all
        have "j_heap_index (deref js (h ! m)) = m" using d(3) mg(2) by (simp add: indexed_def)
        then show ?thesis using pf(4) [OF nk vm(2)] js1(3) [OF vm(1)] hm by (simp add: deref_def)
      qed (use pf(3) nk v ng in simp)
    qed
    have hole: "heap_hole (bef js2) v n"
      using bef.is_heap_hole [OF d(4), of n l] h ng v(1) bef_reindex [OF no2] by simp
    obtain js' h' where s: "sift_down (j_heap_index (deref (fst (sift_up n (js2, v))) l)) (sift_up n (js2, v)) = (js', h')"
      by (metis surj_pair)
    have side: "n < length v" "v ! n = l" "set v \<subseteq> dom js2" "length v \<le> kNotInHeap"
      using v ng d(2,5) no_index_dom [OF no2] h by auto
    note rc' = refill_correct [OF side(1,2) v(3) side(3,4) idx hole refl s]
    have "heap_remove p (js, h) = Some (js', h')"
      using n h False pl s by (simp add: heap_remove_def Let_def n_def [symmetric] js1_def [symmetric])
    moreover have "js' q = js q" if "q \<notin> set h" for q
      using that rc'(5) [of q] pf(4) [OF nk, of q] js1(3) [of q] v(4) p h by auto
    moreover have "js' p = js1 p" using rc'(5) [of p] pf(4) [OF nk, of p] v(4) False by auto
    ultimately show ?thesis
      using rc' v no2 js1(4) h by (intro exI [of _ js'] exI [of _ h']) (simp add: deref_def)
  qed
qed

section \<open>Properties\<close>

lemma heap_ok_top:
  assumes "heap_ok js h" and "heap_top h = Some p"
  shows "p \<in> set h" and "\<And>q. q \<in> set h \<Longrightarrow> \<not> before (deref js q) (deref js p)"
proof -
  have p: "p = h ! 0" "h \<noteq> []" using assms(2) by (auto simp: heap_top_def hd_conv_nth split: if_splits)
  then show "p \<in> set h" by simp
  have "is_heap (bef js) h" using assms(1) by (simp add: heap_ok_def is_consistent_iff)
  then show "\<not> before (deref js q) (deref js p)" if "q \<in> set h" for q
    using bef.heap_front [of js h] that p by (auto simp: in_set_conv_nth bef_def)
qed

text \<open>
  C26: in a consistent ready heap the job handed out next is one of the heap's jobs,
  and no job of the heap should run before it: none has a higher priority, none of the
  same priority an earlier run time, none of both the same a smaller id.
\<close>
theorem heap_top_runs_first:
  assumes "heap_ok js h" and "heap_top h = Some p"
  shows "p \<in> set h \<and> (\<forall>q\<in>set h. \<not> before (deref js q) (deref js p))"
  using heap_ok_top [OF assms] by blast

text \<open>
  C28: pushing a job that is in no heap onto a heap with room does not abort, keeps the
  heap consistent, adds exactly that job and changes nothing of any job but heap positions.
\<close>
theorem heap_push_adds:
  assumes "heap_ok js h" and "p \<in> dom js" and "j_heap_index (deref js p) = kNotInHeap"
    and "length h < kNotInHeap"
  shows "\<exists>js' h'. heap_push p (js, h) = Some (js', h') \<and> heap_ok js' h' \<and>
    set h' = insert p (set h) \<and> length h' = length h + 1 \<and> no_index js' = no_index js"
  using heap_push_correct [OF assms] by blast

text \<open>
  C27: removing any job of a consistent heap, not only its front, does not abort, keeps
  the heap consistent, removes exactly that job, marks it as in no heap and changes nothing
  of any job but heap positions.
\<close>
theorem heap_remove_removes:
  assumes "heap_ok js h" and "p \<in> set h"
  shows "\<exists>js' h'. heap_remove p (js, h) = Some (js', h') \<and> heap_ok js' h' \<and>
    set h' = set h - {p} \<and> length h' + 1 = length h \<and> no_index js' = no_index js \<and>
    j_heap_index (deref js' p) = kNotInHeap"
  using heap_remove_correct [OF assms] by blast

section \<open>Witnesses\<close>

text \<open>Two jobs of different priority, and the heap that holds both.\<close>

definition sample_job :: "JobId \<Rightarrow> int \<Rightarrow> nat \<Rightarrow> Job" where
  "sample_job i prio pos = \<lparr>j_id = i, j_queue = str ''q'', j_payload = [], j_priority = prio, j_attempts = 0,
     j_max_attempts = 3, j_backoff_base_ms = 100, j_backoff_cap_ms = 1000, j_state = kReady,
     j_run_at = 10, j_created_at = 5, j_finished_at = 0, j_lease_expires_at = 0, j_lease_token = 0,
     j_idem_key = [], j_idem_key_capacity = 15, j_last_error = [], j_last_error_capacity = 15,
     j_heap_index = pos, j_timer = no_timer\<rparr>"

definition sample_jobs :: Jobs where
  "sample_jobs = [1 \<mapsto> sample_job 1 0 1, 2 \<mapsto> sample_job 2 7 0, 3 \<mapsto> sample_job 3 9 kNotInHeap]"

lemma sample_heap_ok: "heap_ok sample_jobs [2, 1]"
proof -
  have range: "{0..<length [2 :: JobId, 1]} = {0, 1}" by auto
  show ?thesis
    unfolding heap_ok_def is_consistent_def range
    by (simp add: sample_jobs_def sample_job_def deref_def before_def kNotInHeap_def)
qed

theorem heap_top_runs_first_witness:
  "heap_ok sample_jobs [2, 1] \<and> heap_top [2, 1] = Some 2 \<and>
   \<not> before (deref sample_jobs 1) (deref sample_jobs 2)"
  using heap_top_runs_first [OF sample_heap_ok, of 2] sample_heap_ok by (simp add: heap_top_def)

theorem heap_push_adds_witness:
  "\<exists>js' h'. heap_push 3 (sample_jobs, [2, 1]) = Some (js', h') \<and> heap_ok js' h' \<and> set h' = {3, 2, 1}"
proof -
  have "3 \<in> dom sample_jobs" "j_heap_index (deref sample_jobs 3) = kNotInHeap"
    "length [2 :: JobId, 1] < kNotInHeap"
    by (simp_all add: sample_jobs_def sample_job_def deref_def kNotInHeap_def)
  from heap_push_adds [OF sample_heap_ok this] show ?thesis by simp blast
qed

theorem heap_remove_removes_witness:
  "\<exists>js' h'. heap_remove 2 (sample_jobs, [2, 1]) = Some (js', h') \<and> heap_ok js' h' \<and> set h' = {1}"
  using heap_remove_removes [OF sample_heap_ok, of 2] by (auto simp: insert_Diff_if)

end
