(* ===== verification/WheelArith.thy ===== *)
theory WheelArith
  imports TimingWheel
begin

text \<open>
  The tick arithmetic of the timing wheel, on natural numbers: when a slot comes up
  (\<open>slot_time\<close>), that the bit tricks of \<^verbatim>\<open>place\<close> and \<^verbatim>\<open>next_expiration\<close> compute it while
  ticks stay below \<open>2 ^ 63\<close>, and that a timer is always put into a slot that comes up no
  later than its deadline.
\<close>

section \<open>When a slot comes up\<close>

definition slot_time :: "nat \<Rightarrow> nat \<Rightarrow> nat \<Rightarrow> nat" where
  "slot_time level slot now =
     (let w = 64 ^ level; st = now div (64 * w) * (64 * w) + slot * w
      in if st \<le> now then st + 64 * w else st)"

lemma slot_time_eqI:
  assumes "now < t" and "t \<le> now + 64 * 64 ^ level" and "t = q * 64 ^ level" and "q mod 64 = slot"
  shows "slot_time level slot now = t"
proof -
  define w :: nat where "w = 64 ^ level"
  define R where "R = 64 * w"
  have w: "0 < w" "0 < R" by (simp_all add: w_def R_def)
  have t: "t = (q div 64) * R + slot * w"
    using assms(3,4) div_mult_mod_eq [of q 64] unfolding R_def w_def
    by (metis (no_types, lifting) add_mult_distrib mult.assoc)
  have slot: "slot < 64" using assms(4) by auto
  have rem: "slot * w < R" using slot w by (simp add: R_def)
  have tdiv: "t div R = q div 64" using t rem w by simp
  have "now div R \<le> q div 64" using assms(1) tdiv by (metis div_le_mono less_imp_le)
  moreover have "q div 64 \<le> now div R + 1"
    using div_le_mono [OF assms(2), of R] tdiv div_add_self2 [of R now] w
    unfolding w_def [symmetric] R_def [symmetric] by simp
  ultimately consider "q div 64 = now div R" | "q div 64 = now div R + 1" by linarith
  then show ?thesis
    using assms(1,2) t unfolding slot_time_def Let_def w_def [symmetric] R_def [symmetric]
    by cases (simp_all add: add_mult_distrib)
qed

lemma slot_time_bounds:
  assumes "slot < 64"
  shows "now < slot_time level slot now" and "slot_time level slot now \<le> now + 64 * 64 ^ level"
proof -
  define w :: nat where "w = 64 ^ level"
  define R where "R = 64 * w"
  have w: "0 < w" "0 < R" by (simp_all add: w_def R_def)
  have rem: "slot * w + w \<le> R" using assms w by (metis R_def Suc_leI add.commute mult_Suc mult_le_mono1)
  have "now mod R < R" using w by simp
  then have lo: "now < now div R * R + R" and hi: "now div R * R \<le> now"
    using div_mult_mod_eq [of now R] by linarith+
  show "now < slot_time level slot now" "slot_time level slot now \<le> now + 64 * 64 ^ level"
    unfolding slot_time_def Let_def w_def [symmetric] R_def [symmetric] using lo hi rem w
    by (simp_all split: if_split, linarith+)
qed

lemma slot_time_multiple:
  assumes "slot < 64"
  shows "\<exists>q. slot_time level slot now = q * 64 ^ level \<and> q mod 64 = slot"
proof -
  define n where "n = now div (64 * 64 ^ level)"
  have "slot_time level slot now = (64 * n + slot) * 64 ^ level \<or>
        slot_time level slot now = (64 * (n + 1) + slot) * 64 ^ level"
    by (auto simp: slot_time_def Let_def n_def algebra_simps)
  moreover have "(64 * n + slot) mod 64 = slot" "(64 * (n + 1) + slot) mod 64 = slot"
    using assms by (simp_all only: mod_mult_self4 mod_less)
  ultimately show ?thesis by blast
qed

text \<open>The slot keeps its time until that time has come.\<close>

lemma slot_time_stable:
  assumes "slot < 64" and "now \<le> now'" and "now' < slot_time level slot now"
  shows "slot_time level slot now' = slot_time level slot now"
proof -
  obtain q where q: "slot_time level slot now = q * 64 ^ level" "q mod 64 = slot"
    using slot_time_multiple [OF assms(1)] by blast
  show ?thesis
    by (rule slot_time_eqI [OF assms(3) _ q])
      (use slot_time_bounds(2) [OF assms(1), of level now] assms(2) in linarith)
qed

text \<open>The slots of a level in the order they come up after \<open>now\<close>.\<close>

lemma slot_time_ahead:
  assumes "j < 64"
  shows "slot_time level ((now div 64 ^ level + 1 + j) mod 64) now = (now div 64 ^ level + 1 + j) * 64 ^ level"
proof (rule slot_time_eqI [OF _ _ refl refl])
  have "now mod 64 ^ level < 64 ^ level" by simp
  then have "now < (now div 64 ^ level + 1) * 64 ^ level"
    using div_mult_mod_eq [of now "64 ^ level"] unfolding add_mult_distrib by linarith
  then show "now < (now div 64 ^ level + 1 + j) * 64 ^ level"
    by (simp add: algebra_simps)
  have "(now div 64 ^ level + 1 + j) * 64 ^ level \<le> (now div 64 ^ level + 64) * 64 ^ level"
    using assms by (intro mult_right_mono) auto
  also have "\<dots> \<le> now + 64 * 64 ^ level"
    by (simp add: add_mult_distrib)
  finally show "(now div 64 ^ level + 1 + j) * 64 ^ level \<le> now + 64 * 64 ^ level" .
qed

section \<open>Where a timer may be parked\<close>

text \<open>
  A timer with deadline \<open>d\<close> may stay in a slot while that slot comes up no later than
  \<open>d\<close>; below the top level it also lies in the current rotation.
\<close>

definition slot_ok :: "nat \<Rightarrow> nat \<Rightarrow> nat \<Rightarrow> nat \<Rightarrow> bool" where
  "slot_ok now level slot d \<longleftrightarrow> level < 6 \<and> slot < 64 \<and> slot_time level slot now \<le> d \<and>
     (level < 5 \<longrightarrow> d div 64 ^ Suc level = now div 64 ^ Suc level)"

lemma div_between:
  fixes a b c M :: nat
  assumes "a \<le> b" "b \<le> c" "c div M = a div M"
  shows "c div M = b div M"
  using assms by (metis div_le_mono le_antisym)

lemma slot_ok_future: "slot_ok now level slot d \<Longrightarrow> now < d"
  using slot_time_bounds(1) [of slot now level] by (auto simp: slot_ok_def)

lemma slot_ok_stable:
  assumes "slot_ok now level slot d" and "now \<le> now'" and "now' < slot_time level slot now"
  shows "slot_ok now' level slot d"
proof -
  have slot: "slot < 64" using assms(1) by (simp add: slot_ok_def)
  have eq: "slot_time level slot now' = slot_time level slot now"
    by (rule slot_time_stable [OF slot assms(2,3)])
  have "now' \<le> d" using assms(1,3) by (simp add: slot_ok_def)
  then show ?thesis
    using assms(1,2) div_between [of now now' d "64 ^ Suc level"] eq
    by (auto simp: slot_ok_def)
qed

text \<open>No two occupied slots come up on the same tick.\<close>

lemma slot_time_no_tie_levels:
  assumes "slot_ok now l1 s1 d1" and "l1 < l2" and "l2 < 6" and "s2 < 64"
  shows "slot_time l1 s1 now \<noteq> slot_time l2 s2 now"
proof
  assume eq: "slot_time l1 s1 now = slot_time l2 s2 now"
  define t where "t = slot_time l1 s1 now"
  define M :: nat where "M = 64 ^ Suc l1"
  have l1: "l1 < 5" and s1: "s1 < 64" using assms by (auto simp: slot_ok_def)
  have "t \<le> d1" and same: "d1 div M = now div M"
    using assms(1) l1 by (auto simp: slot_ok_def t_def M_def)
  moreover have gt: "now < t" using slot_time_bounds(1) [OF s1] by (simp add: t_def)
  ultimately have tdiv: "t div M = now div M" using div_between [of now t d1 M] by simp
  obtain q where "t = q * 64 ^ l2" using slot_time_multiple [OF assms(4), of l2 now] eq t_def by auto
  moreover have "M dvd 64 ^ l2" using assms(2) unfolding M_def by (intro le_imp_power_dvd) simp
  ultimately have "M dvd t" by simp
  then have "t = now div M * M" using tdiv by (metis dvd_div_mult_self)
  then have "t \<le> now" by simp
  then show False using gt by simp
qed

lemma slot_time_no_tie:
  assumes "slot_ok now l1 s1 d1" and "slot_ok now l2 s2 d2" and "(l1, s1) \<noteq> (l2, s2)"
  shows "slot_time l1 s1 now \<noteq> slot_time l2 s2 now"
proof -
  have lt: "l1 < 6" "l2 < 6" "s1 < 64" "s2 < 64" using assms by (auto simp: slot_ok_def)
  consider "l1 < l2" | "l2 < l1" | "l1 = l2" "s1 \<noteq> s2" using assms(3) by fastforce
  then show ?thesis
  proof cases
    case 1
    then show ?thesis using slot_time_no_tie_levels [OF assms(1)] lt by blast
  next
    case 2
    then show ?thesis using slot_time_no_tie_levels [OF assms(2)] lt by metis
  next
    case 3
    have cancel: "q * 64 ^ l1 = q' * 64 ^ l1 \<Longrightarrow> q = q'" for q q' :: nat by simp
    then show ?thesis
      using slot_time_multiple [OF lt(3), of l1 now] slot_time_multiple [OF lt(4), of l1 now] 3
      by metis
  qed
qed

section \<open>The bit tricks\<close>

text \<open>Ticks are milliseconds of a 64-bit signed clock, so they stay below \<open>2 ^ 63\<close>.\<close>

definition tick_ok :: "u64 \<Rightarrow> bool" where
  "tick_ok t \<longleftrightarrow> unat t < 2 ^ 63"

lemma takeWhile_upt:
  assumes "k = length (takeWhile P [0..<m])"
  shows "(\<forall>j<k. P j) \<and> k \<le> m \<and> (k < m \<longrightarrow> \<not> P k)"
proof -
  have le: "k \<le> m" using length_takeWhile_le [of P "[0..<m]"] assms by simp
  moreover have "P j" if "j < k" for j
    using nth_mem [of j "takeWhile P [0..<m]"] takeWhile_nth [of j P "[0..<m]"] that assms le
    by (auto dest: set_takeWhileD)
  moreover have "\<not> P k" if "k < m"
    using nth_length_takeWhile [of P "[0..<m]"] that assms by simp
  ultimately show ?thesis by blast
qed

lemma countr_zero_bits:
  assumes "x \<noteq> 0"
  shows "countr_zero x < 64" and "bit x (countr_zero x)" and "\<forall>j<countr_zero x. \<not> bit x j"
proof -
  obtain n where n: "bit x n" using assms by (auto simp: bit_eq_iff)
  then have "n < 64" by (auto dest: bit_imp_le_length)
  then show "countr_zero x < 64" "bit x (countr_zero x)" "\<forall>j<countr_zero x. \<not> bit x j"
    using takeWhile_upt [of "countr_zero x" "\<lambda>n. \<not> bit x n" 64] n
    by (auto simp: countr_zero_def [symmetric]) (metis le_neq_implies_less linorder_not_le)+
qed

lemma countl_zero_bits:
  assumes "x \<noteq> 0"
  shows "bit x (63 - countl_zero x)" and "63 - countl_zero x < j \<Longrightarrow> \<not> bit x j"
proof -
  let ?P = "\<lambda>n. \<not> bit x (63 - n)"
  obtain n where n: "bit x n" using assms by (auto simp: bit_eq_iff)
  then have "n < 64" by (auto dest: bit_imp_le_length)
  have spec: "(\<forall>j<countl_zero x. ?P j) \<and> countl_zero x \<le> 64 \<and> (countl_zero x < 64 \<longrightarrow> \<not> ?P (countl_zero x))"
    by (rule takeWhile_upt) (simp add: countl_zero_def)
  have "\<not> ?P (63 - n)" using n \<open>n < 64\<close> by simp
  then have "\<not> 63 - n < countl_zero x" using spec by blast
  then have lt: "countl_zero x < 64" by linarith
  then show "bit x (63 - countl_zero x)" using spec by simp
  show "\<not> bit x j" if "63 - countl_zero x < j" for j
  proof (cases "j < 64")
    case True
    then have "63 - j < countl_zero x" using that by simp
    then have "?P (63 - j)" using spec by blast
    then show ?thesis using True by simp
  qed (auto dest: bit_imp_le_length)
qed

lemma unat_drop_bit_slot: "unat (drop_bit (6 * k) (x :: u64)) = unat x div 64 ^ k"
proof -
  have "(2 :: nat) ^ (6 * k) = 64 ^ k" by (simp add: power_mult)
  moreover have "unat (drop_bit (6 * k) x) = drop_bit (6 * k) (unat x)"
    by (rule bit_eqI) (auto simp: bit_simps dest: bit_imp_le_length)
  ultimately show ?thesis by (simp add: drop_bit_eq_div)
qed

lemma unat_and_slot_mask: "unat (x AND kSlotMask) = unat x mod 64"
proof -
  have "x AND kSlotMask = take_bit 6 x"
    by (simp add: kSlotMask_def take_bit_eq_mask mask_numeral)
  moreover have "unat (take_bit 6 x) = take_bit 6 (unat x)"
    by (rule bit_eqI) (auto simp: bit_simps)
  ultimately show ?thesis by (simp only: take_bit_eq_mod) simp
qed

lemmas wheel_const_defs = kLevels_def kSlotBits_def kSlotsPerLevel_def kSpan_def kNil_def
  kDueList_def kFree_def kTopLevel_def shift_of_def slot_width_def

lemma place_slot_eq: "place_slot level target = unat target div 64 ^ level mod 64"
  using unat_drop_bit_slot [of level target]
  by (simp add: place_slot_def unat_and_slot_mask shift_of_def kSlotBits_def mult.commute)

lemma drop_bit_neq_iff:
  "drop_bit k (x :: u64) \<noteq> drop_bit k y \<longleftrightarrow> (\<exists>j\<ge>k. bit (x XOR y) j)"
proof
  assume "drop_bit k x \<noteq> drop_bit k y"
  then obtain n where "bit x (k + n) \<noteq> bit y (k + n)"
    by (auto simp: bit_eq_iff [of "drop_bit k x"] bit_drop_bit_eq)
  then show "\<exists>j\<ge>k. bit (x XOR y) j"
    by (auto intro!: exI [of _ "k + n"] simp: bit_xor_iff)
next
  assume "\<exists>j\<ge>k. bit (x XOR y) j"
  then obtain j where "k \<le> j" "bit x j \<noteq> bit y j" by (auto simp: bit_xor_iff)
  then have "bit (drop_bit k x) (j - k) \<noteq> bit (drop_bit k y) (j - k)" by (simp add: bit_drop_bit_eq)
  then show "drop_bit k x \<noteq> drop_bit k y" by metis
qed

lemma place_level_spec:
  assumes "now < target" and "level = place_level now target"
  shows "level < 6"
    and "drop_bit (6 * level) now \<noteq> drop_bit (6 * level) target"
    and "level < 5 \<Longrightarrow> drop_bit (6 * Suc level) now = drop_bit (6 * Suc level) target"
proof -
  define x where "x = (now XOR target) OR kSlotMask"
  define h where "h = 63 - countl_zero x"
  have mask_bit: "bit kSlotMask j \<longleftrightarrow> j < 6" for j
  proof -
    have mask: "kSlotMask = mask 6" by (simp add: kSlotMask_def mask_numeral)
    show ?thesis unfolding mask bit_mask_iff by auto
  qed
  have xb: "bit x j \<longleftrightarrow> bit (now XOR target) j \<or> j < 6" for j
    by (simp add: x_def bit_or_iff mask_bit)
  have x0: "x \<noteq> 0" using xb [of 0] by auto
  have hb: "bit x h" and above: "\<And>j. h < j \<Longrightarrow> \<not> bit x j"
    using countl_zero_bits [OF x0] by (auto simp: h_def)
  have level: "level = min (h div 6) 5"
    using assms(2) by (simp add: place_level_def x_def h_def Let_def wheel_const_defs)
  show "level < 6" using level by simp
  show "drop_bit (6 * level) now \<noteq> drop_bit (6 * level) target"
  proof (cases "level = 0")
    case True
    then show ?thesis using assms(1) by auto
  next
    case False
    then have "6 \<le> h" "6 * level \<le> h" using level by auto
    then show ?thesis using hb xb [of h] unfolding drop_bit_neq_iff by auto
  qed
  show "drop_bit (6 * Suc level) now = drop_bit (6 * Suc level) target" if "level < 5"
  proof -
    have "h < 6 * Suc level" using level that by (auto simp: min_def split: if_splits)
    then have "\<not> bit (now XOR target) j" if "6 * Suc level \<le> j" for j
      using above [of j] xb [of j] that by auto
    then show ?thesis using drop_bit_neq_iff by blast
  qed
qed

lemma place_target_bounds:
  assumes "now < deadline" and "tick_ok now"
  shows "now < place_target now deadline"
    and "unat (place_target now deadline) \<le> unat deadline"
    and "unat (place_target now deadline) < unat now + 64 ^ 6"
    and "place_target now deadline = deadline \<or>
         unat (place_target now deadline) = unat now + 64 ^ 6 - 64 ^ 5"
proof -
  have lt: "unat now < unat deadline" using assms(1) by (simp add: word_less_nat_alt)
  have n: "unat now < 2 ^ 63" using assms(2) by (simp add: tick_ok_def)
  have sub: "unat (deadline - now) = unat deadline - unat now"
    using assms(1) by (simp add: unat_sub)
  have park: "unat (now + kSpan - slot_width kTopLevel) = unat now + 64 ^ 6 - 64 ^ 5"
  proof -
    have "now + kSpan - slot_width kTopLevel = now + 67645734912"
      by (simp add: wheel_const_defs)
    moreover have "unat (now + 67645734912) = unat now + 67645734912"
      using n by (subst unat_add_lem [THEN iffD1]) auto
    ultimately show ?thesis by (simp only:) simp
  qed
  have span: "deadline - now \<ge> kSpan \<longleftrightarrow> unat deadline - unat now \<ge> 64 ^ 6"
    using sub by (simp add: word_le_nat_alt wheel_const_defs)
  have *: "if 64 ^ 6 \<le> unat deadline - unat now
           then unat (place_target now deadline) = unat now + 64 ^ 6 - 64 ^ 5
           else place_target now deadline = deadline"
    using park span by (simp add: place_target_def)
  show "now < place_target now deadline"
    "unat (place_target now deadline) \<le> unat deadline"
    "unat (place_target now deadline) < unat now + 64 ^ 6"
    "place_target now deadline = deadline \<or>
         unat (place_target now deadline) = unat now + 64 ^ 6 - 64 ^ 5"
    using * lt by (auto simp: word_less_nat_alt split: if_splits)
qed

lemma same_block_close:
  fixes a b M :: nat
  assumes "b div M = a div M" and "0 < M"
  shows "b < a + M"
proof -
  have "b < b div M * M + M" using assms(2) by (metis add.commute dividend_less_div_times)
  moreover have "a div M * M \<le> a" by simp
  ultimately show ?thesis unfolding assms(1) by linarith
qed

text \<open>The list that \<^verbatim>\<open>place\<close> chooses is one in which the timer may wait.\<close>

lemma place_slot_ok:
  assumes "now < deadline" and "tick_ok now"
    and "target = place_target now deadline" and "level = place_level now target"
  shows "slot_ok (unat now) level (place_slot level target) (unat deadline)"
proof -
  define N D T where "N = unat now" and "D = unat deadline" and "T = unat target"
  define w :: nat where "w = 64 ^ level"
  note tb = place_target_bounds [OF assms(1,2), folded assms(3)]
  note lv = place_level_spec [OF tb(1) assms(4)]
  have NT: "N < T" "T \<le> D" "T < N + 64 ^ 6" using tb by (simp_all add: N_def T_def D_def word_less_nat_alt)
  have w0: "0 < w" by (simp add: w_def)
  have "N div w \<noteq> T div w"
    using lv(2) unat_drop_bit_slot [of level now] unat_drop_bit_slot [of level target]
    by (metis N_def T_def w_def word_unat_eq_iff)
  then have "N div w + 1 \<le> T div w" using NT(1) by (metis Suc_eq_plus1 Suc_leI div_le_mono le_neq_implies_less less_imp_le)
  then have "(N div w + 1) * w \<le> T div w * w" by (rule mult_le_mono1)
  moreover have "N < (N div w + 1) * w" using dividend_less_div_times [OF w0, of N] by simp
  ultimately have gt: "N < T div w * w" by simp
  have block: "T div 64 ^ Suc level = N div 64 ^ Suc level" if "level < 5"
    using lv(3) [OF that] unat_drop_bit_slot [of "Suc level" now] unat_drop_bit_slot [of "Suc level" target]
    by (simp add: N_def T_def)
  have "T \<le> N + 64 * w"
  proof (cases "level < 5")
    case True
    then show ?thesis using same_block_close [OF block] by (simp add: w_def)
  next
    case False
    then have "level = 5" using lv(1) by simp
    then show ?thesis using NT(3) by (simp add: w_def)
  qed
  then have le: "T div w * w \<le> N + 64 * 64 ^ level"
    using div_times_less_eq_dividend [of T w] unfolding w_def by (rule order_trans [rotated])
  have st: "slot_time level (T div w mod 64) N = T div w * w"
    by (rule slot_time_eqI [OF gt le]) (simp_all add: w_def)
  have dl: "D div 64 ^ Suc level = N div 64 ^ Suc level" if "level < 5"
  proof -
    have "64 ^ Suc level \<le> (64 ^ 5 :: nat)" using that by (intro power_increasing) auto
    then have "T < N + 64 ^ 5" using same_block_close [OF block [OF that]] by simp
    then have "target = deadline" using tb(4) by (auto simp: N_def T_def)
    then show ?thesis using block [OF that] by (simp add: D_def T_def)
  qed
  have "T div w * w \<le> D" using NT(2) div_times_less_eq_dividend [of T w] by linarith
  then show ?thesis
    using st dl lv(1)
    unfolding slot_ok_def place_slot_eq N_def [symmetric] D_def [symmetric] T_def [symmetric] w_def [symmetric]
    by simp
qed

section \<open>The next slot of a level\<close>

lemma unat_and_not_mask: "unat ((x :: u64) AND NOT (mask k)) = unat x div 2 ^ k * 2 ^ k"
proof -
  have "unat (x AND NOT (mask k)) = push_bit k (drop_bit k (unat x))"
    by (rule bit_eqI) (auto simp: bit_simps dest: bit_imp_le_length)
  then show ?thesis by (simp add: push_bit_eq_mult drop_bit_eq_div)
qed

lemma unat_add_small: "unat (a :: u64) + unat b < 2 ^ 64 \<Longrightarrow> unat (a + b) = unat a + unat b"
  by (simp add: unat_word_ariths)

lemma unat_exp: "k < 64 \<Longrightarrow> unat (2 ^ k :: u64) = 2 ^ k"
proof -
  assume "k < 64"
  then have "(2 :: nat) ^ k < 2 ^ 64" by (intro power_strict_increasing) auto
  then have "unat (of_nat (2 ^ k) :: u64) = 2 ^ k" unfolding unat_of_nat by simp
  then show ?thesis by simp
qed

lemma level_deadline:
  fixes now :: u64
  assumes level: "level < 6" and slot: "slot < 64" and tick: "tick_ok now"
    and rotation: "rotation = push_bit kSlotBits (slot_width level)"
    and deadline: "deadline = (now AND NOT (rotation - 1)) + of_nat slot * slot_width level"
  shows "unat (if deadline \<le> now then deadline + rotation else deadline) =
           slot_time level slot (unat now)"
proof -
  define w :: nat where "w = 64 ^ level"
  have wpow: "w = 2 ^ (6 * level)" by (simp add: w_def power_mult)
  have wle: "w \<le> 1073741824"
    using power_increasing [of level 5 "64 :: nat"] level by (simp add: w_def)
  have rot: "rotation = 2 ^ (6 * Suc level)" "slot_width level = 2 ^ (6 * level)"
    unfolding rotation wheel_const_defs by (simp_all add: push_bit_eq_mult power_add mult.commute)
  have ur: "unat rotation = 64 * w" and uw: "unat (slot_width level) = w"
    unfolding rot wpow using level unat_exp [of "6 * Suc level"] unat_exp [of "6 * level"]
    by (simp_all add: power_add)
  have start: "unat (now AND NOT (rotation - 1)) = unat now div (64 * w) * (64 * w)"
    using unat_and_not_mask [of now "6 * Suc level"]
    by (simp add: rot mask_eq_exp_minus_1 wpow power_add)
  have sw: "slot * w < 64 * w" using slot by (simp add: w_def)
  have uslot: "unat (of_nat slot * slot_width level) = slot * w"
  proof -
    have "slot * w < 18446744073709551616" using sw wle by linarith
    then show ?thesis using slot uw by (simp add: unat_word_ariths unat_of_nat)
  qed
  have N: "unat now < 9223372036854775808" using tick by (simp add: tick_ok_def)
  have "unat now div (64 * w) * (64 * w) \<le> unat now" by simp
  then have small: "unat now div (64 * w) * (64 * w) + slot * w + 64 * w < 18446744073709551616"
    using N sw wle by linarith
  have ud: "unat deadline = unat now div (64 * w) * (64 * w) + slot * w"
    unfolding deadline using unat_add_small start uslot small by simp
  then have "unat (deadline + rotation) = unat now div (64 * w) * (64 * w) + slot * w + 64 * w"
    using unat_add_small [of deadline rotation] ur small by simp
  then show ?thesis
    using ud unfolding slot_time_def Let_def w_def [symmetric] word_le_nat_alt by simp
qed

lemma next_occupied_slot:
  fixes occ :: u64
  assumes occ: "occ \<noteq> 0" and first: "first = (n + 1) mod 64"
    and d: "d = countr_zero (word_rotr first occ)"
  shows "d < 64" and "bit occ ((n + 1 + d) mod 64)"
    and "\<And>s. s < 64 \<Longrightarrow> bit occ s \<Longrightarrow> \<exists>j<64. d \<le> j \<and> s = (n + 1 + j) mod 64"
proof -
  have "(j + first) mod 64 = (n + 1 + j) mod 64" for j
    unfolding first by (metis add.commute mod_add_left_eq)
  then have rb: "bit (word_rotr first occ) j \<longleftrightarrow> j < 64 \<and> bit occ ((n + 1 + j) mod 64)" for j
    by (simp add: bit_word_rotr_iff)
  have ahead: "\<exists>j<64. s = (n + 1 + j) mod 64" if "s < 64" for s
  proof (intro exI conjI)
    show "s = (n + 1 + (s + (63 - n mod 64)) mod 64) mod 64"
    proof -
      have "(n + 1 + (s + (63 - n mod 64)) mod 64) mod 64 = (n mod 64 + 1 + (s + (63 - n mod 64))) mod 64"
        by (metis mod_add_left_eq mod_add_right_eq)
      also have "n mod 64 + 1 + (s + (63 - n mod 64)) = s + 64"
        using mod_less_divisor [of 64 n] by linarith
      finally show ?thesis using that by simp
    qed
  qed simp
  obtain s where s: "bit occ s" using occ by (auto simp: bit_eq_iff)
  then have "s < 64" by (auto dest: bit_imp_le_length)
  then have "word_rotr first occ \<noteq> 0" using ahead [of s] s rb by (metis bit_0_eq bot_apply bot_bool_def)
  note cz = countr_zero_bits [OF this, folded d]
  show "d < 64" by (rule cz(1))
  show "bit occ ((n + 1 + d) mod 64)" using cz(2) rb by blast
  show "\<exists>j<64. d \<le> j \<and> s = (n + 1 + j) mod 64" if "s < 64" "bit occ s" for s
    using ahead [OF that(1)] that(2) cz(3) rb by (metis linorder_not_le)
qed

lemma level_expiration_spec:
  assumes level: "level < 6" and tick: "tick_ok (tw_now w)" and occ: "tw_occupied w ! level \<noteq> 0"
  defines "e \<equiv> level_expiration w level" and "N \<equiv> unat (tw_now w)"
  shows "ex_level e = level" and "ex_slot e < 64" and "bit (tw_occupied w ! level) (ex_slot e)"
    and "unat (ex_deadline e) = slot_time level (ex_slot e) N"
    and "\<And>s. s < 64 \<Longrightarrow> bit (tw_occupied w ! level) s \<Longrightarrow> unat (ex_deadline e) \<le> slot_time level s N"
proof -
  define n where "n = N div 64 ^ level"
  define d where "d = countr_zero (word_rotr ((n + 1) mod 64) (tw_occupied w ! level))"
  have "unat (drop_bit (shift_of level) (tw_now w) AND kSlotMask) = n mod 64"
    using place_slot_eq [of level "tw_now w"] by (simp add: place_slot_def n_def N_def)
  moreover have first: "(n mod 64 + 1) mod 64 = (n + 1) mod 64" by (rule mod_add_left_eq)
  ultimately have "ex_slot e = ((n + 1) mod 64 + d) mod 64"
    unfolding e_def level_expiration_def Let_def d_def kSlotsPerLevel_def by simp
  then have slot: "ex_slot e = (n + 1 + d) mod 64" by (simp only: mod_add_left_eq)
  note nxt = next_occupied_slot [OF occ refl d_def]
  show "ex_level e = level" by (simp add: e_def level_expiration_def Let_def)
  show lt: "ex_slot e < 64" by (simp add: slot)
  show "bit (tw_occupied w ! level) (ex_slot e)" using nxt(2) slot by simp
  show dl: "unat (ex_deadline e) = slot_time level (ex_slot e) N"
  proof -
    define s where "s = ex_slot e"
    have "ex_deadline e =
      (let rotation = push_bit kSlotBits (slot_width level);
           deadline = (tw_now w AND NOT (rotation - 1)) + of_nat s * slot_width level
       in if deadline \<le> tw_now w then deadline + rotation else deadline)"
      by (simp only: s_def e_def level_expiration_def Let_def Expiration.select_convs)
    then show ?thesis
      using level_deadline [OF level _ tick refl refl] lt unfolding Let_def N_def s_def by simp
  qed
  show "unat (ex_deadline e) \<le> slot_time level s N" if s: "s < 64" "bit (tw_occupied w ! level) s" for s
  proof -
    obtain j where j: "j < 64" "d \<le> j" "s = (n + 1 + j) mod 64" using nxt(3) [OF s] by blast
    have "slot_time level (ex_slot e) N = (n + 1 + d) * 64 ^ level"
      unfolding slot n_def by (rule slot_time_ahead [OF nxt(1)])
    moreover have "slot_time level s N = (n + 1 + j) * 64 ^ level"
      unfolding j(3) n_def by (rule slot_time_ahead [OF j(1)])
    ultimately show ?thesis using dl j(2) by simp
  qed
qed

end
