(* ===== verification/WheelLists.thy ===== *)
theory WheelLists
  imports WheelArith
begin

text \<open>
  The slab of the timing wheel as a set of disjoint linked lists. \<open>lists_ok w L F D\<close> says
  that the slots and the due list are the doubly linked lists \<open>L\<close>, that the free list is
  \<open>F\<close> and that \<open>D\<close> are the entries on no list while an operation is under way; each primitive
  of the slab is shown to move one entry and to leave the timers of all others alone.
\<close>

section \<open>Linked segments\<close>

fun dseg :: "Node list \<Rightarrow> nat \<Rightarrow> nat \<Rightarrow> nat list \<Rightarrow> nat \<Rightarrow> bool" where
  "dseg ns p h [] t \<longleftrightarrow> h = t"
| "dseg ns p h (x # xs) t \<longleftrightarrow> h = x \<and> x < length ns \<and> n_prev (ns ! x) = p \<and>
     dseg ns x (n_next (ns ! x)) xs t"

fun sseg :: "Node list \<Rightarrow> nat \<Rightarrow> nat list \<Rightarrow> bool" where
  "sseg ns h [] \<longleftrightarrow> h = kNil"
| "sseg ns h (x # xs) \<longleftrightarrow> h = x \<and> x < length ns \<and> sseg ns (n_next (ns ! x)) xs"

lemma dseg_append:
  "dseg ns p h (xs @ ys) t \<longleftrightarrow> (\<exists>m. dseg ns p h xs m \<and> dseg ns (last (p # xs)) m ys t)"
  by (induction xs arbitrary: p h) auto

lemma dseg_bounds: "dseg ns p h xs t \<Longrightarrow> \<forall>x\<in>set xs. x < length ns"
  by (induction xs arbitrary: p h) auto

lemma dseg_head: "dseg ns p h xs t \<Longrightarrow> h = (if xs = [] then t else hd xs)"
  by (cases xs) auto

lemma dseg_cong:
  assumes "length ns' \<ge> length ns"
    and "\<forall>x\<in>set xs. n_prev (ns' ! x) = n_prev (ns ! x) \<and> n_next (ns' ! x) = n_next (ns ! x)"
    and "dseg ns p h xs t"
  shows "dseg ns' p h xs t"
  using assms by (induction xs arbitrary: p h) auto

lemma sseg_cong:
  assumes "length ns' \<ge> length ns" and "\<forall>x\<in>set xs. n_next (ns' ! x) = n_next (ns ! x)"
    and "sseg ns h xs"
  shows "sseg ns' h xs"
  using assms by (induction xs arbitrary: h) auto

lemma dseg_sseg: "dseg ns p h xs kNil \<Longrightarrow> sseg ns h xs"
  by (induction xs arbitrary: p h) auto

lemma sseg_bounds: "sseg ns h xs \<Longrightarrow> \<forall>x\<in>set xs. x < length ns"
  by (induction xs arbitrary: h) auto

lemma dseg_new_tail:
  assumes "dseg ns p h (xs @ [x]) t" and "x \<notin> set xs"
  shows "dseg (ns[x := (ns ! x)\<lparr>n_next := t'\<rparr>]) p h (xs @ [x]) t'"
proof -
  let ?ns = "ns[x := (ns ! x)\<lparr>n_next := t'\<rparr>]"
  from assms(1) obtain m where m: "dseg ns p h xs m" "dseg ns (last (p # xs)) m [x] t"
    unfolding dseg_append by blast
  have "dseg ?ns p h xs m"
    by (rule dseg_cong [OF _ _ m(1)]) (use assms(2) in \<open>auto simp: nth_upd\<close>)
  moreover have "dseg ?ns (last (p # xs)) m [x] t'" using m(2) by auto
  ultimately show ?thesis unfolding dseg_append by blast
qed

lemma dseg_new_prev:
  assumes "dseg ns p h (x # xs) t" and "x \<notin> set xs"
  shows "dseg (ns[x := (ns ! x)\<lparr>n_prev := p'\<rparr>]) p' h (x # xs) t"
proof -
  have "dseg (ns[x := (ns ! x)\<lparr>n_prev := p'\<rparr>]) x (n_next (ns ! x)) xs t"
    by (rule dseg_cong [where ns = ns]) (use assms in \<open>auto simp: nth_upd\<close>)
  then show ?thesis using assms(1) by auto
qed

section \<open>The lists of the slab\<close>

definition lists_ok :: "Wheel \<Rightarrow> (nat \<Rightarrow> nat list) \<Rightarrow> nat list \<Rightarrow> nat set \<Rightarrow> bool" where
  "lists_ok w L F D \<longleftrightarrow>
     length (tw_heads w) = 385 \<and> length (tw_occupied w) = 6 \<and> length (tw_nodes w) \<le> kNil \<and>
     (\<forall>l\<le>kDueList. dseg (tw_nodes w) kNil (tw_heads w ! l) (L l) kNil \<and> distinct (L l) \<and>
        (\<forall>i\<in>set (L l). n_list (tw_nodes w ! i) = l)) \<and>
     sseg (tw_nodes w) (tw_free_head w) F \<and> distinct F \<and>
     (\<forall>i\<in>set F. n_list (tw_nodes w ! i) = kFree) \<and>
     (\<forall>l<kDueList. bit (tw_occupied w ! (l div 64)) (l mod 64) \<longleftrightarrow> L l \<noteq> []) \<and>
     (\<forall>i\<in>D. i < length (tw_nodes w) \<and> i \<notin> set F \<and> (\<forall>l\<le>kDueList. i \<notin> set (L l))) \<and>
     (\<forall>i<length (tw_nodes w). i \<in> set F \<or> i \<in> D \<or> (\<exists>l\<le>kDueList. i \<in> set (L l)))"

lemma lists_okD:
  assumes "lists_ok w L F D"
  shows "length (tw_heads w) = 385" and "length (tw_occupied w) = 6"
    and "length (tw_nodes w) \<le> kNil"
    and "\<And>l. l \<le> kDueList \<Longrightarrow> dseg (tw_nodes w) kNil (tw_heads w ! l) (L l) kNil"
    and "\<And>l. l \<le> kDueList \<Longrightarrow> distinct (L l)"
    and "\<And>l i. l \<le> kDueList \<Longrightarrow> i \<in> set (L l) \<Longrightarrow> n_list (tw_nodes w ! i) = l"
    and "sseg (tw_nodes w) (tw_free_head w) F" and "distinct F"
    and "\<And>i. i \<in> set F \<Longrightarrow> n_list (tw_nodes w ! i) = kFree"
    and "\<And>l. l < kDueList \<Longrightarrow> bit (tw_occupied w ! (l div 64)) (l mod 64) \<longleftrightarrow> L l \<noteq> []"
    and "\<And>i. i \<in> D \<Longrightarrow> i < length (tw_nodes w) \<and> i \<notin> set F \<and> (\<forall>l\<le>kDueList. i \<notin> set (L l))"
    and "\<And>i. i < length (tw_nodes w) \<Longrightarrow> i \<in> set F \<or> i \<in> D \<or> (\<exists>l\<le>kDueList. i \<in> set (L l))"
  using assms by (auto simp: lists_ok_def)

lemma kNil_gt: "lists_ok w L F D \<Longrightarrow> i < length (tw_nodes w) \<Longrightarrow> i \<noteq> kNil"
  using lists_okD(3) by fastforce

lemma list_member_bounds:
  "lists_ok w L F D \<Longrightarrow> l \<le> kDueList \<Longrightarrow> i \<in> set (L l) \<Longrightarrow> i < length (tw_nodes w)"
  using dseg_bounds [OF lists_okD(4)] by blast

lemma head_nil_iff:
  assumes "lists_ok w L F D" and "l \<le> kDueList"
  shows "tw_heads w ! l = kNil \<longleftrightarrow> L l = []"
  using dseg_head [OF lists_okD(4) [OF assms]] list_member_bounds [OF assms] kNil_gt [OF assms(1)]
  by (metis hd_in_set)

lemma lists_disjoint:
  assumes "lists_ok w L F D" and "l \<le> kDueList" and "l' \<le> kDueList"
    and "i \<in> set (L l)" and "i \<in> set (L l')"
  shows "l = l'"
  using lists_okD(6) [OF assms(1)] assms by metis

lemma free_disjoint: "lists_ok w L F D \<Longrightarrow> l \<le> kDueList \<Longrightarrow> i \<in> set (L l) \<Longrightarrow> i \<notin> set F"
  using lists_okD(6,9) by (metis Suc_n_not_le_n kFree_def add.commute plus_1_eq_Suc)

text \<open>What an operation leaves of the timer in a slab entry.\<close>

definition same_timer :: "Node \<Rightarrow> Node \<Rightarrow> bool" where
  "same_timer m n \<longleftrightarrow> n_deadline m = n_deadline n \<and> n_id m = n_id n \<and> n_kind m = n_kind n \<and>
     n_generation m = n_generation n"

lemma same_timer_refl [simp]: "same_timer n n"
  by (simp add: same_timer_def)

lemma same_timer_trans: "same_timer a b \<Longrightarrow> same_timer b c \<Longrightarrow> same_timer a c"
  by (simp add: same_timer_def)

lemma nodes_upd_node [simp]: "tw_nodes (upd_node i f w) = (tw_nodes w)[i := f (tw_nodes w ! i)]"
  and heads_upd_node [simp]: "tw_heads (upd_node i f w) = tw_heads w"
  and occ_upd_node [simp]: "tw_occupied (upd_node i f w) = tw_occupied w"
  and free_upd_node [simp]: "tw_free_head (upd_node i f w) = tw_free_head w"
  and now_upd_node [simp]: "tw_now (upd_node i f w) = tw_now w"
  and size_upd_node [simp]: "tw_size (upd_node i f w) = tw_size w"
  by (simp_all add: upd_node_def)

lemma length_upd_node: "length (tw_nodes (upd_node i f w)) = length (tw_nodes w)"
  by simp

lemma nodes_set_head [simp]: "tw_nodes (set_head l i w) = tw_nodes w"
  and heads_set_head [simp]: "tw_heads (set_head l i w) = (tw_heads w)[l := i]"
  and occ_set_head [simp]: "tw_occupied (set_head l i w) = tw_occupied w"
  and free_set_head [simp]: "tw_free_head (set_head l i w) = tw_free_head w"
  and now_set_head [simp]: "tw_now (set_head l i w) = tw_now w"
  and size_set_head [simp]: "tw_size (set_head l i w) = tw_size w"
  by (simp_all add: set_head_def)

lemma nodes_upd_occupied [simp]: "tw_nodes (upd_occupied k f w) = tw_nodes w"
  and heads_upd_occupied [simp]: "tw_heads (upd_occupied k f w) = tw_heads w"
  and occ_upd_occupied [simp]: "tw_occupied (upd_occupied k f w) = (tw_occupied w)[k := f (tw_occupied w ! k)]"
  and free_upd_occupied [simp]: "tw_free_head (upd_occupied k f w) = tw_free_head w"
  and now_upd_occupied [simp]: "tw_now (upd_occupied k f w) = tw_now w"
  and size_upd_occupied [simp]: "tw_size (upd_occupied k f w) = tw_size w"
  by (simp_all add: upd_occupied_def)

section \<open>Linking an entry\<close>

lemma link_frame:
  assumes ok: "lists_ok w L F D" and i: "i \<in> D" and l: "l \<le> kDueList"
  defines "ns \<equiv> tw_nodes w" and "ns' \<equiv> tw_nodes (link i l w)"
  shows "length ns' = length ns"
    and "ns' ! i = (ns ! i)\<lparr>n_list := l, n_prev := kNil, n_next := tw_heads w ! l\<rparr>"
    and "\<And>j. j \<noteq> i \<Longrightarrow> j \<notin> set (L l) \<Longrightarrow> ns' ! j = ns ! j"
    and "\<And>j. j \<noteq> i \<Longrightarrow> n_next (ns' ! j) = n_next (ns ! j) \<and> n_list (ns' ! j) = n_list (ns ! j)"
    and "\<And>j. same_timer (ns' ! j) (ns ! j)"
    and "dseg ns' i (tw_heads w ! l) (L l) kNil"
proof -
  let ?h = "tw_heads w ! l"
  let ?n1 = "ns[i := (ns ! i)\<lparr>n_list := l, n_prev := kNil, n_next := ?h\<rparr>]"
  have iD: "i < length ns" "i \<notin> set (L l)" using lists_okD(11) [OF ok i] l by (auto simp: ns_def)
  have ns': "ns' = (if ?h \<noteq> kNil then ?n1[?h := (?n1 ! ?h)\<lparr>n_prev := i\<rparr>] else ?n1)"
    using iD by (auto simp: ns'_def link_def Let_def ns_def)
  have seg: "dseg ns kNil ?h (L l) kNil" and dist: "distinct (L l)"
    using lists_okD(4,5) [OF ok l] by (simp_all add: ns_def)
  have hm: "?h \<in> set (L l)" if "?h \<noteq> kNil"
    using dseg_head [OF seg] that by (auto split: if_splits)
  show "length ns' = length ns" by (simp add: ns')
  show "ns' ! i = (ns ! i)\<lparr>n_list := l, n_prev := kNil, n_next := ?h\<rparr>"
    using iD hm by (auto simp: ns' nth_upd)
  show "ns' ! j = ns ! j" if "j \<noteq> i" "j \<notin> set (L l)" for j
    using that hm by (auto simp: ns' nth_upd)
  show "n_next (ns' ! j) = n_next (ns ! j) \<and> n_list (ns' ! j) = n_list (ns ! j)" if "j \<noteq> i" for j
    using that by (auto simp: ns' nth_upd)
  show "same_timer (ns' ! j) (ns ! j)" for j
    by (auto simp: ns' nth_upd same_timer_def)
  have seg1: "dseg ?n1 kNil ?h (L l) kNil"
    by (rule dseg_cong [OF _ _ seg]) (use iD in \<open>auto simp: nth_upd\<close>)
  show "dseg ns' i ?h (L l) kNil"
  proof (cases "L l")
    case Nil
    then show ?thesis using seg by simp
  next
    case (Cons x xs)
    then have "?h = x" "x \<noteq> kNil" using seg kNil_gt [OF ok] by (auto simp: ns_def)
    then have ns'_eq: "ns' = ?n1[x := (?n1 ! x)\<lparr>n_prev := i\<rparr>]" using ns' by simp
    show ?thesis
      unfolding ns'_eq Cons by (rule dseg_new_prev [OF seg1 [unfolded Cons]]) (use dist Cons in simp)
  qed
qed

lemma link_other [simp]:
  "tw_now (link i l w) = tw_now w" "tw_size (link i l w) = tw_size w"
  "tw_free_head (link i l w) = tw_free_head w" "tw_heads (link i l w) = (tw_heads w)[l := i]"
  by (simp_all add: link_def Let_def)

lemma bit_slot_bit: "bit (slot_bit l) n \<longleftrightarrow> n = l mod 64"
  by (auto simp: slot_bit_def kSlotsPerLevel_def bit_simps)

lemma occ_link:
  assumes "length (tw_occupied w) = 6" and "l' < kDueList"
  shows "bit (tw_occupied (link i l w) ! (l' div 64)) (l' mod 64) \<longleftrightarrow>
    bit (tw_occupied w ! (l' div 64)) (l' mod 64) \<or> l' = l"
proof -
  have "l' div 64 < 6" using assms(2) by (simp add: wheel_const_defs)
  moreover have "l' = l \<longleftrightarrow> l' div 64 = l div 64 \<and> l' mod 64 = l mod 64"
    by (metis div_mult_mod_eq)
  ultimately show ?thesis
    using assms by (auto simp: link_def Let_def kSlotsPerLevel_def nth_upd bit_or_iff bit_slot_bit)
qed

lemma link_lists:
  assumes ok: "lists_ok w L F D" and i: "i \<in> D" and l: "l \<le> kDueList"
  shows "lists_ok (link i l w) (L(l := i # L l)) F (D - {i})"
proof -
  note d = lists_okD [OF ok] and fr = link_frame [OF ok i l]
  have iD: "i < length (tw_nodes w)" "i \<notin> set F" "\<And>l. l \<le> kDueList \<Longrightarrow> i \<notin> set (L l)"
    using d(11) [OF i] by auto
  have lh: "l < length (tw_heads w)" using l d(1) by (simp add: wheel_const_defs)
  have same: "j \<noteq> i" "j \<notin> set (L l)" if "j \<in> set (L l')" "l' \<le> kDueList" "l' \<noteq> l" for j l'
    using iD that lists_disjoint [OF ok l that(2)] by blast+
  have seg: "dseg (tw_nodes (link i l w)) kNil (tw_heads (link i l w) ! l') ((L(l := i # L l)) l') kNil"
    if l': "l' \<le> kDueList" for l'
  proof (cases "l' = l")
    case True
    then show ?thesis using fr(1,2,6) iD lh by simp
  next
    case False
    then have "dseg (tw_nodes (link i l w)) kNil (tw_heads w ! l') (L l') kNil"
      by (intro dseg_cong [OF _ _ d(4) [OF l']]) (use fr(1,3) same [OF _ l' False] in auto)
    then show ?thesis using False by simp
  qed
  have free: "sseg (tw_nodes (link i l w)) (tw_free_head w) F"
    by (intro sseg_cong [OF _ _ d(7)]) (use fr(1) in simp, use fr(4) iD(2) in metis)
  have lst: "n_list (tw_nodes (link i l w) ! j) = n_list (tw_nodes w ! j)" if "j \<noteq> i" for j
    using fr(4) [OF that] by simp
  have occ: "length (tw_occupied (link i l w)) = 6" using d(2) by (simp add: link_def Let_def)
  show ?thesis
    unfolding lists_ok_def
  proof (intro conjI)
    show "\<forall>l'\<le>kDueList. dseg (tw_nodes (link i l w)) kNil (tw_heads (link i l w) ! l') ((L(l := i # L l)) l') kNil \<and>
       distinct ((L(l := i # L l)) l') \<and> (\<forall>j\<in>set ((L(l := i # L l)) l'). n_list (tw_nodes (link i l w) ! j) = l')"
      using seg d(5,6) iD fr(2) lst l by (auto simp: fun_upd_def) (metis lst)+
    show "\<forall>j\<in>set F. n_list (tw_nodes (link i l w) ! j) = kFree"
      using d(9) lst iD by metis
    show "\<forall>l'<kDueList. bit (tw_occupied (link i l w) ! (l' div 64)) (l' mod 64) \<longleftrightarrow> (L(l := i # L l)) l' \<noteq> []"
      using occ_link [OF d(2)] d(10) by auto
    show "\<forall>j\<in>D - {i}. j < length (tw_nodes (link i l w)) \<and> j \<notin> set F \<and>
       (\<forall>l'\<le>kDueList. j \<notin> set ((L(l := i # L l)) l'))"
      using d(11) fr(1) by auto
    show "\<forall>j<length (tw_nodes (link i l w)). j \<in> set F \<or> j \<in> D - {i} \<or>
       (\<exists>l'\<le>kDueList. j \<in> set ((L(l := i # L l)) l'))"
      using d(12) fr(1) l by (auto simp: fun_upd_def) (metis list.set_intros(2))+
  qed (use d fr(1) free occ in simp_all)
qed

section \<open>Unlinking an entry\<close>

lemma dseg_unlink:
  assumes seg: "dseg ns kNil h (as @ i # bs) kNil" and dist: "distinct (as @ i # bs)"
    and len: "length ns \<le> kNil"
  defines "p \<equiv> n_prev (ns ! i)" and "m \<equiv> n_next (ns ! i)"
  defines "ns1 \<equiv> (if p \<noteq> kNil then ns[p := (ns ! p)\<lparr>n_next := m\<rparr>] else ns)"
  defines "ns2 \<equiv> (if m \<noteq> kNil then ns1[m := (ns1 ! m)\<lparr>n_prev := p\<rparr>] else ns1)"
  shows "dseg ns2 kNil (if p \<noteq> kNil then h else m) (as @ bs) kNil"
    and "p \<noteq> kNil \<Longrightarrow> p \<in> set as" and "m \<noteq> kNil \<Longrightarrow> m \<in> set bs"
    and "(if p \<noteq> kNil then h else m) = kNil \<longleftrightarrow> as @ bs = []"
proof -
  have sa: "dseg ns kNil h as i" and p: "p = last (kNil # as)" and sb: "dseg ns i m bs kNil"
    using seg by (auto simp: dseg_append p_def m_def)
  have bound: "\<forall>x\<in>set (as @ i # bs). x \<noteq> kNil"
    using dseg_bounds [OF seg] len by (metis linorder_not_less)
  have pnil: "p = kNil \<longleftrightarrow> as = []" using p bound by (auto simp: last_in_set)
  have mh: "m = (if bs = [] then kNil else hd bs)" using dseg_head [OF sb] .
  show pin: "p \<noteq> kNil \<Longrightarrow> p \<in> set as" using p by (auto split: if_splits)
  show min: "m \<noteq> kNil \<Longrightarrow> m \<in> set bs" using mh by (auto split: if_splits)
  have hh: "h = (if as = [] then i else hd as)" using dseg_head [OF sa] .
  show "(if p \<noteq> kNil then h else m) = kNil \<longleftrightarrow> as @ bs = []"
    using pnil mh hh bound by (auto split: if_splits)
  have a1: "dseg ns1 kNil (if p \<noteq> kNil then h else m) as m"
  proof (cases as rule: rev_cases)
    case (snoc as' a)
    then have "p = a" "p \<noteq> kNil" "a \<notin> set as'" using p pnil dist by auto
    then show ?thesis using dseg_new_tail [OF sa [unfolded snoc]] snoc by (simp add: ns1_def)
  qed (use pnil in simp)
  have b1: "dseg ns1 i m bs kNil"
    by (rule dseg_cong [OF _ _ sb]) (use pin dist in \<open>auto simp: ns1_def nth_upd\<close>)
  have a2: "dseg ns2 kNil (if p \<noteq> kNil then h else m) as m"
    by (rule dseg_cong [OF _ _ a1]) (use min dist in \<open>auto simp: ns2_def nth_upd\<close>)
  have b2: "dseg ns2 p m bs kNil"
  proof (cases bs)
    case (Cons b bs')
    then have "m = b" "m \<noteq> kNil" using mh bound by auto
    then have "ns2 = ns1[b := (ns1 ! b)\<lparr>n_prev := p\<rparr>]" by (simp add: ns2_def)
    then show ?thesis
      unfolding Cons using dseg_new_prev [OF b1 [unfolded Cons], of p] dist Cons
      by (simp only: distinct_append distinct.simps) blast
  qed (use b1 in simp)
  show "dseg ns2 kNil (if p \<noteq> kNil then h else m) (as @ bs) kNil"
    unfolding dseg_append using a2 b2 p by auto
qed

lemma unlink_frame:
  assumes ok: "lists_ok w L F D" and l: "l \<le> kDueList" and i: "i \<in> set (L l)"
  defines "ns \<equiv> tw_nodes w" and "ns' \<equiv> tw_nodes (unlink i w)"
  shows "length ns' = length ns"
    and "ns' ! i = ns ! i"
    and "\<And>j. j \<notin> set (L l) \<Longrightarrow> ns' ! j = ns ! j"
    and "\<And>j. n_list (ns' ! j) = n_list (ns ! j) \<and> same_timer (ns' ! j) (ns ! j)"
    and "dseg ns' kNil (tw_heads (unlink i w) ! l) (remove1 i (L l)) kNil"
    and "tw_heads (unlink i w) ! l = kNil \<longleftrightarrow> remove1 i (L l) = []"
    and "\<And>l'. l' \<noteq> l \<Longrightarrow> tw_heads (unlink i w) ! l' = tw_heads w ! l'"
    and "tw_occupied (unlink i w) =
      (if remove1 i (L l) = [] \<and> l < kDueList
       then (tw_occupied w)[l div 64 := tw_occupied w ! (l div 64) AND NOT (slot_bit l)]
       else tw_occupied w)"
proof -
  obtain as bs where L: "L l = as @ i # bs" by (meson i split_list)
  have dist: "distinct (as @ i # bs)" and seg: "dseg ns kNil (tw_heads w ! l) (as @ i # bs) kNil"
    and nl: "n_list (ns ! i) = l"
    using lists_okD(4,5) [OF ok l] lists_okD(6) [OF ok l i] L by (auto simp: ns_def)
  have len: "length ns \<le> kNil" using lists_okD(3) [OF ok] by (simp add: ns_def)
  have lh: "l < length (tw_heads w)" using l lists_okD(1) [OF ok] by (simp add: wheel_const_defs)
  have rm: "remove1 i (L l) = as @ bs" using dist by (simp add: L remove1_append)
  define p m where "p = n_prev (ns ! i)" and "m = n_next (ns ! i)"
  define ns1 where "ns1 = (if p \<noteq> kNil then ns[p := (ns ! p)\<lparr>n_next := m\<rparr>] else ns)"
  define ns2 where "ns2 = (if m \<noteq> kNil then ns1[m := (ns1 ! m)\<lparr>n_prev := p\<rparr>] else ns1)"
  note du = dseg_unlink [OF seg dist len, folded p_def m_def, folded ns1_def, folded ns2_def]
  have pi: "p \<noteq> kNil \<Longrightarrow> p \<noteq> i" and mi: "m \<noteq> kNil \<Longrightarrow> m \<noteq> i" using du(2,3) dist by auto
  have n1i: "ns1 ! i = ns ! i" using pi by (auto simp: ns1_def nth_upd)
  have n2i: "ns2 ! i = ns ! i" using mi n1i by (auto simp: ns2_def nth_upd)
  define w1 where "w1 = (if p \<noteq> kNil then upd_node p (\<lambda>n. n\<lparr>n_next := m\<rparr>) w else set_head l m w)"
  define w2 where "w2 = (if m \<noteq> kNil then upd_node m (\<lambda>n. n\<lparr>n_prev := p\<rparr>) w1 else w1)"
  have nw1: "tw_nodes w1 = ns1" by (simp add: w1_def ns1_def ns_def)
  have nw2: "tw_nodes w2 = ns2" by (simp add: w2_def ns2_def nw1)
  have h2: "tw_heads w2 = (if p \<noteq> kNil then tw_heads w else (tw_heads w)[l := m])"
    by (simp add: w2_def w1_def)
  have o2: "tw_occupied w2 = tw_occupied w" by (simp add: w2_def w1_def)
  have un: "unlink i w = (if tw_heads w2 ! l = kNil \<and> l < kDueList
      then upd_occupied (l div 64) (\<lambda>b. b AND NOT (slot_bit l)) w2 else w2)"
    unfolding unlink_def Let_def ns_def [symmetric] p_def [symmetric] m_def [symmetric] nl
      w1_def [symmetric] nw1 n1i w2_def [symmetric] nw2 n2i kSlotsPerLevel_def ..
  have ns': "ns' = ns2" by (simp add: ns'_def un nw2)
  have hd': "tw_heads (unlink i w) = (if p \<noteq> kNil then tw_heads w else (tw_heads w)[l := m])"
    using h2 by (simp add: un)
  have hl: "tw_heads (unlink i w) ! l = (if p \<noteq> kNil then tw_heads w ! l else m)"
    using lh by (simp add: hd')
  show "length ns' = length ns" by (simp add: ns' ns2_def ns1_def)
  show "ns' ! i = ns ! i" using n2i by (simp add: ns')
  show "ns' ! j = ns ! j" if "j \<notin> set (L l)" for j
    using that du(2,3) L by (auto simp: ns' ns2_def ns1_def nth_upd)
  show "n_list (ns' ! j) = n_list (ns ! j) \<and> same_timer (ns' ! j) (ns ! j)" for j
    by (auto simp: ns' ns2_def ns1_def nth_upd same_timer_def)
  show "dseg ns' kNil (tw_heads (unlink i w) ! l) (remove1 i (L l)) kNil"
    using du(1) by (simp only: ns' hl rm)
  show hn: "tw_heads (unlink i w) ! l = kNil \<longleftrightarrow> remove1 i (L l) = []"
    using du(4) by (simp only: hl rm)
  show "tw_heads (unlink i w) ! l' = tw_heads w ! l'" if "l' \<noteq> l" for l'
    using that by (simp add: hd')
  have "tw_heads w2 ! l = tw_heads (unlink i w) ! l" by (simp add: h2 hd')
  then show "tw_occupied (unlink i w) =
      (if remove1 i (L l) = [] \<and> l < kDueList
       then (tw_occupied w)[l div 64 := tw_occupied w ! (l div 64) AND NOT (slot_bit l)]
       else tw_occupied w)"
    using hn by (simp add: un o2)
qed

lemma unlink_other [simp]:
  "tw_now (unlink i w) = tw_now w" "tw_size (unlink i w) = tw_size w"
  "tw_free_head (unlink i w) = tw_free_head w" "length (tw_heads (unlink i w)) = length (tw_heads w)"
  "length (tw_occupied (unlink i w)) = length (tw_occupied w)"
  by (simp_all add: unlink_def Let_def)

lemma occ_clear:
  fixes occ :: "u64 list"
  assumes "length occ = 6" and "l' < kDueList"
  shows "bit (occ[l div 64 := occ ! (l div 64) AND NOT (slot_bit l)] ! (l' div 64)) (l' mod 64) \<longleftrightarrow>
    bit (occ ! (l' div 64)) (l' mod 64) \<and> l' \<noteq> l"
proof -
  have "l' div 64 < 6" "l' mod 64 < 64" using assms(2) by (simp_all add: wheel_const_defs)
  moreover have "l' = l \<longleftrightarrow> l' div 64 = l div 64 \<and> l' mod 64 = l mod 64"
    by (metis div_mult_mod_eq)
  ultimately show ?thesis
    using assms by (auto simp: nth_upd bit_and_iff bit_not_iff bit_slot_bit)
qed

lemma unlink_lists:
  assumes ok: "lists_ok w L F D" and l: "l \<le> kDueList" and i: "i \<in> set (L l)"
  shows "lists_ok (unlink i w) (L(l := remove1 i (L l))) F (insert i D)"
proof -
  note d = lists_okD [OF ok] and fr = unlink_frame [OF ok l i]
  let ?L = "L(l := remove1 i (L l))"
  have rm: "set (remove1 i (L l)) = set (L l) - {i}" using d(5) [OF l] by simp
  have same: "j \<notin> set (L l)" if "j \<in> set (L l')" "l' \<le> kDueList" "l' \<noteq> l" for j l'
    using that lists_disjoint [OF ok l that(2)] by blast
  have seg: "dseg (tw_nodes (unlink i w)) kNil (tw_heads (unlink i w) ! l') (?L l') kNil"
    if l': "l' \<le> kDueList" for l'
  proof (cases "l' = l")
    case False
    then have "dseg (tw_nodes (unlink i w)) kNil (tw_heads w ! l') (L l') kNil"
      by (intro dseg_cong [OF _ _ d(4) [OF l']]) (use fr(1,3) same [OF _ l' False] in auto)
    then show ?thesis using False fr(7) by simp
  qed (use fr(5) in simp)
  have fF: "j \<notin> set (L l)" if "j \<in> set F" for j using free_disjoint [OF ok l] that by blast
  have free: "sseg (tw_nodes (unlink i w)) (tw_free_head w) F"
    by (intro sseg_cong [OF _ _ d(7)]) (use fr(1,3) fF in auto)
  have occ: "bit (tw_occupied (unlink i w) ! (l' div 64)) (l' mod 64) \<longleftrightarrow> ?L l' \<noteq> []"
    if "l' < kDueList" for l'
    using occ_clear [OF d(2) that, of l] d(10) [OF that] i that unfolding fr(8) by auto
  show ?thesis
    unfolding lists_ok_def
  proof (intro conjI)
    show "\<forall>l'\<le>kDueList. dseg (tw_nodes (unlink i w)) kNil (tw_heads (unlink i w) ! l') (?L l') kNil \<and>
       distinct (?L l') \<and> (\<forall>j\<in>set (?L l'). n_list (tw_nodes (unlink i w) ! j) = l')"
      using seg d(5,6) fr(4) rm l by (auto simp: fun_upd_def)
    show "\<forall>j\<in>insert i D. j < length (tw_nodes (unlink i w)) \<and> j \<notin> set F \<and>
       (\<forall>l'\<le>kDueList. j \<notin> set (?L l'))"
      using d(11) fr(1) rm free_disjoint [OF ok l i] list_member_bounds [OF ok l i]
        lists_disjoint [OF ok l _ i] l by auto
    show "\<forall>j<length (tw_nodes (unlink i w)). j \<in> set F \<or> j \<in> insert i D \<or> (\<exists>l'\<le>kDueList. j \<in> set (?L l'))"
    proof (intro allI impI)
      fix j assume "j < length (tw_nodes (unlink i w))"
      then consider "j \<in> set F" | "j \<in> D" | l' where "l' \<le> kDueList" "j \<in> set (L l')"
        using d(12) fr(1) by metis
      then show "j \<in> set F \<or> j \<in> insert i D \<or> (\<exists>l'\<le>kDueList. j \<in> set (?L l'))"
      proof cases
        case 3
        then show ?thesis using rm by (cases "j = i"; cases "l' = l") auto
      qed auto
    qed
  qed (use d fr(1,4) free occ in simp_all)
qed

section \<open>Releasing, allocating and detaching entries\<close>

lemma release_other [simp]:
  "tw_now (release i w) = tw_now w" "tw_size (release i w) = tw_size w"
  "tw_heads (release i w) = tw_heads w" "tw_occupied (release i w) = tw_occupied w"
  "tw_free_head (release i w) = i"
  "tw_nodes (release i w) = (tw_nodes w)[i := (tw_nodes w ! i)\<lparr>n_generation := n_generation (tw_nodes w ! i) + 1,
     n_list := kFree, n_prev := kNil, n_next := tw_free_head w\<rparr>]"
  by (simp_all add: release_def upd_node_def)

lemma release_lists:
  assumes ok: "lists_ok w L F D" and i: "i \<in> D"
  shows "lists_ok (release i w) L (i # F) (D - {i})"
proof -
  note d = lists_okD [OF ok]
  have iD: "i < length (tw_nodes w)" "i \<notin> set F" "\<And>l. l \<le> kDueList \<Longrightarrow> i \<notin> set (L l)"
    using d(11) [OF i] by auto
  have oth: "tw_nodes (release i w) ! j = tw_nodes w ! j" if "j \<noteq> i" for j
    using that by (simp add: nth_upd)
  have seg: "dseg (tw_nodes (release i w)) kNil (tw_heads w ! l) (L l) kNil" if l: "l \<le> kDueList" for l
    by (rule dseg_cong [OF _ _ d(4) [OF l]]) (use iD(3) [OF l] oth in \<open>simp, metis\<close>)
  have free: "sseg (tw_nodes (release i w)) i (i # F)"
    using sseg_cong [OF _ _ d(7), of "tw_nodes (release i w)"] iD oth by (auto simp: nth_upd)
  show ?thesis
    unfolding lists_ok_def
  proof (intro conjI)
    show "\<forall>l\<le>kDueList. dseg (tw_nodes (release i w)) kNil (tw_heads (release i w) ! l) (L l) kNil \<and>
       distinct (L l) \<and> (\<forall>j\<in>set (L l). n_list (tw_nodes (release i w) ! j) = l)"
      using seg d(5,6) iD(3) oth by (metis release_other(3))
    show "\<forall>j\<in>set (i # F). n_list (tw_nodes (release i w) ! j) = kFree"
      using d(9) iD by (auto simp: nth_upd)
    show "\<forall>j<length (tw_nodes (release i w)). j \<in> set (i # F) \<or> j \<in> D - {i} \<or> (\<exists>l\<le>kDueList. j \<in> set (L l))"
      using d(12) by auto
  qed (use d iD free in auto)
qed

lemma allocate_lists:
  assumes ok: "lists_ok w L F D" and room: "F \<noteq> [] \<or> length (tw_nodes w) < kNil"
  shows "\<exists>i w' F'. allocate w = Some (i, w') \<and> lists_ok w' L F' (insert i D) \<and> i \<notin> D \<and>
    (\<forall>l\<le>kDueList. i \<notin> set (L l)) \<and> n_list (tw_nodes w' ! i) = kFree \<and>
    (\<forall>j<length (tw_nodes w). tw_nodes w' ! j = tw_nodes w ! j) \<and>
    (i < length (tw_nodes w) \<and> n_list (tw_nodes w ! i) = kFree \<or> i = length (tw_nodes w)) \<and>
    length (tw_nodes w') = max (length (tw_nodes w)) (Suc i) \<and>
    tw_now w' = tw_now w \<and> tw_size w' = tw_size w"
proof (cases F)
  case (Cons i F')
  note d = lists_okD [OF ok]
  have head: "tw_free_head w = i" "i < length (tw_nodes w)" "sseg (tw_nodes w) (n_next (tw_nodes w ! i)) F'"
    using d(7) Cons by auto
  let ?w = "w\<lparr>tw_free_head := n_next (tw_nodes w ! i)\<rparr>"
  have nil: "tw_free_head w \<noteq> kNil" using head kNil_gt [OF ok] by auto
  have iF: "i \<notin> set F'" "i \<notin> D" "\<And>l. l \<le> kDueList \<Longrightarrow> i \<notin> set (L l)"
    using d(8,11) free_disjoint [OF ok] Cons by auto
  have "lists_ok ?w L F' (insert i D)"
    unfolding lists_ok_def
  proof (intro conjI)
    show "\<forall>j<length (tw_nodes ?w). j \<in> set F' \<or> j \<in> insert i D \<or> (\<exists>l\<le>kDueList. j \<in> set (L l))"
      using d(12) Cons by (simp, metis)
  qed (use d head iF Cons in auto)
  then show ?thesis
    using nil head iF d(9) [of i] Cons by (auto simp: allocate_def Let_def)
next
  case Nil
  note d = lists_okD [OF ok]
  let ?w = "w\<lparr>tw_nodes := tw_nodes w @ [fresh_node]\<rparr>"
  let ?i = "length (tw_nodes w)"
  have len: "?i < kNil" using room Nil by simp
  have nil: "tw_free_head w = kNil" using d(7) Nil by simp
  have old: "tw_nodes ?w ! j = tw_nodes w ! j" if "j < ?i" for j using that by (simp add: nth_append)
  have memb: "j < ?i" if "l \<le> kDueList" "j \<in> set (L l)" for l j using list_member_bounds [OF ok] that by blast
  have seg: "dseg (tw_nodes ?w) kNil (tw_heads w ! l) (L l) kNil" if l: "l \<le> kDueList" for l
    by (rule dseg_cong [OF _ _ d(4) [OF l]]) (use memb [OF l] old in simp_all)
  have lst: "n_list (tw_nodes ?w ! j) = l" if "l \<le> kDueList" "j \<in> set (L l)" for l j
    using old memb that d(6) by simp
  have new: "?i \<notin> D" "\<And>l. l \<le> kDueList \<Longrightarrow> ?i \<notin> set (L l)" using d(11) memb by blast+
  have "lists_ok ?w L [] (insert ?i D)"
    unfolding lists_ok_def
  proof (intro conjI)
    show "\<forall>j\<in>insert ?i D. j < length (tw_nodes ?w) \<and> j \<notin> set [] \<and> (\<forall>l\<le>kDueList. j \<notin> set (L l))"
      using d(11) new by (auto simp: less_Suc_eq)
    show "\<forall>j<length (tw_nodes ?w). j \<in> set [] \<or> j \<in> insert ?i D \<or> (\<exists>l\<le>kDueList. j \<in> set (L l))"
      using d(12) Nil by (auto simp: less_Suc_eq)
  qed (use d seg lst nil len in simp_all)
  then show ?thesis
    using nil len new old
    by (auto simp: allocate_def baton_check_def fresh_node_def nth_append)
qed

end
