(* ===== verification/WheelSpec.thy ===== *)
theory WheelSpec
  imports WheelLists
begin

text \<open>
  What the timing wheel promises. \<open>pending w\<close> is the set of timers the wheel holds;
  \<open>wheel_inv\<close> is its invariant. Scheduling adds one timer, cancelling a handle removes the
  timer it names and nothing else, advancing fires exactly the timers that are due and
  always returns, and the next wake-up is never late. The locale \<open>timer_service\<close> is this
  contract as the engine uses it.
\<close>

section \<open>The pending timers and the invariant\<close>

lemma lists_ok_size: "lists_ok (w\<lparr>tw_size := n\<rparr>) L F D \<longleftrightarrow> lists_ok w L F D"
  and lists_ok_now: "lists_ok (w\<lparr>tw_now := t\<rparr>) L F D \<longleftrightarrow> lists_ok w L F D"
  by (simp_all add: lists_ok_def)

definition live :: "Wheel \<Rightarrow> nat set" where
  "live w = {i. i < length (tw_nodes w) \<and> n_list (tw_nodes w ! i) \<noteq> kFree}"

definition pending :: "Wheel \<Rightarrow> TimerEvent set" where
  "pending w = node_event w ` live w"

definition time_ok :: "Wheel \<Rightarrow> (nat \<Rightarrow> nat list) \<Rightarrow> bool" where
  "time_ok w L \<longleftrightarrow>
     (\<forall>l<kDueList. \<forall>i\<in>set (L l).
        slot_ok (unat (tw_now w)) (l div 64) (l mod 64) (unat (n_deadline (tw_nodes w ! i)))) \<and>
     (\<forall>i\<in>set (L kDueList). n_deadline (tw_nodes w ! i) \<le> tw_now w)"

definition wheel_inv :: "Wheel \<Rightarrow> bool" where
  "wheel_inv w \<longleftrightarrow> tick_ok (tw_now w) \<and> tw_size w = card (live w) \<and>
     (\<exists>L F. lists_ok w L F {} \<and> time_ok w L)"

lemma finite_live [simp]: "finite (live w)"
  by (simp add: live_def)

lemma live_lists:
  assumes ok: "lists_ok w L F {}"
  shows "live w = (\<Union>l\<le>kDueList. set (L l))"
proof -
  have "i \<in> live w \<longleftrightarrow> (\<exists>l\<le>kDueList. i \<in> set (L l))" for i
    using lists_okD(6,9,12) [OF ok] list_member_bounds [OF ok] free_disjoint [OF ok]
    by (auto simp: live_def kFree_def) (metis Suc_n_not_le_n)+
  then show ?thesis by auto
qed

lemma node_event_cong:
  "same_timer (tw_nodes w' ! i) (tw_nodes w ! i) \<Longrightarrow> node_event w' i = node_event w i"
  by (simp add: node_event_def Let_def same_timer_def)

lemma node_event_index [simp]: "th_index (te_handle (node_event w i)) = i"
  and node_event_deadline [simp]: "te_deadline (node_event w i) = n_deadline (tw_nodes w ! i)"
  by (simp_all add: node_event_def Let_def)

lemma inj_node_event: "inj_on (node_event w) A"
  by (rule inj_onI) (metis node_event_index)

lemma pending_handle_inj:
  "e \<in> pending w \<Longrightarrow> e' \<in> pending w \<Longrightarrow> th_index (te_handle e) = th_index (te_handle e') \<Longrightarrow> e = e'"
  by (auto simp: pending_def)

section \<open>Firing a set of entries\<close>

text \<open>\<open>fires w w' X\<close>: going from \<open>w\<close> to \<open>w'\<close> the timers in the entries \<open>X\<close> are gone.\<close>

definition fires :: "Wheel \<Rightarrow> Wheel \<Rightarrow> nat set \<Rightarrow> bool" where
  "fires w w' X \<longleftrightarrow> X \<subseteq> live w \<and> live w' = live w - X \<and> tw_size w' + card X = tw_size w \<and>
     (\<forall>i\<in>live w - X. same_timer (tw_nodes w' ! i) (tw_nodes w ! i))"

lemma fires_refl: "fires w w {}"
  by (simp add: fires_def)

lemma fires_trans:
  assumes a: "fires w w1 X" and b: "fires w1 w2 Y"
  shows "fires w w2 (X \<union> Y)"
proof -
  have "X \<inter> Y = {}" using a b by (auto simp: fires_def)
  moreover have "finite X" "finite Y" using a b finite_subset [OF _ finite_live] by (auto simp: fires_def)
  ultimately have "card (X \<union> Y) = card X + card Y" by (simp add: card_Un_disjoint)
  then show ?thesis
    using a b by (auto simp: fires_def intro: same_timer_trans)
qed

lemma fires_event: "fires w w' X \<Longrightarrow> i \<in> live w' \<Longrightarrow> node_event w' i = node_event w i"
  by (rule node_event_cong) (auto simp: fires_def)

lemma fires_pending:
  assumes "fires w w' X"
  shows "pending w' = {e \<in> pending w. th_index (te_handle e) \<notin> X}"
proof -
  have "live w' = live w - X" using assms by (simp add: fires_def)
  then show ?thesis using fires_event [OF assms] by (force simp: pending_def)
qed

lemma fires_size: "fires w w' X \<Longrightarrow> tw_size w = card (live w) \<Longrightarrow> tw_size w' = card (live w')"
  by (auto simp: fires_def card_Diff_subset finite_subset [OF _ finite_live])

lemma fire_detached:
  assumes ok: "lists_ok w L F D" and i: "i \<in> D" "i \<in> live w" and pos: "0 < tw_size w"
    and w': "(w', fs') = fire i (w, fs)"
  shows "lists_ok w' L (i # F) (D - {i})" and "fires w w' {i}" and "fs' = fs @ [node_event w i]"
    and "tw_now w' = tw_now w" and "\<And>j. j \<noteq> i \<Longrightarrow> tw_nodes w' ! j = tw_nodes w ! j"
    and "length (tw_nodes w') = length (tw_nodes w)"
proof -
  have eq: "w' = (release i w)\<lparr>tw_size := tw_size w - 1\<rparr>" "fs' = fs @ [node_event w i]"
    using w' by (simp_all add: fire_def Let_def)
  have "lists_ok (release i w) L (i # F) (D - {i})" by (rule release_lists [OF ok i(1)])
  then show "lists_ok w' L (i # F) (D - {i})" unfolding eq lists_ok_size .
  have "live w' = live w - {i}" using i by (auto simp: live_def eq nth_upd)
  then show "fires w w' {i}" using i pos by (auto simp: fires_def eq nth_upd)
  show "fs' = fs @ [node_event w i]" "tw_now w' = tw_now w" "length (tw_nodes w') = length (tw_nodes w)"
    by (simp_all add: eq)
  show "tw_nodes w' ! j = tw_nodes w ! j" if "j \<noteq> i" for j using that by (simp add: eq nth_upd)
qed

lemma time_ok_cong:
  assumes "time_ok w L" and "tw_now w' = tw_now w"
    and "\<And>l i. l \<le> kDueList \<Longrightarrow> i \<in> set (L' l) \<Longrightarrow> i \<in> set (L l) \<and> n_deadline (tw_nodes w' ! i) = n_deadline (tw_nodes w ! i)"
  shows "time_ok w' L'"
  using assms unfolding time_ok_def by (metis less_imp_le order_refl)

section \<open>Placing an entry\<close>

lemma upd_detached_lists:
  assumes ok: "lists_ok w L F D" and i: "i \<in> D"
    and f: "\<And>n. n_next (f n) = n_next n" "\<And>n. n_prev (f n) = n_prev n" "\<And>n. n_list (f n) = n_list n"
  shows "lists_ok (upd_node i f w) L F D"
proof -
  note d = lists_okD [OF ok]
  have same: "n_next (tw_nodes (upd_node i f w) ! j) = n_next (tw_nodes w ! j)"
    "n_prev (tw_nodes (upd_node i f w) ! j) = n_prev (tw_nodes w ! j)"
    "n_list (tw_nodes (upd_node i f w) ! j) = n_list (tw_nodes w ! j)" for j
    using f by (simp_all add: nth_upd)
  have "dseg (tw_nodes (upd_node i f w)) kNil (tw_heads w ! l) (L l) kNil" if "l \<le> kDueList" for l
    by (rule dseg_cong [OF _ _ d(4) [OF that]]) (use same in auto)
  moreover have "sseg (tw_nodes (upd_node i f w)) (tw_free_head w) F"
    by (rule sseg_cong [OF _ _ d(7)]) (use same in auto)
  ultimately show ?thesis
    unfolding lists_ok_def same using d by (auto simp del: nodes_upd_node simp: length_upd_node)
qed

lemma place_lists:
  assumes ok: "lists_ok w L F D" and i: "i \<in> D" and t: "time_ok w L" and tick: "tick_ok (tw_now w)"
  shows "\<exists>l\<le>kDueList. lists_ok (place i w) (L(l := i # L l)) F (D - {i}) \<and> time_ok (place i w) (L(l := i # L l)) \<and>
    place i w = link i l w \<and> (l = kDueList \<longleftrightarrow> n_deadline (tw_nodes w ! i) \<le> tw_now w)"
proof -
  let ?d = "n_deadline (tw_nodes w ! i)"
  have same: "n_deadline (tw_nodes (link i l w) ! j) = n_deadline (tw_nodes w ! j)" if "l \<le> kDueList" for l j
    using link_frame(5) [OF ok i that] by (simp add: same_timer_def)
  have due: "384 = kDueList" by (simp add: wheel_const_defs)
  show ?thesis
  proof (cases "?d \<le> tw_now w")
    case True
    then have "place i w = link i kDueList w" by (simp add: place_def Let_def)
    then show ?thesis
      using True link_lists [OF ok i order_refl] t same [OF order_refl]
      by (intro exI [of _ kDueList]) (auto simp: time_ok_def)
  next
    case False
    define target where "target = place_target (tw_now w) ?d"
    define level where "level = place_level (tw_now w) target"
    define slot where "slot = place_slot level target"
    define l where "l = level * 64 + slot"
    have pl: "place i w = link i l w"
      using False by (simp add: place_def Let_def l_def slot_def level_def target_def kSlotsPerLevel_def)
    have sok: "slot_ok (unat (tw_now w)) level slot (unat ?d)"
      unfolding slot_def by (rule place_slot_ok [OF _ tick target_def level_def]) (use False in simp)
    then have lt: "level < 6" "slot < 64" by (auto simp: slot_ok_def)
    then have l: "l < kDueList" "l div 64 = level" "l mod 64 = slot"
      by (simp_all add: l_def due [symmetric])
    then have "time_ok (link i l w) (L(l := i # L l))"
      using t sok same [of l] by (auto simp: time_ok_def)
    then show ?thesis
      using False l link_lists [OF ok i, of l] pl by (intro exI [of _ l]) auto
  qed
qed

section \<open>Scheduling and cancelling\<close>

lemma room_for_timer:
  assumes ok: "lists_ok w L F {}" and "card (live w) < kNil"
  shows "F \<noteq> [] \<or> length (tw_nodes w) < kNil"
proof (cases F)
  case Nil
  then have "live w = {..<length (tw_nodes w)}"
    using lists_okD(12) [OF ok] list_member_bounds [OF ok] unfolding live_lists [OF ok]
    by (auto simp: Bex_def)
  then show ?thesis using assms(2) by simp
qed simp

lemma schedule_lists:
  assumes ok: "lists_ok w L F {}" and t: "time_ok w L" and tick: "tick_ok (tw_now w)"
    and size: "tw_size w = card (live w)" and room: "tw_size w < kNil"
  shows "\<exists>h w' l F'. schedule d k x w = Some (h, w') \<and> l \<le> kDueList \<and> (l = kDueList \<longleftrightarrow> d \<le> tw_now w) \<and>
    lists_ok w' (L(l := th_index h # L l)) F' {} \<and> time_ok w' (L(l := th_index h # L l)) \<and>
    live w' = insert (th_index h) (live w) \<and> th_index h \<notin> live w \<and>
    node_event w' (th_index h) = \<lparr>te_handle = h, te_deadline = d, te_id = x, te_kind = k\<rparr> \<and>
    (\<forall>j\<in>live w. node_event w' j = node_event w j) \<and> valid_handle h \<and>
    tw_now w' = tw_now w \<and> tw_size w' = tw_size w + 1"
proof -
  obtain i w1 F1 where al: "allocate w = Some (i, w1)" and ok1: "lists_ok w1 L F1 {i}"
    and iL: "\<forall>l\<le>kDueList. i \<notin> set (L l)" and fr: "n_list (tw_nodes w1 ! i) = kFree"
    and old: "\<forall>j<length (tw_nodes w). tw_nodes w1 ! j = tw_nodes w ! j"
    and new: "i < length (tw_nodes w) \<and> n_list (tw_nodes w ! i) = kFree \<or> i = length (tw_nodes w)"
    and len: "length (tw_nodes w1) = max (length (tw_nodes w)) (Suc i)"
    and now1: "tw_now w1 = tw_now w" and sz1: "tw_size w1 = tw_size w"
    using allocate_lists [OF ok room_for_timer [OF ok]] room size by auto
  define w2 where "w2 = upd_node i (\<lambda>n. n\<lparr>n_deadline := d, n_id := x, n_kind := k\<rparr>) w1"
  have i1: "i < length (tw_nodes w1)" using len by simp
  have ok2: "lists_ok w2 L F1 {i}"
    unfolding w2_def by (rule upd_detached_lists [OF ok1]) simp_all
  have t2: "time_ok w2 L"
    by (rule time_ok_cong [OF t]) (use iL old list_member_bounds [OF ok] now1 in \<open>auto simp: w2_def nth_upd\<close>)
  have tick2: "tick_ok (tw_now w2)" using tick now1 by (simp add: w2_def)
  obtain l where l: "l \<le> kDueList" "lists_ok (place i w2) (L(l := i # L l)) F1 {}"
      "time_ok (place i w2) (L(l := i # L l))" "place i w2 = link i l w2"
      "l = kDueList \<longleftrightarrow> n_deadline (tw_nodes w2 ! i) \<le> tw_now w2"
    using place_lists [OF ok2 insertI1 t2 tick2] unfolding Diff_cancel by blast
  note lf = link_frame [OF ok2 _ l(1), of i, folded l(4), simplified]
  define w3 where "w3 = place i w2"
  let ?h = "\<lparr>th_index = i, th_generation = n_generation (tw_nodes w3 ! i)\<rparr>"
  let ?w = "w3\<lparr>tw_size := tw_size w3 + 1\<rparr>"
  have l3: "length (tw_nodes w3) = length (tw_nodes w1)" and ni3: "n_list (tw_nodes w3 ! i) = l"
    using lf(1,2) by (simp_all add: w3_def w2_def)
  have nl: "n_list (tw_nodes w3 ! j) = n_list (tw_nodes w1 ! j)" if "j \<noteq> i" for j
    using lf(4) [OF that] by (simp add: w3_def w2_def nth_upd)
  have rng: "j < length (tw_nodes w1) \<longleftrightarrow> j < length (tw_nodes w)" if "j \<noteq> i" for j
    using len new that by auto
  have "j \<in> live w3 \<longleftrightarrow> j \<in> insert i (live w)" for j
    using l(1) l3 ni3 nl rng old i1 by (cases "j = i") (auto simp: live_def kFree_def)
  then have lv: "live ?w = insert i (live w)" by (auto simp: live_def)
  have ev: "node_event ?w j = node_event w j" if "j \<in> live w" for j
    by (rule node_event_cong) (use that old new lf(5) in \<open>auto simp: live_def w3_def w2_def nth_upd same_timer_def\<close>)
  have evi: "node_event ?w i = \<lparr>te_handle = ?h, te_deadline = d, te_id = x, te_kind = k\<rparr>"
    using lf(2) i1 by (simp add: node_event_def Let_def w3_def w2_def)
  have ni: "i \<notin> live w" using new by (auto simp: live_def)
  have nw: "tw_now w3 = tw_now w" "tw_size w3 = tw_size w"
    unfolding w3_def l(4) by (simp_all add: w2_def now1 sz1)
  have "l = kDueList \<longleftrightarrow> d \<le> tw_now w" using l(5) i1 now1 by (simp add: w2_def)
  moreover have "schedule d k x w = Some (?h, ?w)"
    by (simp add: schedule_def al Let_def w2_def [symmetric] w3_def [symmetric])
  moreover have "valid_handle ?h" using kNil_gt [OF ok1 i1] by (simp add: valid_handle_def)
  moreover have "lists_ok ?w (L(l := i # L l)) F1 {}" "time_ok ?w (L(l := i # L l))"
    using l(2,3) lists_ok_size by (auto simp: w3_def [symmetric] time_ok_def)
  ultimately show ?thesis using l(1) lv ni ev evi nw
    by (intro exI [of _ ?h] exI [of _ ?w] exI [of _ l] exI [of _ F1]) simp
qed

lemma schedule_correct:
  assumes inv: "wheel_inv w" and room: "tw_size w < kNil"
  shows "\<exists>h w'. schedule d k x w = Some (h, w') \<and> wheel_inv w' \<and> tw_now w' = tw_now w \<and>
    pending w' = insert \<lparr>te_handle = h, te_deadline = d, te_id = x, te_kind = k\<rparr> (pending w) \<and>
    (\<forall>e\<in>pending w. th_index (te_handle e) \<noteq> th_index h) \<and> valid_handle h \<and>
    tw_size w' = tw_size w + 1"
proof -
  obtain L F where ok: "lists_ok w L F {}" and t: "time_ok w L" and tick: "tick_ok (tw_now w)"
    and size: "tw_size w = card (live w)"
    using inv by (auto simp: wheel_inv_def)
  obtain h w' l F' where s: "schedule d k x w = Some (h, w')" "lists_ok w' (L(l := th_index h # L l)) F' {}"
      "time_ok w' (L(l := th_index h # L l))" "live w' = insert (th_index h) (live w)" "th_index h \<notin> live w"
      "node_event w' (th_index h) = \<lparr>te_handle = h, te_deadline = d, te_id = x, te_kind = k\<rparr>"
      "\<forall>j\<in>live w. node_event w' j = node_event w j" "valid_handle h" "tw_now w' = tw_now w" "tw_size w' = tw_size w + 1"
    using schedule_lists [OF ok t tick size room, of d k x] by blast
  have "wheel_inv w'" unfolding wheel_inv_def using s tick size by auto
  moreover have "pending w' = insert \<lparr>te_handle = h, te_deadline = d, te_id = x, te_kind = k\<rparr> (pending w)"
    using s(4,6,7) by (simp add: pending_def)
  moreover have "\<forall>e\<in>pending w. th_index (te_handle e) \<noteq> th_index h" using s(5) by (auto simp: pending_def)
  ultimately show ?thesis using s(1,8-10) by (intro exI [of _ h] exI [of _ w']) simp
qed

lemma unlink_fire:
  assumes ok: "lists_ok w L F {}" and t: "time_ok w L" and size: "tw_size w = card (live w)"
    and l: "l \<le> kDueList" and i: "i \<in> set (L l)" and f: "(w', fs') = fire i (unlink i w, fs)"
  shows "\<exists>F'. lists_ok w' (L(l := remove1 i (L l))) F' {}" and "time_ok w' (L(l := remove1 i (L l)))"
    and "fires w w' {i}" and "fs' = fs @ [node_event w i]" and "tw_now w' = tw_now w"
proof -
  note fr = unlink_frame [OF ok l i]
  have ok1: "lists_ok (unlink i w) (L(l := remove1 i (L l))) F {i}" by (rule unlink_lists [OF ok l i])
  have lv: "live (unlink i w) = live w" using fr(1,4) by (simp add: live_def)
  have ilv: "i \<in> live w" using live_lists [OF ok] l i by blast
  then have pos: "0 < tw_size w" using size by (auto simp: card_gt_0_iff)
  note fd = fire_detached [OF ok1 insertI1 _ _ f, unfolded lv unlink_other, OF ilv pos]
  show "\<exists>F'. lists_ok w' (L(l := remove1 i (L l))) F' {}" using fd(1) by auto
  have same: "same_timer (tw_nodes (unlink i w) ! j) (tw_nodes w ! j)" for j using fr(4) by blast
  then have dl: "n_deadline (tw_nodes w' ! j) = n_deadline (tw_nodes w ! j)" if "j \<noteq> i" for j
    using fd(5) [OF that] by (simp add: same_timer_def)
  have nin: "j \<noteq> i" if "l' \<le> kDueList" "j \<in> set ((L(l := remove1 i (L l))) l')" for l' j
    using that lists_okD(5) [OF ok l] lists_disjoint [OF ok l _ i] by (auto split: if_splits)
  show "time_ok w' (L(l := remove1 i (L l)))"
    by (rule time_ok_cong [OF t])
      (use fd(4) dl nin in \<open>auto split: if_splits dest: in_set_remove1 notin_set_remove1 set_remove1_subset [THEN subsetD]\<close>)
  have "fires w (unlink i w) {}" using lv same by (simp add: fires_def)
  then show "fires w w' {i}" using fires_trans [OF _ fd(2)] by simp
  show "fs' = fs @ [node_event w i]" using fd(3) node_event_cong [OF same] by simp
  show "tw_now w' = tw_now w" using fd(4) by simp
qed

lemma cancel_correct:
  assumes inv: "wheel_inv w"
  shows "wheel_inv (snd (cancel h w)) \<and>
    fst (cancel h w) = (\<exists>e\<in>pending w. te_handle e = h) \<and>
    pending (snd (cancel h w)) = {e \<in> pending w. te_handle e \<noteq> h} \<and>
    tw_now (snd (cancel h w)) = tw_now w \<and> (\<not> fst (cancel h w) \<longrightarrow> snd (cancel h w) = w)"
proof -
  let ?i = "th_index h"
  have cur: "(\<exists>e\<in>pending w. te_handle e = h) \<longleftrightarrow> ?i < length (tw_nodes w) \<and>
      n_list (tw_nodes w ! ?i) \<noteq> kFree \<and> n_generation (tw_nodes w ! ?i) = th_generation h"
    by (auto simp: pending_def live_def node_event_def Let_def intro!: exI [of _ ?i])
  show ?thesis
  proof (cases "\<exists>e\<in>pending w. te_handle e = h")
    case False
    then have "cancel h w = (False, w)" using cur by (auto simp: cancel_def Let_def)
    then show ?thesis using inv False by auto
  next
    case True
    obtain L F where ok: "lists_ok w L F {}" and t: "time_ok w L" and tick: "tick_ok (tw_now w)"
      and size: "tw_size w = card (live w)"
      using inv by (auto simp: wheel_inv_def)
    have c: "cancel h w = (True, fst (fire ?i (unlink ?i w, [])))"
      using True cur by (auto simp: cancel_def fire_def Let_def)
    have "?i \<in> live w" using True cur by (auto simp: live_def)
    then obtain l where l: "l \<le> kDueList" "?i \<in> set (L l)" using live_lists [OF ok] by auto
    obtain w' fs where f: "(w', fs) = fire ?i (unlink ?i w, [])" by (metis surj_pair)
    note uf = unlink_fire [OF ok t size l f]
    have inv': "wheel_inv w'"
      unfolding wheel_inv_def using uf(1,2,5) tick fires_size [OF uf(3) size] by auto
    have "(th_index (te_handle e) \<notin> {?i}) = (te_handle e \<noteq> h)" if "e \<in> pending w" for e
      using True that pending_handle_inj [OF that] by blast
    then have "pending w' = {e \<in> pending w. te_handle e \<noteq> h}" using fires_pending [OF uf(3)] by auto
    moreover have "cancel h w = (True, w')" using c f by (metis fst_conv)
    ultimately show ?thesis using inv' uf(5) True by simp
  qed
qed

section \<open>The due list\<close>

lemma drain_due_spec:
  assumes "lists_ok w L F {}" and "time_ok w L" and "tw_size w = card (live w)" and "L kDueList = xs"
  shows "\<exists>w' F'. drain_due (w, fs) = Some (w', fs @ map (node_event w) xs) \<and>
    lists_ok w' (L(kDueList := [])) F' {} \<and> time_ok w' (L(kDueList := [])) \<and>
    fires w w' (set xs) \<and> tw_now w' = tw_now w"
  using assms
proof (induction xs arbitrary: w L F fs)
  case Nil
  then have "tw_heads w ! kDueList = kNil" using head_nil_iff by blast
  then have "drain_due (w, fs) = Some (w, fs)" by (subst drain_due.simps) simp
  moreover have "L(kDueList := []) = L" using Nil by auto
  ultimately show ?case using Nil fires_refl by auto
next
  case (Cons i xs)
  note ok = Cons.prems(1) and t = Cons.prems(2) and size = Cons.prems(3) and L = Cons.prems(4)
  have head: "tw_heads w ! kDueList = i" "i \<noteq> kNil"
    using lists_okD(4) [OF ok order_refl] L kNil_gt [OF ok] by auto
  have i: "i \<in> set (L kDueList)" using L by simp
  obtain w1 fs1 where f: "(w1, fs1) = fire i (unlink i w, fs)" by (metis surj_pair)
  note uf = unlink_fire [OF ok t size order_refl i f]
  obtain F1 where ok1: "lists_ok w1 (L(kDueList := xs)) F1 {}" using uf(1) L by auto
  have t1: "time_ok w1 (L(kDueList := xs))" using uf(2) L by simp
  obtain w' F' where d: "drain_due (w1, fs1) = Some (w', fs1 @ map (node_event w1) xs)"
    and r: "lists_ok w' (L(kDueList := [])) F' {}" "time_ok w' (L(kDueList := []))"
      "fires w1 w' (set xs)" "tw_now w' = tw_now w1"
    using Cons.IH [OF ok1 t1 fires_size [OF uf(3) size] fun_upd_same, of fs1]
    unfolding fun_upd_upd by blast
  have "drain_due (w, fs) = drain_due (w1, fs1)"
    using head f by (subst drain_due.simps) (simp add: Let_def)
  moreover have "set xs \<subseteq> live w1" using r(3) by (simp add: fires_def)
  then have "map (node_event w1) xs = map (node_event w) xs" using fires_event [OF uf(3)] by auto
  ultimately have "drain_due (w, fs) = Some (w', fs @ map (node_event w) (i # xs))"
    using d uf(4) by simp
  moreover have "fires w w' (set (i # xs))" using fires_trans [OF uf(3) r(3)] by simp
  ultimately show ?case using r(1,2,4) uf(5) by metis
qed

section \<open>One slot\<close>

lemma drain_slot_spec:
  assumes "lists_ok w L F (set xs)" and "sseg (tw_nodes w) index xs" and "distinct xs"
    and "time_ok w L" and "tick_ok (tw_now w)" and "tw_size w = card (live w)" and "set xs \<subseteq> live w"
  defines "due \<equiv> \<lambda>i. n_deadline (tw_nodes w ! i) \<le> tw_now w"
  shows "\<exists>w' L' F'. drain_slot index (w, fs) = Some (w', fs @ map (node_event w) (filter due xs)) \<and>
    lists_ok w' L' F' {} \<and> time_ok w' L' \<and> L' kDueList = L kDueList \<and>
    fires w w' (set (filter due xs)) \<and> tw_now w' = tw_now w"
  using assms(1-7) unfolding due_def
proof (induction xs arbitrary: w L F fs index)
  case Nil
  then have "drain_slot index (w, fs) = Some (w, fs)" by (subst drain_slot.simps) simp
  then show ?case using Nil fires_refl by auto
next
  case (Cons i xs)
  note ok = Cons.prems(1) and seg = Cons.prems(2) and dist = Cons.prems(3) and t = Cons.prems(4)
    and tick = Cons.prems(5) and size = Cons.prems(6) and lv = Cons.prems(7)
  have ix: "index = i" "i < length (tw_nodes w)" "sseg (tw_nodes w) (n_next (tw_nodes w ! i)) xs" "i \<noteq> kNil"
    using seg kNil_gt [OF ok] by auto
  define w1fs1 where "w1fs1 = (if n_deadline (tw_nodes w ! i) \<le> tw_now w then fire i (w, fs) else (place i w, fs))"
  obtain w1 fs1 where w1: "w1fs1 = (w1, fs1)" by (metis surj_pair)
  have step: "drain_slot index (w, fs) = drain_slot (n_next (tw_nodes w ! i)) (w1, fs1)"
    using ix w1 by (subst drain_slot.simps, cases "n_deadline (tw_nodes w ! i) \<le> tw_now w")
      (simp_all add: Let_def w1fs1_def)
  let ?hd = "if n_deadline (tw_nodes w ! i) \<le> tw_now w then [i] else []"
  have "\<exists>L1 F1. lists_ok w1 L1 F1 (set xs) \<and> time_ok w1 L1 \<and> L1 kDueList = L kDueList \<and>
      fires w w1 (set ?hd) \<and> tw_now w1 = tw_now w \<and> fs1 = fs @ map (node_event w) ?hd \<and>
      length (tw_nodes w1) = length (tw_nodes w) \<and>
      (\<forall>j. j \<noteq> i \<longrightarrow> n_next (tw_nodes w1 ! j) = n_next (tw_nodes w ! j) \<and> same_timer (tw_nodes w1 ! j) (tw_nodes w ! j))"
  proof (cases "n_deadline (tw_nodes w ! i) \<le> tw_now w")
    case True
    have ilv: "i \<in> live w" using lv by simp
    then have pos: "0 < tw_size w" using size by (auto simp: card_gt_0_iff)
    have f: "(w1, fs1) = fire i (w, fs)" using w1 True by (simp add: w1fs1_def)
    note fd = fire_detached [OF ok _ ilv pos f]
    have "set (i # xs) - {i} = set xs" using dist by auto
    then have "lists_ok w1 L (i # F) (set xs)" using fd(1) by simp
    moreover have "i \<notin> set (L l)" if "l \<le> kDueList" for l using lists_okD(11) [OF ok, of i] that by simp
    then have "time_ok w1 L" by (intro time_ok_cong [OF t]) (use fd in auto, metis)
    ultimately show ?thesis using True fd by (intro exI [of _ L] exI [of _ "i # F"]) simp
  next
    case False
    then have p: "w1 = place i w" "fs1 = fs" using w1 by (simp_all add: w1fs1_def)
    obtain l where l: "l \<le> kDueList" "lists_ok w1 (L(l := i # L l)) F (set (i # xs) - {i})"
      "time_ok w1 (L(l := i # L l))" "w1 = link i l w" "l \<noteq> kDueList"
      using place_lists [OF ok _ t tick, of i] False unfolding p by auto
    note lf = link_frame [OF ok _ l(1), of i, folded l(4)]
    have "set (i # xs) - {i} = set xs" using dist by auto
    moreover have "j \<in> live w1 \<longleftrightarrow> j \<in> live w" for j
      using lf(1,2,4) l(1) lv by (cases "j = i") (auto simp: live_def kFree_def)
    then have "live w1 = live w" by blast
    moreover have "L kDueList = (L(l := i # L l)) kDueList" using l(5) by simp
    ultimately show ?thesis
      using False l lf(1,4,5) p by (intro exI [of _ "L(l := i # L l)"] exI [of _ F]) (simp add: fires_def)
  qed
  then obtain L1 F1 where ok1: "lists_ok w1 L1 F1 (set xs)" and t1: "time_ok w1 L1"
    and L1: "L1 kDueList = L kDueList" and f1: "fires w w1 (set ?hd)" and now1: "tw_now w1 = tw_now w"
    and fs1: "fs1 = fs @ map (node_event w) ?hd" and len: "length (tw_nodes w1) = length (tw_nodes w)"
    and oth: "\<forall>j. j \<noteq> i \<longrightarrow> n_next (tw_nodes w1 ! j) = n_next (tw_nodes w ! j) \<and> same_timer (tw_nodes w1 ! j) (tw_nodes w ! j)"
    by blast
  have nin: "j \<noteq> i" if "j \<in> set xs" for j using dist that by auto
  have seg1: "sseg (tw_nodes w1) (n_next (tw_nodes w ! i)) xs"
    by (rule sseg_cong [OF _ _ ix(3)]) (use len oth nin in auto)
  have lv1: "set xs \<subseteq> live w1" using lv f1 nin by (auto simp: fires_def)
  have same: "\<forall>j\<in>set xs. n_deadline (tw_nodes w1 ! j) = n_deadline (tw_nodes w ! j) \<and> node_event w1 j = node_event w j"
  proof (intro ballI conjI)
    fix j assume "j \<in> set xs"
    then have "same_timer (tw_nodes w1 ! j) (tw_nodes w ! j)" using oth nin by simp
    then show "n_deadline (tw_nodes w1 ! j) = n_deadline (tw_nodes w ! j)" "node_event w1 j = node_event w j"
      by (simp_all add: same_timer_def node_event_def Let_def)
  qed
  define keep where "keep = filter (\<lambda>i. n_deadline (tw_nodes w ! i) \<le> tw_now w) xs"
  have keep1: "filter (\<lambda>i. n_deadline (tw_nodes w1 ! i) \<le> tw_now w1) xs = keep"
    unfolding keep_def using same now1 by (intro filter_cong) auto
  obtain w' L' F' where r: "drain_slot (n_next (tw_nodes w ! i)) (w1, fs1) = Some (w', fs1 @ map (node_event w1) keep)"
    "lists_ok w' L' F' {}" "time_ok w' L'" "L' kDueList = L1 kDueList" "fires w1 w' (set keep)" "tw_now w' = tw_now w1"
    using Cons.IH [OF ok1 seg1 _ t1 _ fires_size [OF f1 size] lv1, of fs1] dist tick now1
    unfolding keep1 by auto
  have "map (node_event w1) keep = map (node_event w) keep" using same by (auto simp: keep_def)
  moreover have "fires w w' (set ?hd \<union> set keep)" by (rule fires_trans [OF f1 r(5)])
  ultimately show ?case
    using step r fs1 now1 L1 by (intro exI [of _ w'] exI [of _ L'] exI [of _ F']) (auto simp: keep_def)
qed

section \<open>The next expiration\<close>

lemma occupied_zero_iff:
  assumes ok: "lists_ok w L F D" and level: "level < 6"
  shows "tw_occupied w ! level = 0 \<longleftrightarrow> (\<forall>s<64. L (level * 64 + s) = [])"
proof -
  have occ: "bit (tw_occupied w ! level) s \<longleftrightarrow> L (level * 64 + s) \<noteq> []" if "s < 64" for s
    using lists_okD(10) [OF ok, of "level * 64 + s"] level that by (simp add: wheel_const_defs)
  have "tw_occupied w ! level = 0 \<longleftrightarrow> (\<forall>s<64. \<not> bit (tw_occupied w ! level) s)"
    by (auto simp: bit_eq_iff dest: bit_imp_le_length)
  then show ?thesis using occ by auto
qed

lemma slot_number: "l < kDueList \<Longrightarrow> l div 64 < 6 \<and> l mod 64 < 64 \<and> l div 64 * 64 + l mod 64 = l"
  by (simp add: wheel_const_defs)

text \<open>The fold over the levels keeps the earliest expiration of the levels seen so far.\<close>

definition best_of :: "Wheel \<Rightarrow> nat \<Rightarrow> Expiration option \<Rightarrow> bool" where
  "best_of w n best \<longleftrightarrow>
     (case best of
        None \<Rightarrow> \<forall>k<n. tw_occupied w ! k = 0
      | Some e \<Rightarrow> \<exists>k<n. tw_occupied w ! k \<noteq> 0 \<and> e = level_expiration w k \<and>
          (\<forall>j<n. tw_occupied w ! j \<noteq> 0 \<longrightarrow> ex_deadline e \<le> ex_deadline (level_expiration w j)))"

lemma best_of_step:
  assumes "best_of w n best"
  shows "best_of w (Suc n) (better w best n)"
proof (cases best)
  case None
  then show ?thesis
    using assms by (auto simp: best_of_def better_def Let_def less_Suc_eq)
next
  case (Some e)
  then show ?thesis
    using assms
    by (cases "tw_occupied w ! n = 0"; cases "ex_deadline (level_expiration w n) < ex_deadline e")
      (fastforce simp: best_of_def better_def Let_def less_Suc_eq)+
qed

lemma next_expiration_best: "best_of w 6 (next_expiration w)"
proof -
  have "best_of w n (foldl (better w) None [0..<n])" for n
    by (induction n) (simp add: best_of_def, simp add: best_of_step)
  then show ?thesis by (simp add: next_expiration_def kLevels_def)
qed

lemma next_expiration_None:
  assumes "lists_ok w L F D" and "next_expiration w = None" and "l < kDueList"
  shows "L l = []"
proof -
  have "tw_occupied w ! (l div 64) = 0"
    using next_expiration_best [of w] assms(2) slot_number [OF assms(3)] by (simp add: best_of_def)
  then show ?thesis
    using occupied_zero_iff [OF assms(1), of "l div 64"] slot_number [OF assms(3)] by metis
qed

lemma next_expiration_Some:
  assumes ok: "lists_ok w L F D" and tick: "tick_ok (tw_now w)" and e: "next_expiration w = Some e"
  defines "l \<equiv> ex_level e * 64 + ex_slot e"
  shows "ex_level e < 6" and "ex_slot e < 64" and "L l \<noteq> []"
    and "unat (ex_deadline e) = slot_time (ex_level e) (ex_slot e) (unat (tw_now w))"
    and "\<And>l'. l' < kDueList \<Longrightarrow> L l' \<noteq> [] \<Longrightarrow> unat (ex_deadline e) \<le> slot_time (l' div 64) (l' mod 64) (unat (tw_now w))"
proof -
  obtain k where k: "k < 6" "tw_occupied w ! k \<noteq> 0" "e = level_expiration w k"
    and best: "\<And>j. j < 6 \<Longrightarrow> tw_occupied w ! j \<noteq> 0 \<Longrightarrow> ex_deadline e \<le> ex_deadline (level_expiration w j)"
    using next_expiration_best [of w] e by (auto simp: best_of_def)
  note ls = level_expiration_spec [OF k(1) tick k(2), folded k(3)]
  show lv: "ex_level e < 6" using ls(1) k(1) by simp
  show sl: "ex_slot e < 64" by (rule ls(2))
  show "L l \<noteq> []"
    using lists_okD(10) [OF ok, of l] ls(1,3) lv sl by (simp add: l_def wheel_const_defs)
  show "unat (ex_deadline e) = slot_time (ex_level e) (ex_slot e) (unat (tw_now w))" using ls(1,4) by simp
  show "unat (ex_deadline e) \<le> slot_time (l' div 64) (l' mod 64) (unat (tw_now w))"
    if l': "l' < kDueList" "L l' \<noteq> []" for l'
  proof -
    have n: "l' div 64 < 6" "l' mod 64 < 64" using slot_number [OF l'(1)] by auto
    have b: "bit (tw_occupied w ! (l' div 64)) (l' mod 64)" using lists_okD(10) [OF ok l'(1)] l'(2) by simp
    then have nz: "tw_occupied w ! (l' div 64) \<noteq> 0" by auto
    have "unat (ex_deadline e) \<le> unat (ex_deadline (level_expiration w (l' div 64)))"
      using best [OF n(1) nz] by (simp add: word_le_nat_alt)
    also have "\<dots> \<le> slot_time (l' div 64) (l' mod 64) (unat (tw_now w))"
      by (rule level_expiration_spec(5) [OF n(1) tick nz n(2) b])
    finally show ?thesis .
  qed
qed

section \<open>Moving time forward\<close>

lemma time_ok_later:
  assumes t: "time_ok w L" and le: "tw_now w \<le> now"
    and later: "\<And>l. l < kDueList \<Longrightarrow> L l \<noteq> [] \<Longrightarrow> unat now < slot_time (l div 64) (l mod 64) (unat (tw_now w))"
  shows "time_ok (w\<lparr>tw_now := now\<rparr>) L"
proof -
  have "slot_ok (unat now) (l div 64) (l mod 64) (unat (n_deadline (tw_nodes w ! i)))"
    if "l < kDueList" "i \<in> set (L l)" for l i
  proof (rule slot_ok_stable)
    show "slot_ok (unat (tw_now w)) (l div 64) (l mod 64) (unat (n_deadline (tw_nodes w ! i)))"
      using t that by (simp add: time_ok_def)
    show "unat (tw_now w) \<le> unat now" using le by (simp add: word_le_nat_alt)
    show "unat now < slot_time (l div 64) (l mod 64) (unat (tw_now w))" using later [OF that(1)] that(2) by fastforce
  qed
  then show ?thesis using t le by (auto simp: time_ok_def intro: order_trans)
qed

lemma detach_slot_spec:
  assumes ok: "lists_ok w L F {}" and t: "time_ok w L" and tick: "tick_ok (tw_now w)"
    and e: "next_expiration w = Some e" and d: "detach_slot e w = (index, w1)"
  defines "l \<equiv> ex_level e * 64 + ex_slot e"
  shows "lists_ok w1 (L(l := [])) F (set (L l))" and "sseg (tw_nodes w1) index (L l)"
    and "time_ok w1 (L(l := []))" and "tw_now w1 = ex_deadline e" and "tw_nodes w1 = tw_nodes w"
    and "tw_size w1 = tw_size w" and "l < kDueList" and "tw_now w < ex_deadline e"
    and "\<And>i. i \<in> set (L l) \<Longrightarrow> ex_deadline e \<le> n_deadline (tw_nodes w ! i)"
proof -
  note ne = next_expiration_Some [OF ok tick e, folded l_def] and d' = lists_okD [OF ok]
  have l: "l < kDueList" "l div 64 = ex_level e" "l mod 64 = ex_slot e"
    using ne(1,2) by (simp_all add: l_def wheel_const_defs)
  have w1: "index = tw_heads w ! l" "w1 = upd_occupied (ex_level e) (\<lambda>b. b AND NOT (push_bit (ex_slot e) 1))
      (set_head l kNil (w\<lparr>tw_now := ex_deadline e\<rparr>))"
    using d by (auto simp: detach_slot_def Let_def l_def kSlotsPerLevel_def)
  show now: "tw_now w1 = ex_deadline e" "tw_nodes w1 = tw_nodes w" "tw_size w1 = tw_size w" by (simp_all add: w1)
  show "l < kDueList" by (rule l(1))
  have occ: "tw_occupied w1 = (tw_occupied w)[l div 64 := tw_occupied w ! (l div 64) AND NOT (slot_bit l)]"
    using l by (simp add: w1 slot_bit_def kSlotsPerLevel_def)
  have lh: "l < length (tw_heads w)" using l(1) d'(1) by (simp add: wheel_const_defs)
  have seg: "dseg (tw_nodes w) kNil index (L l) kNil" using d'(4) [of l] l(1) w1(1) by simp
  then show "sseg (tw_nodes w1) index (L l)" using dseg_sseg now(2) by simp
  have heads: "tw_heads w1 = (tw_heads w)[l := kNil]" by (simp add: w1)
  show "lists_ok w1 (L(l := [])) F (set (L l))"
    unfolding lists_ok_def now(2)
  proof (intro conjI)
    show "\<forall>j\<in>set (L l). j < length (tw_nodes w) \<and> j \<notin> set F \<and> (\<forall>l'\<le>kDueList. j \<notin> set ((L(l := [])) l'))"
      using list_member_bounds [OF ok, of l] free_disjoint [OF ok, of l] lists_disjoint [OF ok, of l] l(1)
      by auto
    show "\<forall>j<length (tw_nodes w). j \<in> set F \<or> j \<in> set (L l) \<or> (\<exists>l'\<le>kDueList. j \<in> set ((L(l := [])) l'))"
      using d'(12) by (metis empty_iff fun_upd_other)
    show "\<forall>l'<kDueList. bit (tw_occupied w1 ! (l' div 64)) (l' mod 64) \<longleftrightarrow> (L(l := [])) l' \<noteq> []"
      unfolding occ using occ_clear [OF d'(2)] d'(10) by auto
  qed (use d' occ heads lh in \<open>auto simp: w1\<close>)
  have lt: "unat (tw_now w) < unat (ex_deadline e)" using ne(2,4) slot_time_bounds(1) by simp
  then show "tw_now w < ex_deadline e" by (simp add: word_less_nat_alt)
  have sok: "slot_ok (unat (tw_now w)) (l' div 64) (l' mod 64) (unat (n_deadline (tw_nodes w ! i)))"
    if "l' < kDueList" "i \<in> set (L l')" for l' i using t that by (simp add: time_ok_def)
  show "ex_deadline e \<le> n_deadline (tw_nodes w ! i)" if "i \<in> set (L l)" for i
    using sok [OF l(1) that] ne(4) l by (simp add: slot_ok_def word_le_nat_alt)
  have "unat (ex_deadline e) < slot_time (l' div 64) (l' mod 64) (unat (tw_now w))"
    if l': "l' < kDueList" "(L(l := [])) l' \<noteq> []" for l'
  proof -
    have ll: "l' \<noteq> l" "L l' \<noteq> []" using l'(2) by (auto split: if_splits)
    obtain i j where ij: "i \<in> set (L l)" "j \<in> set (L l')" using ne(3) ll(2) by (meson last_in_set)
    have "(l div 64, l mod 64) \<noteq> (l' div 64, l' mod 64)" using ll(1) by (metis div_mult_mod_eq prod.inject)
    then have "slot_time (l div 64) (l mod 64) (unat (tw_now w)) \<noteq> slot_time (l' div 64) (l' mod 64) (unat (tw_now w))"
      using slot_time_no_tie sok [OF l(1) ij(1)] sok [OF l'(1) ij(2)] by blast
    then show ?thesis using ne(4) ne(5) [OF l'(1) ll(2)] l by simp
  qed
  then have "time_ok (w\<lparr>tw_now := ex_deadline e\<rparr>) (L(l := []))"
    using t \<open>tw_now w < ex_deadline e\<close> by (intro time_ok_later) (auto simp: time_ok_def split: if_splits)
  then show "time_ok w1 (L(l := []))" using now by (simp add: time_ok_def)
qed

definition quiet :: "u64 \<Rightarrow> Wheel \<Rightarrow> (nat \<Rightarrow> nat list) \<Rightarrow> bool" where
  "quiet now w L \<longleftrightarrow> (\<forall>l<kDueList. L l \<noteq> [] \<longrightarrow>
     unat now < slot_time (l div 64) (l mod 64) (unat (tw_now w)))"

text \<open>The timers that fire by \<open>now\<close>, as entries, and the events that must be reported for them.\<close>

definition due_by :: "u64 \<Rightarrow> Wheel \<Rightarrow> nat set" where
  "due_by now w = {i \<in> live w. n_deadline (tw_nodes w ! i) \<le> now}"

definition events_for :: "Wheel \<Rightarrow> nat set \<Rightarrow> TimerEvent list \<Rightarrow> bool" where
  "events_for w X evs \<longleftrightarrow> set evs = node_event w ` X \<and> distinct evs \<and> sorted (map te_deadline evs) \<and>
     (\<forall>e\<in>set evs. tw_now w < te_deadline e)"

lemma quiet_due_by:
  assumes ok: "lists_ok w L F {}" and t: "time_ok w L" and q: "quiet now w L" and L: "L kDueList = []"
  shows "due_by now w = {}"
proof -
  have "now < n_deadline (tw_nodes w ! i)" if "i \<in> live w" for i
  proof -
    obtain l where l: "l \<le> kDueList" "i \<in> set (L l)" using \<open>i \<in> live w\<close> live_lists [OF ok] by auto
    then have lt: "l < kDueList" using L by (cases "l = kDueList") auto
    then have "slot_time (l div 64) (l mod 64) (unat (tw_now w)) \<le> unat (n_deadline (tw_nodes w ! i))"
      using t l(2) by (auto simp: time_ok_def slot_ok_def)
    moreover have "unat now < slot_time (l div 64) (l mod 64) (unat (tw_now w))"
      using q lt l(2) by (auto simp: quiet_def)
    ultimately show ?thesis by (simp add: word_less_nat_alt)
  qed
  then show ?thesis by (auto simp: due_by_def not_le)
qed

lemma events_for_combine:
  assumes f: "fires w w2 X1" and e2: "events_for w2 X2 evs2" and X2: "X2 \<subseteq> live w2"
    and ks: "X1 = set keep" "distinct keep" and t: "tw_now w2 = t" "tw_now w < t"
    and k: "\<And>i. i \<in> set keep \<Longrightarrow> n_deadline (tw_nodes w ! i) = t"
  shows "events_for w (X1 \<union> X2) (map (node_event w) keep @ evs2)"
proof -
  have ev: "node_event w2 ` X2 = node_event w ` X2" using fires_event [OF f] X2 by (intro image_cong) auto
  have disj: "X1 \<inter> X2 = {}" using f X2 by (auto simp: fires_def)
  have "set (map (node_event w) keep) \<inter> set evs2 = {}"
    using disj e2 ev ks(1) inj_node_event [of w UNIV] by (auto simp: events_for_def inj_on_def)
  moreover have "distinct (map (node_event w) keep)" using ks(2) inj_node_event by (simp add: distinct_map)
  moreover have "sorted (map te_deadline (map (node_event w) keep))"
    using k by (induction keep) auto
  moreover have lt: "\<forall>e\<in>set evs2. t < te_deadline e" using e2 t(1) by (simp add: events_for_def)
  moreover have "\<forall>e\<in>set evs2. t \<le> te_deadline e \<and> tw_now w < te_deadline e"
    using lt t(2) less_imp_le less_trans by metis
  ultimately show ?thesis
    using e2 ev ks(1) t(2) k by (simp add: events_for_def sorted_append image_Un ball_Un)
qed

lemma advance_loop_spec:
  assumes "lists_ok w L F {}" and "time_ok w L" and "L kDueList = []" and "tw_size w = card (live w)"
    and "tick_ok now" and "tw_now w \<le> now"
  shows "\<exists>w' L' F' evs. advance_loop now (w, fs) = Some (w', fs @ evs) \<and> lists_ok w' L' F' {} \<and>
    time_ok w' L' \<and> L' kDueList = [] \<and> quiet now w' L' \<and> tw_now w' \<le> now \<and>
    fires w w' (due_by now w) \<and> events_for w (due_by now w) evs"
  using assms
proof (induction "unat now - unat (tw_now w)" arbitrary: w L F fs rule: less_induct)
  case less
  note ok = less.prems(1) and t = less.prems(2) and L = less.prems(3) and size = less.prems(4)
    and tn = less.prems(5) and le = less.prems(6)
  have tick: "tick_ok (tw_now w)" using tn le by (simp add: tick_ok_def word_le_nat_alt)
  have stop: ?case if s: "advance_loop now (w, fs) = Some (w, fs)" and q: "quiet now w L"
  proof -
    have "due_by now w = {}" by (rule quiet_due_by [OF ok t q L])
    then have "fires w w (due_by now w)" "events_for w (due_by now w) []"
      using fires_refl by (simp_all add: events_for_def)
    then show ?thesis using s q ok t L le by (intro exI [of _ w] exI [of _ L] exI [of _ F] exI [of _ "[]"]) simp
  qed
  show ?case
  proof (cases "next_expiration w")
    case None
    then have "quiet now w L" using next_expiration_None [OF ok] by (simp add: quiet_def)
    moreover have "advance_loop now (w, fs) = Some (w, fs)" using None by (subst advance_loop.simps) simp
    ultimately show ?thesis using stop by blast
  next
    case (Some e)
    show ?thesis
    proof (cases "ex_deadline e > now")
      case True
      then have "quiet now w L"
        using next_expiration_Some(5) [OF ok tick Some] by (fastforce simp: quiet_def word_less_nat_alt)
      moreover have "advance_loop now (w, fs) = Some (w, fs)" using Some True by (subst advance_loop.simps) simp
      ultimately show ?thesis using stop by blast
    next
      case False
      obtain index w1 where d: "detach_slot e w = (index, w1)" by (metis surj_pair)
      define l where "l = ex_level e * 64 + ex_slot e"
      note ds = detach_slot_spec [OF ok t tick Some d, folded l_def]
      have lv: "live w1 = live w" and sz: "tw_size w1 = card (live w1)" using ds(5,6) size by (simp_all add: live_def)
      have Lsub: "set (L l) \<subseteq> live w" using live_lists [OF ok] ds(7) by (auto simp: less_imp_le)
      have tick1: "tick_ok (tw_now w1)" using tn False ds(4) by (simp add: tick_ok_def word_le_nat_alt not_less)
      have dist: "distinct (L l)" using lists_okD(5) [OF ok] ds(7) by simp
      define keep where "keep = filter (\<lambda>i. n_deadline (tw_nodes w1 ! i) \<le> tw_now w1) (L l)"
      obtain w2 L2 F2 where r: "drain_slot index (w1, fs) = Some (w2, fs @ map (node_event w1) keep)"
        and ok2: "lists_ok w2 L2 F2 {}" and t2: "time_ok w2 L2" and L2: "L2 kDueList = []"
        and f12: "fires w1 w2 (set keep)" and n2: "tw_now w2 = ex_deadline e"
        using drain_slot_spec [OF ds(1,2) dist ds(3) tick1 sz Lsub [folded lv], of fs, folded keep_def] L ds(4,7)
        by auto
      have f: "fires w w2 (set keep)" using f12 ds(5,6) lv by (simp add: fires_def)
      have kd: "n_deadline (tw_nodes w ! i) = ex_deadline e" if "i \<in> set keep" for i
        using that ds(9) [of i] ds(4,5) by (auto simp: keep_def)
      have le2: "tw_now w2 \<le> now" using n2 False by simp
      have dec: "unat now - unat (tw_now w2) < unat now - unat (tw_now w)"
        using ds(8) n2 le2 by (simp add: word_less_nat_alt word_le_nat_alt)
      obtain w' L' F' evs where r2: "advance_loop now (w2, fs @ map (node_event w1) keep) = Some (w', (fs @ map (node_event w1) keep) @ evs)"
        "lists_ok w' L' F' {}" "time_ok w' L'" "L' kDueList = []" "quiet now w' L'" "tw_now w' \<le> now"
        "fires w2 w' (due_by now w2)" "events_for w2 (due_by now w2) evs"
        using less.hyps [OF dec ok2 t2 L2 fires_size [OF f size] tn le2, of "fs @ map (node_event w1) keep"] by blast
      have due: "due_by now w = set keep \<union> due_by now w2"
        using f kd False by (auto simp: due_by_def fires_def same_timer_def)
      have ev1: "map (node_event w1) keep = map (node_event w) keep" by (simp add: node_event_def ds(5))
      have "events_for w (due_by now w) (map (node_event w) keep @ evs)"
        unfolding due using f r2(8) _ refl _ n2 ds(8) kd
        by (rule events_for_combine) (use dist in \<open>auto simp: due_by_def keep_def\<close>)
      moreover have "fires w w' (due_by now w)" unfolding due by (rule fires_trans [OF f r2(7)])
      moreover have "advance_loop now (w, fs) = Some (w', fs @ (map (node_event w) keep @ evs))"
        using Some False d r r2(1) ev1 by (subst advance_loop.simps) simp
      ultimately show ?thesis using r2(2-6) by blast
    qed
  qed
qed

lemma drain_due_events:
  assumes ok: "lists_ok w L F {}" and t: "time_ok w L" and size: "tw_size w = card (live w)"
  shows "\<exists>w' F'. drain_due (w, []) = Some (w', map (node_event w) (L kDueList)) \<and>
    lists_ok w' (L(kDueList := [])) F' {} \<and> time_ok w' (L(kDueList := [])) \<and>
    fires w w' (due_by (tw_now w) w) \<and> tw_now w' = tw_now w \<and> set (L kDueList) = due_by (tw_now w) w"
proof -
  obtain w' F' where r: "drain_due (w, []) = Some (w', map (node_event w) (L kDueList))"
    "lists_ok w' (L(kDueList := [])) F' {}" "time_ok w' (L(kDueList := []))"
    "fires w w' (set (L kDueList))" "tw_now w' = tw_now w"
    using drain_due_spec [OF ok t size refl, of "[]"] by auto
  have "n_deadline (tw_nodes w ! i) \<le> tw_now w \<longleftrightarrow> i \<in> set (L kDueList)" if "l \<le> kDueList" "i \<in> set (L l)" for i l
  proof (cases "l = kDueList")
    case False
    then have "l < kDueList" using that by simp
    then have "unat (tw_now w) < unat (n_deadline (tw_nodes w ! i))"
      using t that(2) by (intro slot_ok_future) (auto simp: time_ok_def)
    moreover have "i \<notin> set (L kDueList)" using lists_disjoint [OF ok order_refl that(1) _ that(2)] False by blast
    ultimately show ?thesis by (simp add: word_le_nat_alt)
  qed (use t that in \<open>simp add: time_ok_def\<close>)
  then have "set (L kDueList) = due_by (tw_now w) w" by (auto simp: due_by_def live_lists [OF ok])
  then show ?thesis using r by auto
qed

lemma advance_correct:
  assumes inv: "wheel_inv w" and tn: "tick_ok now"
  shows "\<exists>w' due rest. advance now w = Some (w', due @ rest) \<and> wheel_inv w' \<and>
    tw_now w' = max (tw_now w) now \<and> distinct (due @ rest) \<and>
    set (due @ rest) = {e \<in> pending w. te_deadline e \<le> max (tw_now w) now} \<and>
    pending w' = {e \<in> pending w. max (tw_now w) now < te_deadline e} \<and>
    (\<forall>e\<in>set due. te_deadline e \<le> tw_now w) \<and> (\<forall>e\<in>set rest. tw_now w < te_deadline e) \<and>
    sorted (map te_deadline rest)"
proof -
  obtain L F where ok: "lists_ok w L F {}" and t: "time_ok w L" and tick: "tick_ok (tw_now w)"
    and size: "tw_size w = card (live w)"
    using inv by (auto simp: wheel_inv_def)
  define due where "due = map (node_event w) (L kDueList)"
  obtain w1 F1 where d: "drain_due (w, []) = Some (w1, due)" and ok1: "lists_ok w1 (L(kDueList := [])) F1 {}"
    and t1: "time_ok w1 (L(kDueList := []))" and f1: "fires w w1 (due_by (tw_now w) w)"
    and now1: "tw_now w1 = tw_now w" and Ld: "set (L kDueList) = due_by (tw_now w) w"
    using drain_due_events [OF ok t size] due_def by blast
  have pend: "{e \<in> pending w. te_deadline e \<le> n} = node_event w ` due_by n w" for n
    by (auto simp: pending_def due_by_def)
  have sdue: "set due = node_event w ` due_by (tw_now w) w" by (simp add: due_def Ld)
  have ddue: "distinct due" using lists_okD(5) [OF ok] inj_node_event by (simp add: due_def distinct_map)
  have keep: "pending w' = {e \<in> pending w. n < te_deadline e}" if "fires w w' (due_by n w)" for w' n
    using fires_pending [OF that] by (auto simp: pending_def due_by_def not_le)
  show ?thesis
  proof (cases "now \<le> tw_now w")
    case True
    have "advance now w = Some (w1, due)" using d True now1 by (simp add: advance_def)
    moreover have "wheel_inv w1"
      unfolding wheel_inv_def using ok1 t1 now1 tick fires_size [OF f1 size] by auto
    moreover have "max (tw_now w) now = tw_now w" using True by (simp add: max_def)
    ultimately show ?thesis
      using sdue ddue keep [OF f1] now1 pend [of "tw_now w"]
      by (intro exI [of _ w1] exI [of _ due] exI [of _ "[]"]) (auto simp: due_by_def)
  next
    case False
    then have le: "tw_now w1 \<le> now" using now1 by simp
    obtain w2 L2 F2 rest where a: "advance_loop now (w1, due) = Some (w2, due @ rest)"
      and ok2: "lists_ok w2 L2 F2 {}" and t2: "time_ok w2 L2" and q: "quiet now w2 L2" and le2: "tw_now w2 \<le> now"
      and f2: "fires w1 w2 (due_by now w1)" and ev: "events_for w1 (due_by now w1) rest"
      using advance_loop_spec [OF ok1 t1 fun_upd_same fires_size [OF f1 size] tn le, of due] by blast
    let ?w = "w2\<lparr>tw_now := now\<rparr>"
    have adv: "advance now w = Some (?w, due @ rest)" using d a False now1 by (simp add: advance_def)
    have due: "due_by now w = due_by (tw_now w) w \<union> due_by now w1"
      using f1 False by (auto simp: due_by_def fires_def same_timer_def)
    have f: "fires w w2 (due_by now w)" unfolding due by (rule fires_trans [OF f1 f2])
    have evw: "node_event w1 ` due_by now w1 = node_event w ` due_by now w1"
      using fires_event [OF f1] by (intro image_cong) (auto simp: due_by_def)
    have inv2: "wheel_inv ?w"
      unfolding wheel_inv_def
    proof (intro conjI exI)
      show "time_ok ?w L2" using t2 le2 q by (intro time_ok_later) (auto simp: quiet_def)
      show "lists_ok ?w L2 F2 {}" using ok2 by (simp only: lists_ok_now)
    qed (use tn fires_size [OF f size] in \<open>simp_all add: live_def\<close>)
    have dle: "\<forall>e\<in>set due. te_deadline e \<le> tw_now w" using sdue by (auto simp: due_by_def)
    have rlt: "\<forall>e\<in>set rest. tw_now w < te_deadline e" and rs: "distinct rest" "sorted (map te_deadline rest)"
      and rset: "set rest = node_event w ` due_by now w1"
      using ev evw now1 by (simp_all add: events_for_def)
    have "set due \<inter> set rest = {}" using dle rlt by (auto simp: not_less [symmetric])
    then have dd: "distinct (due @ rest)" using ddue rs by simp
    have st: "set (due @ rest) = {e \<in> pending w. te_deadline e \<le> now}"
      unfolding pend due using sdue rset by (simp add: image_Un)
    have "max (tw_now w) now = now" using False by (intro max_absorb2) simp
    moreover have "pending ?w = {e \<in> pending w. now < te_deadline e}"
      using keep [OF f] by (simp add: pending_def live_def node_event_def)
    ultimately show ?thesis
      using adv inv2 dd st dle rlt rs(2)
      by (intro exI [of _ ?w] exI [of _ due] exI [of _ rest]) simp
  qed
qed

lemma next_wakeup_correct:
  assumes inv: "wheel_inv w"
  shows "case next_wakeup w of None \<Rightarrow> pending w = {}
    | Some t \<Rightarrow> pending w \<noteq> {} \<and> tw_now w \<le> t \<and> (\<forall>e\<in>pending w. t \<le> max (tw_now w) (te_deadline e))"
proof -
  obtain L F where ok: "lists_ok w L F {}" and t: "time_ok w L" and tick: "tick_ok (tw_now w)"
    using inv by (auto simp: wheel_inv_def)
  note lv = live_lists [OF ok]
  show ?thesis
  proof (cases "L kDueList = []")
    case False
    then have "next_wakeup w = Some (tw_now w)" using head_nil_iff [OF ok, of kDueList] by (simp add: next_wakeup_def)
    moreover have "live w \<noteq> {}" using False lv by auto
    ultimately show ?thesis by (simp add: pending_def)
  next
    case True
    then have nw: "next_wakeup w = map_option ex_deadline (next_expiration w)"
      using head_nil_iff [OF ok, of kDueList] by (simp add: next_wakeup_def)
    have slot: "\<exists>l<kDueList. i \<in> set (L l)" if "i \<in> live w" for i
      using that True lv by (auto simp: order_le_less)
    show ?thesis
    proof (cases "next_expiration w")
      case None
      then show ?thesis using nw slot next_expiration_None [OF ok None] by (fastforce simp: pending_def)
    next
      case (Some e)
      note ne = next_expiration_Some [OF ok tick Some]
      have "tw_now w \<le> ex_deadline e"
        using ne(4) slot_time_bounds(1) [OF ne(2), of "unat (tw_now w)" "ex_level e"] by (simp add: word_le_nat_alt)
      moreover have "live w \<noteq> {}"
        using ne(1-3) lv by (auto simp: wheel_const_defs intro!: bexI [of _ "ex_level e * 64 + ex_slot e"])
      moreover have "ex_deadline e \<le> n_deadline (tw_nodes w ! i)" if i: "i \<in> live w" for i
      proof -
        obtain l where l: "l < kDueList" "i \<in> set (L l)" using slot [OF i] by blast
        then have "slot_time (l div 64) (l mod 64) (unat (tw_now w)) \<le> unat (n_deadline (tw_nodes w ! i))"
          using t by (auto simp: time_ok_def slot_ok_def)
        moreover have "L l \<noteq> []" using l(2) by auto
        ultimately show ?thesis using ne(5) [OF l(1)] by (simp add: word_le_nat_alt)
      qed
      ultimately show ?thesis using nw Some by (auto simp: pending_def le_max_iff_disj)
    qed
  qed
qed

section \<open>The contract of a timer service\<close>

locale timer_service =
  fixes inv :: "'w \<Rightarrow> bool" and pend :: "'w \<Rightarrow> TimerEvent set" and clock :: "'w \<Rightarrow> u64"
    and count :: "'w \<Rightarrow> nat"
    and sched :: "u64 \<Rightarrow> byte \<Rightarrow> u64 \<Rightarrow> 'w \<Rightarrow> (TimerHandle \<times> 'w) option"
    and canc :: "TimerHandle \<Rightarrow> 'w \<Rightarrow> bool \<times> 'w"
    and adv :: "u64 \<Rightarrow> 'w \<Rightarrow> ('w \<times> TimerEvent list) option"
  assumes count: "inv w \<Longrightarrow> finite (pend w) \<and> count w = card (pend w)"
    and one_per_handle: "e \<in> pend w \<Longrightarrow> e' \<in> pend w \<Longrightarrow>
          th_index (te_handle e) = th_index (te_handle e') \<Longrightarrow> e = e'"
    and sched: "inv w \<Longrightarrow> count w < kNil \<Longrightarrow>
          \<exists>h w'. sched d k x w = Some (h, w') \<and> inv w' \<and> clock w' = clock w \<and>
            pend w' = insert \<lparr>te_handle = h, te_deadline = d, te_id = x, te_kind = k\<rparr> (pend w) \<and>
            (\<forall>e\<in>pend w. th_index (te_handle e) \<noteq> th_index h) \<and> valid_handle h"
    and canc: "inv w \<Longrightarrow> inv (snd (canc h w)) \<and> clock (snd (canc h w)) = clock w \<and>
          fst (canc h w) = (\<exists>e\<in>pend w. te_handle e = h) \<and>
          pend (snd (canc h w)) = {e \<in> pend w. te_handle e \<noteq> h}"
    and adv: "inv w \<Longrightarrow> tick_ok now \<Longrightarrow>
          \<exists>w' evs. adv now w = Some (w', evs) \<and> inv w' \<and> clock w' = max (clock w) now \<and>
            distinct evs \<and> set evs = {e \<in> pend w. te_deadline e \<le> max (clock w) now} \<and>
            pend w' = {e \<in> pend w. max (clock w) now < te_deadline e}"
begin

lemma sched_Some:
  assumes "inv w" and "count w < kNil" and "sched d k x w = Some (h, w')"
  shows "inv w'" and "clock w' = clock w"
    and "pend w' = insert \<lparr>te_handle = h, te_deadline = d, te_id = x, te_kind = k\<rparr> (pend w)"
    and "\<And>e. e \<in> pend w \<Longrightarrow> th_index (te_handle e) \<noteq> th_index h" and "valid_handle h"
    and "count w' = count w + 1"
proof -
  note s = sched [OF assms(1,2), of d k x, unfolded assms(3)]
  show i: "inv w'" and "clock w' = clock w"
    and p: "pend w' = insert \<lparr>te_handle = h, te_deadline = d, te_id = x, te_kind = k\<rparr> (pend w)"
    and n: "\<And>e. e \<in> pend w \<Longrightarrow> th_index (te_handle e) \<noteq> th_index h" and "valid_handle h"
    using s by auto
  have "\<lparr>te_handle = h, te_deadline = d, te_id = x, te_kind = k\<rparr> \<notin> pend w" using n by fastforce
  then show "count w' = count w + 1" using count [OF assms(1)] count [OF i] p by simp
qed

text \<open>A timer that is cancelled right away was never there.\<close>

lemma sched_then_canc:
  assumes "inv w" and "count w < kNil" and "sched d k x w = Some (h, w')"
  shows "fst (canc h w')" and "pend (snd (canc h w')) = pend w"
  using canc [OF sched_Some(1) [OF assms], of h] sched_Some(3,4) [OF assms] by auto

text \<open>A handle that fired or was cancelled is stale: cancelling it again changes nothing.\<close>

lemma canc_stale:
  assumes "inv w"
  shows "\<not> fst (canc h (snd (canc h w)))"
    and "pend (snd (canc h (snd (canc h w)))) = pend (snd (canc h w))"
  using canc [OF assms, of h] canc [of "snd (canc h w)" h] by auto

lemma fired_stale:
  assumes "inv w" and "tick_ok now" and "adv now w = Some (w', evs)" and "e \<in> set evs"
  shows "\<not> fst (canc (te_handle e) w')"
proof -
  have w': "inv w'" "set evs = {e \<in> pend w. te_deadline e \<le> max (clock w) now}"
    "pend w' = {e \<in> pend w. max (clock w) now < te_deadline e}"
    using adv [OF assms(1,2)] assms(3) by auto
  have "e' = e" if "e' \<in> pend w'" "te_handle e' = te_handle e" for e'
    using that w' assms(4) one_per_handle [of e' w e] by auto
  moreover have "e \<notin> pend w'" using w'(2,3) assms(4) by (auto simp: le_max_iff_disj not_le)
  ultimately have "\<not> (\<exists>e'\<in>pend w'. te_handle e' = te_handle e)" by blast
  then show ?thesis using canc [OF w'(1)] by simp
qed

end

lemma card_pending: "card (pending w) = card (live w)"
  unfolding pending_def by (rule card_image) (rule inj_node_event)

interpretation wheel: timer_service wheel_inv pending tw_now tw_size schedule cancel advance
proof unfold_locales
  fix w assume "wheel_inv w"
  then show "finite (pending w) \<and> tw_size w = card (pending w)"
    by (simp add: card_pending wheel_inv_def) (simp add: pending_def)
next
  fix w now assume "wheel_inv w" "tick_ok now"
  from advance_correct [OF this]
  show "\<exists>w' evs. advance now w = Some (w', evs) \<and> wheel_inv w' \<and> tw_now w' = max (tw_now w) now \<and>
      distinct evs \<and> set evs = {e \<in> pending w. te_deadline e \<le> max (tw_now w) now} \<and>
      pending w' = {e \<in> pending w. max (tw_now w) now < te_deadline e}"
    by blast
next
  fix w d k x assume "wheel_inv w" "tw_size w < kNil"
  from schedule_correct [OF this, of d k x]
  show "\<exists>h w'. schedule d k x w = Some (h, w') \<and> wheel_inv w' \<and> tw_now w' = tw_now w \<and>
      pending w' = insert \<lparr>te_handle = h, te_deadline = d, te_id = x, te_kind = k\<rparr> (pending w) \<and>
      (\<forall>e\<in>pending w. th_index (te_handle e) \<noteq> th_index h) \<and> valid_handle h"
    by blast
qed (use cancel_correct pending_handle_inj in blast)+

lemma mk_wheel_correct:
  assumes "tick_ok now"
  shows "wheel_inv (mk_wheel now)" and "pending (mk_wheel now) = {}" and "tw_now (mk_wheel now) = now"
proof -
  have "lists_ok (mk_wheel now) (\<lambda>_. []) [] {}"
    by (simp add: lists_ok_def mk_wheel_def wheel_const_defs)
  moreover have "time_ok (mk_wheel now) (\<lambda>_. [])" by (simp add: time_ok_def)
  moreover have "live (mk_wheel now) = {}" by (simp add: live_def mk_wheel_def)
  ultimately show "wheel_inv (mk_wheel now)" "pending (mk_wheel now) = {}"
    using assms by (auto simp: wheel_inv_def pending_def mk_wheel_def)
  show "tw_now (mk_wheel now) = now" by (simp add: mk_wheel_def)
qed

section \<open>Properties\<close>

text \<open>
  C23: advancing the wheel always returns. It reports each pending timer whose
  deadline has been reached exactly once and no other timer, keeps the rest pending, and
  reports the timers that became due since the last call in deadline order. Time never
  moves backwards.
\<close>
theorem wheel_advance_fires_due:
  assumes "wheel_inv w" and "tick_ok now"
  shows "\<exists>w' due rest. advance now w = Some (w', due @ rest) \<and> wheel_inv w' \<and>
    tw_now w' = max (tw_now w) now \<and> distinct (due @ rest) \<and>
    set (due @ rest) = {e \<in> pending w. te_deadline e \<le> max (tw_now w) now} \<and>
    pending w' = {e \<in> pending w. max (tw_now w) now < te_deadline e} \<and>
    (\<forall>e\<in>set due. te_deadline e \<le> tw_now w) \<and> (\<forall>e\<in>set rest. tw_now w < te_deadline e) \<and>
    sorted (map te_deadline rest)"
  using assms by (rule advance_correct)

theorem wheel_advance_fires_due_witness:
  "tick_ok 500 \<and> (\<exists>h w. schedule 300 1 7 (mk_wheel 10) = Some (h, w) \<and> wheel_inv w \<and>
     (\<exists>w' due rest. advance 500 w = Some (w', due @ rest) \<and> pending w' = {} \<and>
        set (due @ rest) = {\<lparr>te_handle = h, te_deadline = 300, te_id = 7, te_kind = 1\<rparr>}))"
proof -
  have tick: "tick_ok 10" "tick_ok 500" by (simp_all add: tick_ok_def)
  note mk = mk_wheel_correct [OF tick(1)]
  obtain h w where s: "schedule 300 1 7 (mk_wheel 10) = Some (h, w)" "wheel_inv w" "tw_now w = 10"
    "pending w = {\<lparr>te_handle = h, te_deadline = 300, te_id = 7, te_kind = 1\<rparr>}"
    using schedule_correct [OF mk(1), of 300 1 7] mk by (auto simp: mk_wheel_def kNil_def)
  obtain w' due rest where a: "advance 500 w = Some (w', due @ rest)"
    "set (due @ rest) = {e \<in> pending w. te_deadline e \<le> max (tw_now w) 500}"
    "pending w' = {e \<in> pending w. max (tw_now w) 500 < te_deadline e}"
    using wheel_advance_fires_due [OF s(2) tick(2)] by blast
  have "set (due @ rest) = pending w" "pending w' = {}" unfolding a(2,3) s(3,4) by auto
  then show ?thesis using tick(2) s a(1) by blast
qed

text \<open>
  C24: cancelling a handle succeeds exactly when the handle names a pending timer.
  Then that timer and no other is removed; with a stale handle the wheel is unchanged.
\<close>
theorem wheel_cancel_exact:
  assumes "wheel_inv w"
  shows "wheel_inv (snd (cancel h w)) \<and> fst (cancel h w) = (\<exists>e\<in>pending w. te_handle e = h) \<and>
    pending (snd (cancel h w)) = {e \<in> pending w. te_handle e \<noteq> h} \<and>
    (\<not> fst (cancel h w) \<longrightarrow> snd (cancel h w) = w)"
  using cancel_correct [OF assms] by blast

theorem wheel_cancel_exact_witness:
  "wheel_inv (mk_wheel 5) \<and> snd (cancel \<lparr>th_index = 0, th_generation = 0\<rparr> (mk_wheel 5)) = mk_wheel 5"
proof -
  have tick: "tick_ok 5" by (simp add: tick_ok_def)
  note mk = mk_wheel_correct [OF tick]
  show ?thesis
    using wheel_cancel_exact [OF mk(1), of "\<lparr>th_index = 0, th_generation = 0\<rparr>"] mk by simp
qed

text \<open>
  C25: the next wake-up exists exactly when a timer is pending. It is not in the past
  and never later than a deadline that is still ahead, so sleeping until it makes no timer
  late.
\<close>
theorem wheel_next_wakeup_not_late:
  assumes "wheel_inv w"
  shows "case next_wakeup w of None \<Rightarrow> pending w = {}
    | Some t \<Rightarrow> pending w \<noteq> {} \<and> tw_now w \<le> t \<and> (\<forall>e\<in>pending w. t \<le> max (tw_now w) (te_deadline e))"
  using assms by (rule next_wakeup_correct)

theorem wheel_next_wakeup_not_late_witness:
  "\<exists>h w t. schedule 5000 2 9 (mk_wheel 1000) = Some (h, w) \<and> wheel_inv w \<and>
     next_wakeup w = Some t \<and> 1000 \<le> t \<and> t \<le> 5000"
proof -
  have tick: "tick_ok 1000" by (simp add: tick_ok_def)
  note mk = mk_wheel_correct [OF tick]
  obtain h w where s: "schedule 5000 2 9 (mk_wheel 1000) = Some (h, w)" "wheel_inv w" "tw_now w = 1000"
    "pending w = {\<lparr>te_handle = h, te_deadline = 5000, te_id = 9, te_kind = 2\<rparr>}"
    using schedule_correct [OF mk(1), of 5000 2 9] mk by (auto simp: mk_wheel_def kNil_def)
  then show ?thesis using wheel_next_wakeup_not_late [OF s(2)]
    by (cases "next_wakeup w") (auto simp: max_def)
qed

section \<open>Timers that are already due\<close>

text \<open>Timers scheduled one after the other: deadline, kind and id of each; the events their firing reports.\<close>

primrec schedule_all :: "(u64 \<times> byte \<times> u64) list \<Rightarrow> Wheel \<Rightarrow> (TimerEvent list \<times> Wheel) option" where
  "schedule_all [] w = Some ([], w)"
| "schedule_all (t # ts) w = (case t of (d, k, x) \<Rightarrow> do {
     (h, w1) \<leftarrow> schedule d k x w;
     (es, w2) \<leftarrow> schedule_all ts w1;
     Some (\<lparr>te_handle = h, te_deadline = d, te_id = x, te_kind = k\<rparr> # es, w2)
   })"

definition due_front :: "Wheel \<Rightarrow> TimerEvent list \<Rightarrow> bool" where
  "due_front w es \<longleftrightarrow> tick_ok (tw_now w) \<and> tw_size w = card (live w) \<and>
     (\<exists>L F rest. lists_ok w L F {} \<and> time_ok w L \<and> map (node_event w) (L kDueList) = es @ rest)"

lemma due_front_start: "wheel_inv w \<Longrightarrow> due_front w []"
  by (auto simp: wheel_inv_def due_front_def)

lemma due_front_schedule:
  assumes f: "due_front w es" and room: "tw_size w < kNil" and d: "d \<le> tw_now w"
  shows "\<exists>h w'. schedule d k x w = Some (h, w') \<and> tw_now w' = tw_now w \<and> tw_size w' = tw_size w + 1 \<and>
    due_front w' (\<lparr>te_handle = h, te_deadline = d, te_id = x, te_kind = k\<rparr> # es)"
proof -
  obtain L F rest where ok: "lists_ok w L F {}" and t: "time_ok w L" and es: "map (node_event w) (L kDueList) = es @ rest"
      and tick: "tick_ok (tw_now w)" and size: "tw_size w = card (live w)"
    using f by (auto simp: due_front_def)
  obtain h w' F' where s: "schedule d k x w = Some (h, w')" "lists_ok w' (L(kDueList := th_index h # L kDueList)) F' {}"
      "time_ok w' (L(kDueList := th_index h # L kDueList))" "live w' = insert (th_index h) (live w)" "th_index h \<notin> live w"
      "node_event w' (th_index h) = \<lparr>te_handle = h, te_deadline = d, te_id = x, te_kind = k\<rparr>"
      "\<forall>j\<in>live w. node_event w' j = node_event w j" "tw_now w' = tw_now w" "tw_size w' = tw_size w + 1"
    using schedule_lists [OF ok t tick size room, of d k x] d by blast
  have "set (L kDueList) \<subseteq> live w" using live_lists [OF ok] by auto
  then have "map (node_event w') (L kDueList) = map (node_event w) (L kDueList)" using s(7) by (intro map_cong) auto
  then have "map (node_event w') ((L(kDueList := th_index h # L kDueList)) kDueList) =
      (\<lparr>te_handle = h, te_deadline = d, te_id = x, te_kind = k\<rparr> # es) @ rest" using s(6) es by simp
  then have "due_front w' (\<lparr>te_handle = h, te_deadline = d, te_id = x, te_kind = k\<rparr> # es)"
    unfolding due_front_def using s(2-5,8,9) tick size by fastforce
  then show ?thesis using s(1,8,9) by blast
qed

lemma due_front_all:
  assumes "due_front w es" and "tw_size w + length ts \<le> kNil" and "\<forall>(d, k, x)\<in>set ts. d \<le> tw_now w"
  shows "\<exists>es' w'. schedule_all ts w = Some (es', w') \<and> due_front w' (rev es' @ es) \<and>
    map (\<lambda>e. (te_deadline e, te_kind e, te_id e)) es' = ts"
  using assms
proof (induction ts arbitrary: w es)
  case (Cons t ts)
  obtain d k x where t: "t = (d, k, x)" by (cases t)
  obtain h w1 where s: "schedule d k x w = Some (h, w1)" "tw_now w1 = tw_now w" "tw_size w1 = tw_size w + 1"
      "due_front w1 (\<lparr>te_handle = h, te_deadline = d, te_id = x, te_kind = k\<rparr> # es)"
    using due_front_schedule [OF Cons.prems(1), of d k x] Cons.prems(2,3) by (auto simp: t)
  show ?case using Cons.IH [OF s(4)] Cons.prems(2,3) s(1-3) by (auto simp: t)
qed simp

lemma due_front_advance:
  assumes f: "due_front w es" and tn: "tick_ok now"
  shows "\<exists>w' rest. advance now w = Some (w', es @ rest)"
proof -
  obtain L F rest where ok: "lists_ok w L F {}" and t: "time_ok w L" and es: "map (node_event w) (L kDueList) = es @ rest"
      and size: "tw_size w = card (live w)"
    using f by (auto simp: due_front_def)
  obtain w1 F1 where d: "drain_due (w, []) = Some (w1, es @ rest)" "lists_ok w1 (L(kDueList := [])) F1 {}"
      "time_ok w1 (L(kDueList := []))" "fires w w1 (due_by (tw_now w) w)" "tw_now w1 = tw_now w"
    using drain_due_events [OF ok t size] unfolding es by blast
  show ?thesis
  proof (cases "now \<le> tw_now w")
    case True
    then show ?thesis using d(1,5) by (simp add: advance_def)
  next
    case False
    then have "tw_now w1 \<le> now" using d(5) by simp
    then obtain w2 evs where "advance_loop now (w1, es @ rest) = Some (w2, (es @ rest) @ evs)"
      using advance_loop_spec [OF d(2,3) fun_upd_same fires_size [OF d(4) size] tn, of "es @ rest"] by blast
    then show ?thesis using d(1,5) False by (simp add: advance_def)
  qed
qed

text \<open>
  C35: timers scheduled one after the other with deadlines that are already past are the first
  an advance reports, in the reverse of the order they were scheduled in, whatever their deadlines
  are, on any consistent wheel with room for them.
\<close>
theorem wheel_past_deadlines_reversed:
  assumes "wheel_inv w" and "tw_size w + length ts \<le> kNil" and "tick_ok now" and "\<forall>(d, k, x)\<in>set ts. d \<le> tw_now w"
  shows "\<exists>es w1 w2 rest. schedule_all ts w = Some (es, w1) \<and>
    map (\<lambda>e. (te_deadline e, te_kind e, te_id e)) es = ts \<and> advance now w1 = Some (w2, rev es @ rest)"
proof -
  obtain es w1 where "schedule_all ts w = Some (es, w1)" "due_front w1 (rev es)"
      "map (\<lambda>e. (te_deadline e, te_kind e, te_id e)) es = ts"
    using due_front_all [OF due_front_start [OF assms(1)] assms(2,4)] by auto
  then show ?thesis using due_front_advance [OF _ assms(3)] by blast
qed

theorem wheel_past_deadlines_reversed_witness:
  "\<exists>es w1 w2 rest. schedule_all [(3, 0, 1), (5, 0, 2), (4, 0, 3)] (mk_wheel 10) = Some (es, w1) \<and>
     advance 10 w1 = Some (w2, rest) \<and> take 3 (map te_deadline rest) = [4, 5, 3]"
proof -
  have tick: "tick_ok 10" by (simp add: tick_ok_def)
  note mk = mk_wheel_correct [OF tick]
  obtain es w1 w2 rest where r: "schedule_all [(3, 0, 1), (5, 0, 2), (4, 0, 3)] (mk_wheel 10) = Some (es, w1)"
      "map (\<lambda>e. (te_deadline e, te_kind e, te_id e)) es = [(3, 0, 1), (5, 0, 2), (4, 0, 3)]"
      "advance 10 w1 = Some (w2, rev es @ rest)"
    using wheel_past_deadlines_reversed [OF mk(1), of "[(3, 0, 1), (5, 0, 2), (4, 0, 3)]" 10] tick
    by (auto simp: mk_wheel_def kNil_def)
  have "map te_deadline es = map fst (map (\<lambda>e. (te_deadline e, te_kind e, te_id e)) es)" by simp
  then have "map te_deadline es = [3, 5, 4]" by (simp only: r(2)) simp
  then have "take 3 (map te_deadline (rev es @ rest)) = [4, 5, 3]" by (simp flip: rev_map)
  then show ?thesis using r(1,3) by blast
qed

end
