(* ===== verification/State.thy ===== *)
theory State
  imports ReadyHeap WheelSpec
begin

text \<open>
  \<^verbatim>\<open>state/state.h\<close> and \<^verbatim>\<open>state/state.cpp\<close>: every job, queue and index, and the single mutation
  path \<open>apply\<close>. Aborts are \<open>None\<close>; an operation that reports a status returns it
  together with the state after it. The hash map of jobs is a finite map; where the code
  iterates over it the iteration order is an argument. \<^verbatim>\<open>Job*\<close> is a job id and \<^verbatim>\<open>Queue*\<close> a
  queue name; an iterator into the list of idempotency entries is the entry it points to.
\<close>

section \<open>Data\<close>

record QueueTotals =
  qt_enqueued :: u64
  qt_succeeded :: u64
  qt_failed_attempts :: u64
  qt_dead :: u64
  qt_cancelled :: u64

definition zero_totals :: QueueTotals where
  "zero_totals = \<lparr>qt_enqueued = 0, qt_succeeded = 0, qt_failed_attempts = 0, qt_dead = 0, qt_cancelled = 0\<rparr>"

record Queue =
  q_name :: bytes
  q_totals :: QueueTotals
  q_ready :: Heap
  q_dead :: "JobId list"
  q_counts :: "JobState \<Rightarrow> u64"

definition mk_queue :: "bytes \<Rightarrow> Queue" where
  "mk_queue name = \<lparr>q_name = name, q_totals = zero_totals, q_ready = [], q_dead = [], q_counts = (\<lambda>_. 0)\<rparr>"

record IdemEntry =
  ie_key :: bytes
  ie_key_capacity :: nat
  ie_job_id :: JobId
  ie_expires_at :: WallTime

record StateOptions =
  so_retain_finished_ms :: DurationMs
  so_retain_dead_ms :: DurationMs

record FinishedRef =
  fr_id :: JobId
  fr_finished_at :: WallTime

text \<open>
  What the memory estimate reads of the compiler and of \<^verbatim>\<open>std::string\<close>: \<^verbatim>\<open>sizeof(Job)\<close>, the
  capacity of an empty string, of a string built from n bytes, and of a string of a
  given capacity after n bytes are assigned to it.
\<close>

record Abi =
  abi_sizeof_job :: u64
  abi_inline_capacity :: nat
  abi_fresh_capacity :: "nat \<Rightarrow> nat"
  abi_assign_capacity :: "nat \<Rightarrow> nat \<Rightarrow> nat"

record State =
  st_abi :: Abi
  st_options :: StateOptions
  st_wall_now :: WallTime
  st_mono_now :: int
  st_replaying :: bool
  st_jobs :: Jobs
  st_queues :: "(bytes \<times> Queue) list"
  st_next_job_id :: JobId
  st_next_token :: LeaseToken
  st_idem_order :: "IdemEntry list"
  st_idem_index :: "bytes \<rightharpoonup> IdemEntry"
  st_wheel :: Wheel
  st_finished_gc :: "FinishedRef list"
  st_dead_gc :: "FinishedRef list"
  st_ready_notifications :: "bytes list"
  st_memory_bytes :: u64

definition kJobDue :: byte where "kJobDue = 1"
definition kLeaseExpiry :: byte where "kLeaseExpiry = 2"

definition mk_state :: "Abi \<Rightarrow> StateOptions \<Rightarrow> State" where
  "mk_state abi opts = \<lparr>st_abi = abi, st_options = opts, st_wall_now = 0, st_mono_now = 0,
     st_replaying = False, st_jobs = Map.empty, st_queues = [], st_next_job_id = 1, st_next_token = 1,
     st_idem_order = [], st_idem_index = Map.empty, st_wheel = mk_wheel 0, st_finished_gc = [],
     st_dead_gc = [], st_ready_notifications = [], st_memory_bytes = 0\<rparr>"

definition set_now :: "WallTime \<Rightarrow> int \<Rightarrow> State \<Rightarrow> State" where
  "set_now wall mono_ms st = st\<lparr>st_wall_now := wall, st_mono_now := mono_ms\<rparr>"

section \<open>Helpers\<close>

definition string_heap_bytes :: "Abi \<Rightarrow> nat \<Rightarrow> u64" where
  "string_heap_bytes abi capacity =
     (if capacity \<le> abi_inline_capacity abi then 0 else of_nat capacity + 1)"

definition mismatch :: "fmt_arg list \<Rightarrow> unit Result" where
  "mismatch what = Inl (mk_error kFailedPrecondition what)"

definition find_job :: "JobId \<Rightarrow> State \<Rightarrow> Job option" where
  "find_job i st = st_jobs st i"

definition find_queue :: "bytes \<Rightarrow> State \<Rightarrow> Queue option" where
  "find_queue name st = map_of (st_queues st) name"

definition get_or_create_queue :: "bytes \<Rightarrow> State \<Rightarrow> State" where
  "get_or_create_queue name st =
     (case find_queue name st of
        Some _ \<Rightarrow> st
      | None \<Rightarrow> st\<lparr>st_queues := omap_insert name (mk_queue name) (st_queues st)\<rparr>)"

definition find_idem :: "bytes \<Rightarrow> State \<Rightarrow> IdemEntry option" where
  "find_idem key st = st_idem_index st key"

text \<open>The job behind a pointer, its queue, and writes through the two pointers.\<close>

definition job_of :: "State \<Rightarrow> JobId \<Rightarrow> Job" where
  "job_of st i = deref (st_jobs st) i"

definition queue_of :: "State \<Rightarrow> JobId \<Rightarrow> Queue" where
  "queue_of st i = the (map_of (st_queues st) (j_queue (job_of st i)))"

definition write_job :: "JobId \<Rightarrow> (Job \<Rightarrow> Job) \<Rightarrow> State \<Rightarrow> State" where
  "write_job i f st = st\<lparr>st_jobs := upd_job i f (st_jobs st)\<rparr>"

definition write_queue :: "bytes \<Rightarrow> (Queue \<Rightarrow> Queue) \<Rightarrow> State \<Rightarrow> State" where
  "write_queue name f st = st\<lparr>st_queues := omap_update name f (st_queues st)\<rparr>"

definition write_totals :: "JobId \<Rightarrow> (QueueTotals \<Rightarrow> QueueTotals) \<Rightarrow> State \<Rightarrow> State" where
  "write_totals i f st =
     write_queue (j_queue (job_of st i)) (\<lambda>q. q\<lparr>q_totals := f (q_totals q)\<rparr>) st"

definition require_leased :: "JobId \<Rightarrow> LeaseToken \<Rightarrow> string \<Rightarrow> State \<Rightarrow> unit Result" where
  "require_leased i token what st =
     (case find_job i st of
        None \<Rightarrow> mismatch [FS what, FS '': job '', FU (unat i), FS '' does not exist'']
      | Some job \<Rightarrow>
          if j_state job \<noteq> kLeased \<or> j_lease_token job \<noteq> token
          then mismatch [FS what, FS '': job '', FU (unat i), FS '' is '', FS (to_string_state (j_state job)),
                 FS '' with token '', FU (unat (j_lease_token job)), FS '', record has token '', FU (unat token)]
          else Inr ())"

definition set_state :: "JobId \<Rightarrow> JobState \<Rightarrow> State \<Rightarrow> State" where
  "set_state i s st =
     (let name = j_queue (job_of st i);
          st1 = write_queue name (\<lambda>q. q\<lparr>q_counts := (q_counts q)
                  (j_state (job_of st i) := q_counts q (j_state (job_of st i)) - 1)\<rparr>) st;
          st2 = write_job i (\<lambda>j. j\<lparr>j_state := s\<rparr>) st1
      in write_queue name (\<lambda>q. q\<lparr>q_counts := (q_counts q)(s := q_counts q s + 1)\<rparr>) st2)"

definition mono_deadline :: "WallTime \<Rightarrow> State \<Rightarrow> u64" where
  "mono_deadline wall_deadline st =
     (let delay = max 0 (wall_deadline - st_wall_now st) in word_of_int (st_mono_now st + delay))"

definition notify_ready :: "bytes \<Rightarrow> State \<Rightarrow> State" where
  "notify_ready queue st =
     (if queue \<in> set (st_ready_notifications st) then st
      else st\<lparr>st_ready_notifications := st_ready_notifications st @ [queue]\<rparr>)"

definition schedule_timer :: "JobId \<Rightarrow> WallTime \<Rightarrow> byte \<Rightarrow> State \<Rightarrow> State option" where
  "schedule_timer i wall_deadline kind st = do {
     (h, w) \<leftarrow> schedule (mono_deadline wall_deadline st) kind (j_id (job_of st i)) (st_wheel st);
     Some (write_job i (\<lambda>j. j\<lparr>j_timer := h\<rparr>) (st\<lparr>st_wheel := w\<rparr>))
   }"

definition push_ready :: "JobId \<Rightarrow> State \<Rightarrow> State option" where
  "push_ready i st = do {
     (js, h) \<leftarrow> heap_push i (st_jobs st, q_ready (queue_of st i));
     Some (write_queue (j_queue (job_of st i)) (\<lambda>q. q\<lparr>q_ready := h\<rparr>) (st\<lparr>st_jobs := js\<rparr>))
   }"

definition remove_ready :: "JobId \<Rightarrow> State \<Rightarrow> State option" where
  "remove_ready i st = do {
     (js, h) \<leftarrow> heap_remove i (st_jobs st, q_ready (queue_of st i));
     Some (write_queue (j_queue (job_of st i)) (\<lambda>q. q\<lparr>q_ready := h\<rparr>) (st\<lparr>st_jobs := js\<rparr>))
   }"

definition enter_pending :: "JobId \<Rightarrow> State \<Rightarrow> State option" where
  "enter_pending i st =
     (if st_replaying st \<or> j_run_at (job_of st i) > st_wall_now st then
        let st1 = set_state i kScheduled st in
        if \<not> st_replaying st then schedule_timer i (j_run_at (job_of st1 i)) kJobDue st1 else Some st1
      else do {
        let st1 = set_state i kReady st;
        st2 \<leftarrow> push_ready i st1;
        Some (notify_ready (j_queue (job_of st2 i)) st2)
      })"

definition leave_indexes :: "JobId \<Rightarrow> State \<Rightarrow> State option" where
  "leave_indexes i st = do {
     st1 \<leftarrow> (if j_heap_index (job_of st i) \<noteq> kNotInHeap then remove_ready i st else Some st);
     Some (if valid_handle (j_timer (job_of st1 i))
           then write_job i (\<lambda>j. j\<lparr>j_timer := no_timer\<rparr>)
                  (st1\<lparr>st_wheel := snd (cancel (j_timer (job_of st1 i)) (st_wheel st1))\<rparr>)
           else st1)
   }"

definition schedule_lease_timer :: "JobId \<Rightarrow> DurationMs \<Rightarrow> State \<Rightarrow> State option" where
  "schedule_lease_timer i grace_ms st =
     (if st_replaying st then Some st
      else schedule_timer i (max (j_lease_expires_at (job_of st i)) (st_wall_now st + grace_ms)) kLeaseExpiry st)"

definition finish :: "JobId \<Rightarrow> JobState \<Rightarrow> WallTime \<Rightarrow> State \<Rightarrow> State option" where
  "finish i terminal at st = do {
     st1 \<leftarrow> leave_indexes i st;
     let st2 = set_state i terminal st1;
     let st3 = write_job i (\<lambda>j. j\<lparr>j_finished_at := at\<rparr>) st2;
     let st4 = (if terminal \<noteq> kSucceeded then write_job i (\<lambda>j. j\<lparr>j_lease_token := 0\<rparr>) st3 else st3);
     let ref = \<lparr>fr_id = j_id (job_of st4 i), fr_finished_at = at\<rparr>;
     Some (if terminal = kDead
           then (write_queue (j_queue (job_of st4 i))
                   (\<lambda>q. q\<lparr>q_dead := insort_insert (j_id (job_of st4 i)) (q_dead q)\<rparr>) st4)
                 \<lparr>st_dead_gc := st_dead_gc st4 @ [ref]\<rparr>
           else st4\<lparr>st_finished_gc := st_finished_gc st4 @ [ref]\<rparr>)
   }"

definition job_bytes :: "Abi \<Rightarrow> Job \<Rightarrow> u64" where
  "job_bytes abi job = abi_sizeof_job abi + 32 + 8 + 40 + allocated_bytes (j_payload job) +
     string_heap_bytes abi (j_idem_key_capacity job) + string_heap_bytes abi (j_last_error_capacity job)"

definition idem_bytes :: "Abi \<Rightarrow> IdemEntry \<Rightarrow> u64" where
  "idem_bytes abi e = 96 + string_heap_bytes abi (ie_key_capacity e)"

definition erase_job :: "JobId \<Rightarrow> State \<Rightarrow> State option" where
  "erase_job i st = do {
     baton_check (st_jobs st i \<noteq> None);
     st1 \<leftarrow> leave_indexes i st;
     let name = j_queue (job_of st1 i);
     let s = j_state (job_of st1 i);
     let st2 = (if s = kDead then write_queue name (\<lambda>q. q\<lparr>q_dead := remove1 i (q_dead q)\<rparr>) st1 else st1);
     let st3 = write_queue name (\<lambda>q. q\<lparr>q_counts := (q_counts q)(s := q_counts q s - 1)\<rparr>) st2;
     let st4 = st3\<lparr>st_memory_bytes := st_memory_bytes st3 - job_bytes (st_abi st3) (job_of st3 i)\<rparr>;
     Some (st4\<lparr>st_jobs := (st_jobs st4)(i := None)\<rparr>)
   }"

definition upsert_idem :: "bytes \<Rightarrow> JobId \<Rightarrow> WallTime \<Rightarrow> State \<Rightarrow> State" where
  "upsert_idem key i expires_at st =
     (let st1 = (case st_idem_index st key of
            None \<Rightarrow> st
          | Some node \<Rightarrow> st\<lparr>st_memory_bytes := st_memory_bytes st - idem_bytes (st_abi st) node,
                            st_idem_index := (st_idem_index st)(key := None),
                            st_idem_order := remove1 node (st_idem_order st)\<rparr>);
          node = \<lparr>ie_key = key, ie_key_capacity = abi_fresh_capacity (st_abi st) (length key),
                  ie_job_id = i, ie_expires_at = expires_at\<rparr>
      in st1\<lparr>st_idem_order := st_idem_order st1 @ [node],
             st_idem_index := (st_idem_index st1)(key \<mapsto> node),
             st_memory_bytes := st_memory_bytes st1 + idem_bytes (st_abi st1) node\<rparr>)"

definition erase_idem_front :: "State \<Rightarrow> State" where
  "erase_idem_front st =
     (let node = hd (st_idem_order st) in
      st\<lparr>st_memory_bytes := st_memory_bytes st - idem_bytes (st_abi st) node,
         st_idem_index := (st_idem_index st)(ie_key node := None),
         st_idem_order := tl (st_idem_order st)\<rparr>)"

section \<open>Applying a record\<close>

type_synonym applied = "(unit Result \<times> State) option"

definition fresh_job :: "Abi \<Rightarrow> Job" where
  "fresh_job abi = \<lparr>j_id = 0, j_queue = [], j_payload = [], j_priority = 0, j_attempts = 0, j_max_attempts = 0,
     j_backoff_base_ms = 0, j_backoff_cap_ms = 0, j_state = kScheduled, j_run_at = 0, j_created_at = 0,
     j_finished_at = 0, j_lease_expires_at = 0, j_lease_token = 0, j_idem_key = [],
     j_idem_key_capacity = abi_inline_capacity abi, j_last_error = [],
     j_last_error_capacity = abi_inline_capacity abi, j_heap_index = kNotInHeap, j_timer = no_timer\<rparr>"

definition apply_JobEnqueued :: "JobEnqueued \<Rightarrow> State \<Rightarrow> applied" where
  "apply_JobEnqueued r st =
     (if je_id r \<noteq> st_next_job_id st
      then Some (mismatch [FS ''enqueue: record has job id '', FU (unat (je_id r)), FS '', expected '',
             FU (unat (st_next_job_id st))], st)
      else if je_queue r = [] then Some (mismatch [FS ''enqueue: empty queue name''], st)
      else if je_max_attempts r = 0 then Some (mismatch [FS ''enqueue: max_attempts is 0''], st)
      else do {
        let st1 = get_or_create_queue (je_queue r) st;
        let base = (case st_jobs st1 (je_id r) of None \<Rightarrow> fresh_job (st_abi st) | Some j \<Rightarrow> j);
        let job = base\<lparr>j_id := je_id r, j_queue := je_queue r, j_payload := je_payload r,
              j_priority := je_priority r, j_max_attempts := je_max_attempts r,
              j_backoff_base_ms := je_backoff_base_ms r, j_backoff_cap_ms := je_backoff_cap_ms r,
              j_run_at := je_run_at r, j_created_at := je_at r, j_idem_key := je_idem_key r,
              j_idem_key_capacity := abi_fresh_capacity (st_abi st) (length (je_idem_key r)),
              j_state := kScheduled\<rparr>;
        let st2 = st1\<lparr>st_jobs := (st_jobs st1)(je_id r \<mapsto> job)\<rparr>;
        let st3 = write_queue (je_queue r)
              (\<lambda>q. q\<lparr>q_counts := (q_counts q)(kScheduled := q_counts q kScheduled + 1)\<rparr>) st2;
        let st4 = st3\<lparr>st_memory_bytes := st_memory_bytes st3 + job_bytes (st_abi st3) job\<rparr>;
        st5 \<leftarrow> enter_pending (je_id r) st4;
        let st6 = (if je_idem_key r \<noteq> [] then upsert_idem (je_idem_key r) (je_id r) (je_idem_expires_at r) st5
                   else st5);
        let st7 = write_queue (je_queue r)
              (\<lambda>q. q\<lparr>q_totals := (q_totals q)\<lparr>qt_enqueued := qt_enqueued (q_totals q) + 1\<rparr>\<rparr>) st6;
        Some (Inr (), st7\<lparr>st_next_job_id := je_id r + 1\<rparr>)
      })"

definition apply_JobLeased :: "JobLeased \<Rightarrow> State \<Rightarrow> applied" where
  "apply_JobLeased r st =
     (case find_job (jl_id r) st of
        None \<Rightarrow> Some (mismatch [FS ''lease: job '', FU (unat (jl_id r)), FS '' does not exist''], st)
      | Some job \<Rightarrow>
          if \<not> is_pending (j_state job)
          then Some (mismatch [FS ''lease: job '', FU (unat (jl_id r)), FS '' is '',
                 FS (to_string_state (j_state job))], st)
          else if jl_token r \<noteq> st_next_token st
          then Some (mismatch [FS ''lease: record has token '', FU (unat (jl_token r)), FS '', expected '',
                 FU (unat (st_next_token st))], st)
          else if j_attempts job \<ge> j_max_attempts job
          then Some (mismatch [FS ''lease: job '', FU (unat (jl_id r)), FS '' has no attempts left''], st)
          else do {
            st1 \<leftarrow> leave_indexes (jl_id r) st;
            let st2 = set_state (jl_id r) kLeased st1;
            let st3 = write_job (jl_id r) (\<lambda>j. j\<lparr>j_attempts := j_attempts j + 1, j_lease_token := jl_token r,
                        j_lease_expires_at := jl_lease_expires_at r\<rparr>) st2;
            st4 \<leftarrow> schedule_lease_timer (jl_id r) 0 st3;
            Some (Inr (), st4\<lparr>st_next_token := jl_token r + 1\<rparr>)
          })"

definition apply_LeaseExtended :: "LeaseExtended \<Rightarrow> State \<Rightarrow> applied" where
  "apply_LeaseExtended r st =
     (case require_leased (le_id r) (le_token r) ''heartbeat'' st of
        Inl e \<Rightarrow> Some (Inl e, st)
      | Inr _ \<Rightarrow> do {
          st1 \<leftarrow> leave_indexes (le_id r) st;
          let st2 = write_job (le_id r) (\<lambda>j. j\<lparr>j_lease_expires_at := le_lease_expires_at r\<rparr>) st1;
          st3 \<leftarrow> schedule_lease_timer (le_id r) 0 st2;
          Some (Inr (), st3)
        })"

definition apply_JobSucceeded :: "JobSucceeded \<Rightarrow> State \<Rightarrow> applied" where
  "apply_JobSucceeded r st =
     (case require_leased (js_id r) (js_token r) ''ack'' st of
        Inl e \<Rightarrow> Some (Inl e, st)
      | Inr _ \<Rightarrow> do {
          st1 \<leftarrow> finish (js_id r) kSucceeded (js_at r) st;
          Some (Inr (), write_totals (js_id r) (\<lambda>t. t\<lparr>qt_succeeded := qt_succeeded t + 1\<rparr>) st1)
        })"

definition apply_AttemptFailed :: "AttemptFailed \<Rightarrow> State \<Rightarrow> applied" where
  "apply_AttemptFailed r st =
     (case require_leased (af_id r) (af_token r) ''fail'' st of
        Inl e \<Rightarrow> Some (Inl e, st)
      | Inr _ \<Rightarrow> do {
          let i = af_id r;
          let st1 = st\<lparr>st_memory_bytes := st_memory_bytes st - job_bytes (st_abi st) (job_of st i)\<rparr>;
          let st2 = write_job i (\<lambda>j. j\<lparr>j_last_error := af_error r,
                j_last_error_capacity := abi_assign_capacity (st_abi st) (j_last_error_capacity j) (length (af_error r))\<rparr>) st1;
          let st3 = st2\<lparr>st_memory_bytes := st_memory_bytes st2 + job_bytes (st_abi st2) (job_of st2 i)\<rparr>;
          let st4 = write_totals i (\<lambda>t. t\<lparr>qt_failed_attempts := qt_failed_attempts t + 1\<rparr>) st3;
          if af_dead r then do {
            st5 \<leftarrow> finish i kDead (af_at r) st4;
            Some (Inr (), write_totals i (\<lambda>t. t\<lparr>qt_dead := qt_dead t + 1\<rparr>) st5)
          } else do {
            st5 \<leftarrow> leave_indexes i st4;
            let st6 = write_job i (\<lambda>j. j\<lparr>j_lease_token := 0, j_run_at := af_retry_at r\<rparr>) st5;
            st7 \<leftarrow> enter_pending i st6;
            Some (Inr (), st7)
          }
        })"

definition apply_JobCancelled :: "JobCancelled \<Rightarrow> State \<Rightarrow> applied" where
  "apply_JobCancelled r st =
     (case find_job (jc_id r) st of
        None \<Rightarrow> Some (mismatch [FS ''cancel: job '', FU (unat (jc_id r)), FS '' does not exist''], st)
      | Some job \<Rightarrow>
          if is_terminal (j_state job)
          then Some (mismatch [FS ''cancel: job '', FU (unat (jc_id r)), FS '' is already '',
                 FS (to_string_state (j_state job))], st)
          else do {
            st1 \<leftarrow> finish (jc_id r) kCancelled (jc_at r) st;
            Some (Inr (), write_totals (jc_id r) (\<lambda>t. t\<lparr>qt_cancelled := qt_cancelled t + 1\<rparr>) st1)
          })"

definition apply_DeadJobRetried :: "DeadJobRetried \<Rightarrow> State \<Rightarrow> applied" where
  "apply_DeadJobRetried r st =
     (case find_job (dr_id r) st of
        None \<Rightarrow> Some (mismatch [FS ''dlq retry: job '', FU (unat (dr_id r)), FS '' does not exist''], st)
      | Some job \<Rightarrow>
          if j_state job \<noteq> kDead
          then Some (mismatch [FS ''dlq retry: job '', FU (unat (dr_id r)), FS '' is '',
                 FS (to_string_state (j_state job))], st)
          else do {
            let st1 = write_queue (j_queue job) (\<lambda>q. q\<lparr>q_dead := remove1 (j_id job) (q_dead q)\<rparr>) st;
            let st2 = write_job (dr_id r) (\<lambda>j. j\<lparr>j_attempts := 0, j_finished_at := 0, j_run_at := dr_run_at r\<rparr>) st1;
            st3 \<leftarrow> enter_pending (dr_id r) st2;
            Some (Inr (), st3)
          })"

primrec purge_check :: "JobId list \<Rightarrow> State \<Rightarrow> unit Result" where
  "purge_check [] st = Inr ()"
| "purge_check (i # ids) st =
     (case find_job i st of
        None \<Rightarrow> mismatch [FS ''purge: job '', FU (unat i), FS '' does not exist'']
      | Some job \<Rightarrow>
          if \<not> is_terminal (j_state job)
          then mismatch [FS ''purge: job '', FU (unat i), FS '' is '', FS (to_string_state (j_state job))]
          else purge_check ids st)"

primrec purge_erase :: "JobId list \<Rightarrow> State \<Rightarrow> State option" where
  "purge_erase [] st = Some st"
| "purge_erase (i # ids) st = do {
     st1 \<leftarrow> (if find_job i st \<noteq> None then erase_job i st else Some st);
     purge_erase ids st1
   }"

definition apply_JobsPurged :: "JobsPurged \<Rightarrow> State \<Rightarrow> applied" where
  "apply_JobsPurged r st =
     (case purge_check (jp_ids r) st of
        Inl e \<Rightarrow> Some (Inl e, st)
      | Inr _ \<Rightarrow> do { st1 \<leftarrow> purge_erase (jp_ids r) st; Some (Inr (), st1) })"

fun apply_rec :: "Record \<Rightarrow> State \<Rightarrow> applied" where
  "apply_rec (RJobEnqueued r) st = apply_JobEnqueued r st"
| "apply_rec (RJobLeased r) st = apply_JobLeased r st"
| "apply_rec (RLeaseExtended r) st = apply_LeaseExtended r st"
| "apply_rec (RJobSucceeded r) st = apply_JobSucceeded r st"
| "apply_rec (RAttemptFailed r) st = apply_AttemptFailed r st"
| "apply_rec (RJobCancelled r) st = apply_JobCancelled r st"
| "apply_rec (RDeadJobRetried r) st = apply_DeadJobRetried r st"
| "apply_rec (RJobsPurged r) st = apply_JobsPurged r st"

section \<open>Replay and derived state\<close>

definition begin_replay :: "State \<Rightarrow> State" where
  "begin_replay st = st\<lparr>st_replaying := True\<rparr>"

definition clear_derived :: "State \<Rightarrow> State" where
  "clear_derived st = st\<lparr>st_wheel := mk_wheel (word_of_int (st_mono_now st)), st_finished_gc := [], st_dead_gc := [],
     st_ready_notifications := [], st_memory_bytes := 0,
     st_queues := map (\<lambda>(n, q). (n, q\<lparr>q_ready := [], q_dead := [], q_counts := (\<lambda>_. 0)\<rparr>)) (st_queues st)\<rparr>"

definition rebuild_job :: "DurationMs \<Rightarrow> JobId \<Rightarrow> State \<Rightarrow> State option" where
  "rebuild_job lease_grace_ms i st = do {
     let st1 = write_job i (\<lambda>j. j\<lparr>j_heap_index := kNotInHeap, j_timer := no_timer\<rparr>) st;
     let job = job_of st1 i;
     let st2 = st1\<lparr>st_memory_bytes := st_memory_bytes st1 + job_bytes (st_abi st1) job\<rparr>;
     let st3 = write_queue (j_queue job)
           (\<lambda>q. q\<lparr>q_counts := (q_counts q)(j_state job := q_counts q (j_state job) + 1)\<rparr>) st2;
     let ref = \<lparr>fr_id = i, fr_finished_at = j_finished_at job\<rparr>;
     if is_pending (j_state job) then enter_pending i st3
     else if j_state job = kLeased then schedule_lease_timer i lease_grace_ms st3
     else if j_state job = kDead
     then Some ((write_queue (j_queue job) (\<lambda>q. q\<lparr>q_dead := insort_insert i (q_dead q)\<rparr>) st3)
                  \<lparr>st_dead_gc := st_dead_gc st3 @ [ref]\<rparr>)
     else Some (st3\<lparr>st_finished_gc := st_finished_gc st3 @ [ref]\<rparr>)
   }"

primrec rebuild_jobs :: "DurationMs \<Rightarrow> JobId list \<Rightarrow> State \<Rightarrow> State option" where
  "rebuild_jobs grace [] st = Some st"
| "rebuild_jobs grace (i # ids) st = do { st1 \<leftarrow> rebuild_job grace i st; rebuild_jobs grace ids st1 }"

text \<open>
  \<open>order\<close> is the order in which the hash map of jobs is iterated. \<^verbatim>\<open>std::ranges::sort\<close> may put references with
  the same finish time in any order; here they keep the order they were found in, and \<open>order\<close> is arbitrary.
\<close>

definition rebuild_derived :: "JobId list \<Rightarrow> DurationMs \<Rightarrow> State \<Rightarrow> State option" where
  "rebuild_derived order lease_grace_ms st = do {
     baton_check (\<not> st_replaying st);
     st1 \<leftarrow> rebuild_jobs lease_grace_ms order (clear_derived st);
     let st2 = st1\<lparr>st_finished_gc := sort_key fr_finished_at (st_finished_gc st1),
                   st_dead_gc := sort_key fr_finished_at (st_dead_gc st1)\<rparr>;
     Some (st2\<lparr>st_memory_bytes := st_memory_bytes st2 + sum_list (map (idem_bytes (st_abi st2)) (st_idem_order st2))\<rparr>)
   }"

definition timer_event :: "TimerEvent \<Rightarrow> JobId list \<times> State \<Rightarrow> (JobId list \<times> State) option" where
  "timer_event event est =
     (let (expired, st) = est in
      case find_job (te_id event) st of
        None \<Rightarrow> Some (expired, st)
      | Some job \<Rightarrow>
          if j_timer job \<noteq> te_handle event then Some (expired, st)
          else
            let i = te_id event; st1 = write_job i (\<lambda>j. j\<lparr>j_timer := no_timer\<rparr>) st in
            if te_kind event = kJobDue \<and> j_state job = kScheduled then
              map_option (Pair expired)
                (if j_run_at job > st_wall_now st then schedule_timer i (j_run_at job) kJobDue st1
                 else enter_pending i st1)
            else if te_kind event = kLeaseExpiry \<and> j_state job = kLeased then
              (if j_lease_expires_at job > st_wall_now st
               then map_option (Pair expired) (schedule_timer i (j_lease_expires_at job) kLeaseExpiry st1)
               else Some (expired @ [j_id job], st1))
            else Some (expired, st1))"

primrec timer_events :: "TimerEvent list \<Rightarrow> JobId list \<times> State \<Rightarrow> (JobId list \<times> State) option" where
  "timer_events [] est = Some est"
| "timer_events (e # es) est = do { est1 \<leftarrow> timer_event e est; timer_events es est1 }"

definition advance_timers :: "JobId list \<Rightarrow> State \<Rightarrow> (JobId list \<times> State) option" where
  "advance_timers expired_leases st = do {
     (w, fired) \<leftarrow> advance (word_of_int (st_mono_now st)) (st_wheel st);
     timer_events fired (expired_leases, st\<lparr>st_wheel := w\<rparr>)
   }"

definition next_timer_deadline :: "State \<Rightarrow> int option" where
  "next_timer_deadline st = map_option sint (next_wakeup (st_wheel st))"

definition gc_keep :: "FinishedRef \<Rightarrow> bool \<Rightarrow> State \<Rightarrow> bool" where
  "gc_keep ref dead st =
     (case find_job (fr_id ref) st of
        None \<Rightarrow> True
      | Some job \<Rightarrow> j_finished_at job \<noteq> fr_finished_at ref \<or>
          (if dead then j_state job \<noteq> kDead else \<not> is_terminal (j_state job)))"

text \<open>The references that are popped, oldest first, and the ones left.\<close>

fun gc_collect :: "FinishedRef list \<Rightarrow> DurationMs \<Rightarrow> bool \<Rightarrow> State \<Rightarrow> (FinishedRef list \<times> State) option" where
  "gc_collect [] retention dead st = Some ([], st)"
| "gc_collect (ref # refs) retention dead st =
     (if fr_finished_at ref + retention \<le> st_wall_now st then
        if gc_keep ref dead st then gc_collect refs retention dead st
        else do { st1 \<leftarrow> erase_job (fr_id ref) st; gc_collect refs retention dead st1 }
      else Some (ref # refs, st))"

fun gc_idem :: "nat \<Rightarrow> State \<Rightarrow> State" where
  "gc_idem 0 st = st"
| "gc_idem (Suc n) st =
     (if st_idem_order st \<noteq> [] \<and> ie_expires_at (hd (st_idem_order st)) \<le> st_wall_now st
      then gc_idem n (erase_idem_front st) else st)"

definition collect_garbage :: "State \<Rightarrow> State option" where
  "collect_garbage st = do {
     baton_check (\<not> st_replaying st);
     (refs1, st1) \<leftarrow> gc_collect (st_finished_gc st) (so_retain_finished_ms (st_options st)) False st;
     let st2 = st1\<lparr>st_finished_gc := refs1\<rparr>;
     (refs2, st3) \<leftarrow> gc_collect (st_dead_gc st2) (so_retain_dead_ms (st_options st2)) True st2;
     let st4 = st3\<lparr>st_dead_gc := refs2\<rparr>;
     Some (gc_idem (length (st_idem_order st4)) st4)
   }"

definition end_replay :: "JobId list \<Rightarrow> DurationMs \<Rightarrow> State \<Rightarrow> State option" where
  "end_replay order lease_grace_ms st = do {
     st1 \<leftarrow> rebuild_derived order lease_grace_ms (st\<lparr>st_replaying := False\<rparr>);
     collect_garbage st1
   }"

definition take_ready_notifications :: "State \<Rightarrow> bytes list \<times> State" where
  "take_ready_notifications st = (st_ready_notifications st, st\<lparr>st_ready_notifications := []\<rparr>)"

section \<open>The invariant check\<close>

definition broken :: "fmt_arg list \<Rightarrow> unit Result" where
  "broken what = Inl (mk_error kInternal (FS ''invariant violated: '' # what))"

record Recount =
  rc_counts :: "bytes \<Rightarrow> JobState \<Rightarrow> u64"
  rc_memory :: u64
  rc_timers :: nat

definition check_job :: "JobId \<Rightarrow> Job \<Rightarrow> Queue option \<Rightarrow> State \<Rightarrow> unit Result" where
  "check_job i job queue st =
     (if i \<noteq> j_id job then broken [FS ''job '', FU (unat (j_id job)), FS '' is stored under id '', FU (unat i)]
      else if i \<ge> st_next_job_id st then broken [FS ''job '', FU (unat i), FS '' >= next_job_id'']
      else case queue of
        None \<Rightarrow> broken [FS ''job '', FU (unat i), FS '' has a dangling queue'']
      | Some q \<Rightarrow>
          let in_heap = (j_heap_index job \<noteq> kNotInHeap);
              in_dead = (i \<in> set (q_dead q));
              expect_timer = (\<not> st_replaying st \<and> (j_state job = kScheduled \<or> j_state job = kLeased))
          in
          if q_name q \<noteq> j_queue job then broken [FS ''job '', FU (unat i), FS '' has a dangling queue'']
          else if j_attempts job > j_max_attempts job then broken [FS ''job '', FU (unat i), FS '' over-attempted'']
          else if in_heap \<noteq> (j_state job = kReady)
          then broken [FS ''job '', FU (unat i), FS '' is '', FS (to_string_state (j_state job)),
                 FS '' but heap membership is '', FS (if in_heap then ''true'' else ''false'')]
          else if in_heap \<and> (j_heap_index job \<ge> length (q_ready q) \<or> q_ready q ! j_heap_index job \<noteq> i)
          then broken [FS ''job '', FU (unat i), FS '' has a wrong heap index'']
          else if valid_handle (j_timer job) \<noteq> expect_timer
          then broken [FS ''job '', FU (unat i), FS '' is '', FS (to_string_state (j_state job)),
                 FS '' but timer presence is '', FS (if valid_handle (j_timer job) then ''true'' else ''false'')]
          else if in_dead \<noteq> (j_state job = kDead)
          then broken [FS ''job '', FU (unat i), FS '' is '', FS (to_string_state (j_state job)),
                 FS '' but DLQ membership is '', FS (if in_dead then ''true'' else ''false'')]
          else if holds_token (j_state job) \<noteq> (j_lease_token job \<noteq> 0)
          then broken [FS ''job '', FU (unat i), FS '' is '', FS (to_string_state (j_state job)),
                 FS '' with lease token '', FU (unat (j_lease_token job))]
          else if j_lease_token job \<ge> st_next_token st then broken [FS ''job '', FU (unat i), FS '' token too high'']
          else if j_state job = kLeased \<and> j_attempts job = 0
          then broken [FS ''job '', FU (unat i), FS '' is leased with zero attempts'']
          else Inr ())"

definition recount_job :: "Job \<Rightarrow> Abi \<Rightarrow> Recount \<Rightarrow> Recount" where
  "recount_job job abi rc =
     rc\<lparr>rc_counts := (rc_counts rc)(j_queue job :=
          (rc_counts rc (j_queue job))(j_state job := rc_counts rc (j_queue job) (j_state job) + 1)),
        rc_memory := rc_memory rc + job_bytes abi job,
        rc_timers := rc_timers rc + (if valid_handle (j_timer job) then 1 else 0)\<rparr>"

primrec check_jobs :: "JobId list \<Rightarrow> State \<Rightarrow> Recount \<Rightarrow> Recount Result" where
  "check_jobs [] st rc = Inr rc"
| "check_jobs (i # ids) st rc =
     (let job = job_of st i in
      case check_job i job (find_queue (j_queue job) st) st of
        Inl e \<Rightarrow> Inl e
      | Inr _ \<Rightarrow> check_jobs ids st (recount_job job (st_abi st) rc))"

fun check_queues :: "(bytes \<times> Queue) list \<Rightarrow> State \<Rightarrow> Recount \<Rightarrow> unit Result" where
  "check_queues [] st rc = Inr ()"
| "check_queues ((name, q) # qs) st rc =
     (if name \<noteq> q_name q then broken [FS ''queue stored under the wrong name'']
      else if \<not> is_consistent (st_jobs st) (q_ready q) then broken [FS ''heap of '', FB name, FS '' is broken'']
      else if rc_counts rc name \<noteq> q_counts q then broken [FS ''counts of queue '', FB name, FS '' are off'']
      else if of_nat (length (q_ready q)) \<noteq> q_counts q kReady
      then broken [FS ''queue '', FB name, FS '' heap size != ready count'']
      else if of_nat (length (q_dead q)) \<noteq> q_counts q kDead
      then broken [FS ''queue '', FB name, FS '' DLQ size != dead count'']
      else check_queues qs st rc)"

primrec check_idem :: "IdemEntry list \<Rightarrow> State \<Rightarrow> u64 \<Rightarrow> u64 Result" where
  "check_idem [] st memory = Inr memory"
| "check_idem (e # es) st memory =
     (if st_idem_index st (ie_key e) \<noteq> Some e
      then Inl (mk_error kInternal [FS ''invariant violated: '', FS ''idempotency key '', FB (ie_key e), FS '' is not indexed''])
      else check_idem es st (memory + idem_bytes (st_abi st) e))"

text \<open>\<open>order\<close> is the iteration order over the hash map of jobs.\<close>

definition check_invariants :: "JobId list \<Rightarrow> State \<Rightarrow> unit Result" where
  "check_invariants order st =
     (case check_jobs order st \<lparr>rc_counts = (\<lambda>_ _. 0), rc_memory = 0, rc_timers = 0\<rparr> of
        Inl e \<Rightarrow> Inl e
      | Inr rc \<Rightarrow>
          if rc_timers rc \<noteq> tw_size (st_wheel st)
          then broken [FU (rc_timers rc), FS '' jobs hold timers but the wheel has '', FU (tw_size (st_wheel st))]
          else case check_queues (st_queues st) st rc of
            Inl e \<Rightarrow> Inl e
          | Inr _ \<Rightarrow>
              if card (dom (st_idem_index st)) \<noteq> length (st_idem_order st)
              then broken [FS ''idempotency index size mismatch'']
              else case check_idem (st_idem_order st) st (rc_memory rc) of
                Inl e \<Rightarrow> Inl e
              | Inr memory \<Rightarrow>
                  if memory \<noteq> st_memory_bytes st
                  then broken [FS ''memory estimate '', FU (unat (st_memory_bytes st)), FS '' != recomputed '', FU (unat memory)]
                  else Inr ())"

end
