(* ===== verification/StateIdx.thy ===== *)
theory StateIdx
  imports State
begin

text \<open>
  The derived indexes of the state. \<open>idx\<close> says that the ready heaps, the dead-letter sets and
  the timers hold exactly the jobs they should, except for the jobs in a set \<open>X\<close> that are
  off every index while an operation is under way. Each primitive of \<^verbatim>\<open>State\<close> takes one job
  off the indexes or puts it back; \<open>outer\<close> is what such a step leaves alone.
\<close>

section \<open>The index invariant\<close>

definition wants_timer :: "bool \<Rightarrow> JobId set \<Rightarrow> JobId \<Rightarrow> Job \<Rightarrow> bool" where
  "wants_timer rep X i j \<longleftrightarrow> \<not> rep \<and> i \<notin> X \<and> (j_state j = kScheduled \<or> j_state j = kLeased)"

definition timer_kind :: "Job \<Rightarrow> byte" where
  "timer_kind j = (if j_state j = kLeased then kLeaseExpiry else kJobDue)"

text \<open>Jobs in \<open>S\<close> still carry the handle of a timer that has fired.\<close>

definition timers_ok :: "Jobs \<Rightarrow> bool \<Rightarrow> JobId set \<Rightarrow> JobId set \<Rightarrow> Wheel \<Rightarrow> bool" where
  "timers_ok js rep S X w \<longleftrightarrow> wheel_inv w \<and>
     (\<forall>i j. js i = Some j \<longrightarrow>
        (if wants_timer rep X i j
         then \<exists>e\<in>pending w. te_handle e = j_timer j \<and> te_id e = i \<and> te_kind e = timer_kind j
         else i \<notin> S \<longrightarrow> j_timer j = no_timer)) \<and>
     (\<forall>e\<in>pending w. te_id e \<notin> S \<and> (\<exists>j. js (te_id e) = Some j \<and> j_timer j = te_handle e))"

definition jobs_in :: "Jobs \<Rightarrow> JobId set \<Rightarrow> bytes \<Rightarrow> JobState \<Rightarrow> JobId set" where
  "jobs_in js X n s = {i. \<exists>j. js i = Some j \<and> i \<notin> X \<and> j_state j = s \<and> j_queue j = n}"

definition queue_ok :: "Jobs \<Rightarrow> JobId set \<Rightarrow> bytes \<Rightarrow> Queue \<Rightarrow> bool" where
  "queue_ok js X n q \<longleftrightarrow> q_name q = n \<and> heap_ok js (q_ready q) \<and> set (q_ready q) = jobs_in js X n kReady \<and>
     sorted (q_dead q) \<and> distinct (q_dead q) \<and> set (q_dead q) = jobs_in js X n kDead"

text \<open>A ready job in \<open>S\<close> may also carry the position it had in a heap that is gone.\<close>

definition job_ok :: "JobId set \<Rightarrow> JobId set \<Rightarrow> bytes set \<Rightarrow> JobId \<Rightarrow> Job \<Rightarrow> bool" where
  "job_ok S X names i j \<longleftrightarrow> j_id j = i \<and> j_queue j \<in> names \<and>
     (i \<in> S \<and> j_state j = kReady \<or> (j_heap_index j \<noteq> kNotInHeap \<longleftrightarrow> i \<notin> X \<and> j_state j = kReady))"

definition idx :: "Jobs \<Rightarrow> (bytes \<times> Queue) list \<Rightarrow> Wheel \<Rightarrow> bool \<Rightarrow> JobId set \<Rightarrow> JobId set \<Rightarrow> bool" where
  "idx js qs w rep S X \<longleftrightarrow> finite (dom js) \<and> card (dom js) \<le> kNil \<and> omap_wf qs \<and>
     (\<forall>n q. map_of qs n = Some q \<longrightarrow> queue_ok js X n q) \<and>
     (\<forall>i j. js i = Some j \<longrightarrow> job_ok S X (dom (map_of qs)) i j) \<and> timers_ok js rep S X w"

definition idx_inv :: "State \<Rightarrow> JobId set \<Rightarrow> JobId set \<Rightarrow> bool" where
  "idx_inv st S X \<longleftrightarrow> idx (st_jobs st) (st_queues st) (st_wheel st) (st_replaying st) S X"

lemma idxD:
  assumes "idx js qs w rep S X"
  shows "finite (dom js)" and "card (dom js) \<le> kNil" and "omap_wf qs"
    and "\<And>n q. map_of qs n = Some q \<Longrightarrow> queue_ok js X n q"
    and "\<And>i j. js i = Some j \<Longrightarrow> job_ok S X (dom (map_of qs)) i j"
    and "timers_ok js rep S X w"
  using assms by (auto simp: idx_def)

section \<open>What the index operations leave alone\<close>

definition core :: "Job \<Rightarrow> Job" where
  "core j = j\<lparr>j_heap_index := 0, j_timer := no_timer\<rparr>"

definition cores :: "Jobs \<Rightarrow> Jobs" where
  "cores js = (\<lambda>i. map_option core (js i))"

definition core_queue :: "Queue \<Rightarrow> Queue" where
  "core_queue q = q\<lparr>q_ready := [], q_dead := []\<rparr>"

definition outer :: "State \<Rightarrow> State" where
  "outer st = st\<lparr>st_jobs := cores (st_jobs st),
     st_queues := map (\<lambda>(n, q). (n, core_queue q)) (st_queues st),
     st_wheel := mk_wheel 0, st_ready_notifications := []\<rparr>"

lemma core_fields [simp]:
  "j_id (core j) = j_id j" "j_queue (core j) = j_queue j" "j_payload (core j) = j_payload j"
  "j_priority (core j) = j_priority j" "j_attempts (core j) = j_attempts j"
  "j_max_attempts (core j) = j_max_attempts j" "j_backoff_base_ms (core j) = j_backoff_base_ms j"
  "j_backoff_cap_ms (core j) = j_backoff_cap_ms j" "j_state (core j) = j_state j"
  "j_run_at (core j) = j_run_at j" "j_created_at (core j) = j_created_at j"
  "j_finished_at (core j) = j_finished_at j" "j_lease_expires_at (core j) = j_lease_expires_at j"
  "j_lease_token (core j) = j_lease_token j" "j_idem_key (core j) = j_idem_key j"
  "j_idem_key_capacity (core j) = j_idem_key_capacity j" "j_last_error (core j) = j_last_error j"
  "j_last_error_capacity (core j) = j_last_error_capacity j"
  by (simp_all add: core_def)

lemma no_index_cores: "no_index js' = no_index js \<Longrightarrow> cores js' = cores js"
proof (rule ext)
  fix i assume "no_index js' = no_index js"
  then have "map_option (\<lambda>j. j\<lparr>j_heap_index := 0\<rparr>) (js' i) = map_option (\<lambda>j. j\<lparr>j_heap_index := 0\<rparr>) (js i)"
    by (metis no_index_def)
  then have "map_option (\<lambda>j. (j\<lparr>j_heap_index := 0\<rparr>)\<lparr>j_timer := no_timer\<rparr>) (js' i) =
      map_option (\<lambda>j. (j\<lparr>j_heap_index := 0\<rparr>)\<lparr>j_timer := no_timer\<rparr>) (js i)"
    by (cases "js' i"; cases "js i") (auto dest: arg_cong [where f = "\<lambda>j. j\<lparr>j_timer := no_timer\<rparr>"])
  then show "cores js' i = cores js i" by (simp add: cores_def core_def cong: map_option_cong)
qed

lemma cores_dom [simp]: "dom (cores js) = dom js"
  by (auto simp: cores_def dom_def)

lemma cores_eq_dom: "cores js' = cores js \<Longrightarrow> dom js' = dom js"
  by (metis cores_dom)

lemma cores_eq_Some:
  assumes "cores js' = cores js" and "js i = Some j"
  shows "\<exists>j'. js' i = Some j' \<and> core j' = core j"
  using fun_cong [OF assms(1), of i] assms(2) by (auto simp: cores_def)

lemma core_eq_fields:
  assumes "core j' = core j"
  shows "j_id j' = j_id j" "j_queue j' = j_queue j" "j_payload j' = j_payload j"
    "j_priority j' = j_priority j" "j_attempts j' = j_attempts j" "j_max_attempts j' = j_max_attempts j"
    "j_backoff_base_ms j' = j_backoff_base_ms j" "j_backoff_cap_ms j' = j_backoff_cap_ms j"
    "j_state j' = j_state j" "j_run_at j' = j_run_at j" "j_created_at j' = j_created_at j"
    "j_finished_at j' = j_finished_at j" "j_lease_expires_at j' = j_lease_expires_at j"
    "j_lease_token j' = j_lease_token j" "j_idem_key j' = j_idem_key j"
    "j_idem_key_capacity j' = j_idem_key_capacity j" "j_last_error j' = j_last_error j"
    "j_last_error_capacity j' = j_last_error_capacity j"
  using core_fields [of j'] core_fields [of j] assms by (simp_all only:)

lemma cores_upd:
  assumes "js i = Some j" and "core (f j) = core j"
  shows "cores (upd_job i f js) = cores js"
  using assms by (auto simp: cores_def upd_job_def deref_def fun_eq_iff)

lemma jobs_in_cores: "cores js' = cores js \<Longrightarrow> jobs_in js' X n s = jobs_in js X n s"
  unfolding jobs_in_def using cores_eq_Some [of js' js] cores_eq_Some [of js js'] core_eq_fields(2,9)
  by (metis (no_types, opaque_lifting))

section \<open>Heaps and timers of the other jobs\<close>

lemma heap_ok_cong:
  assumes "heap_ok js h" and "\<And>p. p \<in> set h \<Longrightarrow> js' p = js p"
  shows "heap_ok js' h"
proof -
  have "deref js' (h ! k) = deref js (h ! k)" if "k < length h" for k
    using assms(2) that by (simp add: deref_def)
  moreover have "(k - 1) div 2 < length h" if "k < length h" for k using that by linarith
  ultimately have "is_consistent js' h" using assms(1) by (auto simp: heap_ok_def is_consistent_def)
  moreover have "set h \<subseteq> dom js'" using assms by (auto simp: heap_ok_def dom_def)
  ultimately show ?thesis using assms(1) by (simp add: heap_ok_def)
qed

lemma pending_valid:
  assumes "wheel_inv w" and "e \<in> pending w"
  shows "valid_handle (te_handle e)"
proof -
  obtain L F where ok: "lists_ok w L F {}" using assms(1) by (auto simp: wheel_inv_def)
  show ?thesis
    using assms(2) kNil_gt [OF ok] by (auto simp: pending_def live_def valid_handle_def)
qed

lemma no_timer_invalid [simp]: "\<not> valid_handle no_timer"
  by (simp add: valid_handle_def no_timer_def)

lemma timers_okD:
  assumes "timers_ok js rep S X w"
  shows "wheel_inv w"
    and "\<And>i j. js i = Some j \<Longrightarrow> wants_timer rep X i j \<Longrightarrow>
      \<exists>e\<in>pending w. te_handle e = j_timer j \<and> te_id e = i \<and> te_kind e = timer_kind j"
    and "\<And>i j. js i = Some j \<Longrightarrow> \<not> wants_timer rep X i j \<Longrightarrow> i \<notin> S \<Longrightarrow> j_timer j = no_timer"
    and "\<And>e. e \<in> pending w \<Longrightarrow> te_id e \<notin> S \<and> (\<exists>j. js (te_id e) = Some j \<and> j_timer j = te_handle e)"
  using assms by (simp_all add: timers_ok_def)

lemma timers_valid_iff:
  assumes "timers_ok js rep S X w" and "js i = Some j" and "i \<notin> S"
  shows "valid_handle (j_timer j) \<longleftrightarrow> wants_timer rep X i j"
  using timers_okD [OF assms(1)] assms(2,3) pending_valid no_timer_invalid by metis

text \<open>The timers are injected into the jobs, so the wheel has room for one job more.\<close>

lemma pending_inj:
  assumes "timers_ok js rep S X w"
  shows "inj_on te_id (pending w)"
proof (rule inj_onI)
  fix e e' assume "e \<in> pending w" "e' \<in> pending w" "te_id e = te_id e'"
  then show "e = e'" using timers_okD(4) [OF assms] wheel.one_per_handle by (metis option.inject)
qed

lemma pending_ids:
  assumes t: "timers_ok js rep S X w" and e: "e \<in> pending w"
  shows "te_id e \<in> dom js - X - S"
proof -
  obtain j where j: "te_id e \<notin> S" "js (te_id e) = Some j" "j_timer j = te_handle e"
    using timers_okD(4) [OF t e] by blast
  then have "valid_handle (j_timer j)" using pending_valid [OF timers_okD(1) [OF t] e] by simp
  then show ?thesis using timers_valid_iff [OF t j(2,1)] j by (auto simp: wants_timer_def)
qed

lemma timers_count:
  assumes t: "timers_ok js rep S X w" and fin: "finite (dom js)"
  shows "tw_size w \<le> card (dom js - X)"
proof -
  have size: "finite (pending w) \<and> tw_size w = card (pending w)"
    by (rule wheel.count [OF timers_okD(1) [OF t]])
  have "te_id ` pending w \<subseteq> dom js - X" using pending_ids [OF t] by blast
  then show ?thesis
    using size card_mono [of "dom js - X" "te_id ` pending w"] fin card_image [OF pending_inj [OF t]] by simp
qed

lemma card_off:
  assumes "finite (dom js)" and "card (dom js) \<le> kNil" and "js i = Some j" and "A \<subseteq> dom js - {i}"
  shows "card A < kNil"
proof -
  have "card A \<le> card (dom js - {i})" using assms by (intro card_mono) auto
  also have "\<dots> < card (dom js)" using assms by (intro card_Diff1_less) auto
  finally show ?thesis using assms(2) by simp
qed

section \<open>The ready heaps\<close>

lemma heap_ok_index:
  assumes "heap_ok js h" and "p \<in> set h"
  shows "j_heap_index (deref js p) < length h" and "h ! j_heap_index (deref js p) = p"
    and "j_heap_index (deref js p) \<noteq> kNotInHeap"
  using assms by (auto simp: heap_ok_def is_consistent_iff indexed_def in_set_conv_nth)

lemma kNotInHeap_kNil: "kNotInHeap = kNil"
  by (simp add: kNotInHeap_def kNil_def)

lemma jobs_in_without:
  assumes "js i = Some j"
  shows "jobs_in js (insert i X) n s = jobs_in js X n s - {i}"
    and "i \<in> jobs_in js (X - {i}) n s \<longleftrightarrow> j_state j = s \<and> j_queue j = n"
    and "i \<in> X \<Longrightarrow> jobs_in js (X - {i}) n s =
      (if j_state j = s \<and> j_queue j = n then insert i (jobs_in js X n s) else jobs_in js X n s)"
  using assms by (auto simp: jobs_in_def)

lemma jobs_in_differ:
  assumes "X' - {i} = X - {i}" and "js i = Some j" and "j_state j \<noteq> s \<or> j_queue j \<noteq> n"
  shows "jobs_in js X' n s = jobs_in js X n s"
proof -
  have "k \<in> X' \<longleftrightarrow> k \<in> X" if "k \<noteq> i" for k using assms(1) that by blast
  then show ?thesis using assms(2,3) unfolding jobs_in_def by (metis option.inject)
qed

lemma jobs_in_queue: "k \<in> jobs_in js X n s \<Longrightarrow> k \<in> jobs_in js X' n' s' \<Longrightarrow> n' = n \<and> s' = s"
  by (auto simp: jobs_in_def)

lemma timers_ok_cong:
  assumes t: "timers_ok js rep S X w" and dom: "dom js' = dom js"
    and same: "\<And>k j j'. js k = Some j \<Longrightarrow> js' k = Some j' \<Longrightarrow> j_timer j' = j_timer j \<and>
      (if wants_timer rep X k j then wants_timer rep X' k j' \<and> timer_kind j' = timer_kind j
       else \<not> wants_timer rep X' k j')"
  shows "timers_ok js' rep S X' w"
proof -
  have old: "\<exists>j. js k = Some j" if "js' k = Some j'" for k j' using dom that by blast
  have new: "\<exists>j'. js' k = Some j'" if "js k = Some j" for k j using dom that by blast
  show ?thesis
    unfolding timers_ok_def
  proof (intro conjI allI impI ballI)
    show "wheel_inv w" by (rule timers_okD(1) [OF t])
  next
    fix k j' assume k: "js' k = Some j'"
    then obtain j where j: "js k = Some j" using old by blast
    show "if wants_timer rep X' k j'
        then \<exists>e\<in>pending w. te_handle e = j_timer j' \<and> te_id e = k \<and> te_kind e = timer_kind j'
        else k \<notin> S \<longrightarrow> j_timer j' = no_timer"
      using timers_okD(2,3) [OF t j] same [OF j k] by (auto split: if_splits)
  next
    fix e assume e: "e \<in> pending w"
    show "te_id e \<notin> S" using timers_okD(4) [OF t e] by blast
    obtain j where j: "js (te_id e) = Some j" "j_timer j = te_handle e" using timers_okD(4) [OF t e] by blast
    then show "\<exists>j. js' (te_id e) = Some j \<and> j_timer j = te_handle e" using new [OF j(1)] same [OF j(1)] by metis
  qed
qed

text \<open>A ready job enters or leaves the heap of its queue: the rest stays as it is.\<close>

lemma reheap_idx:
  assumes I: "idx js qs w rep S X" and j: "js i = Some j" "j_state j = kReady"
    and q: "map_of qs (j_queue j) = Some q" and X': "X' - {i} = X - {i}" and h: "heap_ok js' h"
    and ni: "no_index js' = no_index js" and set: "set h = jobs_in js X' (j_queue j) kReady"
    and rest: "\<And>k. k \<notin> set h \<Longrightarrow> k \<noteq> i \<Longrightarrow> js' k = js k"
    and off: "i \<notin> set h \<Longrightarrow> j_heap_index (deref js' i) = kNotInHeap"
  shows "idx js' (omap_update (j_queue j) (\<lambda>q. q\<lparr>q_ready := h\<rparr>) qs) w rep S X'"
proof -
  note D = idxD [OF I]
  let ?n = "j_queue j" and ?qs = "omap_update (j_queue j) (\<lambda>q. q\<lparr>q_ready := h\<rparr>) qs"
  have cores: "cores js' = cores js" by (rule no_index_cores [OF ni])
  have dom: "dom js' = dom js" by (rule no_index_dom [OF ni])
  have names: "dom (map_of ?qs) = dom (map_of qs)" by (auto split: if_splits)
  have jin: "jobs_in js' X' n s = (if s = kReady \<and> n = ?n then set h else jobs_in js X n s)" for n s
    unfolding jobs_in_cores [OF cores] using set jobs_in_differ [of X' i X js j s n] X' j by auto
  have "queue_ok js' X' n q'" if nq: "map_of ?qs n = Some q'" for n q'
  proof (cases "n = ?n")
    case True
    then have "q' = q\<lparr>q_ready := h\<rparr>" using nq q by simp
    then show ?thesis using D(4) [OF q] True h jin by (simp add: queue_ok_def)
  next
    case False
    then have q': "queue_ok js X n q'" using D(4) nq by (auto split: if_splits)
    have "js' p = js p" if "p \<in> set (q_ready q')" for p
    proof (rule rest)
      have p: "p \<in> jobs_in js X n kReady" using q' that by (simp add: queue_ok_def)
      show "p \<notin> set h" using p set jobs_in_queue False by metis
      show "p \<noteq> i" using p j False by (auto simp: jobs_in_def)
    qed
    then show ?thesis using q' heap_ok_cong [of js "q_ready q'" js'] jin False by (simp add: queue_ok_def)
  qed
  moreover have "job_ok S X' (dom (map_of ?qs)) k jk" if k: "js' k = Some jk" for k jk
  proof -
    obtain j0 where j0: "js k = Some j0" using dom k by blast
    then obtain m where m: "jk = j0\<lparr>j_heap_index := m\<rparr>" using no_index_fields [OF ni j0] k by auto
    have ok: "job_ok S X (dom (map_of qs)) k j0" by (rule D(5) [OF j0])
    have "k \<in> S \<and> j_state jk = kReady \<or> (j_heap_index jk \<noteq> kNotInHeap \<longleftrightarrow> k \<notin> X' \<and> j_state jk = kReady)"
    proof (cases "k \<in> set h")
      case True
      then have "k \<notin> X' \<and> j_state j0 = kReady" using set j0 by (auto simp: jobs_in_def)
      then show ?thesis using heap_ok_index(3) [OF h True] k m by (simp add: deref_def)
    next
      case False
      show ?thesis
      proof (cases "k = i")
        case True
        then have "j0 = j" using j j0 by simp
        then have "k \<in> X'" using set False True j by (auto simp: jobs_in_def)
        then show ?thesis using off False True k by (simp add: deref_def)
      next
        case other: False
        then have "jk = j0" using rest [OF False] k j0 by simp
        then show ?thesis using ok X' other by (auto simp: job_ok_def)
      qed
    qed
    then show ?thesis using ok m names by (simp add: job_ok_def)
  qed
  moreover have "timers_ok js' rep S X' w"
  proof (rule timers_ok_cong [OF D(6) dom])
    fix k j0 jk assume k: "js k = Some j0" "js' k = Some jk"
    then obtain m where "jk = j0\<lparr>j_heap_index := m\<rparr>" using no_index_fields [OF ni k(1)] by auto
    moreover have "k \<in> X' \<longleftrightarrow> k \<in> X" if "k \<noteq> i" using X' that by blast
    ultimately show "j_timer jk = j_timer j0 \<and>
      (if wants_timer rep X k j0 then wants_timer rep X' k jk \<and> timer_kind jk = timer_kind j0
       else \<not> wants_timer rep X' k jk)"
      using k j by (cases "k = i") (auto simp: wants_timer_def timer_kind_def)
  qed
  ultimately show ?thesis using D(1,2,3) dom by (simp add: idx_def)
qed

section \<open>Jobs that are off the indexes\<close>

lemma not_in_heap:
  assumes "idx js qs w rep S X" and "i \<in> X" and "map_of qs n = Some q"
  shows "i \<notin> set (q_ready q)" and "i \<notin> set (q_dead q)"
  using idxD(4) [OF assms(1,3)] assms(2) by (auto simp: queue_ok_def jobs_in_def)

lemma idx_cong:
  assumes I: "idx js qs w rep S X" and "X \<inter> dom js = X' \<inter> dom js"
  shows "idx js qs w rep S X'"
proof -
  note D = idxD [OF I]
  have X: "i \<in> X \<longleftrightarrow> i \<in> X'" if "js i = Some j" for i j using assms(2) that by blast
  have "jobs_in js X n s = jobs_in js X' n s" for n s using X by (auto simp: jobs_in_def)
  then have "queue_ok js X n q = queue_ok js X' n q" for n q by (simp add: queue_ok_def)
  moreover have "job_ok S X' N i j" if "js i = Some j" "job_ok S X N i j" for N i j
    using X [OF that(1)] that(2) by (simp add: job_ok_def)
  moreover have "timers_ok js rep S X' w"
    by (rule timers_ok_cong [OF D(6)]) (use X in \<open>auto simp: wants_timer_def\<close>)
  ultimately show ?thesis using D by (simp add: idx_def)
qed

lemma timers_ok_exempt:
  assumes t: "timers_ok js rep S X w" and j: "js i = Some j" "\<not> wants_timer rep {} i j"
    and X': "X' - {i} = X - {i}"
  shows "timers_ok js rep S X' w"
proof (rule timers_ok_cong [OF t refl])
  fix k jk j' assume k: "js k = Some jk" "js k = Some j'"
  have "k \<in> X' \<longleftrightarrow> k \<in> X" if "k \<noteq> i" using X' that by blast
  then show "j_timer j' = j_timer jk \<and>
      (if wants_timer rep X k jk then wants_timer rep X' k j' \<and> timer_kind j' = timer_kind jk
       else \<not> wants_timer rep X' k j')"
    using k j by (cases "k = i") (auto simp: wants_timer_def)
qed

text \<open>A job that no index should hold may be counted as on or off the indexes.\<close>

lemma idx_unindexed:
  assumes I: "idx js qs w rep S X" and j: "js i = Some j" and X': "X' - {i} = X - {i}"
    and s: "j_state j \<noteq> kReady" "j_state j \<noteq> kDead" "\<not> wants_timer rep {} i j"
  shows "idx js qs w rep S X'"
proof -
  note D = idxD [OF I]
  have X: "k \<in> X' \<longleftrightarrow> k \<in> X" if "k \<noteq> i" for k using X' that by blast
  have "jobs_in js X' n kReady = jobs_in js X n kReady" "jobs_in js X' n kDead = jobs_in js X n kDead" for n
    using jobs_in_differ [of X' i X js j] X' j s by auto
  then have "queue_ok js X' n q = queue_ok js X n q" for n q by (simp add: queue_ok_def)
  moreover have "job_ok S X' N k jk = job_ok S X N k jk" if "js k = Some jk" for N k jk
    using X [of k] s(1) j that by (cases "k = i") (auto simp: job_ok_def)
  moreover have "timers_ok js rep S X' w"
    by (rule timers_ok_exempt [OF D(6) j s(3) X'])
  ultimately show ?thesis using I unfolding idx_def by (metis (no_types, lifting))
qed

lemma timers_ok_write:
  assumes t: "timers_ok js rep S X w" and i: "i \<in> X" and timer: "i \<in> S \<or> j_timer j' = no_timer"
  shows "timers_ok (js(i \<mapsto> j')) rep S X w"
proof -
  have "te_id e \<noteq> i" if "e \<in> pending w" for e using pending_ids [OF t that] i by blast
  then show ?thesis
    using t i timer unfolding timers_ok_def by (auto simp add: wants_timer_def)
qed

lemma jobs_in_write: "i \<in> X \<Longrightarrow> jobs_in (js(i := x)) X n s = jobs_in js X n s"
  by (auto simp: jobs_in_def split: if_splits)

lemma queue_ok_write:
  assumes "queue_ok js X n q" and "i \<in> X"
  shows "queue_ok (js(i := x)) X n q"
proof -
  have i: "i \<notin> set (q_ready q)" and h: "heap_ok js (q_ready q)"
    using assms by (simp_all add: queue_ok_def jobs_in_def)
  have "heap_ok (js(i := x)) (q_ready q)" by (rule heap_ok_cong [OF h]) (use i in auto)
  then show ?thesis using assms by (simp add: queue_ok_def jobs_in_write)
qed

text \<open>Writing or adding a job that is off the indexes.\<close>

lemma idx_write:
  assumes I: "idx js qs w rep S X" and i: "i \<in> X" and j': "j_id j' = i" "j_queue j' \<in> dom (map_of qs)"
    "j_heap_index j' = kNotInHeap" and timer: "i \<in> S \<or> j_timer j' = no_timer"
    and room: "card (insert i (dom js)) \<le> kNil"
  shows "idx (js(i \<mapsto> j')) qs w rep S X"
proof -
  note D = idxD [OF I]
  have "job_ok S X (dom (map_of qs)) k jk" if "(js(i \<mapsto> j')) k = Some jk" for k jk
    using that D(5) [of k jk] i j' by (auto simp: job_ok_def split: if_splits)
  then show ?thesis
    using D(1,3) room queue_ok_write [OF D(4) i] timers_ok_write [OF D(6) i timer] by (simp add: idx_def)
qed

lemma idx_erase:
  assumes I: "idx js qs w rep S X" and i: "i \<in> X"
  shows "idx (js(i := None)) qs w rep S X"
proof -
  note D = idxD [OF I]
  have "te_id e \<noteq> i" if "e \<in> pending w" for e using pending_ids [OF D(6) that] i by blast
  then have "timers_ok (js(i := None)) rep S X w" using D(6) i unfolding timers_ok_def by simp
  moreover have "card (dom js - {i}) \<le> kNil" using card_mono [OF D(1), of "dom js - {i}"] D(2) by auto
  ultimately show ?thesis
    using D(1,3,5) queue_ok_write [OF D(4) i] by (auto simp: idx_def dom_fun_upd)
qed

lemma idx_queue_write:
  assumes I: "idx js qs w rep S X"
    and f: "\<And>q. q_name (f q) = q_name q \<and> q_ready (f q) = q_ready q \<and> q_dead (f q) = q_dead q"
  shows "idx js (omap_update n f qs) w rep S X"
proof -
  note D = idxD [OF I]
  have "queue_ok js X m q" if "map_of (omap_update n f qs) m = Some q" for m q
    using that D(4) f by (fastforce simp: queue_ok_def split: if_splits)
  moreover have "dom (map_of (omap_update n f qs)) = dom (map_of qs)" by (auto split: if_splits)
  ultimately show ?thesis using D by (simp add: idx_def)
qed

lemma idx_queue_insert:
  assumes I: "idx js qs w rep S X" and n: "map_of qs n = None"
  shows "idx js (omap_insert n (mk_queue n) qs) w rep S X"
proof -
  note D = idxD [OF I]
  have "jobs_in js X n s = {}" for s using D(5) n by (fastforce simp: jobs_in_def job_ok_def)
  moreover have "heap_ok js []" by (simp add: heap_ok_def is_consistent_def)
  ultimately have "queue_ok js X n (mk_queue n)" by (simp add: queue_ok_def mk_queue_def)
  then have "queue_ok js X m q" if "map_of (omap_insert n (mk_queue n) qs) m = Some q" for m q
    using that D(4) by (auto split: if_splits)
  moreover have "job_ok S X (dom (map_of (omap_insert n (mk_queue n) qs))) k jk" if "js k = Some jk" for k jk
    using D(5) [OF that] by (auto simp: job_ok_def)
  ultimately show ?thesis using D by (simp add: idx_def)
qed

text \<open>A dead job enters or leaves the dead-letter set of its queue.\<close>

lemma idx_dead:
  assumes I: "idx js qs w rep S X" and j: "js i = Some j" "j_state j = kDead"
    and q: "map_of qs (j_queue j) = Some q" and X': "X' - {i} = X - {i}"
    and g: "sorted (g (q_dead q))" "distinct (g (q_dead q))" "set (g (q_dead q)) = jobs_in js X' (j_queue j) kDead"
  shows "idx js (omap_update (j_queue j) (\<lambda>q. q\<lparr>q_dead := g (q_dead q)\<rparr>) qs) w rep S X'"
proof -
  note D = idxD [OF I]
  let ?qs = "omap_update (j_queue j) (\<lambda>q. q\<lparr>q_dead := g (q_dead q)\<rparr>) qs"
  have X: "k \<in> X' \<longleftrightarrow> k \<in> X" if "k \<noteq> i" for k using X' that by blast
  have jin: "jobs_in js X' n s = jobs_in js X n s" if "s \<noteq> kDead \<or> n \<noteq> j_queue j" for n s
    using jobs_in_differ [of X' i X js j s n] X' j that by auto
  have "queue_ok js X' m q'" if m: "map_of ?qs m = Some q'" for m q'
  proof (cases "m = j_queue j")
    case True
    then have "q' = q\<lparr>q_dead := g (q_dead q)\<rparr>" using m q by simp
    then show ?thesis using D(4) [OF q] True g jin by (simp add: queue_ok_def)
  next
    case False
    then show ?thesis using D(4) [of m q'] m jin by (simp add: queue_ok_def)
  qed
  moreover have "job_ok S X' (dom (map_of ?qs)) k jk" if "js k = Some jk" for k jk
    using D(5) [OF that] X [of k] j that by (cases "k = i") (auto simp: job_ok_def)
  moreover have "timers_ok js rep S X' w"
    by (rule timers_ok_exempt [OF D(6) j(1) _ X']) (simp add: wants_timer_def j(2))
  ultimately show ?thesis using D by (simp add: idx_def)
qed

end
