(* ===== verification/StateOps.thy ===== *)
theory StateOps
  imports StateIdx
begin

text \<open>
  The primitives of \<^verbatim>\<open>State\<close> that move a job between the indexes: none of them aborts, each
  takes the job off the index set or puts it back, and apart from the job's place in the
  indexes they change nothing but what \<open>outer\<close> shows.
\<close>

section \<open>Frames\<close>

definition core_queues :: "(bytes \<times> Queue) list \<Rightarrow> (bytes \<times> Queue) list" where
  "core_queues qs = map (\<lambda>(n, q). (n, core_queue q)) qs"

lemma outer_wheel [simp]: "outer (st\<lparr>st_wheel := w\<rparr>) = outer st"
  by (simp add: outer_def)

lemma outer_notify [simp]: "outer (st\<lparr>st_ready_notifications := ns\<rparr>) = outer st"
  by (simp add: outer_def)

lemma outer_notify_ready [simp]: "outer (notify_ready n st) = outer st"
  by (simp add: notify_ready_def)

lemma outer_jobs: "cores js = cores (st_jobs st) \<Longrightarrow> outer (st\<lparr>st_jobs := js\<rparr>) = outer st"
  by (simp add: outer_def)

lemma core_queues_update:
  assumes "\<And>q. core_queue (f q) = core_queue q"
  shows "core_queues (omap_update n f qs) = core_queues qs"
  using assms by (induction n f qs rule: omap_update.induct) (auto simp: core_queues_def)

lemma outer_write_queue:
  assumes "\<And>q. core_queue (f q) = core_queue q"
  shows "outer (write_queue n f st) = outer st"
  using core_queues_update [of f n "st_queues st", OF assms]
  by (simp add: outer_def write_queue_def core_queues_def)

lemma outer_write_job:
  assumes "st_jobs st i = Some j" and "core (f j) = core j"
  shows "outer (write_job i f st) = outer st"
  using assms by (simp add: outer_jobs write_job_def cores_upd)

lemma outer_fields:
  "st_jobs (outer st) = cores (st_jobs st)" "st_queues (outer st) = core_queues (st_queues st)"
  "st_abi (outer st) = st_abi st" "st_options (outer st) = st_options st"
  "st_wall_now (outer st) = st_wall_now st" "st_mono_now (outer st) = st_mono_now st"
  "st_replaying (outer st) = st_replaying st" "st_next_job_id (outer st) = st_next_job_id st"
  "st_next_token (outer st) = st_next_token st" "st_idem_order (outer st) = st_idem_order st"
  "st_idem_index (outer st) = st_idem_index st" "st_finished_gc (outer st) = st_finished_gc st"
  "st_dead_gc (outer st) = st_dead_gc st" "st_memory_bytes (outer st) = st_memory_bytes st"
  by (simp_all add: outer_def core_queues_def)

lemma outer_eqD:
  assumes "outer st' = outer st"
  shows "cores (st_jobs st') = cores (st_jobs st)"
    and "core_queues (st_queues st') = core_queues (st_queues st)"
    and "st_abi st' = st_abi st" "st_options st' = st_options st" "st_wall_now st' = st_wall_now st"
    "st_mono_now st' = st_mono_now st" "st_replaying st' = st_replaying st"
    "st_next_job_id st' = st_next_job_id st" "st_next_token st' = st_next_token st"
    "st_idem_order st' = st_idem_order st" "st_idem_index st' = st_idem_index st"
    "st_finished_gc st' = st_finished_gc st" "st_dead_gc st' = st_dead_gc st"
    "st_memory_bytes st' = st_memory_bytes st"
  using outer_fields [of st'] outer_fields [of st] assms by (simp_all only:)

lemma outer_job:
  assumes "outer st' = outer st" and "st_jobs st i = Some j"
  shows "\<exists>j'. st_jobs st' i = Some j' \<and> core j' = core j"
  using cores_eq_Some [OF outer_eqD(1) [OF assms(1)] assms(2)] .

lemma job_of_Some [simp]: "st_jobs st i = Some j \<Longrightarrow> job_of st i = j"
  by (simp add: job_of_def deref_def)

lemma write_job_fields [simp]:
  "st_queues (write_job i f st) = st_queues st" "st_wheel (write_job i f st) = st_wheel st"
  "st_replaying (write_job i f st) = st_replaying st" "st_wall_now (write_job i f st) = st_wall_now st"
  "st_abi (write_job i f st) = st_abi st" "st_mono_now (write_job i f st) = st_mono_now st"
  "st_memory_bytes (write_job i f st) = st_memory_bytes st" "st_options (write_job i f st) = st_options st"
  "st_next_job_id (write_job i f st) = st_next_job_id st" "st_next_token (write_job i f st) = st_next_token st"
  "st_idem_order (write_job i f st) = st_idem_order st" "st_idem_index (write_job i f st) = st_idem_index st"
  "st_finished_gc (write_job i f st) = st_finished_gc st" "st_dead_gc (write_job i f st) = st_dead_gc st"
  by (simp_all add: write_job_def)

lemma st_jobs_write_job [simp]:
  "st_jobs st i = Some j \<Longrightarrow> st_jobs (write_job i f st) = (st_jobs st)(i \<mapsto> f j)"
  by (simp add: write_job_def upd_job_def deref_def)

lemma write_queue_fields [simp]:
  "st_queues (write_queue n g st) = omap_update n g (st_queues st)"
  "st_jobs (write_queue n g st) = st_jobs st" "st_wheel (write_queue n g st) = st_wheel st"
  "st_replaying (write_queue n g st) = st_replaying st" "st_wall_now (write_queue n g st) = st_wall_now st"
  "st_abi (write_queue n g st) = st_abi st" "st_mono_now (write_queue n g st) = st_mono_now st"
  "st_memory_bytes (write_queue n g st) = st_memory_bytes st" "st_options (write_queue n g st) = st_options st"
  "st_next_job_id (write_queue n g st) = st_next_job_id st" "st_next_token (write_queue n g st) = st_next_token st"
  "st_idem_order (write_queue n g st) = st_idem_order st" "st_idem_index (write_queue n g st) = st_idem_index st"
  "st_finished_gc (write_queue n g st) = st_finished_gc st" "st_dead_gc (write_queue n g st) = st_dead_gc st"
  by (simp_all add: write_queue_def)

lemma set_state_fields [simp]:
  "st_wheel (set_state i s st) = st_wheel st" "st_replaying (set_state i s st) = st_replaying st"
  "st_wall_now (set_state i s st) = st_wall_now st" "st_mono_now (set_state i s st) = st_mono_now st"
  "st_abi (set_state i s st) = st_abi st" "st_memory_bytes (set_state i s st) = st_memory_bytes st"
  "st_options (set_state i s st) = st_options st" "st_next_job_id (set_state i s st) = st_next_job_id st"
  "st_next_token (set_state i s st) = st_next_token st" "st_idem_order (set_state i s st) = st_idem_order st"
  "st_idem_index (set_state i s st) = st_idem_index st" "st_finished_gc (set_state i s st) = st_finished_gc st"
  "st_dead_gc (set_state i s st) = st_dead_gc st"
  by (simp_all add: set_state_def Let_def)

lemma st_jobs_set_state [simp]:
  "st_jobs st i = Some j \<Longrightarrow> st_jobs (set_state i s st) = (st_jobs st)(i \<mapsto> j\<lparr>j_state := s\<rparr>)"
  by (simp add: set_state_def Let_def)

section \<open>Ready heaps and timers\<close>

lemma idx_queue_exists:
  assumes "idx_inv st S X" and "st_jobs st i = Some j"
  shows "\<exists>q. map_of (st_queues st) (j_queue j) = Some q"
  using idxD(5) [OF assms(1) [unfolded idx_inv_def] assms(2)] by (auto simp: job_ok_def)

lemma idx_job:
  assumes "idx_inv st S X" and "st_jobs st i = Some j"
  shows "j_id j = i" and "i \<in> X \<Longrightarrow> i \<notin> S \<or> j_state j \<noteq> kReady \<Longrightarrow> j_heap_index j = kNotInHeap"
    and "i \<in> X \<Longrightarrow> i \<notin> S \<Longrightarrow> j_timer j = no_timer"
  using idxD(5) [OF assms(1) [unfolded idx_inv_def] assms(2)]
    timers_okD(3) [OF idxD(6) [OF assms(1) [unfolded idx_inv_def]] assms(2)]
  by (auto simp: job_ok_def wants_timer_def)

lemma idx_inv_unindexed:
  assumes "idx_inv st S X" and "st_jobs st i = Some j" and "X' - {i} = X - {i}"
    and "j_state j \<noteq> kReady" "j_state j \<noteq> kDead" "\<not> wants_timer (st_replaying st) {} i j"
  shows "idx_inv st S X'"
  using idx_unindexed [of "st_jobs st" "st_queues st" "st_wheel st" "st_replaying st" S X i j X'] assms
  by (simp add: idx_inv_def)

definition timer_of :: "State \<Rightarrow> JobId \<Rightarrow> TimerHandle option" where
  "timer_of st k = map_option j_timer (st_jobs st k)"

lemma no_index_timer: "no_index js' = no_index js \<Longrightarrow> map_option j_timer (js' k) = map_option j_timer (js k)"
  using no_index_fields [of js' js k] no_index_dom [of js' js] by (cases "js k") fastforce+

lemma push_ready_ok:
  assumes I: "idx_inv st S X" and j: "st_jobs st i = Some j" "j_state j = kReady" and i: "i \<in> X" "i \<notin> S"
  shows "\<exists>st'. push_ready i st = Some st' \<and> idx_inv st' S (X - {i}) \<and> outer st' = outer st \<and> timer_of st' = timer_of st"
proof -
  let ?js = "st_jobs st"
  note I' = I [unfolded idx_inv_def] and D = idxD [OF I [unfolded idx_inv_def]]
  obtain q where q: "map_of (st_queues st) (j_queue j) = Some q" using idx_queue_exists [OF I j(1)] by blast
  have ok: "heap_ok ?js (q_ready q)" and set: "set (q_ready q) = jobs_in ?js X (j_queue j) kReady"
    using D(4) [OF q] by (simp_all add: queue_ok_def)
  have "set (q_ready q) \<subseteq> dom ?js - {i}" using set i by (auto simp: jobs_in_def)
  then have "card (set (q_ready q)) < kNil" by (rule card_off [OF D(1,2) j(1)])
  then have "length (q_ready q) < kNotInHeap"
    using distinct_card [of "q_ready q"] ok by (simp add: heap_ok_def kNotInHeap_kNil)
  moreover have "i \<in> dom ?js" "j_heap_index (deref ?js i) = kNotInHeap"
    using j idx_job(2) [OF I j(1) i(1)] i(2) by (auto simp: deref_def)
  ultimately obtain js' h where push: "heap_push i (?js, q_ready q) = Some (js', h)" "heap_ok js' h"
      "set h = insert i (set (q_ready q))" "no_index js' = no_index ?js" "\<forall>k. k \<notin> set h \<longrightarrow> js' k = ?js k"
    using heap_push_correct [OF ok] by blast
  have "idx js' (omap_update (j_queue j) (\<lambda>q. q\<lparr>q_ready := h\<rparr>) (st_queues st)) (st_wheel st) (st_replaying st) S (X - {i})"
  proof (rule reheap_idx [OF I' j q _ push(2,4)])
    show "set h = jobs_in ?js (X - {i}) (j_queue j) kReady"
      using push(3) set jobs_in_without(3) [of ?js i j X "j_queue j" kReady] j i by simp
  qed (use push in auto)
  moreover have "push_ready i st =
      Some (write_queue (j_queue j) (\<lambda>q. q\<lparr>q_ready := h\<rparr>) (st\<lparr>st_jobs := js'\<rparr>))"
    using j q push(1) by (simp add: push_ready_def queue_of_def)
  moreover have "outer (write_queue (j_queue j) (\<lambda>q. q\<lparr>q_ready := h\<rparr>) (st\<lparr>st_jobs := js'\<rparr>)) = outer st"
    using outer_jobs [OF no_index_cores [OF push(4)]] by (simp add: outer_write_queue core_queue_def)
  ultimately show ?thesis using no_index_timer [OF push(4)] by (simp add: idx_inv_def timer_of_def fun_eq_iff)
qed

lemma remove_ready_ok:
  assumes I: "idx_inv st S X" and j: "st_jobs st i = Some j" "j_state j = kReady" and i: "i \<notin> X"
  shows "\<exists>st'. remove_ready i st = Some st' \<and> idx_inv st' S (insert i X) \<and> outer st' = outer st"
proof -
  let ?js = "st_jobs st"
  note I' = I [unfolded idx_inv_def] and D = idxD [OF I [unfolded idx_inv_def]]
  obtain q where q: "map_of (st_queues st) (j_queue j) = Some q" using idx_queue_exists [OF I j(1)] by blast
  have ok: "heap_ok ?js (q_ready q)" and set: "set (q_ready q) = jobs_in ?js X (j_queue j) kReady"
    using D(4) [OF q] by (simp_all add: queue_ok_def)
  have i': "i \<in> set (q_ready q)" using set j i by (auto simp: jobs_in_def)
  obtain js' h where rm: "heap_remove i (?js, q_ready q) = Some (js', h)" "heap_ok js' h"
      "set h = set (q_ready q) - {i}" "no_index js' = no_index ?js"
      "\<forall>k. k \<notin> set (q_ready q) \<longrightarrow> js' k = ?js k" "j_heap_index (deref js' i) = kNotInHeap"
    using heap_remove_correct [OF ok i'] by blast
  have "idx js' (omap_update (j_queue j) (\<lambda>q. q\<lparr>q_ready := h\<rparr>) (st_queues st)) (st_wheel st) (st_replaying st) S (insert i X)"
  proof (rule reheap_idx [OF I' j q _ rm(2,4)])
    show "set h = jobs_in ?js (insert i X) (j_queue j) kReady"
      using rm(3) set jobs_in_without(1) [of ?js i j X "j_queue j" kReady] j by simp
  qed (use rm in auto)
  moreover have "remove_ready i st =
      Some (write_queue (j_queue j) (\<lambda>q. q\<lparr>q_ready := h\<rparr>) (st\<lparr>st_jobs := js'\<rparr>))"
    using j q rm(1) by (simp add: remove_ready_def queue_of_def)
  moreover have "outer (write_queue (j_queue j) (\<lambda>q. q\<lparr>q_ready := h\<rparr>) (st\<lparr>st_jobs := js'\<rparr>)) = outer st"
    using outer_jobs [OF no_index_cores [OF rm(4)]] by (simp add: outer_write_queue core_queue_def)
  ultimately show ?thesis by (simp add: idx_inv_def)
qed

text \<open>A job that is off the indexes gets a timer, or a timer is taken off its job.\<close>

lemma timers_ok_retime:
  assumes t: "timers_ok js rep S X w" and j: "js i = Some j" and w': "wheel_inv w'" and X': "X' - {i} = X - {i}"
    and i: "i \<notin> S" and others: "\<And>e. te_id e \<noteq> i \<Longrightarrow> e \<in> pending w' \<longleftrightarrow> e \<in> pending w"
    and mine: "if wants_timer rep X' i j
      then \<exists>e\<in>pending w'. te_handle e = h \<and> te_id e = i \<and> te_kind e = timer_kind j else h = no_timer"
    and unique: "\<And>e. e \<in> pending w' \<Longrightarrow> te_id e = i \<Longrightarrow> te_handle e = h"
  shows "timers_ok (js(i \<mapsto> j\<lparr>j_timer := h\<rparr>)) rep S X' w'"
  unfolding timers_ok_def
proof (intro conjI allI impI ballI)
  let ?js = "js(i \<mapsto> j\<lparr>j_timer := h\<rparr>)"
  show "wheel_inv w'" by (rule w')
  fix k jk assume k: "?js k = Some jk"
  show "if wants_timer rep X' k jk
      then \<exists>e\<in>pending w'. te_handle e = j_timer jk \<and> te_id e = k \<and> te_kind e = timer_kind jk
      else k \<notin> S \<longrightarrow> j_timer jk = no_timer"
  proof (cases "k = i")
    case True
    then show ?thesis using k mine by (auto simp: wants_timer_def timer_kind_def)
  next
    case False
    then have jk: "js k = Some jk" and "k \<in> X' \<longleftrightarrow> k \<in> X" using k X' by auto
    then have "wants_timer rep X' k jk = wants_timer rep X k jk" by (simp add: wants_timer_def)
    then show ?thesis using timers_okD(2,3) [OF t jk] others False by metis
  qed
next
  fix e assume e: "e \<in> pending w'"
  show "te_id e \<notin> S" using timers_okD(4) [OF t, of e] others e i by metis
  show "\<exists>j'. (js(i \<mapsto> j\<lparr>j_timer := h\<rparr>)) (te_id e) = Some j' \<and> j_timer j' = te_handle e"
    using timers_okD(4) [OF t, of e] others e unique by (cases "te_id e = i") auto
qed

lemma idx_timer:
  assumes I: "idx js qs w rep S X" and j: "js i = Some j" "j_state j \<noteq> kReady" "j_state j \<noteq> kDead"
    and X': "X' - {i} = X - {i}" and t: "timers_ok (js(i \<mapsto> j\<lparr>j_timer := h\<rparr>)) rep S X' w'"
  shows "idx (js(i \<mapsto> j\<lparr>j_timer := h\<rparr>)) qs w' rep S X'"
proof -
  note D = idxD [OF I]
  let ?js = "js(i \<mapsto> j\<lparr>j_timer := h\<rparr>)"
  have X: "k \<in> X' \<longleftrightarrow> k \<in> X" if "k \<noteq> i" for k using X' that by blast
  have jin: "jobs_in ?js X' n s = jobs_in js X n s" if "s = kReady \<or> s = kDead" for n s
    using X j that unfolding jobs_in_def by (auto split: if_splits)
  have "queue_ok ?js X' n q" if "map_of qs n = Some q" for n q
  proof -
    have q: "queue_ok js X n q" by (rule D(4) [OF that])
    then have h: "heap_ok js (q_ready q)" "i \<notin> set (q_ready q)"
      using j by (simp_all add: queue_ok_def jobs_in_def)
    have "heap_ok ?js (q_ready q)" by (rule heap_ok_cong [OF h(1)]) (use h(2) in auto)
    then show ?thesis using q jin by (simp add: queue_ok_def)
  qed
  moreover have "job_ok S X' (dom (map_of qs)) k jk" if "?js k = Some jk" for k jk
    using D(5) [of k] X [of k] j that by (cases "k = i") (auto simp: job_ok_def)
  moreover have "dom ?js = dom js" using j(1) by auto
  ultimately show ?thesis using D(1,2,3) t unfolding idx_def by metis
qed

lemma schedule_timer_ok:
  assumes I: "idx_inv st S X" and j: "st_jobs st i = Some j" and i: "i \<in> X" "i \<notin> S"
    and want: "wants_timer (st_replaying st) {} i j" and kind: "kind = timer_kind j"
  shows "\<exists>st'. schedule_timer i d kind st = Some st' \<and> idx_inv st' S (X - {i}) \<and> outer st' = outer st \<and>
    (\<forall>k. k \<noteq> i \<longrightarrow> timer_of st' k = timer_of st k)"
proof -
  let ?js = "st_jobs st" and ?w = "st_wheel st" and ?rep = "st_replaying st"
  note I' = I [unfolded idx_inv_def] and D = idxD [OF I [unfolded idx_inv_def]]
  note t = D(6)
  have "card (dom ?js - X) < kNil" using i by (intro card_off [OF D(1,2) j]) blast
  then have "tw_size ?w < kNil" using timers_count [OF t D(1)] by simp
  from wheel.sched [OF timers_okD(1) [OF t] this, of "mono_deadline d st" kind i]
  obtain h w' where sch: "schedule (mono_deadline d st) kind i ?w = Some (h, w')" "wheel_inv w'"
    "pending w' = insert \<lparr>te_handle = h, te_deadline = mono_deadline d st, te_id = i, te_kind = kind\<rparr> (pending ?w)"
    by blast
  let ?js' = "?js(i \<mapsto> j\<lparr>j_timer := h\<rparr>)"
  have old: "te_id e \<noteq> i" if "e \<in> pending ?w" for e using pending_ids [OF t that] i by blast
  have "timers_ok ?js' ?rep S (X - {i}) w'"
  proof (rule timers_ok_retime [OF t j sch(2) _ i(2)])
    fix e assume "e \<in> pending w'" "te_id e = i"
    then show "te_handle e = h" using sch(3) old by (metis TimerEvent.select_convs(1) insertE)
  qed (use want kind sch(3) old in \<open>auto simp: wants_timer_def\<close>)
  then have "idx ?js' (st_queues st) w' ?rep S (X - {i})"
    by (intro idx_timer [OF I' j]) (use want in \<open>auto simp: wants_timer_def\<close>)
  moreover have "schedule_timer i d kind st = Some (write_job i (\<lambda>j. j\<lparr>j_timer := h\<rparr>) (st\<lparr>st_wheel := w'\<rparr>))"
    using sch(1) j idx_job(1) [OF I j] by (simp add: schedule_timer_def)
  moreover have "outer (write_job i (\<lambda>j. j\<lparr>j_timer := h\<rparr>) (st\<lparr>st_wheel := w'\<rparr>)) = outer st"
    using j by (subst outer_write_job) (simp_all add: core_def)
  ultimately show ?thesis using j by (simp add: idx_inv_def timer_of_def)
qed

lemma cancel_timer_ok:
  assumes I: "idx_inv st S X" and j: "st_jobs st i = Some j" and i: "i \<notin> S"
    and want: "wants_timer (st_replaying st) X i j"
    and st': "st' = write_job i (\<lambda>j. j\<lparr>j_timer := no_timer\<rparr>) (st\<lparr>st_wheel := snd (cancel (j_timer j) (st_wheel st))\<rparr>)"
  shows "idx_inv st' S (insert i X)" and "outer st' = outer st"
proof -
  let ?js = "st_jobs st" and ?w = "st_wheel st" and ?rep = "st_replaying st"
  note I' = I [unfolded idx_inv_def] and D = idxD [OF I [unfolded idx_inv_def]]
  note t = D(6)
  obtain e where e: "e \<in> pending ?w" "te_handle e = j_timer j" "te_id e = i"
    using timers_okD(2) [OF t j want] by blast
  have c: "wheel_inv (snd (cancel (j_timer j) ?w))"
    "pending (snd (cancel (j_timer j) ?w)) = {e \<in> pending ?w. te_handle e \<noteq> j_timer j}"
    using wheel.canc [OF timers_okD(1) [OF t], of "j_timer j"] by auto
  have other: "te_handle e' \<noteq> j_timer j \<longleftrightarrow> te_id e' \<noteq> i" if "e' \<in> pending ?w" for e'
    using wheel.one_per_handle [OF e(1) that] inj_onD [OF pending_inj [OF t] _ e(1) that] e by metis
  have "timers_ok (?js(i \<mapsto> j\<lparr>j_timer := no_timer\<rparr>)) ?rep S (insert i X) (snd (cancel (j_timer j) ?w))"
    by (rule timers_ok_retime [OF t j c(1)]) (use i c(2) other in \<open>auto simp: wants_timer_def\<close>)
  then have "idx (?js(i \<mapsto> j\<lparr>j_timer := no_timer\<rparr>)) (st_queues st) (snd (cancel (j_timer j) ?w)) ?rep S (insert i X)"
    by (intro idx_timer [OF I' j]) (use want in \<open>auto simp: wants_timer_def\<close>)
  then show "idx_inv st' S (insert i X)" using j st' by (simp add: idx_inv_def)
  show "outer st' = outer st" using j unfolding st' by (subst outer_write_job) (simp_all add: core_def)
qed

section \<open>Moving a job between the indexes\<close>

lemma leave_indexes_ok:
  assumes I: "idx_inv st S X" and j: "st_jobs st i = Some j" and i: "i \<notin> S" and dead: "j_state j \<noteq> kDead"
  shows "\<exists>st'. leave_indexes i st = Some st' \<and> idx_inv st' S (insert i X) \<and> outer st' = outer st"
proof -
  note I' = I [unfolded idx_inv_def] and D = idxD [OF I [unfolded idx_inv_def]]
  have heap: "j_heap_index j \<noteq> kNotInHeap \<longleftrightarrow> i \<notin> X \<and> j_state j = kReady"
    using D(5) [OF j] i by (simp add: job_ok_def)
  have timer: "valid_handle (j_timer j) \<longleftrightarrow> wants_timer (st_replaying st) X i j"
    by (rule timers_valid_iff [OF D(6) j i])
  consider (ready) "i \<notin> X" "j_state j = kReady" | (timer) "wants_timer (st_replaying st) X i j"
    | (off) "i \<in> X" | (none) "i \<notin> X" "j_state j \<noteq> kReady" "\<not> wants_timer (st_replaying st) {} i j"
    by (auto simp: wants_timer_def)
  then show ?thesis
  proof cases
    case ready
    then obtain st1 where st1: "remove_ready i st = Some st1" "idx_inv st1 S (insert i X)" "outer st1 = outer st"
      using remove_ready_ok [OF I j] by blast
    obtain j1 where j1: "st_jobs st1 i = Some j1" using outer_job [OF st1(3) j] by blast
    then have "j_timer j1 = no_timer" using idx_job(3) [OF st1(2) j1] i by simp
    then show ?thesis using st1 j1 heap ready j by (simp add: leave_indexes_def)
  next
    case timer
    then have "leave_indexes i st = Some (write_job i (\<lambda>j. j\<lparr>j_timer := no_timer\<rparr>)
        (st\<lparr>st_wheel := snd (cancel (j_timer j) (st_wheel st))\<rparr>))"
      using heap \<open>valid_handle (j_timer j) \<longleftrightarrow> _\<close> j by (auto simp: leave_indexes_def wants_timer_def)
    then show ?thesis using cancel_timer_ok [OF I j i timer refl] by blast
  next
    case off
    then have "leave_indexes i st = Some st"
      using heap timer j by (simp add: leave_indexes_def wants_timer_def)
    then show ?thesis using I off by (simp add: insert_absorb)
  next
    case none
    then have "leave_indexes i st = Some st"
      using heap timer j by (auto simp: leave_indexes_def wants_timer_def)
    moreover have "idx_inv st S (insert i X)"
      by (rule idx_inv_unindexed [OF I j]) (use none dead in auto)
    ultimately show ?thesis by simp
  qed
qed

lemma leave_indexes_dead:
  assumes I: "idx_inv st S X" and j: "st_jobs st i = Some j" and i: "i \<notin> S" and dead: "j_state j = kDead"
  shows "leave_indexes i st = Some st"
proof -
  note D = idxD [OF I [unfolded idx_inv_def]]
  show ?thesis
    using D(5) [OF j] timers_valid_iff [OF D(6) j i] j dead i
    by (auto simp: leave_indexes_def job_ok_def wants_timer_def)
qed

lemma idx_inv_write_queue:
  assumes "idx_inv st S X"
    and "\<And>q. q_name (f q) = q_name q \<and> q_ready (f q) = q_ready q \<and> q_dead (f q) = q_dead q"
  shows "idx_inv (write_queue n f st) S X"
  using assms by (simp add: idx_inv_def idx_queue_write)

lemma idx_inv_write_job:
  assumes I: "idx_inv st S X" and j: "st_jobs st i = Some j" and i: "i \<in> X"
    and f: "j_id (f j) = j_id j" "j_queue (f j) = j_queue j" "j_heap_index (f j) = j_heap_index j" "j_timer (f j) = j_timer j"
    and stale: "i \<notin> S"
  shows "idx_inv (write_job i f st) S X"
proof -
  note D = idxD [OF I [unfolded idx_inv_def]]
  have "idx ((st_jobs st)(i \<mapsto> f j)) (st_queues st) (st_wheel st) (st_replaying st) S X"
    using D(2) D(5) [OF j] idx_job [OF I j] i f j stale
    by (intro idx_write [OF I [unfolded idx_inv_def] i]) (auto simp: job_ok_def insert_absorb domI)
  then show ?thesis using j by (simp add: idx_inv_def)
qed

lemma set_state_ok:
  assumes "idx_inv st S X" and "st_jobs st i = Some j" and "i \<in> X" and "i \<notin> S"
  shows "idx_inv (set_state i s st) S X"
proof -
  define st1 where "st1 = write_queue (j_queue j)
    (\<lambda>q. q\<lparr>q_counts := (q_counts q)(j_state j := q_counts q (j_state j) - 1)\<rparr>) st"
  have st1: "idx_inv st1 S X" unfolding st1_def by (rule idx_inv_write_queue [OF assms(1)]) simp
  have "idx_inv (write_job i (\<lambda>j. j\<lparr>j_state := s\<rparr>) st1) S X"
    by (rule idx_inv_write_job [OF st1 _ assms(3), of j]) (simp_all add: st1_def assms(2,4))
  then have "idx_inv (write_queue (j_queue j) (\<lambda>q. q\<lparr>q_counts := (q_counts q)(s := q_counts q s + 1)\<rparr>)
      (write_job i (\<lambda>j. j\<lparr>j_state := s\<rparr>) st1)) S X"
    by (rule idx_inv_write_queue) simp
  then show ?thesis using assms(2) by (simp add: set_state_def Let_def st1_def)
qed

definition pending_state :: "State \<Rightarrow> Job \<Rightarrow> JobState" where
  "pending_state st j = (if st_replaying st \<or> j_run_at j > st_wall_now st then kScheduled else kReady)"

lemma notify_ready_simps [simp]:
  "idx_inv (notify_ready n st) S X = idx_inv st S X" "st_jobs (notify_ready n st) = st_jobs st"
  by (simp_all add: idx_inv_def notify_ready_def)

lemma enter_pending_ok:
  assumes I: "idx_inv st S X" and j: "st_jobs st i = Some j" and i: "i \<in> X" "i \<notin> S"
  shows "\<exists>st'. enter_pending i st = Some st' \<and> idx_inv st' S (X - {i}) \<and>
    outer st' = outer (set_state i (pending_state st j) st) \<and> (\<forall>k. k \<noteq> i \<longrightarrow> timer_of st' k = timer_of st k)"
proof (cases "pending_state st j = kReady")
  case True
  let ?st1 = "set_state i kReady st"
  obtain st2 where "push_ready i ?st1 = Some st2" "idx_inv st2 S (X - {i})" "outer st2 = outer ?st1"
      "timer_of st2 = timer_of ?st1"
    using push_ready_ok [OF set_state_ok [OF I j i, of kReady], of i "j\<lparr>j_state := kReady\<rparr>"] j i by auto
  then show ?thesis
    using True j by (auto simp: enter_pending_def pending_state_def timer_of_def fun_eq_iff split: if_splits)
next
  case sched: False
  let ?st1 = "set_state i kScheduled st" and ?j1 = "j\<lparr>j_state := kScheduled\<rparr>"
  have I1: "idx_inv ?st1 S X" by (rule set_state_ok [OF I j i])
  have j1: "st_jobs ?st1 i = Some ?j1" using j by simp
  have s: "pending_state st j = kScheduled" using sched by (auto simp: pending_state_def split: if_splits)
  show ?thesis
  proof (cases "st_replaying st")
    case True
    have "idx_inv ?st1 S (X - {i})"
      using idx_inv_unindexed [OF I1 j1, of "X - {i}"] True by (simp add: wants_timer_def)
    then show ?thesis using True s j by (simp add: enter_pending_def timer_of_def)
  next
    case False
    obtain st2 where "schedule_timer i (j_run_at j) kJobDue ?st1 = Some st2" "idx_inv st2 S (X - {i})"
        "outer st2 = outer ?st1" "\<forall>k. k \<noteq> i \<longrightarrow> timer_of st2 k = timer_of ?st1 k"
      using schedule_timer_ok [OF I1 j1 i, of kJobDue "j_run_at j"] False
      by (auto simp: wants_timer_def timer_kind_def)
    then show ?thesis
      using False s j j1 by (auto simp: enter_pending_def pending_state_def timer_of_def Let_def split: if_splits)
  qed
qed

lemma schedule_lease_timer_ok:
  assumes I: "idx_inv st S X" and j: "st_jobs st i = Some j" "j_state j = kLeased" and i: "i \<in> X" "i \<notin> S"
  shows "\<exists>st'. schedule_lease_timer i grace st = Some st' \<and> idx_inv st' S (X - {i}) \<and> outer st' = outer st"
proof (cases "st_replaying st")
  case True
  have "idx_inv st S (X - {i})"
    using idx_inv_unindexed [OF I j(1), of "X - {i}"] True j by (simp add: wants_timer_def)
  then show ?thesis using True by (simp add: schedule_lease_timer_def)
next
  case False
  then show ?thesis
    using schedule_timer_ok [OF I j(1) i, of kLeaseExpiry "max (j_lease_expires_at j) (st_wall_now st + grace)"] j
    by (auto simp: schedule_lease_timer_def wants_timer_def timer_kind_def)
qed

text \<open>The dead-letter set of a queue.\<close>

lemma insort_dead_ok:
  assumes I: "idx_inv st S X" and j: "st_jobs st i = Some j" "j_state j = kDead" and i: "i \<in> X"
  shows "idx_inv (write_queue (j_queue j) (\<lambda>q. q\<lparr>q_dead := insort_insert i (q_dead q)\<rparr>) st) S (X - {i})"
proof -
  note I' = I [unfolded idx_inv_def] and D = idxD [OF I [unfolded idx_inv_def]]
  obtain q where q: "map_of (st_queues st) (j_queue j) = Some q" using idx_queue_exists [OF I j(1)] by blast
  show ?thesis
    unfolding idx_inv_def write_queue_fields
  proof (rule idx_dead [OF I' j q])
    show "set (insort_insert i (q_dead q)) = jobs_in (st_jobs st) (X - {i}) (j_queue j) kDead"
      using D(4) [OF q] jobs_in_without(3) [of "st_jobs st" i j X "j_queue j" kDead] j i
      by (simp add: queue_ok_def set_insort_insert)
  qed (use D(4) [OF q] in \<open>auto simp: queue_ok_def sorted_insort_insert distinct_insort_insert\<close>)
qed

lemma remove_dead_ok:
  assumes I: "idx_inv st S X" and j: "st_jobs st i = Some j" "j_state j = kDead"
  shows "idx_inv (write_queue (j_queue j) (\<lambda>q. q\<lparr>q_dead := remove1 i (q_dead q)\<rparr>) st) S (insert i X)"
proof -
  note I' = I [unfolded idx_inv_def] and D = idxD [OF I [unfolded idx_inv_def]]
  obtain q where q: "map_of (st_queues st) (j_queue j) = Some q" using idx_queue_exists [OF I j(1)] by blast
  show ?thesis
    unfolding idx_inv_def write_queue_fields
  proof (rule idx_dead [OF I' j q])
    show "set (remove1 i (q_dead q)) = jobs_in (st_jobs st) (insert i X) (j_queue j) kDead"
      using D(4) [OF q] jobs_in_without(1) [of "st_jobs st" i j X "j_queue j" kDead] j
      by (simp add: queue_ok_def)
  qed (use D(4) [OF q] in \<open>auto simp: queue_ok_def sorted_remove1\<close>)
qed

end
