(* ===== verification/StateInv.thy ===== *)
theory StateInv
  imports StateOps
begin

text \<open>
  The invariant of \<^verbatim>\<open>State\<close>: besides the indexes of \<^verbatim>\<open>StateIdx\<close>, the counts of every queue, the
  memory estimate, the idempotency index and what the durable fields of a job must satisfy.
  The counts and the durable fields do not depend on the indexes, so they are stated on
  what \<open>outer\<close> keeps; a job in \<open>E\<close> is being rewritten and is exempt from the latter.
\<close>

section \<open>The invariant\<close>

text \<open>The counts; jobs in \<open>C\<close> are not counted yet.\<close>

definition cnt_inv :: "State \<Rightarrow> JobId set \<Rightarrow> bool" where
  "cnt_inv st C \<longleftrightarrow> (\<forall>n q. map_of (st_queues st) n = Some q \<longrightarrow>
     (\<forall>s. q_counts q s = of_nat (card (jobs_in (st_jobs st) C n s))))"

definition jobs_bytes :: "Abi \<Rightarrow> Jobs \<Rightarrow> u64" where
  "jobs_bytes abi js = (\<Sum>i\<in>dom js. job_bytes abi (the (js i)))"

definition mem_inv :: "State \<Rightarrow> bool" where
  "mem_inv st \<longleftrightarrow> st_memory_bytes st =
     jobs_bytes (st_abi st) (st_jobs st) + sum_list (map (idem_bytes (st_abi st)) (st_idem_order st))"

definition idem_inv :: "State \<Rightarrow> bool" where
  "idem_inv st \<longleftrightarrow> distinct (map ie_key (st_idem_order st)) \<and>
     st_idem_index st = map_of (map (\<lambda>e. (ie_key e, e)) (st_idem_order st))"

definition dur_job :: "JobId \<Rightarrow> LeaseToken \<Rightarrow> JobId \<Rightarrow> Job \<Rightarrow> bool" where
  "dur_job next_id next_tok i j \<longleftrightarrow> i < next_id \<and> j_attempts j \<le> j_max_attempts j \<and> j_lease_token j < next_tok \<and>
     (holds_token (j_state j) \<longleftrightarrow> j_lease_token j \<noteq> 0) \<and> (j_state j = kLeased \<longrightarrow> j_attempts j \<noteq> 0)"

definition dur_inv :: "State \<Rightarrow> JobId set \<Rightarrow> bool" where
  "dur_inv st E \<longleftrightarrow> 0 < st_next_token st \<and>
     (\<forall>i j. st_jobs st i = Some j \<longrightarrow> i \<notin> E \<longrightarrow> dur_job (st_next_job_id st) (st_next_token st) i j)"

definition base :: "State \<Rightarrow> JobId set \<Rightarrow> bool" where
  "base st E \<longleftrightarrow> finite (dom (st_jobs st)) \<and> cnt_inv st {} \<and> mem_inv st \<and> idem_inv st \<and> dur_inv st E"

definition good :: "State \<Rightarrow> JobId set \<Rightarrow> JobId set \<Rightarrow> JobId set \<Rightarrow> bool" where
  "good st S X E \<longleftrightarrow> idx_inv st S X \<and> base st E"

text \<open>The invariant between operations; \<open>X\<close> are leased jobs whose timer has just fired.\<close>

definition state_inv :: "State \<Rightarrow> bool" where
  "state_inv st \<longleftrightarrow> good st {} {} {}"

section \<open>Dependence on the outer state\<close>

lemma job_bytes_core [simp]: "job_bytes abi (core j) = job_bytes abi j"
  by (simp add: job_bytes_def)

lemma dur_job_core [simp]: "dur_job ni nt i (core j) = dur_job ni nt i j"
  by (simp add: dur_job_def)

lemma jobs_bytes_cores [simp]: "jobs_bytes abi (cores js) = jobs_bytes abi js"
  by (auto simp: jobs_bytes_def cores_def dom_def intro!: sum.cong)

lemma jobs_in_cores' [simp]: "jobs_in (cores js) X n s = jobs_in js X n s"
  by (auto simp: jobs_in_def cores_def)

lemma map_of_core_queues: "map_of (core_queues qs) n = map_option core_queue (map_of qs n)"
  by (induction qs) (auto simp: core_queues_def)

lemma core_queue_fields [simp]:
  "q_name (core_queue q) = q_name q" "q_totals (core_queue q) = q_totals q" "q_counts (core_queue q) = q_counts q"
  by (simp_all add: core_queue_def)

lemma cnt_inv_outer: "cnt_inv (outer st) C = cnt_inv st C"
  unfolding cnt_inv_def outer_fields map_of_core_queues by (auto 0 4)

lemma dur_inv_outer: "dur_inv (outer st) E = dur_inv st E"
  unfolding dur_inv_def outer_fields by (auto simp: cores_def) (metis dur_job_core)

lemma base_outer: "base (outer st) E = base st E"
  by (simp add: base_def mem_inv_def idem_inv_def outer_fields cnt_inv_outer dur_inv_outer)

lemma base_outer_eq: "outer st' = outer st \<Longrightarrow> base st' E = base st E"
  by (metis base_outer)

lemma base_outerI: "base st E \<Longrightarrow> outer st' = outer st \<Longrightarrow> base st' E"
  by (metis base_outer)

section \<open>Rewriting one job\<close>

lemma outer_write_queue':
  assumes "\<And>q. core_queue (f q) = f (core_queue q)"
  shows "outer (write_queue n f st) = write_queue n f (outer st)"
proof -
  have "core_queues (omap_update n f qs) = omap_update n f (core_queues qs)" for qs
    by (induction qs) (auto simp: core_queues_def assms)
  then show ?thesis by (simp add: outer_def write_queue_def core_queues_def)
qed

lemma outer_write_job':
  assumes "st_jobs st i = Some j" and "core (f j) = f (core j)"
  shows "outer (write_job i f st) = write_job i f (outer st)"
proof -
  have "cores (upd_job i f (st_jobs st)) = upd_job i f (cores (st_jobs st))"
    using assms by (auto simp: cores_def upd_job_def deref_def)
  then show ?thesis by (simp add: outer_def write_job_def)
qed

lemma outer_set_state:
  assumes "st_jobs st i = Some j"
  shows "outer (set_state i s st) = set_state i s (outer st)"
proof -
  have "job_of (outer st) i = core j" using assms by (simp add: outer_fields cores_def)
  then show ?thesis
    using assms unfolding set_state_def Let_def
    by (simp add: outer_write_queue' outer_write_job' [where j = j] core_def core_queue_def)
qed

lemma jobs_in_upd:
  "i \<notin> C \<Longrightarrow> jobs_in (js(i \<mapsto> j')) C n s =
     (if j_state j' = s \<and> j_queue j' = n then insert i (jobs_in js C n s) else jobs_in js C n s - {i})"
  by (auto simp: jobs_in_def split: if_splits)

lemma jobs_bytes_upd:
  assumes "finite (dom js)"
  shows "jobs_bytes abi (js(i \<mapsto> j')) =
    jobs_bytes abi js - (case js i of None \<Rightarrow> 0 | Some j \<Rightarrow> job_bytes abi j) + job_bytes abi j'"
proof -
  have "jobs_bytes abi (js(i \<mapsto> j')) = job_bytes abi j' + (\<Sum>k\<in>dom js - {i}. job_bytes abi (the (js k)))"
    using assms by (auto simp: jobs_bytes_def sum.insert_remove intro!: sum.cong)
  moreover have "(\<Sum>k\<in>dom js - {i}. job_bytes abi (the (js k))) =
      jobs_bytes abi js - (case js i of None \<Rightarrow> 0 | Some j \<Rightarrow> job_bytes abi j)"
    using assms by (cases "js i") (auto simp: jobs_bytes_def sum_diff1 domIff)
  ultimately show ?thesis by simp
qed

lemma jobs_bytes_erase:
  assumes "finite (dom js)" and "js i = Some j"
  shows "jobs_bytes abi (js(i := None)) = jobs_bytes abi js - job_bytes abi j"
proof -
  have "jobs_bytes abi (js(i := None)) = (\<Sum>k\<in>dom js - {i}. job_bytes abi (the (js k)))"
    by (auto simp: jobs_bytes_def intro!: sum.cong)
  then show ?thesis using assms by (simp add: jobs_bytes_def sum_diff1 domI)
qed

lemma finite_jobs_in: "finite (dom js) \<Longrightarrow> finite (jobs_in js X n s)"
  by (rule finite_subset [of _ "dom js"]) (auto simp: jobs_in_def)

lemma jobs_in_same:
  assumes "js i = Some j" and "j_queue j' = j_queue j" and "j_state j' = j_state j"
  shows "jobs_in (js(i \<mapsto> j')) {} n s = jobs_in js {} n s"
  using assms by (auto simp: jobs_in_def)

lemma dur_inv_write: "dur_inv st E \<Longrightarrow> i \<in> E \<Longrightarrow> dur_inv (st\<lparr>st_jobs := (st_jobs st)(i := x)\<rparr>) E"
  by (auto simp: dur_inv_def split: if_splits)

text \<open>A job is rewritten in place and the memory estimate adjusted by the difference.\<close>

lemma base_rewrite:
  assumes b: "base st E" and j: "st_jobs st i = Some j" and i: "i \<in> E"
    and f: "j_queue (f j) = j_queue j" "j_state (f j) = j_state j"
    and m: "m = st_memory_bytes st - job_bytes (st_abi st) j + job_bytes (st_abi st) (f j)"
  shows "base ((write_job i f st)\<lparr>st_memory_bytes := m\<rparr>) E"
proof -
  have fin: "finite (dom (st_jobs st))" using b by (simp add: base_def)
  have "cnt_inv ((write_job i f st)\<lparr>st_memory_bytes := m\<rparr>) {}"
    using b j jobs_in_same [of "st_jobs st" i j "f j", OF j f] by (simp add: base_def cnt_inv_def)
  moreover have "mem_inv ((write_job i f st)\<lparr>st_memory_bytes := m\<rparr>)"
    using b j jobs_bytes_upd [OF fin, of "st_abi st" i "f j"] m by (simp add: base_def mem_inv_def)
  moreover have "dur_inv ((write_job i f st)\<lparr>st_memory_bytes := m\<rparr>) E"
    using b j i by (auto simp: base_def dur_inv_def split: if_splits)
  ultimately show ?thesis using b j fin by (simp add: base_def idem_inv_def)
qed

lemma base_write_job:
  assumes "base st E" and "st_jobs st i = Some j" and "i \<in> E"
    and "j_queue (f j) = j_queue j" "j_state (f j) = j_state j" "job_bytes (st_abi st) (f j) = job_bytes (st_abi st) j"
  shows "base (write_job i f st) E"
  using base_rewrite [of st E i j f "st_memory_bytes st"] assms by (simp add: write_job_def)

lemma base_write_queue:
  assumes "base st E" and "\<And>q. q_counts (f q) = q_counts q"
  shows "base (write_queue n f st) E"
  using assms by (auto simp: base_def cnt_inv_def mem_inv_def idem_inv_def dur_inv_def split: if_splits)

lemma card_word_remove:
  assumes "finite A" and "i \<in> A"
  shows "(of_nat (card (A - {i})) :: u64) = of_nat (card A) - 1"
proof -
  have "card A = Suc (card (A - {i}))" by (rule card.remove [OF assms])
  then show ?thesis by (metis add_diff_cancel_left' of_nat_Suc)
qed

lemma cnt_inv_move:
  assumes cnt: "cnt_inv st C" and i: "i \<notin> C" and fin: "finite (dom (st_jobs st))" and j: "st_jobs st i = Some j"
  shows "cnt_inv (set_state i s st) C"
proof -
  let ?js = "st_jobs st"
  have "q_counts q x = of_nat (card (jobs_in (?js(i \<mapsto> j\<lparr>j_state := s\<rparr>)) C n x))"
    if q: "map_of (st_queues (set_state i s st)) n = Some q" for n q x
  proof (cases "n = j_queue j")
    case False
    then have "jobs_in (?js(i \<mapsto> j\<lparr>j_state := s\<rparr>)) C n x = jobs_in ?js C n x" using j by (auto simp: jobs_in_def)
    then show ?thesis using cnt q j False by (simp add: cnt_inv_def set_state_def Let_def)
  next
    case True
    define c where "c y = (of_nat (card (jobs_in ?js C n y)) :: u64)" for y
    obtain q0 where q0: "map_of (st_queues st) n = Some q0" "q_counts q0 = c"
      "q_counts q = (c(j_state j := c (j_state j) - 1))(s := (c(j_state j := c (j_state j) - 1)) s + 1)"
      using cnt q j True by (auto simp: cnt_inv_def set_state_def Let_def c_def fun_eq_iff)
    have mem: "i \<in> jobs_in ?js C n y \<longleftrightarrow> y = j_state j" for y using j i True by (auto simp: jobs_in_def)
    have f: "finite (jobs_in ?js C n y)" for y by (rule finite_jobs_in [OF fin])
    have add: "of_nat (card (insert i (jobs_in ?js C n y))) = c y + 1" if "y \<noteq> j_state j" for y
      using mem [of y] that f [of y] by (simp add: c_def)
    have rem: "of_nat (card (jobs_in ?js C n y - {i})) = c y - 1" if "y = j_state j" for y
      unfolding c_def using mem [of y] that by (intro card_word_remove [OF f]) simp
    have keep: "insert i (jobs_in ?js C n (j_state j)) = jobs_in ?js C n (j_state j)" using mem by (simp add: insert_absorb)
    have keep': "jobs_in ?js C n y - {i} = jobs_in ?js C n y" if "y \<noteq> j_state j" for y using mem [of y] that by simp
    show ?thesis
      unfolding jobs_in_upd [OF i] q0(3)
      using True add rem keep keep' by (cases "x = s"; cases "x = j_state j") (simp_all add: c_def)
  qed
  then show ?thesis using j by (simp add: cnt_inv_def)
qed

lemma base_set_state:
  assumes "base st E" and "st_jobs st i = Some j" and "i \<in> E"
  shows "base (set_state i s st) E"
proof -
  have fin: "finite (dom (st_jobs st))" using assms(1) by (simp add: base_def)
  have "mem_inv (set_state i s st)"
    using assms(1,2) jobs_bytes_upd [OF fin, of "st_abi st" i "j\<lparr>j_state := s\<rparr>"]
    by (simp add: base_def mem_inv_def job_bytes_def)
  moreover have "dur_inv (set_state i s st) E" using assms by (auto simp: base_def dur_inv_def split: if_splits)
  ultimately show ?thesis
    using cnt_inv_move [OF _ _ fin assms(2), of "{}"] assms(1,2) fin by (simp add: base_def idem_inv_def)
qed

lemma base_open: "base st E \<Longrightarrow> base st (insert i E)"
  by (auto simp: base_def dur_inv_def)

lemma base_close:
  assumes "base st E" and "st_jobs st i = Some j" and "dur_job (st_next_job_id st) (st_next_token st) i j"
  shows "base st (E - {i})"
  using assms by (auto simp: base_def dur_inv_def)

lemma base_absent:
  assumes "base st E" and "st_jobs st i = None"
  shows "base st (E - {i})"
  using assms by (auto simp: base_def dur_inv_def)

lemma base_gc [simp]:
  "base (st\<lparr>st_finished_gc := f\<rparr>) E = base st E" "base (st\<lparr>st_dead_gc := d\<rparr>) E = base st E"
  by (simp_all add: base_def cnt_inv_def mem_inv_def idem_inv_def dur_inv_def)

lemma base_next_job_id:
  assumes "base st E" and "st_next_job_id st \<le> n"
  shows "base (st\<lparr>st_next_job_id := n\<rparr>) E"
proof -
  have "dur_job n t i j" if "dur_job (st_next_job_id st) t i j" for t i j
    using that assms(2) by (auto simp: dur_job_def intro: less_le_trans)
  then show ?thesis using assms(1) by (simp add: base_def cnt_inv_def mem_inv_def idem_inv_def dur_inv_def)
qed

lemma base_next_token:
  assumes "base st E" and "st_next_token st \<le> n"
  shows "base (st\<lparr>st_next_token := n\<rparr>) E"
proof -
  have "dur_job t n i j" if "dur_job t (st_next_token st) i j" for t i j
    using that assms(2) by (auto simp: dur_job_def intro: less_le_trans)
  moreover have "0 < n" using assms by (auto simp: base_def dur_inv_def intro: less_le_trans)
  ultimately show ?thesis using assms(1) by (simp add: base_def cnt_inv_def mem_inv_def idem_inv_def dur_inv_def)
qed

section \<open>Primitives under the whole invariant\<close>

lemma good_leave:
  assumes "good st S X E" and "st_jobs st i = Some j" and "i \<notin> S" and "j_state j \<noteq> kDead"
  shows "\<exists>st'. leave_indexes i st = Some st' \<and> good st' S (insert i X) E \<and> outer st' = outer st"
  using leave_indexes_ok [of st S X i j] assms by (auto simp: good_def intro: base_outerI)

lemma good_set_state:
  assumes "good st S X E" and "st_jobs st i = Some j" and "i \<in> X" and "i \<in> E" and "i \<notin> S"
  shows "good (set_state i s st) S X E"
  using assms set_state_ok base_set_state by (auto simp: good_def)

lemma good_write_job:
  assumes "good st S X E" and "st_jobs st i = Some j" and "i \<in> X" and "i \<in> E"
    and "j_id (f j) = j_id j" "j_queue (f j) = j_queue j" "j_heap_index (f j) = j_heap_index j" "j_timer (f j) = j_timer j"
    and "j_state (f j) = j_state j" "job_bytes (st_abi st) (f j) = job_bytes (st_abi st) j" and "i \<notin> S"
  shows "good (write_job i f st) S X E"
  using assms idx_inv_write_job [of st S X i j f] base_write_job [of st E i j f] by (auto simp: good_def)

lemma good_write_queue:
  assumes "good st S X E" and "\<And>q. q_name (f q) = q_name q \<and> q_ready (f q) = q_ready q \<and> q_dead (f q) = q_dead q"
    and "\<And>q. q_counts (f q) = q_counts q"
  shows "good (write_queue n f st) S X E"
  using assms idx_inv_write_queue base_write_queue by (auto simp: good_def)

lemma good_enter_pending:
  assumes g: "good st S X E" and j: "st_jobs st i = Some j" and i: "i \<in> X" "i \<notin> S" "i \<in> E"
  shows "\<exists>st'. enter_pending i st = Some st' \<and> good st' S (X - {i}) E \<and>
    outer st' = set_state i (pending_state st j) (outer st) \<and> (\<forall>k. k \<noteq> i \<longrightarrow> timer_of st' k = timer_of st k)"
proof -
  have I: "idx_inv st S X" and b: "base st E" using g by (simp_all add: good_def)
  obtain st' where st': "enter_pending i st = Some st'" "idx_inv st' S (X - {i})"
      "outer st' = outer (set_state i (pending_state st j) st)" "\<forall>k. k \<noteq> i \<longrightarrow> timer_of st' k = timer_of st k"
    using enter_pending_ok [OF I j i(1,2)] by blast
  then have "base st' E" using base_outer_eq [OF st'(3)] base_set_state [OF b j i(3)] by simp
  then show ?thesis using st' outer_set_state [OF j] by (auto simp: good_def)
qed

lemma good_lease_timer:
  assumes g: "good st S X E" and j: "st_jobs st i = Some j" "j_state j = kLeased" and i: "i \<in> X" "i \<notin> S"
  shows "\<exists>st'. schedule_lease_timer i grace st = Some st' \<and> good st' S (X - {i}) E \<and> outer st' = outer st"
proof -
  have I: "idx_inv st S X" and b: "base st E" using g by (simp_all add: good_def)
  show ?thesis using schedule_lease_timer_ok [OF I j i, of grace] base_outerI [OF b] by (auto simp: good_def)
qed

lemma good_close:
  assumes "good st S X (insert i E)" and "st_jobs st i = Some j" "dur_job (st_next_job_id st) (st_next_token st) i j"
  shows "good st S X E"
  using assms unfolding good_def base_def dur_inv_def by (metis insertE option.inject)

lemma good_open: "good st S X E \<Longrightarrow> good st S X (insert i E)"
  by (simp add: good_def base_open)

lemma good_gc [simp]:
  "good (st\<lparr>st_finished_gc := f\<rparr>) S X E = good st S X E" "good (st\<lparr>st_dead_gc := d\<rparr>) S X E = good st S X E"
  by (simp_all add: good_def idx_inv_def)

lemma good_dur:
  assumes "good st S X E" and "st_jobs st i = Some j" and "i \<notin> E"
  shows "dur_job (st_next_job_id st) (st_next_token st) i j"
  using assms by (simp add: good_def base_def dur_inv_def)

section \<open>Finishing a job\<close>

text \<open>\<open>finish\<close> without the indexes.\<close>

definition finish_job :: "JobState \<Rightarrow> WallTime \<Rightarrow> Job \<Rightarrow> Job" where
  "finish_job t at j = j\<lparr>j_finished_at := at, j_lease_token := (if t = kSucceeded then j_lease_token j else 0)\<rparr>"

definition finish_core :: "JobId \<Rightarrow> JobState \<Rightarrow> WallTime \<Rightarrow> State \<Rightarrow> State" where
  "finish_core i t at st =
     (let st1 = write_job i (finish_job t at) (set_state i t st);
          ref = \<lparr>fr_id = i, fr_finished_at = at\<rparr>
      in if t = kDead then st1\<lparr>st_dead_gc := st_dead_gc st1 @ [ref]\<rparr>
         else st1\<lparr>st_finished_gc := st_finished_gc st1 @ [ref]\<rparr>)"

lemma outer_gc [simp]:
  "outer (st\<lparr>st_finished_gc := f\<rparr>) = (outer st)\<lparr>st_finished_gc := f\<rparr>"
  "outer (st\<lparr>st_dead_gc := f\<rparr>) = (outer st)\<lparr>st_dead_gc := f\<rparr>"
  by (simp_all add: outer_def)

lemma outer_finish_core:
  assumes "st_jobs st i = Some j"
  shows "outer (finish_core i t at st) = finish_core i t at (outer st)"
proof -
  have "outer (write_job i (finish_job t at) (set_state i t st)) = write_job i (finish_job t at) (set_state i t (outer st))"
    using assms
    by (subst outer_write_job' [where j = "j\<lparr>j_state := t\<rparr>"]) (simp_all add: outer_set_state core_def finish_job_def)
  then show ?thesis by (cases "t = kDead") (simp_all add: finish_core_def Let_def outer_fields)
qed

lemma finish_ok:
  assumes g: "good st {} X E" and j: "st_jobs st i = Some j" "j_state j \<noteq> kDead" "dur_job (st_next_job_id st) (st_next_token st) i j"
    and t: "is_terminal t" "t = kSucceeded \<Longrightarrow> j_lease_token j \<noteq> 0"
  shows "\<exists>st'. finish i t at st = Some st' \<and> good st' {} (X - {i}) E \<and> outer st' = finish_core i t at (outer st)"
proof -
  obtain st1 where st1: "leave_indexes i st = Some st1" "good st1 {} (insert i X) (insert i E)" "outer st1 = outer st"
    using good_leave [OF good_open [OF g] j(1) _ j(2)] by blast
  obtain j1 where j1: "st_jobs st1 i = Some j1" "core j1 = core j" using outer_job [OF st1(3) j(1)] by blast
  define st4 where "st4 = write_job i (finish_job t at) (set_state i t st1)"
  have j4: "st_jobs st4 i = Some (finish_job t at (j1\<lparr>j_state := t\<rparr>))" using j1 by (simp add: st4_def)
  have g4: "good st4 {} (insert i X) (insert i E)"
    unfolding st4_def using good_set_state [OF st1(2) j1(1)]
    by (rule good_write_job [of _ _ _ _ i "j1\<lparr>j_state := t\<rparr>"]) (use j1 in \<open>simp_all add: job_bytes_def finish_job_def\<close>)
  have id: "j_id j1 = i" using st1(2) idx_job(1) [OF _ j1(1), of "{}" "insert i X"] by (simp add: good_def)
  define st5 where "st5 = (if t = kDead then write_queue (j_queue j1) (\<lambda>q. q\<lparr>q_dead := insort_insert i (q_dead q)\<rparr>) st4 else st4)"
  have o5: "outer st5 = outer st4" by (simp add: st5_def outer_write_queue core_queue_def)
  have "idx_inv st5 {} (insert i X - {i})"
  proof (cases "t = kDead")
    case True
    then show ?thesis using insort_dead_ok [OF _ j4, of "{}" "insert i X"] g4 by (simp add: st5_def good_def finish_job_def)
  next
    case False
    then show ?thesis
      using idx_inv_unindexed [OF _ j4, of "{}" "insert i X" "insert i X - {i}"] g4 t(1)
      by (auto simp: st5_def good_def wants_timer_def is_terminal_def finish_job_def)
  qed
  then have g5': "good st5 {} (X - {i}) (insert i E)" using g4 base_outer_eq [OF o5] by (simp add: good_def)
  have j5: "st_jobs st5 i = Some (finish_job t at (j1\<lparr>j_state := t\<rparr>))" using j4 by (simp add: st5_def)
  have "0 < st_next_token st" using g by (simp add: good_def base_def dur_inv_def)
  then have "dur_job (st_next_job_id st5) (st_next_token st5) i (finish_job t at (j1\<lparr>j_state := t\<rparr>))"
    using j(3) t core_eq_fields [OF j1(2)] outer_eqD(8,9) [OF st1(3)]
    by (auto simp: dur_job_def is_terminal_def finish_job_def st5_def st4_def)
  then have g5: "good st5 {} (X - {i}) E" by (rule good_close [OF g5' j5])
  let ?ref = "\<lparr>fr_id = i, fr_finished_at = at\<rparr>"
  define st6 where "st6 = (if t = kDead then st5\<lparr>st_dead_gc := st_dead_gc st5 @ [?ref]\<rparr>
    else st5\<lparr>st_finished_gc := st_finished_gc st5 @ [?ref]\<rparr>)"
  have "finish i t at st = Some st6"
    using st1(1) j1 id
    by (cases "t = kSucceeded") (auto simp: finish_def Let_def st6_def st5_def st4_def finish_job_def write_job_def upd_job_def deref_def job_of_def)
  moreover have "good st6 {} (X - {i}) E" using g5 by (simp add: st6_def)
  moreover have "outer st6 = finish_core i t at (outer st)"
    using o5 outer_finish_core [OF j1(1), of t at] st1(3)
    by (cases "t = kDead") (simp_all add: st6_def finish_core_def Let_def st4_def outer_eqD [OF o5])
  ultimately show ?thesis by blast
qed

end
