(* ===== verification/StateApply.thy ===== *)
theory StateApply
  imports StateInv
begin

text \<open>
  \<open>State::apply\<close>: each record type either reports an error and changes nothing, or keeps
  the invariant and has the effect of its \<open>core\<close> function, which is the code without the
  indexes. No record aborts.
\<close>

section \<open>Outcomes\<close>

definition applied_ok :: "State \<Rightarrow> JobId set \<Rightarrow> (State \<Rightarrow> State) \<Rightarrow> applied \<Rightarrow> bool" where
  "applied_ok st X F a \<longleftrightarrow> (\<exists>e. a = Some (Inl e, st)) \<or>
     (\<exists>st'. a = Some (Inr (), st') \<and> good st' {} X {} \<and> outer st' = F (outer st))"

lemma applied_error [simp]: "applied_ok st X F (Some (Inl e, st))"
  by (simp add: applied_ok_def)

lemma applied_mismatch [simp]: "applied_ok st X F (Some (mismatch what, st))"
  by (simp add: mismatch_def)

lemma applied_success: "good st' {} X {} \<Longrightarrow> outer st' = F (outer st) \<Longrightarrow> applied_ok st X F (Some (Inr (), st'))"
  by (auto simp: applied_ok_def)

lemma require_leased_Inr:
  "require_leased i token what st = Inr u \<longleftrightarrow>
     (\<exists>j. st_jobs st i = Some j \<and> j_state j = kLeased \<and> j_lease_token j = token)"
  by (auto simp: require_leased_def find_job_def mismatch_def split: option.splits)

lemma outer_job_of: "st_jobs st i = Some j \<Longrightarrow> job_of (outer st) i = core j"
  by (simp add: outer_fields cores_def)

lemma good_write_totals:
  assumes "good st S X E"
  shows "good (write_totals i f st) S X E"
  unfolding write_totals_def by (rule good_write_queue [OF assms]) simp_all

lemma outer_write_totals:
  assumes "st_jobs st i = Some j"
  shows "outer (write_totals i f st) = write_totals i f (outer st)"
  using assms by (simp add: write_totals_def outer_job_of outer_write_queue' core_queue_def)

lemma write_totals_fields [simp]:
  "st_jobs (write_totals i f st) = st_jobs st" "st_next_job_id (write_totals i f st) = st_next_job_id st"
  "st_next_token (write_totals i f st) = st_next_token st" "st_abi (write_totals i f st) = st_abi st"
  "st_replaying (write_totals i f st) = st_replaying st" "st_wall_now (write_totals i f st) = st_wall_now st"
  by (simp_all add: write_totals_def)

lemma good_next_token:
  assumes "good st S X E" and "st_next_token st \<le> n"
  shows "good (st\<lparr>st_next_token := n\<rparr>) S X E"
  using assms base_next_token by (simp add: good_def idx_inv_def)

lemma good_next_job_id:
  assumes "good st S X E" and "st_next_job_id st \<le> n"
  shows "good (st\<lparr>st_next_job_id := n\<rparr>) S X E"
  using assms base_next_job_id by (simp add: good_def idx_inv_def)

lemma outer_next [simp]:
  "outer (st\<lparr>st_next_token := n\<rparr>) = (outer st)\<lparr>st_next_token := n\<rparr>"
  "outer (st\<lparr>st_next_job_id := m\<rparr>) = (outer st)\<lparr>st_next_job_id := m\<rparr>"
  by (simp_all add: outer_def)

section \<open>Leases\<close>

definition lease_job :: "JobLeased \<Rightarrow> Job \<Rightarrow> Job" where
  "lease_job r j = j\<lparr>j_attempts := j_attempts j + 1, j_lease_token := jl_token r, j_lease_expires_at := jl_lease_expires_at r\<rparr>"

definition lease_core :: "JobLeased \<Rightarrow> State \<Rightarrow> State" where
  "lease_core r st = (write_job (jl_id r) (lease_job r) (set_state (jl_id r) kLeased st))\<lparr>st_next_token := jl_token r + 1\<rparr>"

lemma word_succ_less: "(x :: 'a :: len word) \<noteq> - 1 \<Longrightarrow> x < x + 1"
  by (metis inc_less_eq_self_iff_eq not_le)

lemma attempts_succ:
  assumes "(a :: u32) < m"
  shows "a + 1 \<le> m" and "a + 1 \<noteq> 0"
proof -
  show "a + 1 \<le> m" using assms by (rule inc_le)
  have "a \<noteq> - 1" using assms by auto
  then show "a + 1 \<noteq> 0" using word_succ_less [of a] by auto
qed

lemma apply_JobLeased_ok:
  assumes g: "good st {} X {}" and tok: "st_next_token st \<noteq> - 1"
  shows "applied_ok st (X - {jl_id r}) (lease_core r) (apply_JobLeased r st)"
proof (cases "\<exists>j. st_jobs st (jl_id r) = Some j \<and> is_pending (j_state j) \<and> jl_token r = st_next_token st \<and>
    j_attempts j < j_max_attempts j")
  case True
  let ?i = "jl_id r"
  obtain j where j: "st_jobs st ?i = Some j" "is_pending (j_state j)" "jl_token r = st_next_token st"
    "j_attempts j < j_max_attempts j" using True by blast
  obtain st1 where st1: "leave_indexes ?i st = Some st1" "good st1 {} (insert ?i X) {?i}" "outer st1 = outer st"
    using good_leave [OF good_open [OF g] j(1), of ?i] j(2) by (auto simp: is_pending_def)
  obtain j1 where j1: "st_jobs st1 ?i = Some j1" "core j1 = core j" using outer_job [OF st1(3) j(1)] by blast
  define st3 where "st3 = write_job ?i (lease_job r) (set_state ?i kLeased st1)"
  have g3: "good st3 {} (insert ?i X) {?i}"
    unfolding st3_def using good_set_state [OF st1(2) j1(1)]
    by (rule good_write_job [of _ _ _ _ ?i "j1\<lparr>j_state := kLeased\<rparr>"]) (use j1 in \<open>simp_all add: lease_job_def job_bytes_def\<close>)
  have j3: "st_jobs st3 ?i = Some (lease_job r (j1\<lparr>j_state := kLeased\<rparr>))" using j1 by (simp add: st3_def)
  obtain st4 where st4: "schedule_lease_timer ?i 0 st3 = Some st4" "good st4 {} (X - {?i}) {?i}" "outer st4 = outer st3"
    using good_lease_timer [OF g3 j3, of 0] by (auto simp: lease_job_def)
  have n: "st_next_token st4 = st_next_token st" "st_next_job_id st4 = st_next_job_id st"
    using outer_eqD(8,9) [OF st4(3)] outer_eqD(8,9) [OF st1(3)] by (simp_all add: st3_def)
  obtain j4 where j4: "st_jobs st4 ?i = Some j4" "core j4 = core (lease_job r (j1\<lparr>j_state := kLeased\<rparr>))"
    using outer_job [OF st4(3) j3] by blast
  define st5 where "st5 = st4\<lparr>st_next_token := jl_token r + 1\<rparr>"
  have "good st5 {} (X - {?i}) {?i}"
    unfolding st5_def using word_succ_less [OF tok] n j(3) by (intro good_next_token [OF st4(2)]) simp
  moreover have "dur_job (st_next_job_id st5) (st_next_token st5) ?i j4"
    using good_dur [OF g j(1)] j attempts_succ [OF j(4)] word_succ_less [OF tok] n g
      core_eq_fields [OF j4(2)] core_eq_fields [OF j1(2)]
    by (auto simp: dur_job_def st5_def lease_job_def good_def base_def dur_inv_def)
  ultimately have "good st5 {} (X - {?i}) {}" using good_close j4(1) by (simp add: st5_def)
  moreover have "outer st5 = lease_core r (outer st)"
    using st4(3) j1 st1(3) outer_set_state [OF j1(1)]
      outer_write_job' [of "set_state ?i kLeased st1" ?i "j1\<lparr>j_state := kLeased\<rparr>" "lease_job r"]
    by (simp add: st5_def st3_def lease_core_def lease_job_def core_def)
  moreover have "apply_JobLeased r st = Some (Inr (), st5)"
    using j st1(1) st4(1) by (simp add: apply_JobLeased_def find_job_def st3_def lease_job_def [abs_def] st5_def not_le [symmetric])
  ultimately show ?thesis by (simp add: applied_success)
next
  case False
  then show ?thesis by (auto simp: apply_JobLeased_def find_job_def not_less split: option.splits)
qed

lemma apply_LeaseExtended_ok:
  assumes g: "good st {} X {}"
  shows "applied_ok st (X - {le_id r}) (write_job (le_id r) (\<lambda>j. j\<lparr>j_lease_expires_at := le_lease_expires_at r\<rparr>))
    (apply_LeaseExtended r st)"
proof (cases "require_leased (le_id r) (le_token r) ''heartbeat'' st")
  case (Inr u)
  let ?i = "le_id r" and ?f = "\<lambda>j. j\<lparr>j_lease_expires_at := le_lease_expires_at r\<rparr>"
  obtain j where j: "st_jobs st ?i = Some j" "j_state j = kLeased" using Inr by (auto simp: require_leased_Inr)
  obtain st1 where st1: "leave_indexes ?i st = Some st1" "good st1 {} (insert ?i X) {?i}" "outer st1 = outer st"
    using good_leave [OF good_open [OF g] j(1), of ?i] j(2) by auto
  obtain j1 where j1: "st_jobs st1 ?i = Some j1" "core j1 = core j" using outer_job [OF st1(3) j(1)] by blast
  have g2: "good (write_job ?i ?f st1) {} (insert ?i X) {?i}"
    by (rule good_write_job [OF st1(2) j1(1)]) (simp_all add: job_bytes_def)
  have j2: "st_jobs (write_job ?i ?f st1) ?i = Some (?f j1)" using j1 by simp
  obtain st3 where st3: "schedule_lease_timer ?i 0 (write_job ?i ?f st1) = Some st3" "good st3 {} (X - {?i}) {?i}"
      "outer st3 = outer (write_job ?i ?f st1)"
    using good_lease_timer [OF g2 j2, of 0] core_eq_fields(9) [OF j1(2)] j(2) by auto
  obtain j3 where j3: "st_jobs st3 ?i = Some j3" "core j3 = core (?f j1)" using outer_job [OF st3(3) j2] by blast
  have "dur_job (st_next_job_id st3) (st_next_token st3) ?i j3"
    using good_dur [OF g j(1)] core_eq_fields [OF j3(2)] core_eq_fields [OF j1(2)]
      outer_eqD(8,9) [OF st3(3)] outer_eqD(8,9) [OF st1(3)]
    by (simp add: dur_job_def)
  then have "good st3 {} (X - {?i}) {}" by (rule good_close [OF st3(2) j3(1)])
  moreover have "outer st3 = write_job ?i ?f (outer st)"
    using st3(3) outer_write_job' [OF j1(1), of ?f] st1(3) by (simp add: core_def)
  moreover have "apply_LeaseExtended r st = Some (Inr (), st3)"
    using Inr st1(1) st3(1) by (simp add: apply_LeaseExtended_def)
  ultimately show ?thesis by (simp add: applied_success)
qed (simp add: apply_LeaseExtended_def)

section \<open>Finishing\<close>

definition succeed_core :: "JobSucceeded \<Rightarrow> State \<Rightarrow> State" where
  "succeed_core r st = write_totals (js_id r) (\<lambda>t. t\<lparr>qt_succeeded := qt_succeeded t + 1\<rparr>)
     (finish_core (js_id r) kSucceeded (js_at r) st)"

definition cancel_core :: "JobCancelled \<Rightarrow> State \<Rightarrow> State" where
  "cancel_core r st = write_totals (jc_id r) (\<lambda>t. t\<lparr>qt_cancelled := qt_cancelled t + 1\<rparr>)
     (finish_core (jc_id r) kCancelled (jc_at r) st)"

lemma finish_totals:
  assumes "good st {} X E" and j: "st_jobs st i = Some j" "j_state j \<noteq> kDead" "dur_job (st_next_job_id st) (st_next_token st) i j"
    and "is_terminal t" "t = kSucceeded \<Longrightarrow> j_lease_token j \<noteq> 0"
  shows "\<exists>st'. finish i t at st = Some st' \<and> good (write_totals i f st') {} (X - {i}) E \<and>
    outer (write_totals i f st') = write_totals i f (finish_core i t at (outer st))"
proof -
  obtain st' where st': "finish i t at st = Some st'" "good st' {} (X - {i}) E" "outer st' = finish_core i t at (outer st)"
    using finish_ok [OF assms] by blast
  have "outer st' = outer (finish_core i t at st)" using st'(3) outer_finish_core [OF j(1)] by simp
  moreover have "st_jobs (finish_core i t at st) i = Some (finish_job t at (j\<lparr>j_state := t\<rparr>))"
    using j(1) by (simp add: finish_core_def Let_def)
  ultimately obtain j' where "st_jobs st' i = Some j'" using outer_job by blast
  then show ?thesis using st' good_write_totals outer_write_totals by metis
qed

lemma apply_JobSucceeded_ok:
  assumes g: "good st {} X {}"
  shows "applied_ok st (X - {js_id r}) (succeed_core r) (apply_JobSucceeded r st)"
proof (cases "require_leased (js_id r) (js_token r) ''ack'' st")
  case (Inr u)
  obtain j where j: "st_jobs st (js_id r) = Some j" "j_state j = kLeased" using Inr by (auto simp: require_leased_Inr)
  have d: "dur_job (st_next_job_id st) (st_next_token st) (js_id r) j" by (rule good_dur [OF g j(1)]) simp
  then have "j_lease_token j \<noteq> 0" using j(2) by (simp add: dur_job_def)
  then show ?thesis
    using finish_totals [OF g j(1) _ d, of kSucceeded "js_at r" "\<lambda>t. t\<lparr>qt_succeeded := qt_succeeded t + 1\<rparr>"] j(2) Inr
    by (auto simp: apply_JobSucceeded_def succeed_core_def applied_ok_def)
qed (simp add: apply_JobSucceeded_def)

lemma apply_JobCancelled_ok:
  assumes g: "good st {} X {}"
  shows "applied_ok st (X - {jc_id r}) (cancel_core r) (apply_JobCancelled r st)"
proof (cases "\<exists>j. st_jobs st (jc_id r) = Some j \<and> \<not> is_terminal (j_state j)")
  case True
  then obtain j where j: "st_jobs st (jc_id r) = Some j" "\<not> is_terminal (j_state j)" by blast
  have d: "dur_job (st_next_job_id st) (st_next_token st) (jc_id r) j" by (rule good_dur [OF g j(1)]) simp
  have "j_state j \<noteq> kDead" using j(2) by auto
  then show ?thesis
    using finish_totals [OF g j(1) _ d, of kCancelled "jc_at r" "\<lambda>t. t\<lparr>qt_cancelled := qt_cancelled t + 1\<rparr>"] j
    by (auto simp: apply_JobCancelled_def cancel_core_def applied_ok_def find_job_def)
next
  case False
  then show ?thesis by (auto simp: apply_JobCancelled_def find_job_def split: option.splits)
qed

section \<open>Failing and retrying\<close>

lemma idx_write_unordered:
  assumes I: "idx js qs w rep S X" and j: "js i = Some j" "j_state j \<noteq> kReady"
    and j': "j_id j' = j_id j" "j_queue j' = j_queue j" "j_state j' = j_state j"
      "j_heap_index j' = j_heap_index j" "j_timer j' = j_timer j"
  shows "idx (js(i \<mapsto> j')) qs w rep S X"
proof -
  note D = idxD [OF I]
  have jin: "jobs_in (js(i \<mapsto> j')) X n s = jobs_in js X n s" for n s using j j' by (auto simp: jobs_in_def)
  have "queue_ok (js(i \<mapsto> j')) X n q" if "map_of qs n = Some q" for n q
  proof -
    have q: "queue_ok js X n q" by (rule D(4) [OF that])
    then have h: "heap_ok js (q_ready q)" "i \<notin> set (q_ready q)" using j by (simp_all add: queue_ok_def jobs_in_def)
    have "heap_ok (js(i \<mapsto> j')) (q_ready q)" by (rule heap_ok_cong [OF h(1)]) (use h(2) in auto)
    then show ?thesis using q jin by (simp add: queue_ok_def)
  qed
  moreover have "job_ok S X (dom (map_of qs)) k jk" if "(js(i \<mapsto> j')) k = Some jk" for k jk
    using D(5) [of k] j j' that by (cases "k = i") (auto simp: job_ok_def)
  moreover have "timers_ok (js(i \<mapsto> j')) rep S X w"
    by (rule timers_ok_cong [OF D(6)]) (use j j' in \<open>auto simp: wants_timer_def timer_kind_def split: if_splits\<close>)
  moreover have "dom (js(i \<mapsto> j')) = dom js" using j(1) by auto
  ultimately show ?thesis using D(1,2,3) unfolding idx_def by metis
qed

lemma good_rewrite:
  assumes g: "good st {} X E" and j: "st_jobs st i = Some j" "j_state j \<noteq> kReady" and i: "i \<in> E"
    and f: "j_id (f j) = j_id j" "j_queue (f j) = j_queue j" "j_state (f j) = j_state j"
      "j_heap_index (f j) = j_heap_index j" "j_timer (f j) = j_timer j"
    and m: "m = st_memory_bytes st - job_bytes (st_abi st) j + job_bytes (st_abi st) (f j)"
  shows "good ((write_job i f st)\<lparr>st_memory_bytes := m\<rparr>) {} X E"
  using base_rewrite [of st E i j f m] idx_write_unordered [of "st_jobs st" "st_queues st" "st_wheel st" "st_replaying st" "{}" X i j "f j"]
    assms by (simp add: good_def idx_inv_def)

definition set_error :: "AttemptFailed \<Rightarrow> Abi \<Rightarrow> Job \<Rightarrow> Job" where
  "set_error r abi j = j\<lparr>j_last_error := af_error r,
     j_last_error_capacity := abi_assign_capacity abi (j_last_error_capacity j) (length (af_error r))\<rparr>"

definition note_failure :: "AttemptFailed \<Rightarrow> State \<Rightarrow> State" where
  "note_failure r st =
     (let i = af_id r; job = job_of st i; abi = st_abi st in
      write_totals i (\<lambda>t. t\<lparr>qt_failed_attempts := qt_failed_attempts t + 1\<rparr>)
        ((write_job i (set_error r abi) st)
           \<lparr>st_memory_bytes := st_memory_bytes st - job_bytes abi job + job_bytes abi (set_error r abi job)\<rparr>))"

definition fail_core :: "AttemptFailed \<Rightarrow> State \<Rightarrow> State" where
  "fail_core r st =
     (if af_dead r
      then write_totals (af_id r) (\<lambda>t. t\<lparr>qt_dead := qt_dead t + 1\<rparr>)
             (finish_core (af_id r) kDead (af_at r) (note_failure r st))
      else set_state (af_id r) (if st_replaying st \<or> af_retry_at r > st_wall_now st then kScheduled else kReady)
             (write_job (af_id r) (\<lambda>j. j\<lparr>j_lease_token := 0, j_run_at := af_retry_at r\<rparr>) (note_failure r st)))"

lemma outer_memory [simp]: "outer (st\<lparr>st_memory_bytes := m\<rparr>) = (outer st)\<lparr>st_memory_bytes := m\<rparr>"
  by (simp add: outer_def)

lemma note_failure_ok:
  assumes g: "good st {} X {}" and j: "st_jobs st (af_id r) = Some j" "j_state j = kLeased"
  shows "good (note_failure r st) {} X {}" and "outer (note_failure r st) = note_failure r (outer st)"
    and "st_jobs (note_failure r st) (af_id r) = Some (set_error r (st_abi st) j)"
proof -
  let ?i = "af_id r" and ?abi = "st_abi st"
  let ?m = "st_memory_bytes st - job_bytes ?abi j + job_bytes ?abi (set_error r ?abi j)"
  let ?st = "(write_job ?i (set_error r ?abi) st)\<lparr>st_memory_bytes := ?m\<rparr>"
  have "good ?st {} X {?i}"
    by (rule good_rewrite [OF good_open [OF g] j(1)]) (use j(2) in \<open>simp_all add: set_error_def\<close>)
  moreover have "dur_job (st_next_job_id ?st) (st_next_token ?st) ?i (set_error r ?abi j)"
    using good_dur [OF g j(1)] by (simp add: dur_job_def set_error_def)
  ultimately have "good ?st {} X {}" using good_close [of ?st "{}" X ?i "{}"] j(1) by simp
  then show "good (note_failure r st) {} X {}"
    using j(1) by (simp add: note_failure_def Let_def good_write_totals)
  have "outer (write_job ?i (set_error r ?abi) st) = write_job ?i (set_error r ?abi) (outer st)"
    by (rule outer_write_job' [OF j(1)]) (simp add: set_error_def core_def)
  moreover have "job_bytes ?abi (set_error r ?abi (core j)) = job_bytes ?abi (set_error r ?abi j)"
    by (simp add: job_bytes_def set_error_def)
  ultimately show "outer (note_failure r st) = note_failure r (outer st)"
    using j(1) outer_write_totals [of ?st ?i "set_error r ?abi j"]
    by (simp add: note_failure_def Let_def outer_job_of outer_fields(3,14))
  show "st_jobs (note_failure r st) ?i = Some (set_error r ?abi j)" using j(1) by (simp add: note_failure_def Let_def)
qed

text \<open>A job comes back to the pending jobs from off the indexes.\<close>

lemma reenter_ok:
  assumes g: "good st {} (insert i X) {i}" and j: "st_jobs st i = Some j"
    and f: "j_id (f j) = j_id j" "j_queue (f j) = j_queue j" "j_heap_index (f j) = j_heap_index j" "j_timer (f j) = j_timer j"
      "j_state (f j) = j_state j" "job_bytes (st_abi st) (f j) = job_bytes (st_abi st) j" "core (f j) = f (core j)"
    and d: "\<And>s. is_pending s \<Longrightarrow> dur_job (st_next_job_id st) (st_next_token st) i ((f j)\<lparr>j_state := s\<rparr>)"
  shows "\<exists>st'. enter_pending i (write_job i f st) = Some st' \<and> good st' {} (X - {i}) {} \<and>
    outer st' = set_state i (pending_state st (f j)) (write_job i f (outer st))"
proof -
  have g1: "good (write_job i f st) {} (insert i X) {i}"
    by (rule good_write_job [OF g j]) (simp_all add: f)
  have j1: "st_jobs (write_job i f st) i = Some (f j)" using j by simp
  obtain st' where st': "enter_pending i (write_job i f st) = Some st'" "good st' {} (X - {i}) {i}"
      "outer st' = set_state i (pending_state (write_job i f st) (f j)) (outer (write_job i f st))"
    using good_enter_pending [OF g1 j1] by auto
  have s: "pending_state (write_job i f st) (f j) = pending_state st (f j)" "is_pending (pending_state st (f j))"
    by (simp_all add: pending_state_def)
  have o: "outer st' = outer (set_state i (pending_state st (f j)) (write_job i f st))"
    using st'(3) outer_set_state [OF j1] s by simp
  then obtain j' where j': "st_jobs st' i = Some j'" "core j' = core ((f j)\<lparr>j_state := pending_state st (f j)\<rparr>)"
    using outer_job [OF o, of i "(f j)\<lparr>j_state := pending_state st (f j)\<rparr>"] j1 by auto
  have "dur_job (st_next_job_id st') (st_next_token st') i j'"
    using d [OF s(2)] core_eq_fields [OF j'(2)] outer_eqD(8,9) [OF o] by (simp add: dur_job_def)
  then have "good st' {} (X - {i}) {}" by (rule good_close [OF st'(2) j'(1)])
  then show ?thesis using st' s outer_write_job' [OF j f(7)] by auto
qed

lemma apply_AttemptFailed_ok:
  assumes g: "good st {} X {}"
  shows "applied_ok st (X - {af_id r}) (fail_core r) (apply_AttemptFailed r st)"
proof (cases "require_leased (af_id r) (af_token r) ''fail'' st")
  case (Inr u)
  let ?i = "af_id r" and ?f = "\<lambda>j. j\<lparr>j_lease_token := 0, j_run_at := af_retry_at r\<rparr>"
  obtain j where j: "st_jobs st ?i = Some j" "j_state j = kLeased" using Inr by (auto simp: require_leased_Inr)
  define st4 where "st4 = note_failure r st"
  note n = note_failure_ok [OF g j, folded st4_def]
  let ?j4 = "set_error r (st_abi st) j"
  have s4: "j_state ?j4 = kLeased" using j(2) by (simp add: set_error_def)
  have d4: "dur_job (st_next_job_id st4) (st_next_token st4) ?i ?j4" by (rule good_dur [OF n(1,3)]) simp
  have st4: "write_totals ?i (\<lambda>t. t\<lparr>qt_failed_attempts := qt_failed_attempts t + 1\<rparr>)
      ((write_job ?i (\<lambda>j. j\<lparr>j_last_error := af_error r, j_last_error_capacity :=
           abi_assign_capacity (st_abi st) (j_last_error_capacity j) (length (af_error r))\<rparr>)
         (st\<lparr>st_memory_bytes := st_memory_bytes st - job_bytes (st_abi st) j\<rparr>))
       \<lparr>st_memory_bytes := st_memory_bytes st - job_bytes (st_abi st) j + job_bytes (st_abi st) ?j4\<rparr>) = st4"
    using j(1) by (simp add: st4_def note_failure_def Let_def set_error_def [abs_def] write_job_def)
  show ?thesis
  proof (cases "af_dead r")
    case True
    obtain st5 where st5: "finish ?i kDead (af_at r) st4 = Some st5"
        "good (write_totals ?i (\<lambda>t. t\<lparr>qt_dead := qt_dead t + 1\<rparr>) st5) {} (X - {?i}) {}"
        "outer (write_totals ?i (\<lambda>t. t\<lparr>qt_dead := qt_dead t + 1\<rparr>) st5) =
         write_totals ?i (\<lambda>t. t\<lparr>qt_dead := qt_dead t + 1\<rparr>) (finish_core ?i kDead (af_at r) (outer st4))"
      using finish_totals [OF n(1,3) _ d4, of kDead "af_at r" "\<lambda>t. t\<lparr>qt_dead := qt_dead t + 1\<rparr>"] s4 by auto
    have "apply_AttemptFailed r st = Some (Inr (), write_totals ?i (\<lambda>t. t\<lparr>qt_dead := qt_dead t + 1\<rparr>) st5)"
      using Inr j(1) st4 st5(1) True by (simp add: apply_AttemptFailed_def Let_def set_error_def)
    then show ?thesis using st5 True n(2) by (simp add: applied_success fail_core_def)
  next
    case False
    obtain st5 where st5: "leave_indexes ?i st4 = Some st5" "good st5 {} (insert ?i X) {?i}" "outer st5 = outer st4"
      using good_leave [OF good_open [OF n(1)] n(3), of ?i] s4 by auto
    obtain j5 where j5: "st_jobs st5 ?i = Some j5" "core j5 = core ?j4" using outer_job [OF st5(3) n(3)] by blast
    have "0 < st_next_token st5" using st5(2) by (simp add: good_def base_def dur_inv_def)
    then have "dur_job (st_next_job_id st5) (st_next_token st5) ?i ((?f j5)\<lparr>j_state := s\<rparr>)" if "is_pending s" for s
      using d4 core_eq_fields [OF j5(2)] outer_eqD(8,9) [OF st5(3)] that by (auto simp: dur_job_def is_pending_def)
    then obtain st7 where st7: "enter_pending ?i (write_job ?i ?f st5) = Some st7" "good st7 {} (X - {?i}) {}"
        "outer st7 = set_state ?i (pending_state st5 (?f j5)) (write_job ?i ?f (outer st5))"
      using reenter_ok [OF st5(2) j5(1), of ?f] by (auto simp: job_bytes_def core_def)
    have "apply_AttemptFailed r st = Some (Inr (), st7)"
      using Inr j(1) st4 st5(1) st7(1) False by (simp add: apply_AttemptFailed_def Let_def set_error_def)
    moreover have "pending_state st5 (?f j5) = (if st_replaying st \<or> af_retry_at r > st_wall_now st then kScheduled else kReady)"
      using outer_eqD(5,7) [OF st5(3)] by (simp add: pending_state_def st4_def note_failure_def Let_def)
    then have "outer st7 = fail_core r (outer st)"
      using st7(3) st5(3) n(2) False by (simp add: fail_core_def outer_fields)
    ultimately show ?thesis using st7(2) by (simp add: applied_success)
  qed
qed (simp add: apply_AttemptFailed_def)

definition retry_core :: "DeadJobRetried \<Rightarrow> State \<Rightarrow> State" where
  "retry_core r st = set_state (dr_id r) (if st_replaying st \<or> dr_run_at r > st_wall_now st then kScheduled else kReady)
     (write_job (dr_id r) (\<lambda>j. j\<lparr>j_attempts := 0, j_finished_at := 0, j_run_at := dr_run_at r\<rparr>) st)"

lemma apply_DeadJobRetried_ok:
  assumes g: "good st {} X {}"
  shows "applied_ok st (X - {dr_id r}) (retry_core r) (apply_DeadJobRetried r st)"
proof (cases "\<exists>j. st_jobs st (dr_id r) = Some j \<and> j_state j = kDead")
  case True
  let ?i = "dr_id r" and ?f = "\<lambda>j. j\<lparr>j_attempts := 0, j_finished_at := 0, j_run_at := dr_run_at r\<rparr>"
  obtain j where j: "st_jobs st ?i = Some j" "j_state j = kDead" using True by blast
  have id: "j_id j = ?i" using g idx_job(1) [OF _ j(1), of "{}" X] by (simp add: good_def)
  define st1 where "st1 = write_queue (j_queue j) (\<lambda>q. q\<lparr>q_dead := remove1 ?i (q_dead q)\<rparr>) st"
  have o1: "outer st1 = outer st" by (simp add: st1_def outer_write_queue core_queue_def)
  have "idx_inv st1 {} (insert ?i X)"
    unfolding st1_def using g by (intro remove_dead_ok [OF _ j]) (simp add: good_def)
  moreover have "base st1 {?i}" by (rule base_outerI [OF base_open o1]) (use g in \<open>simp add: good_def\<close>)
  ultimately have g1: "good st1 {} (insert ?i X) {?i}" by (simp add: good_def)
  have j1: "st_jobs st1 ?i = Some j" using j by (simp add: st1_def)
  have "dur_job (st_next_job_id st1) (st_next_token st1) ?i ((?f j)\<lparr>j_state := s\<rparr>)" if "is_pending s" for s
    using good_dur [OF g j(1)] j(2) outer_eqD(8,9) [OF o1] that by (auto simp: dur_job_def is_pending_def)
  then obtain st2 where st2: "enter_pending ?i (write_job ?i ?f st1) = Some st2" "good st2 {} (X - {?i}) {}"
      "outer st2 = set_state ?i (pending_state st1 (?f j)) (write_job ?i ?f (outer st1))"
    using reenter_ok [OF g1 j1, of ?f] by (auto simp: job_bytes_def core_def)
  have "apply_DeadJobRetried r st = Some (Inr (), st2)"
    using j st2(1) id by (simp add: apply_DeadJobRetried_def find_job_def Let_def st1_def)
  moreover have "outer st2 = retry_core r (outer st)"
    using st2(3) o1 by (simp add: retry_core_def pending_state_def outer_fields st1_def)
  ultimately show ?thesis using st2(2) by (simp add: applied_success)
next
  case False
  then show ?thesis by (auto simp: apply_DeadJobRetried_def find_job_def split: option.splits)
qed

end
