(* ===== verification/StateUpdate.thy ===== *)
theory StateUpdate
  imports StateApply
begin

text \<open>
  Adding and erasing jobs and idempotency entries, and the theorem that covers every
  record type.
\<close>

section \<open>Erasing a job\<close>

definition erase_core :: "JobId \<Rightarrow> State \<Rightarrow> State" where
  "erase_core i st =
     (let j = job_of st i in
      (write_queue (j_queue j) (\<lambda>q. q\<lparr>q_counts := (q_counts q)(j_state j := q_counts q (j_state j) - 1)\<rparr>) st)
        \<lparr>st_memory_bytes := st_memory_bytes st - job_bytes (st_abi st) j, st_jobs := (st_jobs st)(i := None)\<rparr>)"

lemma erase_core_jobs [simp]: "st_jobs (erase_core i st) = (st_jobs st)(i := None)"
  by (simp add: erase_core_def Let_def)

lemma outer_set_jobs: "outer (st\<lparr>st_jobs := js\<rparr>) = (outer st)\<lparr>st_jobs := cores js\<rparr>"
  by (simp add: outer_def)

lemma outer_erase_core:
  assumes "st_jobs st i = Some j"
  shows "outer (erase_core i st) = erase_core i (outer st)"
proof -
  let ?f = "\<lambda>q. q\<lparr>q_counts := (q_counts q)(j_state j := q_counts q (j_state j) - 1)\<rparr>"
  have "outer (write_queue (j_queue j) ?f st) = write_queue (j_queue j) ?f (outer st)"
    by (rule outer_write_queue') (simp add: core_queue_def)
  moreover have "cores ((st_jobs st)(i := None)) = (cores (st_jobs st))(i := None)" by (auto simp: cores_def)
  ultimately show ?thesis
    using assms by (simp add: erase_core_def Let_def outer_job_of outer_set_jobs outer_fields)
qed

lemma base_erase:
  assumes b: "base st E" and j: "st_jobs st i = Some j"
  shows "base (erase_core i st) E"
proof -
  let ?js = "st_jobs st"
  have fin: "finite (dom ?js)" using b by (simp add: base_def)
  have "q_counts q s = of_nat (card (jobs_in (?js(i := None)) {} n s))"
    if q: "map_of (st_queues (erase_core i st)) n = Some q" for n q s
  proof -
    have sub: "jobs_in (?js(i := None)) {} n s = jobs_in ?js {} n s - {i}" by (auto simp: jobs_in_def split: if_splits)
    have c: "q_counts q0 s = of_nat (card (jobs_in ?js {} n s))" if "map_of (st_queues st) n = Some q0" for q0
      using b that by (simp add: base_def cnt_inv_def)
    show ?thesis
    proof (cases "n = j_queue j \<and> s = j_state j")
      case True
      then have "i \<in> jobs_in ?js {} n s" using j by (auto simp: jobs_in_def)
      then show ?thesis
        unfolding sub card_word_remove [OF finite_jobs_in [OF fin] \<open>i \<in> jobs_in ?js {} n s\<close>]
        using q j True c by (auto simp: erase_core_def Let_def)
    next
      case False
      then have "i \<notin> jobs_in ?js {} n s" using j by (auto simp: jobs_in_def)
      then show ?thesis unfolding sub using q j False c by (auto simp: erase_core_def Let_def split: if_splits)
    qed
  qed
  then have "cnt_inv (erase_core i st) {}" unfolding cnt_inv_def erase_core_jobs by blast
  moreover have "mem_inv (erase_core i st)"
    using b j jobs_bytes_erase [OF fin j] by (simp add: base_def mem_inv_def erase_core_def Let_def)
  moreover have "dur_inv (erase_core i st) E"
    using b by (auto simp: base_def dur_inv_def erase_core_def Let_def split: if_splits)
  ultimately show ?thesis using b fin by (simp add: base_def idem_inv_def erase_core_def Let_def)
qed

lemma erase_job_ok:
  assumes g: "good st S X E" and j: "st_jobs st i = Some j" and i: "i \<notin> S"
  shows "\<exists>st'. erase_job i st = Some st' \<and> good st' S (X - {i}) E \<and> outer st' = erase_core i (outer st)"
proof -
  define unlink where "unlink = (\<lambda>st. if j_state j = kDead
    then write_queue (j_queue j) (\<lambda>q. q\<lparr>q_dead := remove1 i (q_dead q)\<rparr>) st else st)"
  obtain st1 where st1: "leave_indexes i st = Some st1" "idx_inv (unlink st1) S (insert i X)" "outer st1 = outer st"
  proof (cases "j_state j = kDead")
    case True
    show thesis
      using leave_indexes_dead [of st S X i j] remove_dead_ok [of st S X i j] g j i True
      by (intro that [of st]) (simp_all add: good_def unlink_def)
  next
    case False
    then show thesis using that good_leave [OF g j i False] by (auto simp: good_def unlink_def)
  qed
  define st2 where "st2 = unlink st1"
  have o2: "outer st2 = outer st" using st1(3) by (simp add: st2_def unlink_def outer_write_queue core_queue_def)
  obtain j1 where j1: "st_jobs st1 i = Some j1" "core j1 = core j" using outer_job [OF st1(3) j] by blast
  have j2: "st_jobs st2 i = Some j1" using j1 by (simp add: st2_def unlink_def)
  have "idx_inv (erase_core i st2) S (insert i X)"
    using idx_erase [OF idx_queue_write [OF st1(2) [folded st2_def, unfolded idx_inv_def]], of _ i "j_queue j1"] j2
    by (simp add: idx_inv_def erase_core_def Let_def)
  then have "idx_inv (erase_core i st2) S (X - {i})"
    unfolding idx_inv_def by (rule idx_cong) (auto simp: erase_core_def Let_def)
  moreover have "base (erase_core i st2) E"
    using g by (intro base_erase [OF base_outerI [OF _ o2] j2]) (simp add: good_def)
  ultimately have "good (erase_core i st2) S (X - {i}) E" by (simp add: good_def)
  moreover have "erase_job i st = Some (erase_core i st2)"
    using st1(1) j j1 core_eq_fields [OF j1(2)]
    by (simp add: erase_job_def erase_core_def Let_def st2_def unlink_def write_queue_def)
  ultimately show ?thesis using outer_erase_core [OF j2] o2 by simp
qed

primrec purge_core :: "JobId list \<Rightarrow> State \<Rightarrow> State" where
  "purge_core [] st = st"
| "purge_core (i # ids) st = purge_core ids (if st_jobs st i \<noteq> None then erase_core i st else st)"

lemma purge_erase_ok:
  "good st {} X E \<Longrightarrow>
     \<exists>st'. purge_erase ids st = Some st' \<and> good st' {} (X - set ids) E \<and> outer st' = purge_core ids (outer st)"
proof (induction ids arbitrary: st X)
  case (Cons i ids)
  have step: "\<exists>st1. (if find_job i st \<noteq> None then erase_job i st else Some st) = Some st1 \<and> good st1 {} (X - {i}) E \<and>
      outer st1 = (if st_jobs (outer st) i \<noteq> None then erase_core i (outer st) else outer st)"
  proof (cases "st_jobs st i")
    case None
    then have "good st {} (X - {i}) E" using Cons.prems idx_cong [of _ _ _ _ "{}" X "X - {i}"]
      by (auto simp: good_def idx_inv_def)
    then show ?thesis using None by (simp add: find_job_def outer_fields cores_def)
  next
    case (Some j)
    then show ?thesis using erase_job_ok [OF Cons.prems Some] by (simp add: find_job_def outer_fields cores_def)
  qed
  then obtain st1 where st1: "(if find_job i st \<noteq> None then erase_job i st else Some st) = Some st1"
    "good st1 {} (X - {i}) E" "outer st1 = (if st_jobs (outer st) i \<noteq> None then erase_core i (outer st) else outer st)"
    by blast
  have "X - {i} - set ids = X - set (i # ids)" by auto
  then show ?case using Cons.IH [OF st1(2)] st1(1,3) by (simp del: Diff_insert)
qed simp

lemma apply_JobsPurged_ok:
  assumes "good st {} X {}"
  shows "applied_ok st (X - set (jp_ids r)) (purge_core (jp_ids r)) (apply_JobsPurged r st)"
  using purge_erase_ok [OF assms, of "jp_ids r"]
  by (cases "purge_check (jp_ids r) st") (auto simp: apply_JobsPurged_def applied_ok_def)

section \<open>Idempotency entries\<close>

lemma idem_map_None: "map_of (map (\<lambda>e. (ie_key e, e)) es) k = None \<longleftrightarrow> k \<notin> ie_key ` set es"
  by (induction es) auto

lemma idem_map_remove1:
  assumes "distinct (map ie_key es)" and "e \<in> set es"
  shows "map_of (map (\<lambda>e. (ie_key e, e)) (remove1 e es)) = (map_of (map (\<lambda>e. (ie_key e, e)) es))(ie_key e := None)"
  using assms
proof (induction es)
  case (Cons a es)
  show ?case
  proof (cases "a = e")
    case True
    then have "map_of (map (\<lambda>e. (ie_key e, e)) es) (ie_key e) = None" using Cons.prems by (simp add: idem_map_None)
    then show ?thesis using True by (simp add: fun_eq_iff)
  next
    case False
    then have "ie_key a \<noteq> ie_key e" using Cons.prems by auto
    then show ?thesis using Cons.IH Cons.prems False by (simp add: fun_eq_iff)
  qed
qed simp

lemma idem_remove:
  assumes "distinct (map ie_key es)" and "e \<in> set es"
  shows "distinct (map ie_key (remove1 e es))" and "ie_key e \<notin> ie_key ` set (remove1 e es)"
    and "sum_list (map (idem_bytes abi) (remove1 e es)) = sum_list (map (idem_bytes abi) es) - idem_bytes abi e"
proof -
  have inj: "inj_on ie_key (set es)" and d: "distinct es" using assms(1) by (simp_all add: distinct_map)
  have sub: "set (remove1 e es) = set es - {e}" using d by simp
  show "distinct (map ie_key (remove1 e es))" using inj d sub by (auto simp: distinct_map inj_on_def)
  show "ie_key e \<notin> ie_key ` set (remove1 e es)" using inj assms(2) sub by (auto simp: inj_on_def)
  show "sum_list (map (idem_bytes abi) (remove1 e es)) = sum_list (map (idem_bytes abi) es) - idem_bytes abi e"
    using sum_list_map_remove1 [OF assms(2), of "idem_bytes abi"] by simp
qed

lemma idem_index_entry:
  assumes "idem_inv st" and "st_idem_index st key = Some e"
  shows "e \<in> set (st_idem_order st)" and "ie_key e = key"
  using assms map_of_SomeD [of "map (\<lambda>e. (ie_key e, e)) (st_idem_order st)" key e] by (auto simp: idem_inv_def)

lemma base_upsert_idem:
  assumes b: "base st E"
  shows "base (upsert_idem key i t st) E"
proof -
  define e where "e = \<lparr>ie_key = key, ie_key_capacity = abi_fresh_capacity (st_abi st) (length key), ie_job_id = i, ie_expires_at = t\<rparr>"
  define st1 where "st1 = (case st_idem_index st key of None \<Rightarrow> st
    | Some node \<Rightarrow> st\<lparr>st_memory_bytes := st_memory_bytes st - idem_bytes (st_abi st) node,
        st_idem_index := (st_idem_index st)(key := None), st_idem_order := remove1 node (st_idem_order st)\<rparr>)"
  have ii: "idem_inv st" using b by (simp add: base_def)
  have rest: "st_jobs st1 = st_jobs st" "st_queues st1 = st_queues st" "st_abi st1 = st_abi st"
    "st_next_job_id st1 = st_next_job_id st" "st_next_token st1 = st_next_token st"
    by (auto simp: st1_def split: option.splits)
  have st1: "idem_inv st1 \<and> mem_inv st1 \<and> key \<notin> ie_key ` set (st_idem_order st1)"
  proof (cases "st_idem_index st key")
    case None
    then have "key \<notin> ie_key ` set (st_idem_order st)" using ii by (simp add: idem_inv_def idem_map_None)
    then show ?thesis using b None by (simp add: st1_def base_def)
  next
    case (Some node)
    note e = idem_index_entry [OF ii Some]
    have d: "distinct (map ie_key (st_idem_order st))" using ii by (simp add: idem_inv_def)
    show ?thesis
      using b idem_remove [OF d e(1)] idem_map_remove1 [OF d e(1)] e(2) Some
      by (simp add: st1_def base_def idem_inv_def mem_inv_def)
  qed
  have u: "upsert_idem key i t st = st1\<lparr>st_idem_order := st_idem_order st1 @ [e],
      st_idem_index := (st_idem_index st1)(key \<mapsto> e), st_memory_bytes := st_memory_bytes st1 + idem_bytes (st_abi st1) e\<rparr>"
    by (simp add: upsert_idem_def Let_def st1_def e_def)
  have "map_of (map (\<lambda>e. (ie_key e, e)) (st_idem_order st1)) key = None" using st1 by (simp add: idem_map_None)
  then have "idem_inv (upsert_idem key i t st)"
    unfolding u using st1 by (auto simp: idem_inv_def e_def map_add_def fun_eq_iff split: option.splits)
  moreover have "mem_inv (upsert_idem key i t st)" unfolding u using st1 by (simp add: mem_inv_def)
  ultimately show ?thesis using b rest by (simp add: u base_def cnt_inv_def dur_inv_def)
qed

lemma base_erase_idem_front:
  assumes b: "base st E" and ne: "st_idem_order st \<noteq> []"
  shows "base (erase_idem_front st) E"
proof -
  obtain e es where es: "st_idem_order st = e # es" using ne by (cases "st_idem_order st") auto
  have ii: "idem_inv st" using b by (simp add: base_def)
  have "map_of (map (\<lambda>e. (ie_key e, e)) es) (ie_key e) = None" using ii es by (simp add: idem_inv_def idem_map_None)
  then have r: "(map_of (map (\<lambda>e. (ie_key e, e)) es))(ie_key e := None) = map_of (map (\<lambda>e. (ie_key e, e)) es)"
    by (rule fun_upd_idem)
  have "idem_inv (erase_idem_front st)" using ii r es by (simp add: erase_idem_front_def Let_def idem_inv_def)
  moreover have "mem_inv (erase_idem_front st)" using b es by (simp add: erase_idem_front_def Let_def base_def mem_inv_def)
  ultimately show ?thesis
    using b by (simp add: base_def) (simp add: erase_idem_front_def Let_def cnt_inv_def dur_inv_def)
qed

lemma upsert_idem_fields [simp]:
  "st_jobs (upsert_idem k i t st) = st_jobs st" "st_queues (upsert_idem k i t st) = st_queues st"
  "st_wheel (upsert_idem k i t st) = st_wheel st" "st_replaying (upsert_idem k i t st) = st_replaying st"
  "st_next_job_id (upsert_idem k i t st) = st_next_job_id st" "st_next_token (upsert_idem k i t st) = st_next_token st"
  by (auto simp: upsert_idem_def Let_def split: option.splits)

lemma outer_upsert_idem: "outer (upsert_idem k i t st) = upsert_idem k i t (outer st)"
  by (cases "st_idem_index st k") (simp_all add: upsert_idem_def Let_def outer_def)

section \<open>Adding a job\<close>

definition enqueue_job :: "Abi \<Rightarrow> JobEnqueued \<Rightarrow> Job" where
  "enqueue_job abi r = (fresh_job abi)\<lparr>j_id := je_id r, j_queue := je_queue r, j_payload := je_payload r,
     j_priority := je_priority r, j_max_attempts := je_max_attempts r, j_backoff_base_ms := je_backoff_base_ms r,
     j_backoff_cap_ms := je_backoff_cap_ms r, j_run_at := je_run_at r, j_created_at := je_at r,
     j_idem_key := je_idem_key r, j_idem_key_capacity := abi_fresh_capacity abi (length (je_idem_key r)),
     j_state := kScheduled\<rparr>"

definition add_job :: "Job \<Rightarrow> State \<Rightarrow> State" where
  "add_job job st =
     (write_queue (j_queue job) (\<lambda>q. q\<lparr>q_counts := (q_counts q)(kScheduled := q_counts q kScheduled + 1)\<rparr>)
        (st\<lparr>st_jobs := (st_jobs st)(j_id job \<mapsto> job)\<rparr>))
     \<lparr>st_memory_bytes := st_memory_bytes st + job_bytes (st_abi st) job\<rparr>"

definition enqueue_core :: "JobEnqueued \<Rightarrow> State \<Rightarrow> State" where
  "enqueue_core r st =
     (let st1 = add_job (core (enqueue_job (st_abi st) r)) (get_or_create_queue (je_queue r) st);
          st2 = set_state (je_id r) (if st_replaying st \<or> je_run_at r > st_wall_now st then kScheduled else kReady) st1;
          st3 = (if je_idem_key r \<noteq> [] then upsert_idem (je_idem_key r) (je_id r) (je_idem_expires_at r) st2 else st2)
      in (write_queue (je_queue r)
            (\<lambda>q. q\<lparr>q_totals := (q_totals q)\<lparr>qt_enqueued := qt_enqueued (q_totals q) + 1\<rparr>\<rparr>) st3)
         \<lparr>st_next_job_id := je_id r + 1\<rparr>)"

lemma get_or_create_queue_fields [simp]:
  "st_jobs (get_or_create_queue n st) = st_jobs st" "st_wheel (get_or_create_queue n st) = st_wheel st"
  "st_replaying (get_or_create_queue n st) = st_replaying st" "st_abi (get_or_create_queue n st) = st_abi st"
  "st_wall_now (get_or_create_queue n st) = st_wall_now st" "st_memory_bytes (get_or_create_queue n st) = st_memory_bytes st"
  "st_next_job_id (get_or_create_queue n st) = st_next_job_id st" "st_next_token (get_or_create_queue n st) = st_next_token st"
  by (simp_all add: get_or_create_queue_def split: option.split)

lemma good_get_or_create_queue:
  assumes g: "good st S X E"
  shows "good (get_or_create_queue n st) S X E" and "n \<in> dom (map_of (st_queues (get_or_create_queue n st)))"
proof -
  show "n \<in> dom (map_of (st_queues (get_or_create_queue n st)))"
    by (auto simp: get_or_create_queue_def find_queue_def split: option.split)
  show "good (get_or_create_queue n st) S X E"
  proof (cases "map_of (st_queues st) n")
    case None
    have I: "idx (st_jobs st) (st_queues st) (st_wheel st) (st_replaying st) S X" using g by (simp add: good_def idx_inv_def)
    have "jobs_in (st_jobs st) {} n s = {}" for s
      using idxD(5) [OF I] None by (fastforce simp: jobs_in_def job_ok_def)
    then have "cnt_inv (get_or_create_queue n st) {}"
      using g None by (simp add: good_def base_def cnt_inv_def get_or_create_queue_def find_queue_def mk_queue_def)
    then show ?thesis
      using g None idx_queue_insert [OF I None]
      by (simp add: good_def base_def idx_inv_def mem_inv_def idem_inv_def dur_inv_def get_or_create_queue_def find_queue_def)
  qed (use g in \<open>simp add: get_or_create_queue_def find_queue_def\<close>)
qed

lemma outer_get_or_create_queue: "outer (get_or_create_queue n st) = get_or_create_queue n (outer st)"
proof -
  have "core_queues (omap_insert n (mk_queue n) qs) = omap_insert n (mk_queue n) (core_queues qs)" for qs
    by (induction qs) (auto simp: core_queues_def core_queue_def mk_queue_def)
  moreover have "find_queue n (outer st) = map_option core_queue (find_queue n st)"
    by (simp add: find_queue_def outer_fields map_of_core_queues)
  ultimately show ?thesis
    by (cases "find_queue n st") (simp_all add: get_or_create_queue_def outer_def core_queues_def)
qed

lemma add_job_jobs [simp]: "st_jobs (add_job job st) = (st_jobs st)(j_id job \<mapsto> job)"
  by (simp add: add_job_def)

lemma good_add_job:
  assumes g: "good st S X E" and new: "st_jobs st (j_id job) = None" and q: "j_queue job \<in> dom (map_of (st_queues st))"
    and job: "j_heap_index job = kNotInHeap" "j_timer job = no_timer" "j_state job = kScheduled"
    and room: "card (dom (st_jobs st)) < kNil"
  shows "good (add_job job st) S (insert (j_id job) X) (insert (j_id job) E)"
proof -
  let ?i = "j_id job" and ?js = "st_jobs st" and ?js' = "(st_jobs st)(j_id job \<mapsto> job)"
  have fin: "finite (dom ?js)" and b: "base st E" using g by (simp_all add: good_def base_def)
  have "idx ?js (st_queues st) (st_wheel st) (st_replaying st) S (insert ?i X)"
    using g idx_cong [of ?js "st_queues st" "st_wheel st" "st_replaying st" S X "insert ?i X"] new
    by (auto simp: good_def idx_inv_def)
  then have "idx ?js' (st_queues st) (st_wheel st) (st_replaying st) S (insert ?i X)"
    by (rule idx_write) (use q job room fin new in \<open>auto simp: domIff\<close>)
  from idx_queue_write [OF this] have "idx_inv (add_job job st) S (insert ?i X)"
    by (simp add: idx_inv_def add_job_def)
  moreover have "q_counts q s = of_nat (card (jobs_in ?js' {} n s))"
    if "map_of (st_queues (add_job job st)) n = Some q" for n q s
  proof -
    have ni: "?i \<notin> jobs_in ?js {} n s" using new by (simp add: jobs_in_def)
    have c: "q_counts q0 s = of_nat (card (jobs_in ?js {} n s))" if "map_of (st_queues st) n = Some q0" for q0
      using b that by (simp add: base_def cnt_inv_def)
    show ?thesis
      using that c ni finite_jobs_in [OF fin, of "{}" n s] job(3)
      by (auto simp: jobs_in_upd add_job_def split: if_splits)
  qed
  then have "cnt_inv (add_job job st) {}" unfolding cnt_inv_def add_job_jobs by blast
  moreover have "mem_inv (add_job job st)"
    using b new jobs_bytes_upd [OF fin, of "st_abi st" ?i job] by (simp add: add_job_def base_def mem_inv_def)
  moreover have "dur_inv (add_job job st) (insert ?i E)"
    using b by (auto simp: add_job_def base_def dur_inv_def split: if_splits)
  ultimately show ?thesis using b fin by (simp add: good_def base_def idem_inv_def add_job_def)
qed

lemma outer_add_job: "outer (add_job job st) = add_job (core job) (outer st)"
proof -
  have "cores ((st_jobs st)(j_id job \<mapsto> job)) = (cores (st_jobs st))(j_id job \<mapsto> core job)"
    by (auto simp: cores_def)
  then show ?thesis
    by (simp add: add_job_def outer_write_queue' outer_set_jobs outer_fields core_queue_def)
qed

lemma apply_JobEnqueued_ok:
  assumes g: "good st {} X {}" and room: "card (dom (st_jobs st)) < kNil" and last: "st_next_job_id st \<noteq> - 1"
  shows "applied_ok st (X - {je_id r}) (enqueue_core r) (apply_JobEnqueued r st)"
proof (cases "je_id r = st_next_job_id st \<and> je_queue r \<noteq> [] \<and> je_max_attempts r \<noteq> 0")
  case True
  let ?i = "je_id r" and ?job = "enqueue_job (st_abi st) r"
  have new: "st_jobs st ?i = None"
  proof (rule ccontr)
    assume "st_jobs st ?i \<noteq> None"
    then obtain j where j: "st_jobs st ?i = Some j" by blast
    show False using good_dur [OF g j] True by (simp add: dur_job_def)
  qed
  define st1 where "st1 = get_or_create_queue (je_queue r) st"
  note g1 = good_get_or_create_queue [OF g, of "je_queue r", folded st1_def]
  have job: "j_id ?job = ?i" "j_queue ?job = je_queue r" "j_heap_index ?job = kNotInHeap" "j_timer ?job = no_timer"
      "j_state ?job = kScheduled" "j_run_at ?job = je_run_at r"
    by (simp_all add: enqueue_job_def fresh_job_def)
  have nn: "st_next_job_id st1 = st_next_job_id st" "st_jobs st1 = st_jobs st" by (simp_all add: st1_def)
  define st4 where "st4 = add_job ?job st1"
  have g4: "good st4 {} (insert ?i X) {?i}"
    using good_add_job [OF g1(1), of ?job] g1(2) job new room by (simp add: st4_def st1_def)
  have j4: "st_jobs st4 ?i = Some ?job" using job by (simp add: st4_def)
  obtain st5 where st5: "enter_pending ?i st4 = Some st5" "good st5 {} (X - {?i}) {?i}"
      "outer st5 = set_state ?i (pending_state st4 ?job) (outer st4)"
    using good_enter_pending [OF g4 j4] by auto
  define st6 where "st6 = (if je_idem_key r \<noteq> [] then upsert_idem (je_idem_key r) ?i (je_idem_expires_at r) st5 else st5)"
  have g6: "good st6 {} (X - {?i}) {?i}" using st5(2) base_upsert_idem by (simp add: st6_def good_def idx_inv_def)
  let ?f = "\<lambda>q. q\<lparr>q_totals := (q_totals q)\<lparr>qt_enqueued := qt_enqueued (q_totals q) + 1\<rparr>\<rparr>"
  define st8 where "st8 = (write_queue (je_queue r) ?f st6)\<lparr>st_next_job_id := ?i + 1\<rparr>"
  have o5: "outer st5 = outer (set_state ?i (pending_state st4 ?job) st4)" using st5(3) outer_set_state [OF j4] by simp
  have n5: "st_next_job_id st5 = ?i" "st_next_token st5 = st_next_token st"
    using outer_eqD(8,9) [OF o5] True by (simp_all add: st4_def add_job_def st1_def)
  have lt: "?i < ?i + 1" using word_succ_less [OF last] True by simp
  have "good (write_queue (je_queue r) ?f st6) {} (X - {?i}) {?i}" by (rule good_write_queue [OF g6]) simp_all
  then have g8: "good st8 {} (X - {?i}) {?i}"
    unfolding st8_def using less_imp_le [OF lt] n5 by (intro good_next_job_id) (simp_all add: st6_def)
  obtain j5 where j5: "st_jobs st5 ?i = Some j5" "core j5 = core (?job\<lparr>j_state := pending_state st4 ?job\<rparr>)"
    using outer_job [OF o5, of ?i "?job\<lparr>j_state := pending_state st4 ?job\<rparr>"] j4 by auto
  have "st_jobs st8 ?i = Some j5" using j5(1) by (simp add: st8_def st6_def)
  moreover have "dur_job (st_next_job_id st8) (st_next_token st8) ?i j5"
    using lt n5 core_eq_fields [OF j5(2)] g
    by (simp add: dur_job_def st8_def st6_def good_def base_def dur_inv_def pending_state_def enqueue_job_def fresh_job_def)
  ultimately have good: "good st8 {} (X - {?i}) {}" using good_close [OF g8] by blast
  have app: "apply_JobEnqueued r st = Some (Inr (), st8)"
    using True new st5(1)
    by (simp add: apply_JobEnqueued_def Let_def st8_def st6_def st4_def st1_def add_job_def enqueue_job_def fresh_job_def)
  have "outer st4 = add_job (core ?job) (get_or_create_queue (je_queue r) (outer st))"
    by (simp add: st4_def outer_add_job st1_def outer_get_or_create_queue)
  moreover have "pending_state st4 ?job = (if st_replaying st \<or> je_run_at r > st_wall_now st then kScheduled else kReady)"
    using job by (simp add: pending_state_def st4_def st1_def add_job_def)
  ultimately have "outer st8 = enqueue_core r (outer st)"
    using st5(3)
    by (simp add: st8_def st6_def enqueue_core_def Let_def outer_write_queue' outer_upsert_idem core_queue_def outer_fields)
  then show ?thesis using good app by (simp add: applied_success)
next
  case False
  then show ?thesis by (auto simp: apply_JobEnqueued_def)
qed

section \<open>Every record\<close>

primrec targets :: "Record \<Rightarrow> JobId set" where
  "targets (RJobEnqueued r) = {je_id r}"
| "targets (RJobLeased r) = {jl_id r}"
| "targets (RLeaseExtended r) = {le_id r}"
| "targets (RJobSucceeded r) = {js_id r}"
| "targets (RAttemptFailed r) = {af_id r}"
| "targets (RJobCancelled r) = {jc_id r}"
| "targets (RDeadJobRetried r) = {dr_id r}"
| "targets (RJobsPurged r) = set (jp_ids r)"

primrec apply_core :: "Record \<Rightarrow> State \<Rightarrow> State" where
  "apply_core (RJobEnqueued r) = enqueue_core r"
| "apply_core (RJobLeased r) = lease_core r"
| "apply_core (RLeaseExtended r) = write_job (le_id r) (\<lambda>j. j\<lparr>j_lease_expires_at := le_lease_expires_at r\<rparr>)"
| "apply_core (RJobSucceeded r) = succeed_core r"
| "apply_core (RAttemptFailed r) = fail_core r"
| "apply_core (RJobCancelled r) = cancel_core r"
| "apply_core (RDeadJobRetried r) = retry_core r"
| "apply_core (RJobsPurged r) = purge_core (jp_ids r)"

text \<open>The id and token counters have not run out, and the slabs have room for a job.\<close>

definition room_for :: "Record \<Rightarrow> State \<Rightarrow> bool" where
  "room_for r st \<longleftrightarrow> (case r of
     RJobEnqueued _ \<Rightarrow> card (dom (st_jobs st)) < kNil \<and> st_next_job_id st \<noteq> - 1
   | RJobLeased _ \<Rightarrow> st_next_token st \<noteq> - 1
   | _ \<Rightarrow> True)"

lemma apply_rec_ok:
  assumes "good st {} X {}" and "room_for r st"
  shows "applied_ok st (X - targets r) (apply_core r) (apply_rec r st)"
  using assms
  by (cases r) (simp_all add: room_for_def apply_JobEnqueued_ok apply_JobLeased_ok apply_LeaseExtended_ok
      apply_JobSucceeded_ok apply_AttemptFailed_ok apply_JobCancelled_ok apply_DeadJobRetried_ok apply_JobsPurged_ok)

end
