(* ===== verification/StateCheck.thy ===== *)
theory StateCheck
  imports StateUpdate
begin

text \<open>
  \<open>State::check_invariants\<close>, the code's own full check, accepts every state that satisfies
  the invariant, whatever the iteration order of the hash map of jobs.
\<close>

section \<open>The jobs\<close>

lemma check_job_ok:
  assumes inv: "state_inv st" and j: "st_jobs st i = Some j"
  shows "check_job i j (find_queue (j_queue j) st) st = Inr ()"
proof -
  have I: "idx_inv st {} {}" and b: "base st {}" using inv by (simp_all add: state_inv_def good_def)
  note D = idxD [OF I [unfolded idx_inv_def]]
  obtain q where q: "map_of (st_queues st) (j_queue j) = Some q" using idx_queue_exists [OF I j] by blast
  have qok: "queue_ok (st_jobs st) {} (j_queue j) q" by (rule D(4) [OF q])
  have d: "dur_job (st_next_job_id st) (st_next_token st) i j" using b j by (simp add: base_def dur_inv_def)
  have jk: "job_ok {} {} (dom (map_of (st_queues st))) i j" by (rule D(5) [OF j])
  have heap: "j_heap_index j < length (q_ready q) \<and> q_ready q ! j_heap_index j = i" if "j_state j = kReady"
  proof -
    have "i \<in> set (q_ready q)" "heap_ok (st_jobs st) (q_ready q)" using qok j that by (auto simp: queue_ok_def jobs_in_def)
    then show ?thesis using heap_ok_index(1,2) [of "st_jobs st" "q_ready q" i] j by (simp add: deref_def)
  qed
  have dead: "i \<in> set (q_dead q) \<longleftrightarrow> j_state j = kDead" using qok j by (auto simp: queue_ok_def jobs_in_def)
  have timer: "valid_handle (j_timer j) \<longleftrightarrow> \<not> st_replaying st \<and> (j_state j = kScheduled \<or> j_state j = kLeased)"
    using timers_valid_iff [OF D(6) j] by (simp add: wants_timer_def)
  have facts: "j_id j = i" "\<not> st_next_job_id st \<le> i" "q_name q = j_queue j" "\<not> j_max_attempts j < j_attempts j"
      "j_heap_index j = kNotInHeap \<longleftrightarrow> j_state j \<noteq> kReady" "holds_token (j_state j) \<longleftrightarrow> j_lease_token j \<noteq> 0"
      "\<not> st_next_token st \<le> j_lease_token j" "j_state j = kLeased \<longrightarrow> j_attempts j \<noteq> 0"
    using qok d jk by (auto simp: queue_ok_def dur_job_def job_ok_def not_le not_less)
  show ?thesis
    unfolding check_job_def find_queue_def Let_def q option.case facts(1) timer dead
    using facts(2-8) heap by auto
qed

definition recount :: "JobId list \<Rightarrow> State \<Rightarrow> Recount \<Rightarrow> Recount" where
  "recount ids st rc = fold (\<lambda>i. recount_job (job_of st i) (st_abi st)) ids rc"

lemma check_jobs_ok:
  assumes "state_inv st" and "set ids \<subseteq> dom (st_jobs st)"
  shows "check_jobs ids st rc = Inr (recount ids st rc)"
  using assms(2)
proof (induction ids arbitrary: rc)
  case (Cons i ids)
  then obtain j where "st_jobs st i = Some j" by auto
  then show ?case using Cons check_job_ok [OF assms(1)] by (simp add: recount_def)
qed (simp add: recount_def)

lemma recount_fields:
  "rc_memory (recount ids st rc) = rc_memory rc + (\<Sum>i\<leftarrow>ids. job_bytes (st_abi st) (job_of st i))"
  "rc_timers (recount ids st rc) = rc_timers rc + length (filter (\<lambda>i. valid_handle (j_timer (job_of st i))) ids)"
  "rc_counts (recount ids st rc) n s = rc_counts rc n s +
     of_nat (length (filter (\<lambda>i. j_queue (job_of st i) = n \<and> j_state (job_of st i) = s) ids))"
  by (induction ids arbitrary: rc) (simp_all add: recount_def recount_job_def algebra_simps)

lemma length_filter_card: "distinct xs \<Longrightarrow> length (filter P xs) = card {x \<in> set xs. P x}"
  by (metis distinct_card distinct_filter set_filter)

lemma timers_bij:
  assumes t: "timers_ok js rep {} {} w"
  shows "te_id ` pending w = {i. \<exists>j. js i = Some j \<and> valid_handle (j_timer j)}"
proof (intro set_eqI iffI)
  fix i assume "i \<in> te_id ` pending w"
  then obtain e where e: "e \<in> pending w" "i = te_id e" by blast
  then show "i \<in> {i. \<exists>j. js i = Some j \<and> valid_handle (j_timer j)}"
    using timers_okD(4) [OF t e(1)] pending_valid [OF timers_okD(1) [OF t] e(1)] by auto
next
  fix i assume "i \<in> {i. \<exists>j. js i = Some j \<and> valid_handle (j_timer j)}"
  then obtain j where j: "js i = Some j" "valid_handle (j_timer j)" by blast
  then have "wants_timer rep {} i j" using timers_valid_iff [OF t j(1)] by simp
  then show "i \<in> te_id ` pending w" using timers_okD(2) [OF t j(1)] by blast
qed

section \<open>Totals\<close>

lemma recount_ok:
  assumes inv: "state_inv st" and order: "distinct order" "set order = dom (st_jobs st)"
  defines "rc \<equiv> recount order st \<lparr>rc_counts = (\<lambda>_ _. 0), rc_memory = 0, rc_timers = 0\<rparr>"
  shows "rc_timers rc = tw_size (st_wheel st)"
    and "rc_counts rc n s = of_nat (card (jobs_in (st_jobs st) {} n s))"
    and "rc_memory rc = jobs_bytes (st_abi st) (st_jobs st)"
proof -
  let ?js = "st_jobs st"
  have t: "timers_ok ?js (st_replaying st) {} {} (st_wheel st)"
    using inv idxD(6) by (auto simp: state_inv_def good_def idx_inv_def)
  have "{i \<in> dom ?js. valid_handle (j_timer (job_of st i))} = te_id ` pending (st_wheel st)"
    unfolding timers_bij [OF t] by auto
  then show "rc_timers rc = tw_size (st_wheel st)"
    using card_image [OF pending_inj [OF t]] wheel.count [OF timers_okD(1) [OF t]] order
    by (simp add: rc_def recount_fields length_filter_card)
  have "{i \<in> dom ?js. j_queue (job_of st i) = n \<and> j_state (job_of st i) = s} = jobs_in ?js {} n s"
    by (auto simp: jobs_in_def)
  then show "rc_counts rc n s = of_nat (card (jobs_in ?js {} n s))"
    using order by (simp add: rc_def recount_fields length_filter_card)
  have "(\<Sum>i\<leftarrow>order. job_bytes (st_abi st) (job_of st i)) = (\<Sum>i\<in>dom ?js. job_bytes (st_abi st) (the (?js i)))"
    unfolding sum_list_distinct_conv_sum_set [OF order(1)] order(2) by (rule sum.cong) auto
  then show "rc_memory rc = jobs_bytes (st_abi st) ?js" by (simp add: rc_def recount_fields jobs_bytes_def)
qed

lemma check_queues_ok:
  assumes inv: "state_inv st" and counts: "\<And>n s. rc_counts rc n s = of_nat (card (jobs_in (st_jobs st) {} n s))"
    and sub: "\<And>n q. (n, q) \<in> set qs \<Longrightarrow> map_of (st_queues st) n = Some q"
  shows "check_queues qs st rc = Inr ()"
  using sub
proof (induction qs)
  case (Cons nq qs)
  obtain n q where nq: "nq = (n, q)" by (cases nq)
  have q: "map_of (st_queues st) n = Some q" using Cons.prems nq by simp
  have "queue_ok (st_jobs st) {} n q"
    using inv q idxD(4) by (auto simp: state_inv_def good_def idx_inv_def)
  moreover have c: "q_counts q = (\<lambda>s. of_nat (card (jobs_in (st_jobs st) {} n s)))"
    using inv q by (auto simp: state_inv_def good_def base_def cnt_inv_def)
  moreover have "rc_counts rc n = q_counts q" using counts c by (simp add: fun_eq_iff)
  ultimately have "check_queues (nq # qs) st rc = check_queues qs st rc"
    using distinct_card [of "q_ready q"] distinct_card [of "q_dead q"]
    by (simp add: nq queue_ok_def heap_ok_def)
  then show ?case using Cons by simp
qed simp

lemma check_idem_ok:
  assumes "\<And>e. e \<in> set es \<Longrightarrow> st_idem_index st (ie_key e) = Some e"
  shows "check_idem es st m = Inr (m + sum_list (map (idem_bytes (st_abi st)) es))"
  using assms by (induction es arbitrary: m) (simp_all add: algebra_simps)

lemma idem_index_facts:
  assumes "idem_inv st"
  shows "e \<in> set (st_idem_order st) \<Longrightarrow> st_idem_index st (ie_key e) = Some e"
    and "card (dom (st_idem_index st)) = length (st_idem_order st)"
proof -
  let ?l = "map (\<lambda>e. (ie_key e, e)) (st_idem_order st)"
  have d: "distinct (map fst ?l)" using assms by (simp add: idem_inv_def o_def)
  show "st_idem_index st (ie_key e) = Some e" if "e \<in> set (st_idem_order st)"
    using map_of_is_SomeI [OF d, of "ie_key e" e] assms that by (simp add: idem_inv_def)
  have "dom (map_of ?l) = ie_key ` set (st_idem_order st)" by (auto simp: dom_map_of_conv_image_fst image_image)
  then show "card (dom (st_idem_index st)) = length (st_idem_order st)"
    using assms distinct_card [of "map ie_key (st_idem_order st)"] by (simp add: idem_inv_def)
qed

lemma check_invariants_ok:
  assumes inv: "state_inv st" and order: "distinct order" "set order = dom (st_jobs st)"
  shows "check_invariants order st = Inr ()"
proof -
  let ?rc = "recount order st \<lparr>rc_counts = (\<lambda>_ _. 0), rc_memory = 0, rc_timers = 0\<rparr>"
  note r = recount_ok [OF inv order]
  have b: "base st {}" and wfq: "omap_wf (st_queues st)"
    using inv idxD(3) by (auto simp: state_inv_def good_def idx_inv_def)
  have q: "check_queues (st_queues st) st ?rc = Inr ()"
    by (rule check_queues_ok [OF inv r(2)]) (simp add: map_of_is_SomeI omap_wf_distinct [OF wfq])
  have ii: "idem_inv st" "mem_inv st" using b by (simp_all add: base_def)
  show ?thesis
    using check_jobs_ok [OF inv, of order] order(2) q r(1,3) idem_index_facts [OF ii(1)] check_idem_ok ii(2)
    by (simp add: check_invariants_def mem_inv_def)
qed

end
