(* ===== verification/StateTimers.thy ===== *)
theory StateTimers
  imports StateCheck
begin

text \<open>
  \<open>State::advance_timers\<close>: time moves the wheel, due scheduled jobs become ready, and leases
  that have run out are reported, each exactly once. The invariant holds afterwards except
  that the reported jobs have no timer until the engine fails their attempt.
\<close>

section \<open>Handles of fired timers\<close>

lemma idx_unstale:
  assumes I: "idx js qs w rep S X" and j: "js i = Some j" and i: "i \<in> X"
  shows "idx (js(i \<mapsto> j\<lparr>j_heap_index := kNotInHeap, j_timer := no_timer\<rparr>)) qs w rep (S - {i}) X"
proof -
  let ?js = "js(i \<mapsto> j\<lparr>j_heap_index := kNotInHeap, j_timer := no_timer\<rparr>)"
  note D = idxD [OF I]
  have jk: "job_ok S X (dom (map_of qs)) i j" by (rule D(5) [OF j])
  have "card (insert i (dom js)) \<le> kNil" using D(2) j by (simp add: insert_absorb domI)
  then have I': "idx ?js qs w rep S X" using jk i by (intro idx_write [OF I i]) (auto simp: job_ok_def)
  note D' = idxD [OF I']
  have "timers_ok ?js rep (S - {i}) X w"
    unfolding timers_ok_def
  proof (intro conjI allI impI ballI)
    fix k jk assume k: "?js k = Some jk"
    show "if wants_timer rep X k jk
        then \<exists>e\<in>pending w. te_handle e = j_timer jk \<and> te_id e = k \<and> te_kind e = timer_kind jk
        else k \<notin> S - {i} \<longrightarrow> j_timer jk = no_timer"
      using timers_okD(2,3) [OF D'(6) k] k by (cases "k = i") (auto split: if_splits)
  qed (use timers_okD(1,4) [OF D'(6)] in auto)
  moreover have "job_ok (S - {i}) X (dom (map_of qs)) k jk" if "?js k = Some jk" for k jk
    using D'(5) [OF that] that i by (cases "k = i") (auto simp: job_ok_def)
  ultimately show ?thesis using I' unfolding idx_def by blast
qed

lemma idx_fire:
  assumes I: "idx js qs w rep {} {}" and w': "wheel_inv w'" and F: "F \<subseteq> pending w" "pending w' = pending w - F"
  shows "idx js qs w' rep (te_id ` F) (te_id ` F)"
proof -
  let ?S = "te_id ` F"
  note D = idxD [OF I]
  note t = D(6)
  have st: "wants_timer rep {} i j" if i: "i \<in> ?S" "js i = Some j" for i j
  proof -
    obtain e where e: "e \<in> F" "te_id e = i" using i(1) by blast
    then have "valid_handle (j_timer j)"
      using timers_okD(4) [OF t, of e] pending_valid [OF timers_okD(1) [OF t], of e] F(1) i(2) by auto
    then show ?thesis using timers_valid_iff [OF t i(2)] by simp
  qed
  have jin: "jobs_in js ?S n s = jobs_in js {} n s" if "s = kReady \<or> s = kDead" for n s
    using st that by (fastforce simp: jobs_in_def wants_timer_def)
  have "queue_ok js ?S n q" if "map_of qs n = Some q" for n q
    using D(4) [OF that] jin by (simp add: queue_ok_def)
  moreover have "job_ok ?S ?S (dom (map_of qs)) i j" if "js i = Some j" for i j
    using D(5) [OF that] st [OF _ that] by (auto simp: job_ok_def wants_timer_def)
  moreover have "timers_ok js rep ?S ?S w'"
    unfolding timers_ok_def
  proof (intro conjI allI impI ballI)
    fix i j assume j: "js i = Some j"
    have wt: "wants_timer rep ?S i j \<longleftrightarrow> wants_timer rep {} i j \<and> i \<notin> ?S" by (auto simp: wants_timer_def)
    show "if wants_timer rep ?S i j
        then \<exists>e\<in>pending w'. te_handle e = j_timer j \<and> te_id e = i \<and> te_kind e = timer_kind j
        else i \<notin> ?S \<longrightarrow> j_timer j = no_timer"
      using timers_okD(2,3) [OF t j] F(2) wt by auto
  next
    fix e assume e: "e \<in> pending w'"
    then have e': "e \<in> pending w" "e \<notin> F" using F(2) by auto
    show "te_id e \<notin> ?S" using inj_onD [OF pending_inj [OF t]] e' F(1) by blast
    show "\<exists>j. js (te_id e) = Some j \<and> j_timer j = te_handle e" using timers_okD(4) [OF t e'(1)] by blast
  qed (rule w')
  ultimately show ?thesis using D(1,2,3) by (simp add: idx_def)
qed

section \<open>One fired timer\<close>

text \<open>The timers still to be handled belong to the jobs that carry their handles.\<close>

definition fired_ok :: "TimerEvent list \<Rightarrow> State \<Rightarrow> bool" where
  "fired_ok es st \<longleftrightarrow> distinct (map te_id es) \<and>
     (\<forall>e\<in>set es. \<exists>j. st_jobs st (te_id e) = Some j \<and> j_timer j = te_handle e \<and> te_kind e = timer_kind j \<and>
        \<not> st_replaying st \<and> (j_state j = kScheduled \<or> j_state j = kLeased))"

lemma fired_ok_frame:
  assumes f: "fired_ok (e # es) st" and o: "\<And>k. k \<noteq> te_id e \<Longrightarrow> map_option core (st_jobs st' k) = map_option core (st_jobs st k)"
    and t: "\<And>k. k \<noteq> te_id e \<Longrightarrow> timer_of st' k = timer_of st k" and r: "st_replaying st' = st_replaying st"
  shows "fired_ok es st'"
  unfolding fired_ok_def
proof (intro conjI ballI)
  show "distinct (map te_id es)" using f by (simp add: fired_ok_def)
  fix e' assume e': "e' \<in> set es"
  then have ne: "te_id e' \<noteq> te_id e" using f by (auto simp: fired_ok_def rev_image_eqI)
  obtain j where j: "st_jobs st (te_id e') = Some j" "j_timer j = te_handle e'" "te_kind e' = timer_kind j"
      "\<not> st_replaying st" "j_state j = kScheduled \<or> j_state j = kLeased"
    using f e' by (auto simp: fired_ok_def)
  obtain j' where j': "st_jobs st' (te_id e') = Some j'" "core j' = core j" "j_timer j' = j_timer j"
    using o [OF ne] t [OF ne] j(1) by (auto simp: timer_of_def)
  show "\<exists>j. st_jobs st' (te_id e') = Some j \<and> j_timer j = te_handle e' \<and> te_kind e' = timer_kind j \<and>
      \<not> st_replaying st' \<and> (j_state j = kScheduled \<or> j_state j = kLeased)"
    using j j' r core_eq_fields(9) [OF j'(2)] by (auto simp: timer_kind_def)
qed

lemma good_unstale:
  assumes g: "good st S X E" and j: "st_jobs st i = Some j" "j_state j \<noteq> kReady" and i: "i \<in> X"
  shows "good (write_job i (\<lambda>j. j\<lparr>j_timer := no_timer\<rparr>) st) (S - {i}) X E"
    and "outer (write_job i (\<lambda>j. j\<lparr>j_timer := no_timer\<rparr>) st) = outer st"
proof -
  show o: "outer (write_job i (\<lambda>j. j\<lparr>j_timer := no_timer\<rparr>) st) = outer st"
    by (rule outer_write_job [OF j(1)]) (simp add: core_def)
  have "j_heap_index j = kNotInHeap" using g idx_job(2) [OF _ j(1) i, of S] j(2) by (simp add: good_def)
  then have "j\<lparr>j_heap_index := kNotInHeap, j_timer := no_timer\<rparr> = j\<lparr>j_timer := no_timer\<rparr>" by simp
  then have "idx_inv (write_job i (\<lambda>j. j\<lparr>j_timer := no_timer\<rparr>) st) (S - {i}) X"
    using g idx_unstale [of "st_jobs st" "st_queues st" "st_wheel st" "st_replaying st" S X i j] j i
    by (simp add: good_def idx_inv_def)
  then show "good (write_job i (\<lambda>j. j\<lparr>j_timer := no_timer\<rparr>) st) (S - {i}) X E"
    using g base_outerI [OF _ o] by (simp add: good_def)
qed

text \<open>What one fired timer does to the outer state: at most a scheduled job becomes ready.\<close>

definition due_core :: "TimerEvent \<Rightarrow> State \<Rightarrow> State" where
  "due_core e st =
     (let j = job_of st (te_id e) in
      if j_state j = kScheduled \<and> j_run_at j \<le> st_wall_now st then set_state (te_id e) kReady st else st)"

definition expires :: "TimerEvent \<Rightarrow> State \<Rightarrow> bool" where
  "expires e st \<longleftrightarrow> j_state (job_of st (te_id e)) = kLeased \<and> j_lease_expires_at (job_of st (te_id e)) \<le> st_wall_now st"

lemma due_core_cong:
  assumes "st_jobs st i = Some j" and "te_id e = i"
  shows "due_core e (outer st) = (if j_state j = kScheduled \<and> j_run_at j \<le> st_wall_now st
    then set_state i kReady (outer st) else outer st)"
  using assms by (simp add: due_core_def Let_def outer_job_of outer_fields)

lemma outer_frame:
  assumes "outer st' = outer st"
  shows "map_option core (st_jobs st' k) = map_option core (st_jobs st k)" and "st_replaying st' = st_replaying st"
  using fun_cong [OF outer_eqD(1) [OF assms], of k] outer_eqD(7) [OF assms] by (simp_all add: cores_def)

lemma timer_event_ok:
  assumes g: "good st S (S \<union> X) {}" and f: "fired_ok (e # es) st" and S: "te_id e \<in> S" "te_id e \<notin> X"
  shows "\<exists>st'. timer_event e (exp, st) = Some (exp @ (if expires e st then [te_id e] else []), st') \<and>
    good st' (S - {te_id e}) ((S - {te_id e}) \<union> (X \<union> (if expires e st then {te_id e} else {}))) {} \<and>
    fired_ok es st' \<and> outer st' = due_core e (outer st)"
proof -
  let ?i = "te_id e"
  obtain j where j: "st_jobs st ?i = Some j" "j_timer j = te_handle e" "te_kind e = timer_kind j"
      "\<not> st_replaying st" "j_state j = kScheduled \<or> j_state j = kLeased"
    using f by (auto simp: fired_ok_def)
  define st1 where "st1 = write_job ?i (\<lambda>j. j\<lparr>j_timer := no_timer\<rparr>) st"
  have g1: "good st1 (S - {?i}) (S \<union> X) {}" and o1: "outer st1 = outer st"
    unfolding st1_def using good_unstale [OF g j(1)] j(5) S by auto
  let ?j1 = "j\<lparr>j_timer := no_timer\<rparr>"
  have j1: "st_jobs st1 ?i = Some ?j1" using j by (simp add: st1_def)
  have t1: "timer_of st1 k = timer_of st k" if "k \<noteq> ?i" for k using j that by (simp add: st1_def timer_of_def)
  have id: "j_id j = ?i" using g idx_job(1) [OF _ j(1), of S "S \<union> X"] by (simp add: good_def)
  have X': "S \<union> X - {?i} = (S - {?i}) \<union> X" using S by blast
  have frame: "fired_ok es st'" if o: "\<And>k. k \<noteq> ?i \<Longrightarrow> map_option core (st_jobs st' k) = map_option core (st_jobs st1 k)"
      and t: "\<And>k. k \<noteq> ?i \<Longrightarrow> timer_of st' k = timer_of st1 k" and r: "st_replaying st' = st_replaying st1" for st'
    by (rule fired_ok_frame [OF f]) (use o t r t1 outer_frame [OF o1] in simp_all)
  have resched: "\<exists>st'. schedule_timer ?i d (te_kind e) st1 = Some st' \<and> good st' (S - {?i}) ((S - {?i}) \<union> X) {} \<and>
      fired_ok es st' \<and> outer st' = outer st" for d
  proof -
    obtain st' where st': "schedule_timer ?i d (te_kind e) st1 = Some st'" "idx_inv st' (S - {?i}) (S \<union> X - {?i})"
        "outer st' = outer st1" "\<forall>k. k \<noteq> ?i \<longrightarrow> timer_of st' k = timer_of st1 k"
      using schedule_timer_ok [of st1 "S - {?i}" "S \<union> X" ?i ?j1 "te_kind e" d] g1 j1 j(3-5) S outer_frame(2) [OF o1]
      by (auto simp: good_def wants_timer_def timer_kind_def)
    have "base st' {}" using g1 base_outerI [OF _ st'(3)] by (simp add: good_def)
    then show ?thesis using st' X' o1 frame [OF outer_frame(1) [OF st'(3)] _ outer_frame(2) [OF st'(3)]] by (auto simp: good_def)
  qed
  consider (due) "j_state j = kScheduled" "j_run_at j \<le> st_wall_now st"
    | (later) "j_state j = kScheduled" "j_run_at j > st_wall_now st"
    | (lapsed) "j_state j = kLeased" "j_lease_expires_at j \<le> st_wall_now st"
    | (extended) "j_state j = kLeased" "j_lease_expires_at j > st_wall_now st"
    using j(5) by linarith
  then show ?thesis
  proof cases
    case due
    have p: "pending_state st1 ?j1 = kReady" using due j(4) outer_frame(2) [OF o1] outer_eqD(5) [OF o1] by (simp add: pending_state_def)
    obtain st' where st': "enter_pending ?i st1 = Some st'" "good st' (S - {?i}) (S \<union> X - {?i}) {?i}"
        "outer st' = set_state ?i kReady (outer st1)" "\<forall>k. k \<noteq> ?i \<longrightarrow> timer_of st' k = timer_of st1 k"
      using good_enter_pending [OF good_open [OF g1] j1, of ?i] S p by auto
    have o': "outer st' = outer (set_state ?i kReady st1)" using st'(3) outer_set_state [OF j1] by simp
    obtain j' where j': "st_jobs st' ?i = Some j'" "core j' = core (?j1\<lparr>j_state := kReady\<rparr>)"
      using outer_job [OF o', of ?i "?j1\<lparr>j_state := kReady\<rparr>"] j1 by auto
    have "dur_job (st_next_job_id st') (st_next_token st') ?i j'"
      using good_dur [OF g j(1)] core_eq_fields [OF j'(2)] outer_eqD(8,9) [OF o'] outer_eqD(8,9) [OF o1] due(1)
      by (auto simp: dur_job_def)
    then have "good st' (S - {?i}) ((S - {?i}) \<union> X) {}" using good_close [OF st'(2) j'(1)] X' by simp
    moreover have "fired_ok es st'"
      using frame [of st'] outer_frame [OF o'] st'(4) j1 by simp
    moreover have "timer_event e (exp, st) = Some (exp, st')"
      using due j(1-3) st'(1) by (simp add: timer_event_def find_job_def Let_def timer_kind_def st1_def)
    ultimately show ?thesis
      using st'(3) o1 due j(1) by (simp add: expires_def due_core_cong [OF j(1)])
  next
    case later
    obtain st' where st': "schedule_timer ?i (j_run_at j) (te_kind e) st1 = Some st'" "good st' (S - {?i}) ((S - {?i}) \<union> X) {}"
        "fired_ok es st'" "outer st' = outer st" using resched by blast
    moreover have "timer_event e (exp, st) = Some (exp, st')"
      using later j(1-3) st'(1) by (simp add: timer_event_def find_job_def Let_def timer_kind_def st1_def)
    ultimately show ?thesis using later j(1) by (simp add: expires_def due_core_cong [OF j(1)])
  next
    case extended
    obtain st' where st': "schedule_timer ?i (j_lease_expires_at j) (te_kind e) st1 = Some st'"
        "good st' (S - {?i}) ((S - {?i}) \<union> X) {}" "fired_ok es st'" "outer st' = outer st" using resched by blast
    moreover have "timer_event e (exp, st) = Some (exp, st')"
      using extended j(1-3) st'(1) by (simp add: timer_event_def find_job_def Let_def timer_kind_def st1_def kJobDue_def kLeaseExpiry_def)
    ultimately show ?thesis using extended j(1) by (simp add: expires_def due_core_cong [OF j(1)])
  next
    case lapsed
    have "timer_event e (exp, st) = Some (exp @ [?i], st1)"
      using lapsed j(1-3) id by (simp add: timer_event_def find_job_def Let_def timer_kind_def st1_def kJobDue_def kLeaseExpiry_def)
    moreover have "S \<union> X = (S - {?i}) \<union> (X \<union> {?i})" using S by blast
    ultimately show ?thesis
      using lapsed j(1) g1 o1 frame [of st1] by (simp add: expires_def due_core_cong [OF j(1)])
  qed
qed

section \<open>All of them\<close>

text \<open>
  What the timers that are due do, in the order in which the wheel reports them: the
  outer state after them, and the leases that have run out.
\<close>

definition lapsed :: "TimerEvent list \<Rightarrow> State \<Rightarrow> JobId list" where
  "lapsed es st = map te_id (filter (\<lambda>e. expires e st) es)"

lemma due_core_job:
  assumes "outer st' = due_core e (outer st)" and "st_jobs st (te_id e) = Some j"
  shows "st_wall_now st' = st_wall_now st"
    and "k \<noteq> te_id e \<Longrightarrow> map_option core (st_jobs st' k) = map_option core (st_jobs st k)"
proof -
  have "outer st' = outer (if j_state j = kScheduled \<and> j_run_at j \<le> st_wall_now st then set_state (te_id e) kReady st else st)"
    using assms outer_set_state [OF assms(2)] due_core_cong [OF assms(2) refl] by simp
  from outer_frame(1) [OF this, of k] outer_eqD(5) [OF this]
  show "st_wall_now st' = st_wall_now st" "k \<noteq> te_id e \<Longrightarrow> map_option core (st_jobs st' k) = map_option core (st_jobs st k)"
    using assms(2) by (auto split: if_splits)
qed

lemma expires_frame:
  assumes "map_option core (st_jobs st' (te_id e)) = map_option core (st_jobs st (te_id e))"
    and "st_jobs st (te_id e) = Some j" and "st_wall_now st' = st_wall_now st"
  shows "expires e st' = expires e st"
proof -
  obtain j' where "st_jobs st' (te_id e) = Some j'" "core j' = core j" using assms(1,2) by auto
  then show ?thesis using assms(2,3) core_eq_fields(9,13) [of j' j] by (simp add: expires_def)
qed

lemma timer_events_ok:
  assumes "good st (te_id ` set es) (te_id ` set es \<union> X) {}" and "fired_ok es st" and "te_id ` set es \<inter> X = {}"
  shows "\<exists>st'. timer_events es (exp, st) = Some (exp @ lapsed es st, st') \<and>
    good st' {} (X \<union> set (lapsed es st)) {} \<and> outer st' = fold due_core es (outer st)"
  using assms
proof (induction es arbitrary: st X exp)
  case Nil
  then show ?case by (simp add: lapsed_def)
next
  case (Cons e es)
  let ?i = "te_id e" and ?S = "te_id ` set (e # es)"
  let ?x = "if expires e st then {te_id e} else {}"
  obtain j where j: "st_jobs st ?i = Some j" using Cons.prems(2) by (auto simp: fired_ok_def)
  obtain st1 where st1: "timer_event e (exp, st) = Some (exp @ (if expires e st then [?i] else []), st1)"
      "good st1 (?S - {?i}) ((?S - {?i}) \<union> (X \<union> ?x)) {}" "fired_ok es st1" "outer st1 = due_core e (outer st)"
    using timer_event_ok [OF Cons.prems(1,2), of exp] Cons.prems(3) by auto
  have ni: "?i \<notin> te_id ` set es" using Cons.prems(2) by (simp add: fired_ok_def)
  then have S: "?S - {?i} = te_id ` set es" by auto
  have same: "lapsed es st1 = lapsed es st"
    unfolding lapsed_def
  proof (intro arg_cong [where f = "map te_id"] filter_cong refl)
    fix e' assume e': "e' \<in> set es"
    then obtain j' where "st_jobs st (te_id e') = Some j'" using Cons.prems(2) by (auto simp: fired_ok_def)
    then show "expires e' st1 = expires e' st"
      using expires_frame due_core_job [OF st1(4) j] e' ni by (metis image_eqI)
  qed
  have "te_id ` set es \<inter> (X \<union> ?x) = {}" using Cons.prems(3) ni by auto
  from Cons.IH [OF st1(2) [unfolded S] st1(3) this, of "exp @ (if expires e st then [?i] else [])"]
  obtain st' where st': "timer_events es (exp @ (if expires e st then [?i] else []), st1) =
      Some ((exp @ (if expires e st then [?i] else [])) @ lapsed es st, st')"
    "good st' {} (X \<union> ?x \<union> set (lapsed es st)) {}" "outer st' = fold due_core es (outer st1)"
    unfolding same by blast
  have "X \<union> ?x \<union> set (lapsed es st) = X \<union> set (lapsed (e # es) st)"
    "(if expires e st then [?i] else []) @ lapsed es st = lapsed (e # es) st" by (auto simp: lapsed_def)
  then show ?case using st1(1,4) st' by simp
qed

lemma advance_timers_ok:
  assumes inv: "state_inv st" and tick: "tick_ok (word_of_int (st_mono_now st))"
  shows "\<exists>es st'. advance_timers exp st = Some (exp @ lapsed es st, st') \<and> good st' {} (set (lapsed es st)) {} \<and>
    outer st' = fold due_core es (outer st) \<and> distinct (map te_id es) \<and>
    set es = {e \<in> pending (st_wheel st). te_deadline e \<le> max (tw_now (st_wheel st)) (word_of_int (st_mono_now st))}"
proof -
  let ?w = "st_wheel st" and ?now = "word_of_int (st_mono_now st) :: u64"
  have I: "idx (st_jobs st) (st_queues st) ?w (st_replaying st) {} {}" and b: "base st {}"
    using inv by (simp_all add: state_inv_def good_def idx_inv_def)
  note t = idxD(6) [OF I]
  obtain w' es where adv: "advance ?now ?w = Some (w', es)" "wheel_inv w'" "distinct es"
    "set es = {e \<in> pending ?w. te_deadline e \<le> max (tw_now ?w) ?now}"
    "pending w' = {e \<in> pending ?w. max (tw_now ?w) ?now < te_deadline e}"
    using wheel.adv [OF timers_okD(1) [OF t] tick] by blast
  let ?st = "st\<lparr>st_wheel := w'\<rparr>"
  have sub: "set es \<subseteq> pending ?w" "pending w' = pending ?w - set es"
    unfolding adv(4,5) by (auto simp: le_max_iff_disj not_le)
  have dist: "distinct (map te_id es)"
    using adv(3) inj_on_subset [OF pending_inj [OF t] sub(1)] by (simp add: distinct_map)
  have "good ?st (te_id ` set es) (te_id ` set es \<union> {}) {}"
    using idx_fire [OF I adv(2) sub] base_outerI [OF b, of ?st] by (simp add: good_def idx_inv_def)
  moreover have "fired_ok es ?st"
    unfolding fired_ok_def
  proof (intro conjI ballI dist)
    fix e assume "e \<in> set es"
    then have e: "e \<in> pending ?w" using sub by blast
    obtain j where j: "st_jobs st (te_id e) = Some j" "j_timer j = te_handle e" using timers_okD(4) [OF t e] by blast
    have w: "wants_timer (st_replaying st) {} (te_id e) j"
      using timers_valid_iff [OF t j(1)] pending_valid [OF timers_okD(1) [OF t] e] j(2) by simp
    then obtain e' where "e' \<in> pending ?w" "te_id e' = te_id e" "te_kind e' = timer_kind j"
      using timers_okD(2) [OF t j(1)] by blast
    then have "te_kind e = timer_kind j" using inj_onD [OF pending_inj [OF t] _ _ e] by metis
    then show "\<exists>j. st_jobs ?st (te_id e) = Some j \<and> j_timer j = te_handle e \<and> te_kind e = timer_kind j \<and>
        \<not> st_replaying ?st \<and> (j_state j = kScheduled \<or> j_state j = kLeased)"
      using j w by (simp add: wants_timer_def)
  qed
  moreover have "lapsed es ?st = lapsed es st" by (simp add: lapsed_def expires_def job_of_def)
  ultimately obtain st' where "timer_events es (exp, ?st) = Some (exp @ lapsed es st, st')"
      "good st' {} (set (lapsed es st)) {}" "outer st' = fold due_core es (outer ?st)"
    using timer_events_ok [of ?st es "{}" exp] by auto
  then show ?thesis using adv(1,4) dist by (auto simp: advance_timers_def)
qed

end
