(* ===== verification/StateSpec.thy ===== *)
theory StateSpec
  imports StateTimers
begin

text \<open>
  What the state machine promises, without indexes, clocks, counters of memory or the
  difference between scheduled and ready: the durable state and one step per record.
  \<open>State::apply\<close> refines it, in live operation and in replay alike.
\<close>

section \<open>The durable state\<close>

text \<open>The durable fields of a job. \<open>kScheduled\<close> stands for both pending states.\<close>

definition persist :: "Job \<Rightarrow> Job" where
  "persist j = j\<lparr>j_state := (if is_pending (j_state j) then kScheduled else j_state j), j_heap_index := 0, j_timer := no_timer,
     j_idem_key_capacity := 0, j_last_error_capacity := 0\<rparr>"

record Durable =
  d_jobs :: Jobs
  d_totals :: "bytes \<rightharpoonup> QueueTotals"
  d_next_job_id :: JobId
  d_next_token :: LeaseToken
  d_idem :: "(bytes \<times> JobId \<times> WallTime) list"

definition durable :: "State \<Rightarrow> Durable" where
  "durable st = \<lparr>d_jobs = map_option persist \<circ> st_jobs st, d_totals = map_option q_totals \<circ> map_of (st_queues st),
     d_next_job_id = st_next_job_id st, d_next_token = st_next_token st,
     d_idem = map (\<lambda>e. (ie_key e, ie_job_id e, ie_expires_at e)) (st_idem_order st)\<rparr>"

section \<open>One step per record\<close>

definition add_total :: "bytes \<Rightarrow> (QueueTotals \<Rightarrow> QueueTotals) \<Rightarrow> Durable \<Rightarrow> Durable" where
  "add_total n f d = d\<lparr>d_totals := (d_totals d)(n := map_option f (d_totals d n))\<rparr>"

definition put_job :: "JobId \<Rightarrow> Job \<Rightarrow> Durable \<Rightarrow> Durable" where
  "put_job i j d = d\<lparr>d_jobs := (d_jobs d)(i \<mapsto> j)\<rparr>"

definition spec_job :: "JobEnqueued \<Rightarrow> Job" where
  "spec_job r = \<lparr>j_id = je_id r, j_queue = je_queue r, j_payload = je_payload r, j_priority = je_priority r,
     j_attempts = 0, j_max_attempts = je_max_attempts r, j_backoff_base_ms = je_backoff_base_ms r,
     j_backoff_cap_ms = je_backoff_cap_ms r, j_state = kScheduled, j_run_at = je_run_at r, j_created_at = je_at r,
     j_finished_at = 0, j_lease_expires_at = 0, j_lease_token = 0, j_idem_key = je_idem_key r,
     j_idem_key_capacity = 0, j_last_error = [], j_last_error_capacity = 0, j_heap_index = 0, j_timer = no_timer\<rparr>"

definition spec_enqueue :: "JobEnqueued \<Rightarrow> Durable \<Rightarrow> Durable option" where
  "spec_enqueue r d =
     (if je_id r = d_next_job_id d \<and> je_queue r \<noteq> [] \<and> je_max_attempts r \<noteq> 0
      then let d1 = put_job (je_id r) (spec_job r) d;
               d2 = (case d_totals d (je_queue r) of None \<Rightarrow> d1\<lparr>d_totals := (d_totals d1)(je_queue r \<mapsto> zero_totals)\<rparr> | Some _ \<Rightarrow> d1);
               d3 = add_total (je_queue r) (\<lambda>t. t\<lparr>qt_enqueued := qt_enqueued t + 1\<rparr>) d2;
               d4 = (if je_idem_key r = [] then d3
                     else d3\<lparr>d_idem := filter (\<lambda>(k, _). k \<noteq> je_idem_key r) (d_idem d3) @
                                         [(je_idem_key r, je_id r, je_idem_expires_at r)]\<rparr>)
           in Some (d4\<lparr>d_next_job_id := je_id r + 1\<rparr>)
      else None)"

definition spec_lease :: "JobLeased \<Rightarrow> Durable \<Rightarrow> Durable option" where
  "spec_lease r d =
     (case d_jobs d (jl_id r) of
        None \<Rightarrow> None
      | Some j \<Rightarrow>
          if j_state j = kScheduled \<and> jl_token r = d_next_token d \<and> j_attempts j < j_max_attempts j
          then Some ((put_job (jl_id r) (j\<lparr>j_state := kLeased, j_attempts := j_attempts j + 1, j_lease_token := jl_token r,
                   j_lease_expires_at := jl_lease_expires_at r\<rparr>) d)\<lparr>d_next_token := jl_token r + 1\<rparr>)
          else None)"

definition leased_to :: "JobId \<Rightarrow> LeaseToken \<Rightarrow> Durable \<Rightarrow> Job option" where
  "leased_to i token d =
     (case d_jobs d i of None \<Rightarrow> None
      | Some j \<Rightarrow> if j_state j = kLeased \<and> j_lease_token j = token then Some j else None)"

definition spec_extend :: "LeaseExtended \<Rightarrow> Durable \<Rightarrow> Durable option" where
  "spec_extend r d = map_option
     (\<lambda>j. put_job (le_id r) (j\<lparr>j_lease_expires_at := le_lease_expires_at r\<rparr>) d) (leased_to (le_id r) (le_token r) d)"

definition spec_succeed :: "JobSucceeded \<Rightarrow> Durable \<Rightarrow> Durable option" where
  "spec_succeed r d = map_option
     (\<lambda>j. add_total (j_queue j) (\<lambda>t. t\<lparr>qt_succeeded := qt_succeeded t + 1\<rparr>)
        (put_job (js_id r) (j\<lparr>j_state := kSucceeded, j_finished_at := js_at r\<rparr>) d)) (leased_to (js_id r) (js_token r) d)"

definition spec_fail :: "AttemptFailed \<Rightarrow> Durable \<Rightarrow> Durable option" where
  "spec_fail r d = map_option
     (\<lambda>j. let d1 = add_total (j_queue j) (\<lambda>t. t\<lparr>qt_failed_attempts := qt_failed_attempts t + 1\<rparr>) d in
        if af_dead r
        then add_total (j_queue j) (\<lambda>t. t\<lparr>qt_dead := qt_dead t + 1\<rparr>)
               (put_job (af_id r) (j\<lparr>j_state := kDead, j_last_error := af_error r, j_finished_at := af_at r, j_lease_token := 0\<rparr>) d1)
        else put_job (af_id r) (j\<lparr>j_state := kScheduled, j_last_error := af_error r, j_run_at := af_retry_at r, j_lease_token := 0\<rparr>) d1)
     (leased_to (af_id r) (af_token r) d)"

definition spec_cancel :: "JobCancelled \<Rightarrow> Durable \<Rightarrow> Durable option" where
  "spec_cancel r d =
     (case d_jobs d (jc_id r) of
        None \<Rightarrow> None
      | Some j \<Rightarrow>
          if is_terminal (j_state j) then None
          else Some (add_total (j_queue j) (\<lambda>t. t\<lparr>qt_cancelled := qt_cancelled t + 1\<rparr>)
                 (put_job (jc_id r) (j\<lparr>j_state := kCancelled, j_finished_at := jc_at r, j_lease_token := 0\<rparr>) d)))"

definition spec_retry :: "DeadJobRetried \<Rightarrow> Durable \<Rightarrow> Durable option" where
  "spec_retry r d =
     (case d_jobs d (dr_id r) of
        None \<Rightarrow> None
      | Some j \<Rightarrow>
          if j_state j = kDead
          then Some (put_job (dr_id r) (j\<lparr>j_state := kScheduled, j_attempts := 0, j_finished_at := 0, j_run_at := dr_run_at r\<rparr>) d)
          else None)"

definition spec_purge :: "JobsPurged \<Rightarrow> Durable \<Rightarrow> Durable option" where
  "spec_purge r d =
     (if list_all (\<lambda>i. case d_jobs d i of None \<Rightarrow> False | Some j \<Rightarrow> is_terminal (j_state j)) (jp_ids r)
      then Some (d\<lparr>d_jobs := (\<lambda>i. if i \<in> set (jp_ids r) then None else d_jobs d i)\<rparr>) else None)"

fun spec_step :: "Record \<Rightarrow> Durable \<Rightarrow> Durable option" where
  "spec_step (RJobEnqueued r) d = spec_enqueue r d"
| "spec_step (RJobLeased r) d = spec_lease r d"
| "spec_step (RLeaseExtended r) d = spec_extend r d"
| "spec_step (RJobSucceeded r) d = spec_succeed r d"
| "spec_step (RAttemptFailed r) d = spec_fail r d"
| "spec_step (RJobCancelled r) d = spec_cancel r d"
| "spec_step (RDeadJobRetried r) d = spec_retry r d"
| "spec_step (RJobsPurged r) d = spec_purge r d"

section \<open>The durable part of the operations\<close>

lemma persist_core [simp]: "persist (core j) = persist j"
  by (simp add: persist_def core_def)

lemma persist_fields [simp]:
  "j_queue (persist j) = j_queue j" "j_attempts (persist j) = j_attempts j" "j_max_attempts (persist j) = j_max_attempts j"
  "j_lease_token (persist j) = j_lease_token j" "j_state (persist j) = kScheduled \<longleftrightarrow> is_pending (j_state j)"
  "j_state (persist j) = kLeased \<longleftrightarrow> j_state j = kLeased" "j_state (persist j) = kDead \<longleftrightarrow> j_state j = kDead"
  "is_terminal (j_state (persist j)) = is_terminal (j_state j)"
  by (auto simp: persist_def is_pending_def is_terminal_def)

lemma durable_outer: "durable (outer st) = durable st"
  by (auto simp: durable_def outer_fields cores_def map_of_core_queues fun_eq_iff option.map_comp o_def)

lemma durable_outer_eq: "outer st' = outer st \<Longrightarrow> durable st' = durable st"
  by (metis durable_outer)

lemma durable_write_job:
  "st_jobs st i = Some j \<Longrightarrow> durable (write_job i f st) = put_job i (persist (f j)) (durable st)"
  by (auto simp: durable_def put_job_def)

lemma totals_write_queue:
  assumes "\<And>q. q_totals (f q) = g (q_totals q)"
  shows "durable (write_queue n f st) = add_total n g (durable st)"
  using assms by (auto simp: durable_def add_total_def fun_eq_iff option.map_comp o_def)

lemma add_total_id [simp]: "add_total n (\<lambda>t. t) d = d"
  by (simp add: add_total_def option.map_ident)

lemma durable_write_totals:
  "st_jobs st i = Some j \<Longrightarrow> durable (write_totals i g st) = add_total (j_queue j) g (durable st)"
  unfolding write_totals_def by (simp add: totals_write_queue)

lemma durable_set_state:
  "st_jobs st i = Some j \<Longrightarrow> durable (set_state i s st) = put_job i (persist (j\<lparr>j_state := s\<rparr>)) (durable st)"
  unfolding set_state_def Let_def
  by (simp add: totals_write_queue [where g = "\<lambda>t. t"] durable_write_job)

lemma durable_other [simp]:
  "durable (st\<lparr>st_finished_gc := x\<rparr>) = durable st" "durable (st\<lparr>st_dead_gc := x\<rparr>) = durable st"
  "durable (st\<lparr>st_memory_bytes := m\<rparr>) = durable st"
  "durable (st\<lparr>st_next_token := t\<rparr>) = (durable st)\<lparr>d_next_token := t\<rparr>"
  "durable (st\<lparr>st_next_job_id := n\<rparr>) = (durable st)\<lparr>d_next_job_id := n\<rparr>"
  "durable (st\<lparr>st_wheel := w\<rparr>) = durable st"
  by (simp_all add: durable_def)

lemma put_put [simp]: "put_job i j (put_job i j' d) = put_job i j d"
  by (simp add: put_job_def)

lemma durable_finish_core:
  assumes "st_jobs st i = Some j"
  shows "durable (finish_core i t at st) = put_job i (persist (finish_job t at (j\<lparr>j_state := t\<rparr>))) (durable st)"
  using assms by (simp add: finish_core_def Let_def durable_write_job [where j = "j\<lparr>j_state := t\<rparr>"] durable_set_state)

section \<open>What operations leave alone\<close>

definition same_setting :: "State \<Rightarrow> State \<Rightarrow> bool" where
  "same_setting st' st \<longleftrightarrow> st_replaying st' = st_replaying st \<and> st_wall_now st' = st_wall_now st \<and>
     st_mono_now st' = st_mono_now st \<and> st_options st' = st_options st \<and> st_abi st' = st_abi st"

lemma same_setting_refl [simp]: "same_setting st st"
  by (simp add: same_setting_def)

lemma same_setting_trans: "same_setting st3 st2 \<Longrightarrow> same_setting st2 st1 \<Longrightarrow> same_setting st3 st1"
  by (simp add: same_setting_def)

lemma outer_setting: "same_setting (outer st) st"
  by (simp add: same_setting_def outer_fields)

definition same_counters :: "Durable \<Rightarrow> Durable \<Rightarrow> bool" where
  "same_counters d' d \<longleftrightarrow> d_totals d' = d_totals d \<and> d_next_job_id d' = d_next_job_id d \<and> d_next_token d' = d_next_token d"

lemma same_counters_refl [simp]: "same_counters d d" by (simp add: same_counters_def)

lemma outer_eq_setting:
  assumes "outer st' = outer st"
  shows "same_setting st' st"
  using outer_eqD [OF assms] by (simp add: same_setting_def)

section \<open>Refinement\<close>

text \<open>When a record applies.\<close>

definition leased_in :: "JobId \<Rightarrow> LeaseToken \<Rightarrow> State \<Rightarrow> bool" where
  "leased_in i token st \<longleftrightarrow> (\<exists>j. st_jobs st i = Some j \<and> j_state j = kLeased \<and> j_lease_token j = token)"

primrec enabled :: "Record \<Rightarrow> State \<Rightarrow> bool" where
  "enabled (RJobEnqueued r) st \<longleftrightarrow> je_id r = st_next_job_id st \<and> je_queue r \<noteq> [] \<and> je_max_attempts r \<noteq> 0"
| "enabled (RJobLeased r) st \<longleftrightarrow> (\<exists>j. st_jobs st (jl_id r) = Some j \<and> is_pending (j_state j) \<and>
     jl_token r = st_next_token st \<and> j_attempts j < j_max_attempts j)"
| "enabled (RLeaseExtended r) st \<longleftrightarrow> leased_in (le_id r) (le_token r) st"
| "enabled (RJobSucceeded r) st \<longleftrightarrow> leased_in (js_id r) (js_token r) st"
| "enabled (RAttemptFailed r) st \<longleftrightarrow> leased_in (af_id r) (af_token r) st"
| "enabled (RJobCancelled r) st \<longleftrightarrow> (\<exists>j. st_jobs st (jc_id r) = Some j \<and> \<not> is_terminal (j_state j))"
| "enabled (RDeadJobRetried r) st \<longleftrightarrow> (\<exists>j. st_jobs st (dr_id r) = Some j \<and> j_state j = kDead)"
| "enabled (RJobsPurged r) st \<longleftrightarrow> (\<forall>i\<in>set (jp_ids r). \<exists>j. st_jobs st i = Some j \<and> is_terminal (j_state j))"

lemma require_leased_cases:
  "leased_in i token st \<Longrightarrow> require_leased i token what st = Inr ()"
  "\<not> leased_in i token st \<Longrightarrow> \<exists>e. require_leased i token what st = Inl e"
  by (auto simp: require_leased_def leased_in_def find_job_def mismatch_def split: option.splits)

lemma purge_check_cases:
  "\<forall>i\<in>set ids. \<exists>j. st_jobs st i = Some j \<and> is_terminal (j_state j) \<Longrightarrow> purge_check ids st = Inr ()"
  "\<not> (\<forall>i\<in>set ids. \<exists>j. st_jobs st i = Some j \<and> is_terminal (j_state j)) \<Longrightarrow> \<exists>e. purge_check ids st = Inl e"
  by (induction ids) (auto simp: find_job_def mismatch_def split: option.splits)

lemmas apply_defs = apply_JobEnqueued_def apply_JobLeased_def apply_LeaseExtended_def apply_JobSucceeded_def
  apply_AttemptFailed_def apply_JobCancelled_def apply_DeadJobRetried_def apply_JobsPurged_def

lemma apply_enabled: "enabled r st \<Longrightarrow> apply_rec r st \<noteq> Some (Inl e, st')"
  by (cases r)
    (auto simp: apply_defs find_job_def Let_def bind_eq_Some_conv not_le require_leased_cases(1) purge_check_cases(1)
      split: if_splits)

lemma apply_disabled:
  assumes "\<not> enabled r st"
  shows "\<exists>e. apply_rec r st = Some (Inl e, st)"
proof -
  have leased: "\<exists>e. require_leased i t w st = Inl e" if "\<not> leased_in i t st" for i t w
    using require_leased_cases(2) [OF that] .
  show ?thesis
  proof (cases r)
    case (RLeaseExtended x) then show ?thesis using leased [of "le_id x" "le_token x" "''heartbeat''"] assms by (auto simp: apply_defs)
  next
    case (RJobSucceeded x) then show ?thesis using leased [of "js_id x" "js_token x" "''ack''"] assms by (auto simp: apply_defs)
  next
    case (RAttemptFailed x) then show ?thesis using leased [of "af_id x" "af_token x" "''fail''"] assms by (auto simp: apply_defs)
  next
    case (RJobsPurged x) then show ?thesis using purge_check_cases(2) [of "jp_ids x" st] assms by (auto simp: apply_defs)
  qed (use assms in \<open>auto simp: apply_defs find_job_def mismatch_def not_less split: option.splits\<close>)
qed

lemma enabled_outer: "enabled r (outer st) = enabled r st"
  by (cases r) (auto simp: outer_fields cores_def leased_in_def)

text \<open>The durable part of every core function.\<close>

lemma durable_upsert_idem:
  assumes "idem_inv st"
  shows "durable (upsert_idem k i t st) = (durable st)\<lparr>d_idem := filter (\<lambda>(k', _). k' \<noteq> k) (d_idem (durable st)) @ [(k, i, t)]\<rparr>"
proof -
  let ?row = "\<lambda>e. (ie_key e, ie_job_id e, ie_expires_at e)"
  have d: "distinct (map ie_key (st_idem_order st))" using assms by (simp add: idem_inv_def)
  have rm: "filter (\<lambda>e. ie_key e \<noteq> k) es = remove1 e es" if "distinct (map ie_key es)" "e \<in> set es" "ie_key e = k" for es e
    using that by (induction es) (auto simp: filter_id_conv image_iff)
  have none: "filter (\<lambda>e. ie_key e \<noteq> k) es = es" if "k \<notin> ie_key ` set es" for es
    using that by (auto simp: filter_id_conv)
  have filt: "filter (\<lambda>(k', _). k' \<noteq> k) (map ?row es) = map ?row (filter (\<lambda>e. ie_key e \<noteq> k) es)" for es
    by (induction es) auto
  show ?thesis
  proof (cases "st_idem_index st k")
    case None
    then have "k \<notin> ie_key ` set (st_idem_order st)" using assms by (simp add: idem_inv_def idem_map_None)
    then show ?thesis using None by (simp add: upsert_idem_def Let_def durable_def filt none)
  next
    case (Some e)
    then show ?thesis using idem_index_entry [OF assms Some] rm [OF d, of e]
      by (simp add: upsert_idem_def Let_def durable_def filt)
  qed
qed

lemma durable_get_or_create_queue:
  "durable (get_or_create_queue n st) =
     (case d_totals (durable st) n of None \<Rightarrow> (durable st)\<lparr>d_totals := (d_totals (durable st))(n \<mapsto> zero_totals)\<rparr> | Some _ \<Rightarrow> durable st)"
  by (auto simp: durable_def get_or_create_queue_def find_queue_def mk_queue_def split: option.split)

lemma durable_add_job: "durable (add_job job st) = put_job (j_id job) (persist job) (durable st)"
proof -
  have "durable (add_job job st) = durable (st\<lparr>st_jobs := (st_jobs st)(j_id job \<mapsto> job)\<rparr>)"
    by (simp add: add_job_def totals_write_queue [where g = "\<lambda>t. t"])
  then show ?thesis by (auto simp: durable_def put_job_def)
qed

lemma durable_erase_core: "durable (erase_core i st) = (durable st)\<lparr>d_jobs := (d_jobs (durable st))(i := None)\<rparr>"
proof -
  have "durable (erase_core i st) = durable (st\<lparr>st_jobs := (st_jobs st)(i := None)\<rparr>)"
    by (auto simp: erase_core_def Let_def durable_def fun_eq_iff option.map_comp o_def)
  then show ?thesis by (auto simp: durable_def)
qed

lemma durable_purge_core:
  "durable (purge_core ids st) = (durable st)\<lparr>d_jobs := (\<lambda>i. if i \<in> set ids then None else d_jobs (durable st) i)\<rparr>"
proof (induction ids arbitrary: st)
  case (Cons a ids)
  have d: "durable (if st_jobs st a \<noteq> None then erase_core a st else st) = (durable st)\<lparr>d_jobs := (d_jobs (durable st))(a := None)\<rparr>"
    by (auto simp: durable_erase_core) (simp add: durable_def fun_upd_idem)
  have "durable (purge_core (a # ids) st) = (durable st)\<lparr>d_jobs :=
      (\<lambda>i. if i \<in> set ids then None else ((d_jobs (durable st))(a := None)) i)\<rparr>"
    unfolding purge_core.simps Cons.IH d by (auto simp: fun_eq_iff intro!: arg_cong [where f = "\<lambda>f. (durable st)\<lparr>d_jobs := f\<rparr>"])
  also have "(\<lambda>i. if i \<in> set ids then None else ((d_jobs (durable st))(a := None)) i) =
      (\<lambda>i. if i \<in> set (a # ids) then None else d_jobs (durable st) i)" by auto
  finally show ?case .
qed simp

lemma durable_note_failure:
  assumes "st_jobs st (af_id r) = Some j"
  shows "durable (note_failure r st) = add_total (j_queue j) (\<lambda>t. t\<lparr>qt_failed_attempts := qt_failed_attempts t + 1\<rparr>)
      (put_job (af_id r) (persist (set_error r (st_abi st) j)) (durable st))"
  using assms by (simp add: note_failure_def Let_def durable_write_job set_error_def
      durable_write_totals [where j = "set_error r (st_abi st) j"])

lemma leased_to_durable:
  "leased_to i t (durable st) = (case st_jobs st i of None \<Rightarrow> None
     | Some j \<Rightarrow> if j_state j = kLeased \<and> j_lease_token j = t then Some (persist j) else None)"
  by (auto simp: leased_to_def durable_def split: option.split)

lemma d_jobs_durable:
  "d_jobs (durable st) i = map_option persist (st_jobs st i)" "d_next_job_id (durable st) = st_next_job_id st"
  "d_next_token (durable st) = st_next_token st"
  by (simp_all add: durable_def)

lemma spec_enqueue_refined:
  assumes idem: "idem_inv st" and e: "enabled (RJobEnqueued r) st"
  shows "spec_enqueue r (durable st) = Some (durable (enqueue_core r st))"
proof -
  let ?i = "je_id r" and ?n = "je_queue r" and ?f = "\<lambda>t. t\<lparr>qt_enqueued := qt_enqueued t + 1\<rparr>"
  define s where "s = (if st_replaying st \<or> je_run_at r > st_wall_now st then kScheduled else kReady)"
  define job where "job = core (enqueue_job (st_abi st) r)"
  define st1 where "st1 = add_job job (get_or_create_queue ?n st)"
  define st2 where "st2 = set_state ?i s st1"
  have job: "j_id job = ?i" "persist (job\<lparr>j_state := s\<rparr>) = spec_job r"
    by (simp_all add: job_def core_def enqueue_job_def fresh_job_def persist_def spec_job_def s_def)
  have idem1: "st_idem_order st2 = st_idem_order st" "idem_inv st2"
    using idem by (simp_all add: st2_def st1_def add_job_def idem_inv_def get_or_create_queue_def split: option.split)
  have j1: "st_jobs st1 ?i = Some job" using job(1) by (simp add: st1_def)
  have d2: "durable st2 = put_job ?i (spec_job r) (durable (get_or_create_queue ?n st))"
    using job by (simp add: st2_def durable_set_state [OF j1]) (simp add: st1_def durable_add_job)
  define d3 where "d3 = (if je_idem_key r = [] then durable st2
    else (durable st2)\<lparr>d_idem := filter (\<lambda>(k, _). k \<noteq> je_idem_key r) (d_idem (durable st2)) @ [(je_idem_key r, ?i, je_idem_expires_at r)]\<rparr>)"
  have "durable (enqueue_core r st) = (add_total ?n ?f d3)\<lparr>d_next_job_id := ?i + 1\<rparr>"
    by (simp add: enqueue_core_def Let_def s_def [symmetric] job_def [symmetric] st1_def [symmetric] st2_def [symmetric]
        totals_write_queue [where g = ?f] durable_upsert_idem [OF idem1(2)] d3_def)
  moreover have "d_next_job_id (durable st) = st_next_job_id st" "d_totals (durable st) = map_option q_totals \<circ> map_of (st_queues st)"
    by (simp_all add: durable_def)
  ultimately show ?thesis
    using e by (auto simp: spec_enqueue_def Let_def d3_def d2 durable_get_or_create_queue add_total_def put_job_def split: option.split)
qed

lemma spec_fail_refined:
  assumes e: "enabled (RAttemptFailed r) st"
  shows "spec_fail r (durable st) = Some (durable (fail_core r st))"
proof -
  obtain j where j: "st_jobs st (af_id r) = Some j" "j_state j = kLeased" "j_lease_token j = af_token r"
    using e by (auto simp: leased_in_def)
  have j4: "st_jobs (note_failure r st) (af_id r) = Some (set_error r (st_abi st) j)"
    using j by (simp add: note_failure_def Let_def)
  have put: "put_job i x (add_total n f d) = add_total n f (put_job i x d)" for i x n f d
    by (simp add: put_job_def add_total_def)
  show ?thesis
  proof (cases "af_dead r")
    case True
    have "st_jobs (finish_core (af_id r) kDead (af_at r) (note_failure r st)) (af_id r) =
        Some (finish_job kDead (af_at r) ((set_error r (st_abi st) j)\<lparr>j_state := kDead\<rparr>))"
      using j4 by (simp add: finish_core_def Let_def)
    moreover have "persist (finish_job kDead (af_at r) ((set_error r (st_abi st) j)\<lparr>j_state := kDead\<rparr>)) =
        (persist j)\<lparr>j_state := kDead, j_last_error := af_error r, j_finished_at := af_at r, j_lease_token := 0\<rparr>"
      by (simp add: persist_def finish_job_def set_error_def)
    moreover have "j_queue (finish_job kDead (af_at r) ((set_error r (st_abi st) j)\<lparr>j_state := kDead\<rparr>)) = j_queue j"
      by (simp add: finish_job_def set_error_def)
    ultimately show ?thesis
      using True j by (simp add: spec_fail_def fail_core_def leased_to_durable Let_def durable_finish_core [OF j4]
          durable_note_failure [OF j(1)] put durable_write_totals)
  next
    case False
    let ?j = "(set_error r (st_abi st) j)\<lparr>j_lease_token := 0, j_run_at := af_retry_at r\<rparr>"
    have "persist (?j\<lparr>j_state := s\<rparr>) =
        (persist j)\<lparr>j_state := kScheduled, j_last_error := af_error r, j_run_at := af_retry_at r, j_lease_token := 0\<rparr>"
      if "is_pending s" for s using that by (simp add: persist_def set_error_def)
    then show ?thesis
      using False j j4 by (simp add: spec_fail_def fail_core_def leased_to_durable Let_def
          durable_set_state [where j = ?j] durable_write_job [OF j4] durable_note_failure [OF j(1)] put)
  qed
qed

lemma spec_finish_refined:
  assumes "st_jobs st i = Some j" and "finish_job t at (j\<lparr>j_state := t\<rparr>) = j'" and "persist j' = p" and "j_queue j' = j_queue j"
  shows "durable (write_totals i f (finish_core i t at st)) = add_total (j_queue j) f (put_job i p (durable st))"
proof -
  have "st_jobs (finish_core i t at st) i = Some j'" using assms by (cases "t = kDead") (simp_all add: finish_core_def Let_def)
  then show ?thesis using assms by (simp add: durable_write_totals durable_finish_core)
qed

lemma spec_refined:
  assumes idem: "idem_inv st" and e: "enabled r st"
  shows "spec_step r (durable st) = Some (durable (apply_core r st))"
proof (cases r)
  case (RJobEnqueued x) then show ?thesis using spec_enqueue_refined [OF idem] e by simp
next
  case (RJobLeased x)
  then obtain j where j: "st_jobs st (jl_id x) = Some j" "is_pending (j_state j)" "jl_token x = st_next_token st"
      "j_attempts j < j_max_attempts j" using e by auto
  have "persist (lease_job x (j\<lparr>j_state := kLeased\<rparr>)) = (persist j)\<lparr>j_state := kLeased, j_attempts := j_attempts j + 1,
      j_lease_token := jl_token x, j_lease_expires_at := jl_lease_expires_at x\<rparr>"
    by (simp add: lease_job_def persist_def)
  then show ?thesis using RJobLeased j
    by (simp add: spec_lease_def d_jobs_durable lease_core_def durable_write_job [where j = "j\<lparr>j_state := kLeased\<rparr>"]
        durable_set_state)
next
  case (RLeaseExtended x)
  have "persist (j\<lparr>j_lease_expires_at := t\<rparr>) = (persist j)\<lparr>j_lease_expires_at := t\<rparr>" for j t by (simp add: persist_def)
  then show ?thesis using e RLeaseExtended
    by (auto simp: spec_extend_def leased_to_durable leased_in_def durable_write_job)
next
  case (RJobSucceeded x)
  then obtain j where j: "st_jobs st (js_id x) = Some j" "j_state j = kLeased" "j_lease_token j = js_token x"
    using e by (auto simp: leased_in_def)
  have "durable (succeed_core x st) = add_total (j_queue j) (\<lambda>t. t\<lparr>qt_succeeded := qt_succeeded t + 1\<rparr>)
      (put_job (js_id x) ((persist j)\<lparr>j_state := kSucceeded, j_finished_at := js_at x\<rparr>) (durable st))"
    unfolding succeed_core_def
    by (rule spec_finish_refined [OF j(1) refl]) (use j in \<open>simp_all add: finish_job_def persist_def\<close>)
  then show ?thesis using RJobSucceeded j by (simp add: spec_succeed_def leased_to_durable)
next
  case (RAttemptFailed x) then show ?thesis using spec_fail_refined e by simp
next
  case (RJobCancelled x)
  then obtain j where j: "st_jobs st (jc_id x) = Some j" "\<not> is_terminal (j_state j)" using e by auto
  have "durable (cancel_core x st) = add_total (j_queue j) (\<lambda>t. t\<lparr>qt_cancelled := qt_cancelled t + 1\<rparr>)
      (put_job (jc_id x) ((persist j)\<lparr>j_state := kCancelled, j_finished_at := jc_at x, j_lease_token := 0\<rparr>) (durable st))"
    unfolding cancel_core_def
    by (rule spec_finish_refined [OF j(1) refl]) (simp_all add: finish_job_def persist_def)
  then show ?thesis using RJobCancelled j by (simp add: spec_cancel_def d_jobs_durable)
next
  case (RDeadJobRetried x)
  then obtain j where j: "st_jobs st (dr_id x) = Some j" "j_state j = kDead" using e by auto
  let ?j = "j\<lparr>j_attempts := 0, j_finished_at := 0, j_run_at := dr_run_at x\<rparr>"
  have "persist (?j\<lparr>j_state := s\<rparr>) = (persist j)\<lparr>j_state := kScheduled, j_attempts := 0, j_finished_at := 0, j_run_at := dr_run_at x\<rparr>"
    if "is_pending s" for s using that by (simp add: persist_def)
  then show ?thesis using RDeadJobRetried j
    by (simp add: spec_retry_def d_jobs_durable retry_core_def durable_write_job durable_set_state [where j = ?j])
next
  case (RJobsPurged x)
  then show ?thesis using e by (auto simp: spec_purge_def durable_purge_core list_all_iff d_jobs_durable split: option.splits)
qed

lemma spec_disabled: "\<not> enabled r st \<Longrightarrow> spec_step r (durable st) = None"
  by (cases r)
    (auto simp: spec_enqueue_def spec_lease_def spec_extend_def spec_succeed_def spec_fail_def spec_cancel_def spec_retry_def
      spec_purge_def leased_to_durable leased_in_def d_jobs_durable list_all_iff split: option.splits)

lemma apply_refines:
  assumes g: "good st {} X {}" and room: "room_for r st"
  shows "case spec_step r (durable st) of
      None \<Rightarrow> \<exists>e. apply_rec r st = Some (Inl e, st)
    | Some d \<Rightarrow> \<exists>st'. apply_rec r st = Some (Inr (), st') \<and> good st' {} (X - targets r) {} \<and> durable st' = d"
proof (cases "enabled r st")
  case True
  have "idem_inv (outer st)" using g base_outer [of st "{}"] by (simp add: good_def base_def)
  from spec_refined [OF this, of r]
  have s: "spec_step r (durable st) = Some (durable (apply_core r (outer st)))"
    using True by (simp add: durable_outer enabled_outer)
  from apply_rec_ok [OF g room] apply_enabled [OF True]
  obtain st' where st': "apply_rec r st = Some (Inr (), st')" "good st' {} (X - targets r) {}" "outer st' = apply_core r (outer st)"
    by (auto simp: applied_ok_def)
  then have "durable st' = durable (apply_core r (outer st))" by (metis durable_outer)
  then show ?thesis using s st' by auto
next
  case False
  then show ?thesis using spec_disabled apply_disabled by auto
qed

section \<open>The references to finished jobs\<close>

text \<open>
  A job that has succeeded or was cancelled never runs again and its id is never reused. The list of
  finished jobs that the garbage collector walks refers to such ids only; a dead job is never in it.
\<close>

definition done_in :: "JobId \<Rightarrow> Durable \<Rightarrow> bool" where
  "done_in i d \<longleftrightarrow> i < d_next_job_id d \<and>
     (\<forall>j. d_jobs d i = Some j \<longrightarrow> j_state j = kSucceeded \<or> j_state j = kCancelled)"

definition gc_ok :: "State \<Rightarrow> bool" where
  "gc_ok st \<longleftrightarrow> (\<forall>ref\<in>set (st_finished_gc st). done_in (fr_id ref) (durable st))"

lemma done_put:
  "done_in i d \<Longrightarrow> k \<noteq> i \<or> j_state j = kSucceeded \<or> j_state j = kCancelled \<Longrightarrow> done_in i (put_job k j d)"
  by (auto simp: done_in_def put_job_def)

lemma done_total [simp]: "done_in i (add_total n f d) = done_in i d"
  by (simp add: done_in_def add_total_def)

lemma done_not: "done_in i d \<Longrightarrow> d_jobs d k = Some j \<Longrightarrow> j_state j \<noteq> kSucceeded \<Longrightarrow> j_state j \<noteq> kCancelled \<Longrightarrow> k \<noteq> i"
  by (auto simp: done_in_def)

lemma done_enqueue:
  assumes "spec_enqueue r d = Some d'" and "d_next_job_id d \<noteq> - 1" and "done_in i d"
  shows "done_in i d'"
proof -
  have d': "d_jobs d' = (d_jobs d)(d_next_job_id d \<mapsto> spec_job r)" "d_next_job_id d' = d_next_job_id d + 1"
    using assms(1) by (auto simp: spec_enqueue_def Let_def put_job_def add_total_def split: if_splits option.splits)
  have "d_next_job_id d < d_next_job_id d + 1" using assms(2) by (rule word_succ_less)
  then have "i < d_next_job_id d'" "i \<noteq> d_next_job_id d"
    using assms(3) d'(2) by (auto simp: done_in_def intro: less_trans)
  then show ?thesis using assms(3) d'(1) by (simp add: done_in_def)
qed

lemma done_leased: "leased_to k t d = Some j \<Longrightarrow> done_in i d \<Longrightarrow> k \<noteq> i"
  by (auto simp: leased_to_def done_in_def split: option.splits if_splits)

lemma done_step:
  assumes step: "spec_step r d = Some d'" and i: "done_in i d" and room: "\<And>x. r = RJobEnqueued x \<Longrightarrow> d_next_job_id d \<noteq> - 1"
  shows "done_in i d'"
proof (cases r)
  case (RJobEnqueued x)
  then show ?thesis using done_enqueue [OF _ room i, of x] step by simp
next
  case (RJobLeased x)
  then have "done_in i (d'\<lparr>d_next_token := d_next_token d\<rparr>)"
    using step i by (auto simp: spec_lease_def put_job_def done_in_def split: option.splits if_splits)
  then show ?thesis by (simp add: done_in_def)
next
  case (RJobCancelled x)
  then show ?thesis using step i by (auto simp: spec_cancel_def intro!: done_put split: option.splits if_splits)
next
  case (RDeadJobRetried x)
  then show ?thesis using step i done_not [OF i, of "dr_id x"]
    by (auto simp: spec_retry_def intro!: done_put split: option.splits if_splits)
next
  case (RJobsPurged x)
  then show ?thesis using step i by (auto simp: spec_purge_def done_in_def split: if_splits)
qed (use step i in \<open>auto simp: spec_extend_def spec_succeed_def spec_fail_def Let_def intro!: done_put dest: done_leased\<close>)

lemma finished_apply_core:
  "ref \<in> set (st_finished_gc (apply_core r st)) \<Longrightarrow> ref \<in> set (st_finished_gc st) \<or>
     (\<exists>x. r = RJobSucceeded x \<and> fr_id ref = js_id x) \<or> (\<exists>x. r = RJobCancelled x \<and> fr_id ref = jc_id x)"
proof (cases r)
  case (RJobsPurged x)
  have "st_finished_gc (purge_core ids st) = st_finished_gc st" for ids
    by (induction ids arbitrary: st) (simp_all add: erase_core_def Let_def)
  then show "ref \<in> set (st_finished_gc (apply_core r st)) \<Longrightarrow> ?thesis" using RJobsPurged by simp
qed (auto simp: enqueue_core_def get_or_create_queue_def add_job_def upsert_idem_def lease_core_def succeed_core_def cancel_core_def
    fail_core_def note_failure_def finish_core_def retry_core_def Let_def write_totals_def split: if_splits option.splits)

lemma done_finished:
  assumes "spec_step r d = Some d'" and "\<And>i j. d_jobs d i = Some j \<Longrightarrow> i < d_next_job_id d"
    and "(\<exists>x. r = RJobSucceeded x \<and> i = js_id x) \<or> (\<exists>x. r = RJobCancelled x \<and> i = jc_id x)"
  shows "done_in i d'"
  using assms
  by (auto simp: done_in_def spec_succeed_def spec_cancel_def leased_to_def put_job_def add_total_def split: option.splits if_splits)

lemma gc_ok_apply:
  assumes g: "good st {} X {}" and room: "room_for r st" and gc: "gc_ok st" and ap: "apply_rec r st = Some (res, st')"
  shows "gc_ok st'"
proof (cases "spec_step r (durable st)")
  case None
  then show ?thesis using apply_refines [OF g room] ap gc by auto
next
  case (Some d)
  then have d: "durable st' = d" "res = Inr ()" using apply_refines [OF g room] ap by auto
  have o: "outer st' = apply_core r (outer st)" using apply_rec_ok [OF g room] ap d(2) by (auto simp: applied_ok_def)
  have ids: "i < d_next_job_id (durable st)" if "d_jobs (durable st) i = Some j" for i j
    using good_dur [OF g] that by (auto simp: durable_def dur_job_def)
  have fresh: "d_next_job_id (durable st) \<noteq> - 1" if "r = RJobEnqueued x" for x
    using room that by (simp add: room_for_def durable_def)
  have "done_in (fr_id ref) d" if ref: "ref \<in> set (st_finished_gc st')" for ref
  proof -
    have "ref \<in> set (st_finished_gc (apply_core r (outer st)))" using ref o by (metis outer_fields(12))
    from finished_apply_core [OF this] show ?thesis
    proof
      assume "ref \<in> set (st_finished_gc (outer st))"
      then have "done_in (fr_id ref) (durable st)" using gc by (simp add: gc_ok_def outer_fields)
      then show ?thesis by (rule done_step [OF Some _ fresh])
    qed (rule done_finished [OF Some ids])
  qed
  then show ?thesis using d(1) by (simp add: gc_ok_def)
qed

end
