(* ===== verification/StateRebuild.thy ===== *)
theory StateRebuild
  imports StateSpec
begin

text \<open>
  Garbage collection, and rebuilding everything derived after a replay: from a state of which
  only the durable part can be trusted, \<open>rebuild_derived\<close> reaches the invariant.
\<close>

section \<open>Garbage collection\<close>

lemma good_erased:
  assumes g: "good st {} {} {}" and j: "st_jobs st i = Some j"
  shows "\<exists>st'. erase_job i st = Some st' \<and> good st' {} {} {} \<and> outer st' = erase_core i (outer st)"
  using erase_job_ok [OF g j] by simp

lemma erase_core_frame:
  assumes "outer st' = erase_core i (outer st)"
  shows "st_jobs st' i = None" and "k \<noteq> i \<Longrightarrow> map_option core (st_jobs st' k) = map_option core (st_jobs st k)"
    and "same_setting st' st" and "same_counters (durable st') (durable st)"
    and "st_finished_gc st' = st_finished_gc st" "st_dead_gc st' = st_dead_gc st" "st_idem_order st' = st_idem_order st"
proof -
  have "cores (st_jobs st') = (cores (st_jobs st))(i := None)"
    using arg_cong [OF assms, of st_jobs] by (simp add: outer_fields)
  then show "st_jobs st' i = None" "k \<noteq> i \<Longrightarrow> map_option core (st_jobs st' k) = map_option core (st_jobs st k)"
    by (auto simp: cores_def fun_eq_iff dest: spec [of _ i] spec [of _ k])
  have "durable st' = (durable st)\<lparr>d_jobs := (d_jobs (durable st))(i := None)\<rparr>"
    using arg_cong [OF assms, of durable] by (simp add: durable_outer durable_erase_core)
  then show "same_counters (durable st') (durable st)" by (simp add: same_counters_def)
  have "same_setting (erase_core i (outer st)) (outer st)" by (simp add: same_setting_def erase_core_def Let_def)
  then show "same_setting st' st" using outer_setting [of st] outer_setting [of st'] assms by (simp add: same_setting_def)
  show "st_finished_gc st' = st_finished_gc st" "st_dead_gc st' = st_dead_gc st" "st_idem_order st' = st_idem_order st"
    using arg_cong [OF assms, of st_finished_gc] arg_cong [OF assms, of st_dead_gc] arg_cong [OF assms, of st_idem_order]
    by (simp_all add: outer_fields erase_core_def Let_def)
qed

text \<open>A job is kept as it is, or it satisfies \<open>P\<close> and is gone.\<close>

definition drops :: "(Job \<Rightarrow> bool) \<Rightarrow> Jobs \<Rightarrow> Jobs \<Rightarrow> bool" where
  "drops P js js' \<longleftrightarrow> (\<forall>i. map_option core (js' i) = map_option core (js i) \<or>
     js' i = None \<and> (\<exists>j. js i = Some j \<and> P j))"

lemma drops_trans:
  assumes "drops P js js1" and "drops Q js1 js2" and Q: "\<And>j. Q (core j) = Q j"
  shows "drops (\<lambda>j. P j \<or> Q j) js js2"
  unfolding drops_def
proof (rule allI)
  fix i
  consider "map_option core (js1 i) = map_option core (js i)" "map_option core (js2 i) = map_option core (js1 i)"
    | j1 where "map_option core (js1 i) = map_option core (js i)" "js2 i = None" "js1 i = Some j1" "Q j1"
    | j where "js1 i = None" "js i = Some j" "P j" "js2 i = None"
    using assms(1,2) unfolding drops_def by (metis option.distinct(1) option.map_disc_iff)
  then show "map_option core (js2 i) = map_option core (js i) \<or> js2 i = None \<and> (\<exists>j. js i = Some j \<and> (P j \<or> Q j))"
  proof cases
    case 2
    then obtain j where "js i = Some j" "core j = core j1" by (cases "js i") auto
    then show ?thesis using 2 Q by metis
  qed auto
qed

lemma drops_mono: "drops P js js' \<Longrightarrow> (\<And>j. P j \<Longrightarrow> Q j) \<Longrightarrow> drops Q js js'"
  unfolding drops_def by blast

lemma drops_durable:
  assumes "drops P (st_jobs st) (st_jobs st')"
  shows "d_jobs (durable st') i = d_jobs (durable st) i \<or>
    d_jobs (durable st') i = None \<and> (\<exists>j. st_jobs st i = Some j \<and> P j)"
proof -
  from assms consider "map_option core (st_jobs st' i) = map_option core (st_jobs st i)"
    | j where "st_jobs st' i = None" "st_jobs st i = Some j" "P j" unfolding drops_def by metis
  then show ?thesis
  proof cases
    case 1
    then have "map_option persist (st_jobs st' i) = map_option persist (st_jobs st i)"
      by (cases "st_jobs st' i"; cases "st_jobs st i") (auto, metis persist_core)
    then show ?thesis by (simp add: durable_def)
  next
    case 2
    then show ?thesis by (auto simp: durable_def)
  qed
qed

text \<open>
  What a collection pass may do: it drops jobs in one of the states \<open>kinds\<close> whose retention is
  over. Its references lead to no job in any other terminal state.
\<close>

definition over :: "DurationMs \<Rightarrow> JobState set \<Rightarrow> WallTime \<Rightarrow> Job \<Rightarrow> bool" where
  "over retention kinds now j \<longleftrightarrow> j_state j \<in> kinds \<and> j_finished_at j + retention \<le> now"

lemma over_core [simp]: "over retention kinds now (core j) = over retention kinds now j"
  by (simp add: over_def)

definition refs_in :: "JobState set \<Rightarrow> bool \<Rightarrow> FinishedRef list \<Rightarrow> Jobs \<Rightarrow> bool" where
  "refs_in kinds dead refs js \<longleftrightarrow> (\<forall>ref\<in>set refs. \<forall>j. js (fr_id ref) = Some j \<longrightarrow>
     (if dead then j_state j = kDead else is_terminal (j_state j)) \<longrightarrow> j_state j \<in> kinds)"

lemma refs_in_terminal: "refs_in (Collect is_terminal) False refs js"
  by (simp add: refs_in_def)

lemma refs_in_dead: "refs_in {kDead} True refs js"
  by (simp add: refs_in_def)

lemma refs_in_finished: "gc_ok st \<Longrightarrow> refs_in {kSucceeded, kCancelled} False (st_finished_gc st) (st_jobs st)"
  unfolding refs_in_def gc_ok_def done_in_def
proof (intro ballI allI impI)
  fix ref j
  assume gc: "\<forall>ref\<in>set (st_finished_gc st). fr_id ref < d_next_job_id (durable st) \<and>
      (\<forall>j. d_jobs (durable st) (fr_id ref) = Some j \<longrightarrow> j_state j = kSucceeded \<or> j_state j = kCancelled)"
    and ref: "ref \<in> set (st_finished_gc st)" and j: "st_jobs st (fr_id ref) = Some j"
  have "d_jobs (durable st) (fr_id ref) = Some (persist j)" using j by (simp add: durable_def)
  then have "j_state (persist j) = kSucceeded \<or> j_state (persist j) = kCancelled" using gc ref by blast
  then show "j_state j \<in> {kSucceeded, kCancelled}" by (auto simp: persist_def split: if_splits)
qed

lemma refs_in_core:
  assumes "refs_in kinds dead refs js" and "\<And>k. js' k = None \<or> map_option core (js' k) = map_option core (js k)"
  shows "refs_in kinds dead refs js'"
  unfolding refs_in_def
proof (intro ballI allI impI)
  fix ref j assume ref: "ref \<in> set refs" and j: "js' (fr_id ref) = Some j"
    and t: "if dead then j_state j = kDead else is_terminal (j_state j)"
  obtain j0 where "js (fr_id ref) = Some j0" "core j = core j0" using assms(2) [of "fr_id ref"] j by (cases "js (fr_id ref)") auto
  moreover from this(2) have "j_state j0 = j_state j" by (rule core_eq_fields(9) [symmetric])
  ultimately show "j_state j \<in> kinds" using assms(1) ref t by (auto simp: refs_in_def)
qed

definition collected :: "DurationMs \<Rightarrow> JobState set \<Rightarrow> State \<Rightarrow> State \<Rightarrow> bool" where
  "collected retention kinds st st' \<longleftrightarrow> same_setting st' st \<and> st_idem_order st' = st_idem_order st \<and>
     same_counters (durable st') (durable st) \<and>
     drops (over retention kinds (st_wall_now st)) (st_jobs st) (st_jobs st')"

lemma collected_refl: "collected retention kinds st st"
  by (simp add: collected_def drops_def)

lemma collected_step:
  assumes st1: "outer st1 = erase_core (fr_id ref) (outer st)" and keep: "\<not> gc_keep ref dead st"
    and old: "fr_finished_at ref + retention \<le> st_wall_now st" and kinds: "refs_in kinds dead (ref # refs) (st_jobs st)"
    and c: "collected retention kinds st1 st'"
  shows "collected retention kinds st st'"
proof -
  note f = erase_core_frame [OF st1]
  obtain j where j: "st_jobs st (fr_id ref) = Some j" "over retention kinds (st_wall_now st) j"
    using keep old kinds by (auto simp: gc_keep_def find_job_def over_def refs_in_def split: option.splits if_splits)
  have "drops (over retention kinds (st_wall_now st)) (st_jobs st) (st_jobs st1)"
    using f(1,2) j unfolding drops_def by metis
  then show ?thesis
    using c f(3,4,7) drops_trans [of "over retention kinds (st_wall_now st)" "st_jobs st" "st_jobs st1"
        "over retention kinds (st_wall_now st)" "st_jobs st'"]
    by (simp add: collected_def same_setting_def same_counters_def)
qed

lemma gc_collect_ok:
  "good st {} {} {} \<Longrightarrow> refs_in kinds dead refs (st_jobs st) \<Longrightarrow>
     \<exists>refs' st'. gc_collect refs retention dead st = Some (refs', st') \<and> good st' {} {} {} \<and> set refs' \<subseteq> set refs \<and>
     collected retention kinds st st' \<and> st_finished_gc st' = st_finished_gc st \<and> st_dead_gc st' = st_dead_gc st"
proof (induction refs retention dead st rule: gc_collect.induct)
  case (2 ref refs retention dead st)
  have tail: "refs_in kinds dead refs (st_jobs st)" using "2.prems"(2) by (simp add: refs_in_def)
  show ?case
  proof (cases "fr_finished_at ref + retention \<le> st_wall_now st \<and> \<not> gc_keep ref dead st")
    case True
    then obtain j where j: "st_jobs st (fr_id ref) = Some j" by (auto simp: gc_keep_def find_job_def split: option.splits)
    obtain st1 where st1: "erase_job (fr_id ref) st = Some st1" "good st1 {} {} {}" "outer st1 = erase_core (fr_id ref) (outer st)"
      using good_erased [OF "2.prems"(1) j] by blast
    have "refs_in kinds dead refs (st_jobs st1)"
      by (rule refs_in_core [OF tail]) (use erase_core_frame(1,2) [OF st1(3)] in metis)
    then obtain refs' st' where st': "gc_collect refs retention dead st1 = Some (refs', st')" "good st' {} {} {}" "set refs' \<subseteq> set refs"
        "collected retention kinds st1 st'" "st_finished_gc st' = st_finished_gc st1" "st_dead_gc st' = st_dead_gc st1"
      using "2.IH"(2) [of st1] True st1 by auto
    then show ?thesis
      using True st1 collected_step [OF st1(3) _ _ "2.prems"(2) st'(4)] erase_core_frame(5,6) [OF st1(3)] by auto
  next
    case False
    show ?thesis
    proof (cases "fr_finished_at ref + retention \<le> st_wall_now st")
      case True
      then have "gc_keep ref dead st" using False by blast
      then show ?thesis using True "2.IH"(1) [OF True _ "2.prems"(1) tail] by auto
    next
      case False
      then show ?thesis using "2.prems" collected_refl by simp
    qed
  qed
qed (simp add: collected_refl)

lemma good_idem_front:
  assumes "good st S X E" and "st_idem_order st \<noteq> []"
  shows "good (erase_idem_front st) S X E"
  using assms base_erase_idem_front [of st E] by (simp add: good_def idx_inv_def erase_idem_front_def Let_def)

lemma erase_idem_front_fields:
  "st_jobs (erase_idem_front st) = st_jobs st" "same_setting (erase_idem_front st) st"
  "st_idem_order (erase_idem_front st) = tl (st_idem_order st)"
  "same_counters (durable (erase_idem_front st)) (durable st)"
  by (simp_all add: erase_idem_front_def Let_def same_setting_def same_counters_def durable_def)

lemma gc_idem_ok:
  "good st {} {} {} \<Longrightarrow> length (st_idem_order st) \<le> n \<Longrightarrow> good (gc_idem n st) {} {} {} \<and> st_jobs (gc_idem n st) = st_jobs st \<and>
     same_setting (gc_idem n st) st \<and> same_counters (durable (gc_idem n st)) (durable st) \<and>
     st_idem_order (gc_idem n st) = dropWhile (\<lambda>e. ie_expires_at e \<le> st_wall_now st) (st_idem_order st)"
proof (induction n st rule: gc_idem.induct)
  case (2 n st)
  show ?case
  proof (cases "st_idem_order st \<noteq> [] \<and> ie_expires_at (hd (st_idem_order st)) \<le> st_wall_now st")
    case True
    note f = erase_idem_front_fields [of st]
    have step: "gc_idem (Suc n) st = gc_idem n (erase_idem_front st)" using True by simp
    have len: "length (st_idem_order (erase_idem_front st)) \<le> n" using "2.prems"(2) True f(3) by (cases "st_idem_order st") auto
    have IH: "good (gc_idem n (erase_idem_front st)) {} {} {}" "st_jobs (gc_idem n (erase_idem_front st)) = st_jobs st"
        "same_setting (gc_idem n (erase_idem_front st)) st" "same_counters (durable (gc_idem n (erase_idem_front st))) (durable st)"
        "st_idem_order (gc_idem n (erase_idem_front st)) = dropWhile (\<lambda>e. ie_expires_at e \<le> st_wall_now st) (tl (st_idem_order st))"
      using "2.IH" [OF True good_idem_front [OF "2.prems"(1)] len] f True by (simp_all add: same_setting_def same_counters_def)
    have "dropWhile (\<lambda>e. ie_expires_at e \<le> st_wall_now st) (st_idem_order st) =
        dropWhile (\<lambda>e. ie_expires_at e \<le> st_wall_now st) (tl (st_idem_order st))"
      using True by (cases "st_idem_order st") auto
    then show ?thesis unfolding step using IH by simp
  next
    case False
    then have "dropWhile (\<lambda>e. ie_expires_at e \<le> st_wall_now st) (st_idem_order st) = st_idem_order st"
      by (cases "st_idem_order st") auto
    moreover have "gc_idem (Suc n) st = st" using False unfolding gc_idem.simps by (rule if_not_P)
    ultimately show ?thesis using "2.prems" by (simp add: same_setting_def same_counters_def)
  qed
qed (simp add: same_setting_def same_counters_def)

lemma gc_idem_finished: "st_finished_gc (gc_idem n st) = st_finished_gc st"
  by (induction n st rule: gc_idem.induct) (auto simp: erase_idem_front_def Let_def)

lemma collect_garbage_ok:
  assumes inv: "state_inv st" and live: "\<not> st_replaying st"
    and kinds: "refs_in kinds False (st_finished_gc st) (st_jobs st)"
  shows "\<exists>st'. collect_garbage st = Some st' \<and> state_inv st' \<and> same_setting st' st \<and>
    same_counters (durable st') (durable st) \<and> set (st_finished_gc st') \<subseteq> set (st_finished_gc st) \<and>
    st_idem_order st' = dropWhile (\<lambda>e. ie_expires_at e \<le> st_wall_now st) (st_idem_order st) \<and>
    drops (\<lambda>j. over (so_retain_finished_ms (st_options st)) kinds (st_wall_now st) j \<or>
        over (so_retain_dead_ms (st_options st)) {kDead} (st_wall_now st) j) (st_jobs st) (st_jobs st')"
proof -
  have g: "good st {} {} {}" using inv by (simp add: state_inv_def)
  obtain refs1 st1 where st1: "gc_collect (st_finished_gc st) (so_retain_finished_ms (st_options st)) False st = Some (refs1, st1)"
      "good st1 {} {} {}" "collected (so_retain_finished_ms (st_options st)) kinds st st1" "set refs1 \<subseteq> set (st_finished_gc st)"
    using gc_collect_ok [OF g kinds] by blast
  define st2 where "st2 = st1\<lparr>st_finished_gc := refs1\<rparr>"
  have g2: "good st2 {} {} {}" and s2: "same_setting st2 st" "durable st2 = durable st1" "st_idem_order st2 = st_idem_order st"
      "st_jobs st2 = st_jobs st1"
    using st1 by (simp_all add: st2_def collected_def same_setting_def)
  obtain refs2 st3 where st3: "gc_collect (st_dead_gc st2) (so_retain_dead_ms (st_options st2)) True st2 = Some (refs2, st3)"
      "good st3 {} {} {}" "collected (so_retain_dead_ms (st_options st2)) {kDead} st2 st3" "st_finished_gc st3 = refs1"
    using gc_collect_ok [OF g2 refs_in_dead, of "st_dead_gc st2" "so_retain_dead_ms (st_options st2)"] by (auto simp: st2_def)
  define st4 where "st4 = st3\<lparr>st_dead_gc := refs2\<rparr>"
  have g4: "good st4 {} {} {}" and s4: "same_setting st4 st2" "durable st4 = durable st3" "st_idem_order st4 = st_idem_order st"
      "st_jobs st4 = st_jobs st3"
    using st3 s2 by (simp_all add: st4_def collected_def same_setting_def)
  define st5 where "st5 = gc_idem (length (st_idem_order st4)) st4"
  note i = gc_idem_ok [OF g4 order_refl, folded st5_def]
  have set: "same_setting st5 st" using i s4(1) s2(1) same_setting_trans by blast
  have dur: "same_counters (durable st5) (durable st)"
    using st1(3) st3(3) s2(2) s4(2) i by (simp add: collected_def same_counters_def)
  have "drops (\<lambda>j. over (so_retain_finished_ms (st_options st)) kinds (st_wall_now st) j \<or>
      over (so_retain_dead_ms (st_options st)) {kDead} (st_wall_now st) j) (st_jobs st) (st_jobs st3)"
    by (rule drops_trans [where ?js1.0 = "st_jobs st1"])
      (use st1(3) st3(3) s2 in \<open>simp_all add: collected_def same_setting_def\<close>)
  moreover have "set (st_finished_gc st5) \<subseteq> set (st_finished_gc st)"
    using st1(4) st3(4) by (simp add: st5_def st4_def gc_idem_finished)
  moreover have "st_jobs st5 = st_jobs st3" using i s4(4) by simp
  moreover have "collect_garbage st = Some st5"
    using live st1(1) st3(1) by (simp add: collect_garbage_def st2_def st4_def st5_def)
  moreover have "st_idem_order st5 = dropWhile (\<lambda>e. ie_expires_at e \<le> st_wall_now st) (st_idem_order st)"
    using i s4(1,3) s2(1) by (simp add: same_setting_def)
  ultimately show ?thesis using i set dur by (auto simp: state_inv_def)
qed

lemma gc_ok_collected:
  assumes "gc_ok st" and "same_counters (durable st') (durable st)" and "set (st_finished_gc st') \<subseteq> set (st_finished_gc st)"
    and "drops P (st_jobs st) (st_jobs st')"
  shows "gc_ok st'"
proof -
  have "done_in i (durable st')" if "done_in i (durable st)" for i
    using that assms(2) drops_durable [OF assms(4), of i] by (auto simp: done_in_def same_counters_def)
  then show ?thesis using assms(1,3) by (auto simp: gc_ok_def)
qed

section \<open>Rebuilding the derived state\<close>

text \<open>
  What the rebuild may rely on: the durable fields are in order, and only ready jobs carry a
  heap position. That holds after a replay, after loading a snapshot, and in live operation.
\<close>

definition rebuildable :: "State \<Rightarrow> bool" where
  "rebuildable st \<longleftrightarrow> finite (dom (st_jobs st)) \<and> card (dom (st_jobs st)) \<le> kNil \<and> omap_wf (st_queues st) \<and>
     (\<forall>n q. map_of (st_queues st) n = Some q \<longrightarrow> q_name q = n) \<and>
     (\<forall>i j. st_jobs st i = Some j \<longrightarrow> j_id j = i \<and> j_queue j \<in> dom (map_of (st_queues st)) \<and>
        (j_state j = kReady \<or> j_heap_index j = kNotInHeap)) \<and> idem_inv st \<and> dur_inv st {}"

definition rebuild_inv :: "State \<Rightarrow> JobId set \<Rightarrow> JobId set \<Rightarrow> bool" where
  "rebuild_inv st S R \<longleftrightarrow> idx_inv st S R \<and> cnt_inv st R \<and> idem_inv st \<and> dur_inv st {} \<and>
     st_memory_bytes st = (\<Sum>i\<in>dom (st_jobs st) - R. job_bytes (st_abi st) (the (st_jobs st i)))"

lemma map_of_cleared:
  "map_of (map (\<lambda>(n, q). (n, f q)) qs) n = map_option f (map_of qs n)"
  by (induction qs) auto

lemma omap_wf_cleared: "omap_wf (map (\<lambda>(n, q). (n, f q)) qs) = omap_wf qs"
proof -
  have "map fst (map (\<lambda>(n, q). (n, f q)) qs) = map fst qs" by (induction qs) auto
  then show ?thesis unfolding omap_wf_def by (rule arg_cong)
qed

lemma clear_derived_ok:
  assumes r: "rebuildable st" and live: "\<not> st_replaying st" and tick: "tick_ok (word_of_int (st_mono_now st))"
  shows "rebuild_inv (clear_derived st) (dom (st_jobs st)) (dom (st_jobs st))" and "durable (clear_derived st) = durable st"
proof -
  let ?js = "st_jobs st" and ?w = "mk_wheel (word_of_int (st_mono_now st))"
  let ?qs = "map (\<lambda>(n, q). (n, q\<lparr>q_ready := [], q_dead := [], q_counts := (\<lambda>_. 0)\<rparr>)) (st_queues st)"
  have none: "jobs_in ?js (dom ?js) n s = {}" for n s by (auto simp: jobs_in_def)
  have "heap_ok ?js []" by (simp add: heap_ok_def is_consistent_def)
  then have "queue_ok ?js (dom ?js) n q" if "map_of ?qs n = Some q" for n q
    using r that none by (auto simp: queue_ok_def rebuildable_def map_of_cleared)
  moreover have "dom (map_of ?qs) = dom (map_of (st_queues st))" by (auto simp: map_of_cleared)
  then have "job_ok (dom ?js) (dom ?js) (dom (map_of ?qs)) i j" if "?js i = Some j" for i j
    using r that by (auto simp: job_ok_def rebuildable_def)
  moreover have "timers_ok ?js False (dom ?js) (dom ?js) ?w"
    using r mk_wheel_correct [OF tick] by (auto simp: timers_ok_def wants_timer_def rebuildable_def)
  moreover have "omap_wf ?qs" using r by (simp add: rebuildable_def omap_wf_cleared)
  ultimately have "idx ?js ?qs ?w False (dom ?js) (dom ?js)" using r by (simp add: idx_def rebuildable_def)
  moreover have "cnt_inv (clear_derived st) (dom ?js)"
    by (auto simp: cnt_inv_def clear_derived_def none map_of_cleared)
  ultimately show "rebuild_inv (clear_derived st) (dom ?js) (dom ?js)"
    using r live by (simp add: rebuild_inv_def idx_inv_def clear_derived_def rebuildable_def idem_inv_def dur_inv_def)
  show "durable (clear_derived st) = durable st"
    by (auto simp: durable_def clear_derived_def map_of_cleared fun_eq_iff option.map_comp o_def)
qed

lemma pending_persist: "is_pending (j_state j) \<Longrightarrow> is_pending s \<Longrightarrow> persist (j\<lparr>j_state := s\<rparr>) = persist j"
  by (simp add: persist_def)

text \<open>One job is counted.\<close>

definition count_job :: "JobId \<Rightarrow> State \<Rightarrow> State" where
  "count_job i st =
     (let job = job_of st i in
      write_queue (j_queue job) (\<lambda>q. q\<lparr>q_counts := (q_counts q)(j_state job := q_counts q (j_state job) + 1)\<rparr>)
        (st\<lparr>st_memory_bytes := st_memory_bytes st + job_bytes (st_abi st) job\<rparr>))"

lemma count_job_ok:
  assumes r: "rebuild_inv st S R" and j: "st_jobs st i = Some j" and i: "i \<in> R"
  shows "idx_inv (count_job i st) S R" and "cnt_inv (count_job i st) (R - {i})" and "durable (count_job i st) = durable st"
    and "st_memory_bytes (count_job i st) = (\<Sum>k\<in>dom (st_jobs st) - (R - {i}). job_bytes (st_abi st) (the (st_jobs st k)))"
proof -
  let ?js = "st_jobs st"
  have I: "idx_inv st S R" and cnt: "cnt_inv st R" using r by (simp_all add: rebuild_inv_def)
  have fin: "finite (dom ?js)" using I by (simp add: idx_inv_def idx_def)
  have "idx_inv (st\<lparr>st_memory_bytes := m\<rparr>) S R" for m using I by (simp add: idx_inv_def)
  then show "idx_inv (count_job i st) S R" unfolding count_job_def Let_def by (rule idx_inv_write_queue) simp
  show "durable (count_job i st) = durable st"
    by (simp add: count_job_def Let_def totals_write_queue [where g = "\<lambda>t. t"])
  have jin: "jobs_in ?js (R - {i}) n s = (if j_state j = s \<and> j_queue j = n then insert i (jobs_in ?js R n s) else jobs_in ?js R n s)"
    and ni: "i \<notin> jobs_in ?js R n s" for n s
    using jobs_in_without(3) [of ?js i j R n s] j i by (simp_all add: jobs_in_def)
  have "q_counts q s = of_nat (card (jobs_in ?js (R - {i}) n s))" if "map_of (st_queues (count_job i st)) n = Some q" for n q s
    using that cnt j jin ni [of n s] finite_jobs_in [OF fin, of R n s]
    by (auto simp: count_job_def Let_def cnt_inv_def split: if_splits)
  moreover have "st_jobs (count_job i st) = ?js" by (simp add: count_job_def Let_def)
  ultimately show "cnt_inv (count_job i st) (R - {i})" unfolding cnt_inv_def by metis
  have "dom ?js - (R - {i}) = insert i (dom ?js - R)" using j i by auto
  then show "st_memory_bytes (count_job i st) = (\<Sum>k\<in>dom ?js - (R - {i}). job_bytes (st_abi st) (the (?js k)))"
    using r fin j i by (simp add: rebuild_inv_def count_job_def Let_def)
qed

lemma rebuild_inv_moved:
  assumes r: "rebuild_inv st S R" and j: "st_jobs st i = Some j" and i: "i \<in> R" and s: "is_pending (j_state j) \<and> is_pending s \<or> s = j_state j"
    and o: "outer st' = outer (set_state i s (count_job i st))" and I: "idx_inv st' S (R - {i})"
  shows "rebuild_inv st' S (R - {i})" and "durable st' = durable st" and "dom (st_jobs st') = dom (st_jobs st)"
    and "same_setting st' st"
proof -
  let ?st3 = "count_job i st" and ?j = "j\<lparr>j_state := s\<rparr>"
  note c = count_job_ok [OF r j i]
  have js3: "st_jobs ?st3 = st_jobs st" and f3: "st_abi ?st3 = st_abi st" "st_replaying ?st3 = st_replaying st"
    "st_idem_order ?st3 = st_idem_order st" "st_idem_index ?st3 = st_idem_index st" "st_next_token ?st3 = st_next_token st"
    "st_next_job_id ?st3 = st_next_job_id st"
    "same_setting ?st3 st"
    by (simp_all add: count_job_def Let_def same_setting_def)
  have j3: "st_jobs ?st3 i = Some j" using j js3 by simp
  have fin: "finite (dom (st_jobs st))" using r by (simp add: rebuild_inv_def idx_inv_def idx_def)
  have js': "cores (st_jobs st') = cores ((st_jobs st)(i \<mapsto> ?j))" using outer_eqD(1) [OF o] j3 js3 by simp
  then show dom: "dom (st_jobs st') = dom (st_jobs st)" using j cores_eq_dom [OF js'] by auto
  show "same_setting st' st" using outer_eq_setting [OF o] f3(7) by (simp add: same_setting_def)
  have "persist ?j = persist j" using s pending_persist by (auto simp: persist_def)
  then have "put_job i (persist ?j) (durable st) = durable st" using j by (simp add: put_job_def durable_def fun_upd_idem)
  then show "durable st' = durable st" using durable_outer_eq [OF o] durable_set_state [OF j3] c(3) by simp
  have "cnt_inv (set_state i s ?st3) (R - {i})" using cnt_inv_move [OF c(2) _ _ j3] fin js3 by simp
  then have "cnt_inv st' (R - {i})" using cnt_inv_outer [of st'] cnt_inv_outer [of "set_state i s ?st3"] o by simp
  moreover have "dur_job (st_next_job_id st) (st_next_token st) i j" using r j by (simp add: rebuild_inv_def dur_inv_def)
  then have "dur_job (st_next_job_id st) (st_next_token st) i ?j" using s by (auto simp: dur_job_def is_pending_def)
  then have "dur_inv (set_state i s ?st3) {}" using r j3 js3 f3 by (simp add: rebuild_inv_def dur_inv_def)
  then have "dur_inv st' {}" using dur_inv_outer [of st'] dur_inv_outer [of "set_state i s ?st3"] o by simp
  moreover have "idem_inv st'" using r outer_eqD(10,11) [OF o] f3 by (simp add: rebuild_inv_def idem_inv_def)
  moreover have "job_bytes abi (the (st_jobs st' k)) = job_bytes abi (the (st_jobs st k))" if k: "k \<in> dom (st_jobs st)" for k abi
  proof -
    obtain j0 where j0: "st_jobs st k = Some j0" using k by blast
    have b: "job_bytes abi (j0\<lparr>j_state := s\<rparr>) = job_bytes abi j0" by (simp add: job_bytes_def)
    obtain j1 where "st_jobs st' k = Some j1" "core j1 = core (if k = i then ?j else j0)"
      using cores_eq_Some [OF js', of k "if k = i then ?j else j0"] j0 by (cases "k = i") auto
    then show ?thesis using j0 j b job_bytes_core by (metis option.sel)
  qed
  then have "st_memory_bytes st' = (\<Sum>k\<in>dom (st_jobs st') - (R - {i}). job_bytes (st_abi st') (the (st_jobs st' k)))"
    using c(4) dom outer_eqD(3,14) [OF o] f3 by simp
  ultimately show "rebuild_inv st' S (R - {i})" using I by (simp add: rebuild_inv_def)
qed

lemma rebuild_inv_gc [simp]:
  "rebuild_inv (st\<lparr>st_finished_gc := x\<rparr>) S R = rebuild_inv st S R" "rebuild_inv (st\<lparr>st_dead_gc := x\<rparr>) S R = rebuild_inv st S R"
  by (simp_all add: rebuild_inv_def idx_inv_def cnt_inv_def idem_inv_def dur_inv_def)

lemma same_setting_gc [simp]:
  "same_setting (st\<lparr>st_finished_gc := x\<rparr>) st0 = same_setting st st0" "same_setting (st\<lparr>st_dead_gc := x\<rparr>) st0 = same_setting st st0"
  by (simp_all add: same_setting_def)

lemma omap_update_inverse: "(\<And>q. f (g q) = q) \<Longrightarrow> omap_update n f (omap_update n g qs) = qs"
  by (induction qs) auto

lemma set_state_same:
  assumes "st_jobs st i = Some j" and "map_of (st_queues st) (j_queue j) = Some q"
  shows "durable (set_state i (j_state j) st) = durable st" and "outer (set_state i (j_state j) st) = outer st"
proof -
  have "upd_job i (\<lambda>ja. ja\<lparr>j_state := j_state j\<rparr>) (st_jobs st) = st_jobs st"
    using assms(1) by (auto simp: upd_job_def deref_def)
  moreover have "omap_update n (\<lambda>q. q\<lparr>q_counts := (q_counts q)(s := q_counts q s + 1)\<rparr>)
      (omap_update n (\<lambda>q. q\<lparr>q_counts := (q_counts q)(s := q_counts q s - 1)\<rparr>) qs) = qs" for n s and qs :: "(bytes \<times> Queue) list"
    by (rule omap_update_inverse) simp
  ultimately have "set_state i (j_state j) st = st"
    using assms(1) by (simp add: set_state_def Let_def write_job_def write_queue_def)
  then show "durable (set_state i (j_state j) st) = durable st" "outer (set_state i (j_state j) st) = outer st" by simp_all
qed

lemma rebuild_reset:
  assumes r: "rebuild_inv st R R" and j: "st_jobs st i = Some j" and i: "i \<in> R"
    and st1: "st1 = write_job i (\<lambda>j. j\<lparr>j_heap_index := kNotInHeap, j_timer := no_timer\<rparr>) st"
  shows "rebuild_inv st1 (R - {i}) R" and "outer st1 = outer st"
proof -
  show o: "outer st1 = outer st" unfolding st1 by (rule outer_write_job [OF j]) (simp add: core_def)
  have "idx_inv st1 (R - {i}) R"
    using r idx_unstale [of "st_jobs st" "st_queues st" "st_wheel st" "st_replaying st" R R i j] j i
    by (simp add: st1 rebuild_inv_def idx_inv_def)
  moreover have "cnt_inv st1 R" "dur_inv st1 {}"
    using r o cnt_inv_outer [of st1] cnt_inv_outer [of st] dur_inv_outer [of st1] dur_inv_outer [of st]
    by (simp_all add: rebuild_inv_def)
  moreover have "idem_inv st1" using r by (simp add: st1 rebuild_inv_def idem_inv_def)
  moreover have "dom (st_jobs st1) = dom (st_jobs st)" using j by (auto simp: st1)
  moreover have "st_memory_bytes st1 = (\<Sum>k\<in>dom (st_jobs st) - R. job_bytes (st_abi st1) (the (st_jobs st1 k)))"
    using r j i by (simp add: st1 rebuild_inv_def) (rule sum.cong, auto)
  ultimately show "rebuild_inv st1 (R - {i}) R" by (simp add: rebuild_inv_def)
qed

lemma rebuild_enter_ok:
  assumes r: "rebuild_inv st (R - {i}) R" and j: "st_jobs st i = Some j" and i: "i \<in> R" and live: "\<not> st_replaying st"
    and result: "result = (let st3 = count_job i st; ref = \<lparr>fr_id = i, fr_finished_at = j_finished_at j\<rparr> in
      if is_pending (j_state j) then enter_pending i st3
      else if j_state j = kLeased then schedule_lease_timer i g st3
      else if j_state j = kDead then Some ((write_queue (j_queue j) (\<lambda>q. q\<lparr>q_dead := insort_insert i (q_dead q)\<rparr>) st3)
             \<lparr>st_dead_gc := st_dead_gc st3 @ [ref]\<rparr>)
      else Some (st3\<lparr>st_finished_gc := st_finished_gc st3 @ [ref]\<rparr>))"
  shows "\<exists>st'. result = Some st' \<and> rebuild_inv st' (R - {i}) (R - {i}) \<and> durable st' = durable st \<and>
    dom (st_jobs st') = dom (st_jobs st) \<and> same_setting st' st \<and> (gc_ok st \<longrightarrow> gc_ok st')"
proof -
  let ?st3 = "count_job i st"
  note c = count_job_ok [OF r j i]
  have fin: "st_finished_gc ?st3 = st_finished_gc st" by (simp add: count_job_def Let_def)
  have gc: "gc_ok st \<Longrightarrow> gc_ok st'"
    if "outer st' = outer (set_state i s ?st3)" "durable st' = durable st" for st' s
    using that fin outer_eqD(12) [OF that(1)] by (simp add: gc_ok_def)
  have j3: "st_jobs ?st3 i = Some j" using j by (simp add: count_job_def Let_def)
  have same: "outer (set_state i (j_state j) ?st3) = outer ?st3"
    using idx_queue_exists [OF c(1) j3] set_state_same(2) [OF j3] by blast
  note moved = rebuild_inv_moved [OF r j i] and result = result [unfolded Let_def]
  have i': "i \<notin> R - {i}" by simp
  consider (pending) "is_pending (j_state j)" | (leased) "j_state j = kLeased" | (dead) "j_state j = kDead"
    | (finished) "j_state j = kSucceeded \<or> j_state j = kCancelled"
    by (cases "j_state j") auto
  then show ?thesis
  proof cases
    case pending
    obtain st' where st': "enter_pending i ?st3 = Some st'" "idx_inv st' (R - {i}) (R - {i})"
        "outer st' = outer (set_state i (pending_state ?st3 j) ?st3)"
      using enter_pending_ok [OF c(1) j3 i i'] by blast
    then show ?thesis using moved [OF _ st'(3,2)] gc [OF st'(3)] pending result live by (simp add: pending_state_def)
  next
    case leased
    obtain st' where st': "schedule_lease_timer i g ?st3 = Some st'" "idx_inv st' (R - {i}) (R - {i})" "outer st' = outer ?st3"
      using schedule_lease_timer_ok [OF c(1) j3 leased i i'] by blast
    then show ?thesis using moved [of "j_state j" st'] gc [of st' "j_state j"] same leased result live by simp
  next
    case dead
    let ?st4 = "write_queue (j_queue j) (\<lambda>q. q\<lparr>q_dead := insort_insert i (q_dead q)\<rparr>) ?st3"
    have "outer ?st4 = outer ?st3" by (simp add: outer_write_queue core_queue_def)
    moreover have "idx_inv ?st4 (R - {i}) (R - {i})" by (rule insort_dead_ok [OF c(1) j3 dead i])
    ultimately show ?thesis
      using moved [of "j_state j" ?st4] gc [of ?st4 "j_state j"] same dead result live by (simp add: gc_ok_def)
  next
    case finished
    have "idx_inv ?st3 (R - {i}) (R - {i})"
      by (rule idx_inv_unindexed [OF c(1) j3]) (use finished in \<open>auto simp: wants_timer_def\<close>)
    moreover have "done_in i (durable st)"
      using r j finished by (auto simp: rebuild_inv_def dur_inv_def dur_job_def done_in_def durable_def persist_def is_pending_def)
    ultimately show ?thesis
      using moved [of "j_state j" ?st3] gc [of ?st3 "j_state j"] same finished result live by (elim disjE) (simp_all add: gc_ok_def)
  qed
qed

lemma rebuild_job_ok:
  assumes r: "rebuild_inv st R R" and j: "st_jobs st i = Some j" and i: "i \<in> R" and live: "\<not> st_replaying st"
  shows "\<exists>st'. rebuild_job g i st = Some st' \<and> rebuild_inv st' (R - {i}) (R - {i}) \<and> durable st' = durable st \<and>
    dom (st_jobs st') = dom (st_jobs st) \<and> same_setting st' st \<and> (gc_ok st \<longrightarrow> gc_ok st')"
proof -
  define st1 where "st1 = write_job i (\<lambda>j. j\<lparr>j_heap_index := kNotInHeap, j_timer := no_timer\<rparr>) st"
  define j1 where "j1 = j\<lparr>j_heap_index := kNotInHeap, j_timer := no_timer\<rparr>"
  note r1 = rebuild_reset [OF r j i st1_def]
  have j1: "st_jobs st1 i = Some j1" and f1: "\<not> st_replaying st1" "dom (st_jobs st1) = dom (st_jobs st)"
    using j live by (auto simp: st1_def j1_def)
  have set: "same_setting st1 st" by (rule outer_eq_setting [OF r1(2)])
  have gc: "gc_ok st1 = gc_ok st" using durable_outer_eq [OF r1(2)] by (simp add: gc_ok_def st1_def)
  have "rebuild_job g i st = (let st3 = count_job i st1; ref = \<lparr>fr_id = i, fr_finished_at = j_finished_at j1\<rparr> in
      if is_pending (j_state j1) then enter_pending i st3
      else if j_state j1 = kLeased then schedule_lease_timer i g st3
      else if j_state j1 = kDead then Some ((write_queue (j_queue j1) (\<lambda>q. q\<lparr>q_dead := insort_insert i (q_dead q)\<rparr>) st3)
             \<lparr>st_dead_gc := st_dead_gc st3 @ [ref]\<rparr>)
      else Some (st3\<lparr>st_finished_gc := st_finished_gc st3 @ [ref]\<rparr>))"
    unfolding rebuild_job_def count_job_def Let_def st1_def [symmetric] job_of_Some [OF j1] by (rule refl)
  from rebuild_enter_ok [OF r1(1) j1 i f1(1) this] show ?thesis using gc f1(2) durable_outer_eq [OF r1(2)] same_setting_trans [OF _ set] by auto
qed

lemma rebuild_jobs_ok:
  "rebuild_inv st (set ids) (set ids) \<Longrightarrow> distinct ids \<Longrightarrow> set ids \<subseteq> dom (st_jobs st) \<Longrightarrow> \<not> st_replaying st \<Longrightarrow>
     \<exists>st'. rebuild_jobs g ids st = Some st' \<and> rebuild_inv st' {} {} \<and> durable st' = durable st \<and> same_setting st' st \<and>
       (gc_ok st \<longrightarrow> gc_ok st')"
proof (induction ids arbitrary: st)
  case (Cons i ids)
  obtain j where j: "st_jobs st i = Some j" using Cons.prems(3) by auto
  have rest: "set (i # ids) - {i} = set ids" using Cons.prems(2) by auto
  obtain st1 where st1: "rebuild_job g i st = Some st1" "rebuild_inv st1 (set ids) (set ids)" "durable st1 = durable st"
      "dom (st_jobs st1) = dom (st_jobs st)" "same_setting st1 st" "gc_ok st \<Longrightarrow> gc_ok st1"
    using rebuild_job_ok [OF Cons.prems(1) j _ Cons.prems(4), of g] unfolding rest by auto
  moreover obtain st2 where "rebuild_jobs g ids st1 = Some st2" "rebuild_inv st2 {} {}" "durable st2 = durable st1" "same_setting st2 st1"
      "gc_ok st1 \<Longrightarrow> gc_ok st2"
    using Cons.IH [of st1] Cons.prems st1 by (auto simp: same_setting_def)
  ultimately show ?case using same_setting_trans by auto
qed simp

lemma rebuild_derived_ok:
  assumes r: "rebuildable st" and live: "\<not> st_replaying st" and tick: "tick_ok (word_of_int (st_mono_now st))"
    and order: "distinct order" "set order = dom (st_jobs st)"
  shows "\<exists>st'. rebuild_derived order g st = Some st' \<and> state_inv st' \<and> durable st' = durable st \<and> same_setting st' st \<and> gc_ok st'"
proof -
  let ?st0 = "clear_derived st"
  have f0: "st_jobs ?st0 = st_jobs st" "same_setting ?st0 st" by (simp_all add: clear_derived_def same_setting_def)
  note c = clear_derived_ok [OF r live tick]
  obtain st1 where st1: "rebuild_jobs g order ?st0 = Some st1" "rebuild_inv st1 {} {}" "durable st1 = durable st" "same_setting st1 ?st0" "gc_ok st1"
    using rebuild_jobs_ok [of ?st0 order g] c order live f0 by (auto simp: same_setting_def gc_ok_def clear_derived_def)
  define st2 where "st2 = st1\<lparr>st_finished_gc := sort_key fr_finished_at (st_finished_gc st1),
    st_dead_gc := sort_key fr_finished_at (st_dead_gc st1)\<rparr>"
  define st3 where "st3 = st2\<lparr>st_memory_bytes := st_memory_bytes st2 + sum_list (map (idem_bytes (st_abi st2)) (st_idem_order st2))\<rparr>"
  have r2: "rebuild_inv st2 {} {}" using st1(2) by (simp add: st2_def)
  then have "base st3 {}"
    by (simp add: rebuild_inv_def base_def st3_def cnt_inv_def mem_inv_def jobs_bytes_def idem_inv_def dur_inv_def idx_inv_def idx_def)
  moreover have "idx_inv st3 {} {}" using r2 by (simp add: rebuild_inv_def st3_def idx_inv_def)
  ultimately have "state_inv st3" by (simp add: state_inv_def good_def)
  moreover have "durable st3 = durable st" using st1(3) by (simp add: st3_def st2_def)
  moreover have "same_setting st3 st" using st1(4) f0(2) by (simp add: st3_def st2_def same_setting_def)
  moreover have "gc_ok st3" using st1(5) by (simp add: gc_ok_def st3_def st2_def)
  moreover have "rebuild_derived order g st = Some st3"
    using live st1(1) by (simp add: rebuild_derived_def Let_def st2_def st3_def)
  ultimately show ?thesis by blast
qed

end
