(* ===== verification/StateProps.thy ===== *)
theory StateProps
  imports StateRebuild
begin

text \<open>
  The properties of the state machine: the invariant and its consequences for \<open>apply\<close>, the
  code's own check, the timers, garbage collection and the rebuild after a replay.
\<close>

section \<open>Starting states\<close>

lemma mk_state_inv: "state_inv (mk_state abi opts)"
proof -
  have t: "tick_ok 0" by (simp add: tick_ok_def)
  have "timers_ok Map.empty False {} {} (mk_wheel 0)" using mk_wheel_correct [OF t] by (simp add: timers_ok_def)
  then have "idx_inv (mk_state abi opts) {} {}" by (simp add: mk_state_def idx_inv_def idx_def kNil_def)
  moreover have "base (mk_state abi opts) {}"
    by (simp add: mk_state_def base_def cnt_inv_def mem_inv_def jobs_bytes_def idem_inv_def dur_inv_def)
  ultimately show ?thesis by (simp add: state_inv_def good_def)
qed

lemma begin_replay_inv:
  assumes "state_inv st" and "st_jobs st = Map.empty"
  shows "state_inv (begin_replay st)"
proof -
  have "timers_ok Map.empty (st_replaying st) {} {} (st_wheel st)"
    using assms by (auto simp: state_inv_def good_def idx_inv_def idx_def)
  then have "timers_ok Map.empty True {} {} (st_wheel st)" by (auto simp: timers_ok_def)
  moreover have "jobs_in Map.empty {} n s = {}" for n s by (simp add: jobs_in_def)
  ultimately show ?thesis
    using assms by (auto simp: state_inv_def good_def idx_inv_def idx_def begin_replay_def base_def cnt_inv_def
        mem_inv_def idem_inv_def dur_inv_def)
qed

lemma set_now_good: "good (set_now w m st) S X E = good st S X E"
  by (simp add: good_def idx_inv_def set_now_def base_def cnt_inv_def mem_inv_def idem_inv_def dur_inv_def)

lemma state_inv_rebuildable:
  assumes "state_inv st"
  shows "rebuildable (st\<lparr>st_replaying := b\<rparr>)"
proof -
  have I: "idx (st_jobs st) (st_queues st) (st_wheel st) (st_replaying st) {} {}" and b: "base st {}"
    using assms by (simp_all add: state_inv_def good_def idx_inv_def)
  note D = idxD [OF I]
  have "q_name q = n" if "map_of (st_queues st) n = Some q" for n q using D(4) [OF that] by (simp add: queue_ok_def)
  moreover have "j_id j = i \<and> j_queue j \<in> dom (map_of (st_queues st)) \<and> (j_state j = kReady \<or> j_heap_index j = kNotInHeap)"
    if "st_jobs st i = Some j" for i j using D(5) [OF that] by (auto simp: job_ok_def)
  ultimately show ?thesis using D(1,2,3) b by (simp add: rebuildable_def base_def idem_inv_def dur_inv_def)
qed

lemma end_replay_ok:
  assumes inv: "state_inv st" and tick: "tick_ok (word_of_int (st_mono_now st))"
    and order: "distinct order" "set order = dom (st_jobs st)"
  shows "\<exists>st1 st'. rebuild_derived order g (st\<lparr>st_replaying := False\<rparr>) = Some st1 \<and> state_inv st1 \<and>
    durable st1 = durable st \<and> end_replay order g st = Some st' \<and> collect_garbage st1 = Some st' \<and> state_inv st'"
proof -
  have "durable (st\<lparr>st_replaying := False\<rparr>) = durable st" by (simp add: durable_def)
  then obtain st1 where st1: "rebuild_derived order g (st\<lparr>st_replaying := False\<rparr>) = Some st1" "state_inv st1"
      "durable st1 = durable st" "\<not> st_replaying st1"
    using rebuild_derived_ok [OF state_inv_rebuildable [OF inv, of False], of order g] tick order
    by (auto simp: same_setting_def)
  obtain st' where "collect_garbage st1 = Some st'" "state_inv st'" using collect_garbage_ok [OF st1(2,4) refs_in_terminal] by blast
  then show ?thesis using st1 by (simp add: end_replay_def)
qed

lemma durable_due_core:
  assumes "te_id e \<in> dom (st_jobs st)"
  shows "durable (due_core e st) = durable st" and "dom (st_jobs (due_core e st)) = dom (st_jobs st)"
proof -
  obtain j where j: "st_jobs st (te_id e) = Some j" using assms by blast
  have "persist (j\<lparr>j_state := kReady\<rparr>) = persist j" if "j_state j = kScheduled"
    using that by (intro pending_persist) simp_all
  moreover have "put_job (te_id e) (persist j) (durable st) = durable st"
    using j by (simp add: put_job_def durable_def fun_upd_idem)
  ultimately have "durable (set_state (te_id e) kReady st) = durable st" if "j_state j = kScheduled"
    using that j by (simp add: durable_set_state)
  then show "durable (due_core e st) = durable st" using j by (simp add: due_core_def Let_def)
  show "dom (st_jobs (due_core e st)) = dom (st_jobs st)" using j by (auto simp: due_core_def Let_def)
qed

lemma durable_fold_due: "te_id ` set es \<subseteq> dom (st_jobs st) \<Longrightarrow> durable (fold due_core es st) = durable st"
  by (induction es arbitrary: st) (simp_all add: durable_due_core)

lemma setting_fold_due: "same_setting (fold due_core es st) st \<and> st_finished_gc (fold due_core es st) = st_finished_gc st"
proof (induction es arbitrary: st)
  case (Cons e es)
  have "same_setting (due_core e st) st" "st_finished_gc (due_core e st) = st_finished_gc st"
    by (simp_all add: due_core_def Let_def same_setting_def)
  then show ?case using Cons.IH [of "due_core e st"] by (simp add: same_setting_def)
qed simp

text \<open>A job of which a timer has fired is ready if it was waiting for a time that has come; all others keep their state.\<close>

lemma fold_due_job:
  "distinct (map te_id es) \<Longrightarrow> te_id ` set es \<subseteq> dom (st_jobs st) \<Longrightarrow> st_jobs st i = Some j \<Longrightarrow>
     st_jobs (fold due_core es st) i =
       Some (if j_state j = kScheduled \<and> j_run_at j \<le> st_wall_now st \<and> i \<in> te_id ` set es then j\<lparr>j_state := kReady\<rparr> else j)"
proof (induction es arbitrary: st j)
  case (Cons e es)
  obtain je where je: "st_jobs st (te_id e) = Some je" using Cons.prems(2) by auto
  let ?st = "due_core e st"
  have w: "st_wall_now ?st = st_wall_now st" by (simp add: due_core_def Let_def)
  have d: "te_id ` set es \<subseteq> dom (st_jobs ?st)" using Cons.prems(2) durable_due_core(2) [of e st] by auto
  have i: "st_jobs ?st i = Some (if i = te_id e \<and> j_state j = kScheduled \<and> j_run_at j \<le> st_wall_now st then j\<lparr>j_state := kReady\<rparr> else j)"
    using je Cons.prems(3) by (auto simp: due_core_def Let_def)
  show ?case using Cons.IH [OF _ d i] Cons.prems(1) w by auto
qed simp

lemma advance_timers_reports:
  assumes "state_inv st" and "tick_ok (word_of_int (st_mono_now st))"
  defines "due \<equiv> {e \<in> pending (st_wheel st). te_deadline e \<le> max (tw_now (st_wheel st)) (word_of_int (st_mono_now st))}"
  shows "\<exists>ids st'. advance_timers [] st = Some (ids, st') \<and> distinct ids \<and> durable st' = durable st \<and> same_setting st' st \<and>
    good st' {} (set ids) {} \<and> st_finished_gc st' = st_finished_gc st \<and>
    set ids = {te_id e |e. e \<in> due \<and>
      (\<exists>j. st_jobs st (te_id e) = Some j \<and> j_state j = kLeased \<and> j_lease_expires_at j \<le> st_wall_now st)} \<and>
    (\<forall>i j. st_jobs st i = Some j \<longrightarrow> (\<exists>j'. st_jobs st' i = Some j' \<and> core j' = core
      (if j_state j = kScheduled \<and> j_run_at j \<le> st_wall_now st \<and> i \<in> te_id ` due then j\<lparr>j_state := kReady\<rparr> else j)))"
proof -
  obtain es st' where a: "advance_timers [] st = Some (lapsed es st, st')" "good st' {} (set (lapsed es st)) {}" "outer st' = fold due_core es (outer st)"
      "distinct (map te_id es)" "set es = due"
    using advance_timers_ok [OF assms(1,2), of "[]"] unfolding due_def by auto
  have t: "timers_ok (st_jobs st) (st_replaying st) {} {} (st_wheel st)"
    using assms(1) idxD(6) by (auto simp: state_inv_def good_def idx_inv_def)
  have dom: "te_id ` set es \<subseteq> dom (st_jobs st)" using pending_ids [OF t] a(5) unfolding due_def by blast
  have "durable st' = durable st"
    using a(3) durable_outer [of st'] durable_outer [of st] durable_fold_due [of es "outer st"] dom
    by (auto simp: outer_fields)
  moreover have "same_setting st' st" "st_finished_gc st' = st_finished_gc st"
    using setting_fold_due [of es "outer st"] a(3) outer_setting [of st] outer_setting [of st'] outer_fields(12) [of st']
      outer_fields(12) [of st] by (simp_all add: same_setting_def)
  moreover have "distinct (lapsed es st)"
    unfolding lapsed_def using a(4) by (simp add: distinct_map inj_on_def)
  moreover have "expires e st \<longleftrightarrow> (\<exists>j. st_jobs st (te_id e) = Some j \<and> j_state j = kLeased \<and> j_lease_expires_at j \<le> st_wall_now st)"
    if "e \<in> due" for e using dom that a(5) by (auto simp: expires_def)
  then have "set (lapsed es st) = {te_id e |e. e \<in> due \<and>
      (\<exists>j. st_jobs st (te_id e) = Some j \<and> j_state j = kLeased \<and> j_lease_expires_at j \<le> st_wall_now st)}"
    unfolding lapsed_def set_map set_filter a(5) by blast
  moreover have "\<exists>j'. st_jobs st' i = Some j' \<and> core j' = core
      (if j_state j = kScheduled \<and> j_run_at j \<le> st_wall_now st \<and> i \<in> te_id ` due then j\<lparr>j_state := kReady\<rparr> else j)"
    if j: "st_jobs st i = Some j" for i j
  proof -
    have o: "te_id ` set es \<subseteq> dom (st_jobs (outer st))" "st_jobs (outer st) i = Some (core j)"
      using dom j by (simp_all add: outer_fields cores_def dom_def)
    let ?j = "if j_state j = kScheduled \<and> j_run_at j \<le> st_wall_now st \<and> i \<in> te_id ` due then j\<lparr>j_state := kReady\<rparr> else j"
    have "core ?j = (if j_state j = kScheduled \<and> j_run_at j \<le> st_wall_now st \<and> i \<in> te_id ` due
        then (core j)\<lparr>j_state := kReady\<rparr> else core j)" by (simp add: core_def)
    then have "map_option core (st_jobs st' i) = Some (core ?j)"
      using fold_due_job [OF a(4) o] a(3,5) outer_fields(1) [of st'] outer_fields(5) [of st] by (simp add: cores_def)
    then show ?thesis by (cases "st_jobs st' i") simp_all
  qed
  ultimately show ?thesis using a(1,2) by blast
qed

lemma ready_queued:
  assumes "good st {} X {}" and "st_jobs st i = Some j" and "j_state j = kReady" and "i \<notin> X"
  shows "\<exists>q. find_queue (j_queue j) st = Some q \<and> i \<in> set (q_ready q)"
proof -
  have I: "idx (st_jobs st) (st_queues st) (st_wheel st) (st_replaying st) {} X" using assms(1) by (simp add: good_def idx_inv_def)
  obtain q where q: "map_of (st_queues st) (j_queue j) = Some q" using idxD(5) [OF I assms(2)] by (auto simp: job_ok_def)
  have "i \<in> jobs_in (st_jobs st) X (j_queue j) kReady" using assms by (simp add: jobs_in_def)
  then show ?thesis using idxD(4) [OF I q] q by (simp add: queue_ok_def find_queue_def)
qed

lemma gc_ok_same: "durable st' = durable st \<Longrightarrow> st_finished_gc st' = st_finished_gc st \<Longrightarrow> gc_ok st' = gc_ok st"
  by (simp add: gc_ok_def)

section \<open>The timer of a lease\<close>

lemma upd_deadline:
  assumes "n_deadline y = n_deadline (xs ! i)"
  shows "n_deadline (xs[i := y] ! k) = n_deadline (xs ! k)"
  using assms by (simp add: nth_upd)

lemma link_deadline: "n_deadline (tw_nodes (link i l w) ! k) = n_deadline (tw_nodes w ! k)"
proof -
  let ?y = "(tw_nodes w ! i)\<lparr>n_list := l, n_prev := kNil, n_next := tw_heads w ! l\<rparr>"
  have 1: "n_deadline ((tw_nodes w)[i := ?y] ! m) = n_deadline (tw_nodes w ! m)" for m by (rule upd_deadline) simp
  have "n_deadline ((tw_nodes w)[i := ?y, m := ((tw_nodes w)[i := ?y] ! m)\<lparr>n_prev := i\<rparr>] ! k) = n_deadline ((tw_nodes w)[i := ?y] ! k)" for m
    by (rule upd_deadline) simp
  then show ?thesis using 1 by (simp add: link_def Let_def upd_node_def set_head_def upd_occupied_def)
qed

lemma schedule_deadline:
  assumes s: "schedule d kind i w = Some (h, w')" and k: "th_index h < length (tw_nodes w')"
  shows "n_deadline (tw_nodes w' ! th_index h) = d"
proof -
  obtain index w1 where a: "allocate w = Some (index, w1)" using s by (auto simp: schedule_def bind_eq_Some_conv)
  let ?w2 = "upd_node index (\<lambda>n. n\<lparr>n_deadline := d, n_id := i, n_kind := kind\<rparr>) w1"
  have len: "length (tw_nodes (upd_node m f v)) = length (tw_nodes v)" for m f v by (simp add: upd_node_def)
  have "length (tw_nodes (link m l v)) = length (tw_nodes v)" for m l v
    by (simp add: link_def Let_def len set_head_def upd_occupied_def)
  then have p: "length (tw_nodes (place index ?w2)) = length (tw_nodes w1)"
    "n_deadline (tw_nodes (place index ?w2) ! index) = n_deadline (tw_nodes ?w2 ! index)"
    by (simp_all add: place_def Let_def link_deadline len)
  have "th_index h = index" "tw_nodes w' = tw_nodes (place index ?w2)" using s a by (auto simp: schedule_def Let_def)
  then show ?thesis using p k by (simp add: upd_node_def)
qed

lemma lease_timer:
  assumes "schedule_lease_timer i 0 st = Some st'" and "\<not> st_replaying st" and "st_jobs st i = Some j" and "good st' {} X {i}" and "i \<notin> X"
    and "j_state j = kLeased" "st_wall_now st \<le> j_lease_expires_at j"
  shows "\<exists>e\<in>pending (st_wheel st'). te_id e = i \<and> te_deadline e = word_of_int (st_mono_now st + (j_lease_expires_at j - st_wall_now st))"
proof -
  obtain h w where s: "schedule (mono_deadline (j_lease_expires_at j) st) kLeaseExpiry (j_id j) (st_wheel st) = Some (h, w)"
      "st' = write_job i (\<lambda>j. j\<lparr>j_timer := h\<rparr>) (st\<lparr>st_wheel := w\<rparr>)"
    using assms by (auto simp: schedule_lease_timer_def schedule_timer_def bind_eq_Some_conv max_absorb1)
  have j': "st_jobs st' i = Some (j\<lparr>j_timer := h\<rparr>)" "st_wheel st' = w" "st_replaying st' = st_replaying st"
    using s(2) assms(3) by simp_all
  have t: "timers_ok (st_jobs st') (st_replaying st') {} X (st_wheel st')"
    using assms(4) idxD(6) by (auto simp: good_def idx_inv_def)
  obtain e where e: "e \<in> pending w" "te_handle e = h" "te_id e = i"
    using timers_okD(2) [OF t j'(1)] assms(2,5,6) j' by (auto simp: wants_timer_def)
  then obtain n where n: "n \<in> live w" "e = node_event w n" by (auto simp: pending_def)
  have "th_index h = n" using e(2) n(2) by (auto simp: node_event_def Let_def)
  then have "te_deadline e = mono_deadline (j_lease_expires_at j) st"
    using schedule_deadline [OF s(1)] n by (simp add: live_def)
  then show ?thesis using e assms(7) j'(2) by (auto simp: mono_deadline_def Let_def)
qed

lemma lease_applied_timer:
  assumes g: "good st {} {} {}" and live: "\<not> st_replaying st" and a: "apply_rec (RJobLeased r) st = Some (Inr (), st')"
    and late: "st_wall_now st \<le> jl_lease_expires_at r"
  shows "\<exists>e\<in>pending (st_wheel st'). te_id e = jl_id r \<and>
    te_deadline e = word_of_int (st_mono_now st + (jl_lease_expires_at r - st_wall_now st))"
proof -
  let ?i = "jl_id r"
  obtain j where j: "st_jobs st ?i = Some j" "is_pending (j_state j)"
    using a by (auto simp: apply_JobLeased_def find_job_def mismatch_def split: option.splits if_splits)
  obtain st1 where st1: "leave_indexes ?i st = Some st1" "good st1 {} {?i} {?i}" "outer st1 = outer st"
    using good_leave [OF good_open [OF g] j(1), of ?i] j(2) by (auto simp: is_pending_def)
  obtain j1 where j1: "st_jobs st1 ?i = Some j1" "core j1 = core j" using outer_job [OF st1(3) j(1)] by blast
  define st3 where "st3 = write_job ?i (lease_job r) (set_state ?i kLeased st1)"
  have g3: "good st3 {} {?i} {?i}"
    unfolding st3_def using good_set_state [OF st1(2) j1(1)]
    by (rule good_write_job [of _ _ _ _ ?i "j1\<lparr>j_state := kLeased\<rparr>"]) (use j1 in \<open>simp_all add: lease_job_def job_bytes_def\<close>)
  have j3: "st_jobs st3 ?i = Some (lease_job r (j1\<lparr>j_state := kLeased\<rparr>))" using j1 by (simp add: st3_def)
  have f: "\<not> st_replaying st3" "st_wall_now st3 = st_wall_now st" "st_mono_now st3 = st_mono_now st"
    using outer_eq_setting [OF st1(3)] live by (simp_all add: st3_def same_setting_def)
  obtain st4 where st4: "schedule_lease_timer ?i 0 st3 = Some st4" "good st4 {} {} {?i}"
    using good_lease_timer [OF g3 j3, of 0] by (auto simp: lease_job_def)
  have "st_wheel st' = st_wheel st4"
    using a j st1(1) st4(1) by (auto simp: apply_JobLeased_def find_job_def mismatch_def st3_def lease_job_def [abs_def] split: if_splits)
  then show ?thesis using lease_timer [OF st4(1) f(1) j3 st4(2)] late f by (simp add: lease_job_def)
qed

section \<open>Properties\<close>

text \<open>
  C8: applying a record never aborts while the counters and slabs have room. A record that
  does not fit the state is reported as an error and leaves the state exactly as it was; any
  other keeps every index, counter and timer consistent. The list of finished jobs that the
  garbage collector walks keeps naming only jobs that have succeeded or were cancelled.
\<close>
theorem state_apply_safe:
  assumes "state_inv st" and "room_for r st"
  shows "\<exists>res st'. apply_rec r st = Some (res, st') \<and> state_inv st' \<and> (\<not> ok res \<longrightarrow> st' = st) \<and> (gc_ok st \<longrightarrow> gc_ok st')"
proof -
  note g = assms(1) [unfolded state_inv_def]
  obtain res st' where "apply_rec r st = Some (res, st')" "state_inv st'" "\<not> ok res \<longrightarrow> st' = st"
    using apply_rec_ok [OF g assms(2)] assms(1) by (auto simp: applied_ok_def state_inv_def)
  then show ?thesis using gc_ok_apply [OF g assms(2)] by blast
qed

text \<open>
  C9: \<open>apply\<close> implements the durable specification. A record the specification refuses is
  refused without effect, and any other has exactly the specified durable effect, whatever the
  clock says and whether or not the state is replaying.
\<close>
theorem state_apply_refines:
  assumes "state_inv st" and "room_for r st"
  shows "case spec_step r (durable st) of
      None \<Rightarrow> \<exists>e. apply_rec r st = Some (Inl e, st)
    | Some d \<Rightarrow> \<exists>st'. apply_rec r st = Some (Inr (), st') \<and> state_inv st' \<and> durable st' = d"
  using apply_refines [OF assms(1) [unfolded state_inv_def] assms(2)] by (simp add: state_inv_def split: option.splits)

text \<open>
  C13: the full consistency check that the code runs on itself accepts every state reached
  under the invariant, in whatever order the hash map of jobs is walked.
\<close>
theorem state_check_accepts:
  assumes "state_inv st" and "distinct order" and "set order = dom (st_jobs st)"
  shows "check_invariants order st = Inr ()"
  using assms by (rule check_invariants_ok)

text \<open>
  C11: advancing the timers never aborts and changes nothing durable. It reports exactly the
  leased jobs whose timer is due and whose lease has run out on the wall clock, each once:
  a lease never ends before its expiry time. A scheduled job becomes ready exactly when its timer
  is due and its run time has come; every other job keeps its state. After it, every ready
  job is in the heap of its queue, where a worker finds it.
\<close>
theorem state_timers_report_lapsed:
  assumes "state_inv st" and "tick_ok (word_of_int (st_mono_now st))"
  shows "\<exists>ids st'. advance_timers [] st = Some (ids, st') \<and> distinct ids \<and> durable st' = durable st \<and>
    set ids = {te_id e |e. e \<in> pending (st_wheel st) \<and>
      te_deadline e \<le> max (tw_now (st_wheel st)) (word_of_int (st_mono_now st)) \<and>
      (\<exists>j. st_jobs st (te_id e) = Some j \<and> j_state j = kLeased \<and> j_lease_expires_at j \<le> st_wall_now st)} \<and>
    (\<forall>i j. st_jobs st i = Some j \<longrightarrow> (\<exists>j'. st_jobs st' i = Some j' \<and>
      j_state j' = (if j_state j = kScheduled \<and> j_run_at j \<le> st_wall_now st \<and>
          (\<exists>e\<in>pending (st_wheel st). te_id e = i \<and> te_deadline e \<le> max (tw_now (st_wheel st)) (word_of_int (st_mono_now st)))
        then kReady else j_state j) \<and>
      (j_state j' = kReady \<longrightarrow> (\<exists>q. find_queue (j_queue j') st' = Some q \<and> i \<in> set (q_ready q))))) \<and>
    (gc_ok st \<longrightarrow> gc_ok st')"
proof -
  let ?due = "{e \<in> pending (st_wheel st). te_deadline e \<le> max (tw_now (st_wheel st)) (word_of_int (st_mono_now st))}"
  obtain ids st' where a: "advance_timers [] st = Some (ids, st')" "distinct ids" "durable st' = durable st"
      "good st' {} (set ids) {}" "st_finished_gc st' = st_finished_gc st"
    and ids: "set ids = {te_id e |e. e \<in> ?due \<and>
      (\<exists>j. st_jobs st (te_id e) = Some j \<and> j_state j = kLeased \<and> j_lease_expires_at j \<le> st_wall_now st)}"
    and jobs: "\<forall>i j. st_jobs st i = Some j \<longrightarrow> (\<exists>j'. st_jobs st' i = Some j' \<and> core j' = core
      (if j_state j = kScheduled \<and> j_run_at j \<le> st_wall_now st \<and> i \<in> te_id ` ?due then j\<lparr>j_state := kReady\<rparr> else j))"
    using advance_timers_reports [OF assms] by blast
  have "\<exists>j'. st_jobs st' i = Some j' \<and>
      j_state j' = (if j_state j = kScheduled \<and> j_run_at j \<le> st_wall_now st \<and>
          (\<exists>e\<in>pending (st_wheel st). te_id e = i \<and> te_deadline e \<le> max (tw_now (st_wheel st)) (word_of_int (st_mono_now st)))
        then kReady else j_state j) \<and>
      (j_state j' = kReady \<longrightarrow> (\<exists>q. find_queue (j_queue j') st' = Some q \<and> i \<in> set (q_ready q)))"
    if j: "st_jobs st i = Some j" for i j
  proof -
    have due: "i \<in> te_id ` ?due \<longleftrightarrow> (\<exists>e\<in>pending (st_wheel st). te_id e = i \<and>
        te_deadline e \<le> max (tw_now (st_wheel st)) (word_of_int (st_mono_now st)))" by blast
    obtain j' where j': "st_jobs st' i = Some j'" and c: "core j' = core
        (if j_state j = kScheduled \<and> j_run_at j \<le> st_wall_now st \<and> i \<in> te_id ` ?due then j\<lparr>j_state := kReady\<rparr> else j)"
      using jobs j by blast
    have s: "j_state j' =
        (if j_state j = kScheduled \<and> j_run_at j \<le> st_wall_now st \<and> i \<in> te_id ` ?due then kReady else j_state j)"
      unfolding core_eq_fields(9) [OF c] by (rule trans [OF if_distrib [of j_state]]) simp
    have "j_state j \<noteq> kLeased" if "j_state j' = kReady" using that s by (auto split: if_splits)
    then have "i \<notin> set ids" if "j_state j' = kReady" unfolding ids using that j by auto
    then show ?thesis using ready_queued [OF a(4) j'] j' s [unfolded due] by blast
  qed
  moreover have "set ids = {te_id e |e. e \<in> pending (st_wheel st) \<and>
      te_deadline e \<le> max (tw_now (st_wheel st)) (word_of_int (st_mono_now st)) \<and>
      (\<exists>j. st_jobs st (te_id e) = Some j \<and> j_state j = kLeased \<and> j_lease_expires_at j \<le> st_wall_now st)}"
    unfolding ids by blast
  ultimately show ?thesis using a(1-3) gc_ok_same [OF a(3,5)] by (intro exI [of _ ids] exI [of _ st'] conjI) simp_all
qed

text \<open>
  C12: garbage collection never aborts and keeps the state consistent. It drops a succeeded or
  cancelled job only when the retention time of finished jobs is over and a dead job only when
  the retention time of dead jobs is over, leaves all other jobs as they are and drops exactly
  the leading idempotency entries that have expired. It relies on the list of finished jobs
  naming no dead job, which every operation on the state keeps up.
\<close>
theorem state_gc_drops_only_expired:
  assumes "state_inv st" and "gc_ok st" and "\<not> st_replaying st"
  shows "\<exists>st'. collect_garbage st = Some st' \<and> state_inv st' \<and> gc_ok st' \<and>
    st_idem_order st' = dropWhile (\<lambda>e. ie_expires_at e \<le> st_wall_now st) (st_idem_order st) \<and>
    drops (\<lambda>j. (j_state j = kSucceeded \<or> j_state j = kCancelled) \<and>
          j_finished_at j + so_retain_finished_ms (st_options st) \<le> st_wall_now st \<or>
        j_state j = kDead \<and> j_finished_at j + so_retain_dead_ms (st_options st) \<le> st_wall_now st) (st_jobs st) (st_jobs st')"
proof -
  let ?P = "\<lambda>j. over (so_retain_finished_ms (st_options st)) {kSucceeded, kCancelled} (st_wall_now st) j \<or>
    over (so_retain_dead_ms (st_options st)) {kDead} (st_wall_now st) j"
  obtain st' where st': "collect_garbage st = Some st'" "state_inv st'" "same_counters (durable st') (durable st)"
      "set (st_finished_gc st') \<subseteq> set (st_finished_gc st)"
      "st_idem_order st' = dropWhile (\<lambda>e. ie_expires_at e \<le> st_wall_now st) (st_idem_order st)"
      "drops ?P (st_jobs st) (st_jobs st')"
    using collect_garbage_ok [OF assms(1,3) refs_in_finished [OF assms(2)]] by blast
  show ?thesis
    using st' gc_ok_collected [OF assms(2) st'(3,4,6)] by (intro exI [of _ st'] conjI) (simp_all add: over_def)
qed

text \<open>
  C10: re-deriving everything that is not durable, as after a replay or a jump of the wall
  clock, never aborts, ends in a consistent state and changes nothing durable, in whatever
  order the hash map of jobs is walked and whatever the indexes held before. The list of finished
  jobs it builds names only jobs that have succeeded or were cancelled.
\<close>
theorem state_rebuild_restores:
  assumes "rebuildable st" and "\<not> st_replaying st" and "tick_ok (word_of_int (st_mono_now st))"
    and "distinct order" and "set order = dom (st_jobs st)"
  shows "\<exists>st'. rebuild_derived order grace st = Some st' \<and> state_inv st' \<and> durable st' = durable st \<and> gc_ok st'"
  using rebuild_derived_ok [OF assms] by blast

section \<open>Witnesses\<close>

text \<open>An empty state, and a record that adds its first job.\<close>

definition sample_abi :: Abi where
  "sample_abi = \<lparr>abi_sizeof_job = 264, abi_inline_capacity = 15, abi_fresh_capacity = (\<lambda>n. max 15 n),
     abi_assign_capacity = (\<lambda>c n. max c n)\<rparr>"

definition sample_state :: State where
  "sample_state = mk_state sample_abi \<lparr>so_retain_finished_ms = 1000, so_retain_dead_ms = 5000\<rparr>"

definition sample_enqueue :: JobEnqueued where
  "sample_enqueue = \<lparr>je_id = 1, je_queue = str ''mail'', je_payload = str ''hi'', je_priority = 0, je_run_at = 0,
     je_max_attempts = 3, je_backoff_base_ms = 100, je_backoff_cap_ms = 1000, je_idem_key = [],
     je_idem_expires_at = 0, je_at = 0\<rparr>"

lemma sample_inv: "state_inv sample_state"
  by (simp add: sample_state_def mk_state_inv)

lemma sample_room: "room_for (RJobEnqueued sample_enqueue) sample_state"
  by (simp add: room_for_def sample_state_def mk_state_def kNil_def)

lemma sample_spec: "spec_step (RJobEnqueued sample_enqueue) (durable sample_state) \<noteq> None"
  by (simp add: spec_enqueue_def sample_enqueue_def sample_state_def durable_def mk_state_def Let_def str_def)

theorem state_apply_safe_witness:
  "\<exists>res st'. apply_rec (RJobEnqueued sample_enqueue) sample_state = Some (res, st') \<and> state_inv st'"
  using state_apply_safe [OF sample_inv sample_room] by blast

theorem state_apply_refines_witness:
  "\<exists>d st'. spec_step (RJobEnqueued sample_enqueue) (durable sample_state) = Some d \<and>
     apply_rec (RJobEnqueued sample_enqueue) sample_state = Some (Inr (), st') \<and> durable st' = d"
  using state_apply_refines [OF sample_inv sample_room] sample_spec by (auto split: option.splits)

lemma sample_run:
  "\<exists>st. apply_rec (RJobEnqueued sample_enqueue) sample_state = Some (Inr (), st) \<and> state_inv st \<and>
     dom (st_jobs st) = {1} \<and> \<not> st_replaying st \<and> st_wall_now st = 0 \<and> st_mono_now st = 0 \<and> gc_ok st"
proof -
  let ?r = "RJobEnqueued sample_enqueue"
  have e: "enabled ?r sample_state" by (simp add: sample_enqueue_def sample_state_def mk_state_def str_def)
  obtain st where st: "apply_rec ?r sample_state = Some (Inr (), st)" "state_inv st"
      "outer st = enqueue_core sample_enqueue (outer sample_state)"
    using apply_rec_ok [OF sample_inv [unfolded state_inv_def] sample_room] apply_enabled [OF e]
    by (auto simp: applied_ok_def state_inv_def)
  have i: "je_id sample_enqueue = 1" "je_idem_key sample_enqueue = []" by (simp_all add: sample_enqueue_def)
  have "cores (st_jobs st) = st_jobs (enqueue_core sample_enqueue (outer sample_state))"
    using arg_cong [OF st(3), of st_jobs] by (simp add: outer_fields)
  moreover have "dom (st_jobs (enqueue_core sample_enqueue (outer sample_state))) = {1}"
    using i by (simp add: enqueue_core_def Let_def st_jobs_set_state [where j = "core (enqueue_job (st_abi (outer sample_state)) sample_enqueue)"]
        enqueue_job_def outer_fields cores_def sample_state_def mk_state_def)
  moreover have "st_replaying (enqueue_core sample_enqueue st0) = st_replaying st0"
    "st_wall_now (enqueue_core sample_enqueue st0) = st_wall_now st0"
    "st_mono_now (enqueue_core sample_enqueue st0) = st_mono_now st0" for st0
    using i by (simp_all add: enqueue_core_def Let_def add_job_def get_or_create_queue_def split: option.split)
  then have "st_replaying st = st_replaying sample_state" "st_wall_now st = st_wall_now sample_state" "st_mono_now st = st_mono_now sample_state"
    using arg_cong [OF st(3), of st_wall_now] arg_cong [OF st(3), of st_replaying] arg_cong [OF st(3), of st_mono_now] by (simp_all add: outer_fields)
  moreover have "gc_ok st"
    using gc_ok_apply [OF sample_inv [unfolded state_inv_def] sample_room _ st(1)] by (simp add: gc_ok_def sample_state_def mk_state_def)
  ultimately show ?thesis using st(1,2) cores_dom [of "st_jobs st"] by (simp add: sample_state_def mk_state_def)
qed

theorem state_check_accepts_witness:
  "\<exists>st. apply_rec (RJobEnqueued sample_enqueue) sample_state = Some (Inr (), st) \<and> check_invariants [1] st = Inr ()"
  using sample_run state_check_accepts [of _ "[1]"] by fastforce

definition sample_lease :: JobLeased where
  "sample_lease = \<lparr>jl_id = 1, jl_token = 1, jl_lease_expires_at = 50, jl_at = 0\<rparr>"

lemma sample_leased:
  "\<exists>st1 st. apply_rec (RJobEnqueued sample_enqueue) sample_state = Some (Inr (), st1) \<and>
     apply_rec (RJobLeased sample_lease) st1 = Some (Inr (), st) \<and> state_inv st \<and>
     (\<exists>j. st_jobs st 1 = Some j \<and> j_state j = kLeased \<and> j_lease_expires_at j = 50) \<and>
     (\<exists>e\<in>pending (st_wheel st). te_id e = 1 \<and> te_deadline e = 50)"
proof -
  let ?r = "RJobEnqueued sample_enqueue" and ?l = "RJobLeased sample_lease"
  obtain st1 where st1: "apply_rec ?r sample_state = Some (Inr (), st1)" "state_inv st1" "\<not> st_replaying st1"
      "st_wall_now st1 = 0" "st_mono_now st1 = 0"
    using sample_run by blast
  have "case spec_step ?r (durable sample_state) of None \<Rightarrow> False | Some d \<Rightarrow> durable st1 = d"
    using apply_refines [OF sample_inv [unfolded state_inv_def] sample_room] st1(1) by (auto split: option.splits)
  then have d1: "d_jobs (durable st1) 1 = Some (spec_job sample_enqueue)" "d_next_token (durable st1) = 1"
    by (simp_all add: spec_enqueue_def sample_enqueue_def sample_state_def durable_def mk_state_def Let_def str_def put_job_def
        add_total_def split: option.splits)
  have room: "room_for ?l st1" using d1(2) by (simp add: room_for_def durable_def)
  have "\<exists>d p. spec_step ?l (durable st1) = Some d \<and> d_jobs d 1 = Some p \<and> j_state p = kLeased \<and> j_lease_expires_at p = 50"
    using d1 by (simp add: spec_lease_def sample_lease_def spec_job_def sample_enqueue_def put_job_def)
  then obtain st p where st: "apply_rec ?l st1 = Some (Inr (), st)" "state_inv st"
      "d_jobs (durable st) 1 = Some p" "j_state p = kLeased" "j_lease_expires_at p = 50"
    using apply_refines [OF st1(2) [unfolded state_inv_def] room] by (auto simp: state_inv_def)
  obtain j where j: "st_jobs st 1 = Some j" "p = persist j" using st(3) by (auto simp: durable_def)
  moreover have "j_lease_expires_at j = 50" using st(5) j(2) by (simp add: persist_def)
  moreover have "\<exists>e\<in>pending (st_wheel st). te_id e = 1 \<and> te_deadline e = 50"
    using lease_applied_timer [OF st1(2) [unfolded state_inv_def] st1(3) st(1)] st1(4,5) by (simp add: sample_lease_def)
  ultimately show ?thesis using st1(1) st(1,2,4) by (intro exI [of _ st1] exI [of _ st]) simp
qed

theorem state_timers_report_lapsed_witness:
  "\<exists>st1 st. apply_rec (RJobEnqueued sample_enqueue) sample_state = Some (Inr (), st1) \<and>
     apply_rec (RJobLeased sample_lease) st1 = Some (Inr (), st) \<and>
     (\<exists>ids st'. advance_timers [] (set_now 100 100 st) = Some (ids, st') \<and> 1 \<in> set ids \<and> distinct ids \<and>
        durable st' = durable st \<and> (\<exists>j. st_jobs st' 1 = Some j \<and> j_state j = kLeased))"
proof -
  obtain st1 st j e where st: "apply_rec (RJobEnqueued sample_enqueue) sample_state = Some (Inr (), st1)"
      "apply_rec (RJobLeased sample_lease) st1 = Some (Inr (), st)" "state_inv st"
    and j: "st_jobs st 1 = Some j" "j_state j = kLeased" "j_lease_expires_at j = 50"
    and e: "e \<in> pending (st_wheel st)" "te_id e = 1" "te_deadline e = 50"
    using sample_leased by blast
  let ?st = "set_now 100 100 st"
  have f: "st_jobs ?st = st_jobs st" "st_wheel ?st = st_wheel st" "durable ?st = durable st" "st_wall_now ?st = 100" "st_mono_now ?st = 100"
    by (simp_all add: set_now_def durable_def)
  have "state_inv ?st" using st(3) by (simp add: state_inv_def set_now_good)
  moreover have "tick_ok (word_of_int (st_mono_now ?st))" using f by (simp add: tick_ok_def)
  ultimately obtain ids st' where a: "advance_timers [] ?st = Some (ids, st')" "distinct ids" "durable st' = durable ?st"
      "set ids = {te_id e |e. e \<in> pending (st_wheel ?st) \<and>
        te_deadline e \<le> max (tw_now (st_wheel ?st)) (word_of_int (st_mono_now ?st)) \<and>
        (\<exists>j. st_jobs ?st (te_id e) = Some j \<and> j_state j = kLeased \<and> j_lease_expires_at j \<le> st_wall_now ?st)}"
    and s: "\<exists>j'. st_jobs st' 1 = Some j' \<and> j_state j' = kLeased"
    using state_timers_report_lapsed [of ?st] j f(1) by fastforce
  have "te_deadline e \<le> max (tw_now (st_wheel st)) 100" using e(3) by (simp add: le_max_iff_disj)
  then have "1 \<in> set ids" unfolding a(4) f using e j by force
  then show ?thesis using st(1,2) a(1-3) s f(3) by auto
qed

theorem state_gc_drops_only_expired_witness:
  "\<exists>st. apply_rec (RJobEnqueued sample_enqueue) sample_state = Some (Inr (), st) \<and>
     (\<exists>st'. collect_garbage st = Some st' \<and> state_inv st' \<and> gc_ok st')"
  using sample_run state_gc_drops_only_expired by blast

theorem state_rebuild_restores_witness:
  "\<exists>st. apply_rec (RJobEnqueued sample_enqueue) sample_state = Some (Inr (), st) \<and> rebuildable st \<and>
     (\<exists>st'. rebuild_derived [1] 5000 st = Some st' \<and> state_inv st' \<and> durable st' = durable st)"
proof -
  obtain st where st: "apply_rec (RJobEnqueued sample_enqueue) sample_state = Some (Inr (), st)" "state_inv st"
      "dom (st_jobs st) = {1}" "\<not> st_replaying st" "st_mono_now st = 0"
    using sample_run by blast
  have r: "rebuildable st" using state_inv_rebuildable [OF st(2), of "st_replaying st"] by simp
  have "tick_ok (word_of_int (st_mono_now st))" using st(5) by (simp add: tick_ok_def)
  from state_rebuild_restores [OF r st(4) this, of "[1]" 5000] show ?thesis using r st by auto
qed

end
