(* ===== verification/Engine.thy ===== *)
theory Engine
  imports StateProps
begin

text \<open>
  \<^verbatim>\<open>state/engine.h\<close> and \<^verbatim>\<open>state/engine.cpp\<close>: one method per command. The record sink and the
  random generator are interfaces of the engine: an \<open>Env\<close> holds their operations, and the
  engine holds their states. The readings of the two clocks are arguments of the methods that
  read them, and so is the iteration order of the hash map of jobs where it matters.
\<close>

unbundle bit_operations_syntax

section \<open>Data\<close>

record EngineOptions =
  eo_default_max_attempts :: u32
  eo_default_backoff_base_ms :: u32
  eo_default_backoff_cap_ms :: u32
  eo_default_lease_ms :: DurationMs
  eo_idempotency_window_ms :: DurationMs
  eo_max_payload_bytes :: nat
  eo_max_memory_bytes :: u64
  eo_min_lease_ms :: DurationMs
  eo_max_lease_ms :: DurationMs
  eo_max_delay_ms :: DurationMs
  eo_max_max_attempts :: u32
  eo_lease_grace_ms :: DurationMs
  eo_clock_jump_threshold_ms :: DurationMs

definition default_engine_options :: EngineOptions where
  "default_engine_options = \<lparr>eo_default_max_attempts = 10, eo_default_backoff_base_ms = 1000,
     eo_default_backoff_cap_ms = 600000, eo_default_lease_ms = 30000,
     eo_idempotency_window_ms = 24 * 60 * 60 * 1000, eo_max_payload_bytes = 1048576, eo_max_memory_bytes = 0,
     eo_min_lease_ms = 100, eo_max_lease_ms = 24 * 60 * 60 * 1000, eo_max_delay_ms = 366 * 24 * 60 * 60 * 1000,
     eo_max_max_attempts = 1000, eo_lease_grace_ms = 5000, eo_clock_jump_threshold_ms = 1000\<rparr>"

definition kMaxQueueNameBytes :: nat where "kMaxQueueNameBytes = 128"
definition kMaxIdemKeyBytes :: nat where "kMaxIdemKeyBytes = 256"
definition kMaxErrorBytes :: nat where "kMaxErrorBytes = 1024"
definition kPurgeChunk :: nat where "kPurgeChunk = 10000"

record EnqueueRequest =
  er_queue :: bytes
  er_payload :: bytes
  er_priority :: int
  er_delay_ms :: DurationMs
  er_run_at :: "WallTime option"
  er_max_attempts :: "u32 option"
  er_backoff_base_ms :: "u32 option"
  er_backoff_cap_ms :: "u32 option"
  er_idem_key :: bytes

record EnqueueResult =
  enq_id :: JobId
  enq_created :: bool

record Reservation =
  rs_id :: JobId
  rs_token :: LeaseToken
  rs_queue :: bytes
  rs_payload :: bytes
  rs_attempt :: u32
  rs_max_attempts :: u32
  rs_lease_expires_at :: WallTime

record FailRequest =
  fq_id :: JobId
  fq_token :: LeaseToken
  fq_error :: bytes
  fq_retry_in_ms :: "DurationMs option"
  fq_no_retry :: bool

record FailResult =
  fl_dead :: bool
  fl_retry_at :: WallTime

text \<open>\<^verbatim>\<open>RecordSink::append\<close>, and a uniform draw from [0, n].\<close>

record ('s, 'g) Env =
  ev_append :: "byte \<Rightarrow> bytes \<Rightarrow> 's \<Rightarrow> Lsn \<times> 's"
  ev_draw :: "int \<Rightarrow> 'g \<Rightarrow> int \<times> 'g"

record ('s, 'g) Engine =
  en_state :: State
  en_options :: EngineOptions
  en_sink :: 's
  en_rng :: 'g
  en_last_lsn :: Lsn
  en_clock_offset_ms :: DurationMs
  en_clock_jumps :: u64

type_synonym ('a, 's, 'g) engine_result = "('a Result \<times> ('s, 'g) Engine) option"

section \<open>Helpers\<close>

definition invalid :: "fmt_arg list \<Rightarrow> Error" where
  "invalid what = mk_error kInvalidArgument what"

definition limit_error :: "fmt_arg list \<Rightarrow> Error" where
  "limit_error what = mk_error kLimitExceeded what"

definition estimated_job_bytes :: "Abi \<Rightarrow> EnqueueRequest \<Rightarrow> u64" where
  "estimated_job_bytes abi req =
     abi_sizeof_job abi + 256 + of_nat (length (er_payload req)) + 2 * of_nat (length (er_idem_key req))"

definition queue_name_char :: "byte \<Rightarrow> bool" where
  "queue_name_char c \<longleftrightarrow> (97 \<le> c \<and> c \<le> 122) \<or> (65 \<le> c \<and> c \<le> 90) \<or> (48 \<le> c \<and> c \<le> 57) \<or>
     c = 46 \<or> c = 95 \<or> c = 58 \<or> c = 45"

definition is_valid_queue_name :: "bytes \<Rightarrow> bool" where
  "is_valid_queue_name name \<longleftrightarrow> name \<noteq> [] \<and> length name \<le> kMaxQueueNameBytes \<and> list_all queue_name_char name"

definition bad_queue_name :: Error where
  "bad_queue_name = invalid [FS ''queue name must match [A-Za-z0-9._:-]{1,128}'']"

definition mk_engine :: "State \<Rightarrow> 's \<Rightarrow> WallTime \<Rightarrow> int \<Rightarrow> EngineOptions \<Rightarrow> 'g \<Rightarrow> Lsn \<Rightarrow> ('s, 'g) Engine" where
  "mk_engine st sink wall mono_ms opts rng last_lsn =
     \<lparr>en_state = set_now wall mono_ms st, en_options = opts, en_sink = sink, en_rng = rng, en_last_lsn = last_lsn,
      en_clock_offset_ms = wall - mono_ms, en_clock_jumps = 0\<rparr>"

definition log_and_apply :: "('s, 'g) Env \<Rightarrow> Record \<Rightarrow> ('s, 'g) Engine \<Rightarrow> ('s, 'g) Engine option" where
  "log_and_apply env rec en = do {
     (applied, st) \<leftarrow> apply_rec rec (en_state en);
     baton_check (ok applied);
     let (lsn, sink) = ev_append env (type_of rec) (encode_record rec) (en_sink en);
     Some (en\<lparr>en_state := st, en_sink := sink, en_last_lsn := lsn\<rparr>)
   }"

definition backoff_ceiling :: "u32 \<Rightarrow> u32 \<Rightarrow> u32 \<Rightarrow> DurationMs" where
  "backoff_ceiling attempts base_ms cap_ms =
     (let doublings = (if attempts = 0 then 0 else attempts - 1) in
      if doublings \<ge> 32 then uint cap_ms
      else uint (min (push_bit (unat doublings) (ucast base_ms :: u64)) (ucast cap_ms :: u64)))"

definition decide_failure ::
  "('s, 'g) Env \<Rightarrow> Job \<Rightarrow> FailureReason \<Rightarrow> bytes \<Rightarrow> DurationMs option \<Rightarrow> bool \<Rightarrow> ('s, 'g) Engine \<Rightarrow>
     AttemptFailed \<times> ('s, 'g) Engine" where
  "decide_failure env job reason error retry_in_ms no_retry en =
     (let now = st_wall_now (en_state en);
          rec = \<lparr>af_id = j_id job, af_token = j_lease_token job, af_reason = reason,
                 af_error = take kMaxErrorBytes error, af_at = now, af_dead = False, af_retry_at = 0\<rparr>
      in if no_retry \<or> j_attempts job \<ge> j_max_attempts job then (rec\<lparr>af_dead := True\<rparr>, en)
         else case retry_in_ms of
             Some d \<Rightarrow> (rec\<lparr>af_retry_at := now + d\<rparr>, en)
           | None \<Rightarrow>
               let (d, rng) = ev_draw env (backoff_ceiling (j_attempts job) (j_backoff_base_ms job) (j_backoff_cap_ms job)) (en_rng en)
               in (rec\<lparr>af_retry_at := now + d\<rparr>, en\<lparr>en_rng := rng\<rparr>))"

section \<open>Ticks\<close>

definition detect_clock_jump :: "JobId list \<Rightarrow> int \<Rightarrow> ('s, 'g) Engine \<Rightarrow> ('s, 'g) Engine option" where
  "detect_clock_jump order mono_now en =
     (let offset = st_wall_now (en_state en) - mono_now;
          change = offset - en_clock_offset_ms en;
          en1 = en\<lparr>en_clock_offset_ms := offset\<rparr>
      in if \<bar>change\<bar> \<le> eo_clock_jump_threshold_ms (en_options en) then Some en1
         else do {
           st \<leftarrow> rebuild_derived order (eo_lease_grace_ms (en_options en)) (en_state en1);
           Some (en1\<lparr>en_clock_jumps := en_clock_jumps en1 + 1, en_state := st\<rparr>)
         })"

primrec expire_leases :: "('s, 'g) Env \<Rightarrow> JobId list \<Rightarrow> ('s, 'g) Engine \<Rightarrow> ('s, 'g) Engine option" where
  "expire_leases env [] en = Some en"
| "expire_leases env (i # ids) en =
     (case find_job i (en_state en) of
        None \<Rightarrow> expire_leases env ids en
      | Some job \<Rightarrow>
          if j_state job \<noteq> kLeased then expire_leases env ids en
          else do {
            let (rec, en1) = decide_failure env job kLeaseExpired (str ''lease expired'') None False en;
            en2 \<leftarrow> log_and_apply env (RAttemptFailed rec) en1;
            expire_leases env ids en2
          })"

text \<open>The three clock readings of a tick, and the order of a rebuild.\<close>

definition tick :: "('s, 'g) Env \<Rightarrow> WallTime \<Rightarrow> int \<Rightarrow> int \<Rightarrow> JobId list \<Rightarrow> ('s, 'g) Engine \<Rightarrow> ('s, 'g) Engine option" where
  "tick env wall mono_ms mono_ms' order en = do {
     let en1 = en\<lparr>en_state := set_now wall mono_ms (en_state en)\<rparr>;
     en2 \<leftarrow> detect_clock_jump order mono_ms' en1;
     (expired, st) \<leftarrow> advance_timers [] (en_state en2);
     en3 \<leftarrow> expire_leases env expired (en2\<lparr>en_state := st\<rparr>);
     st' \<leftarrow> collect_garbage (en_state en3);
     Some (en3\<lparr>en_state := st'\<rparr>)
   }"

definition next_deadline :: "('s, 'g) Engine \<Rightarrow> int option" where
  "next_deadline en = next_timer_deadline (en_state en)"

section \<open>Commands\<close>

definition value_or :: "'a option \<Rightarrow> 'a \<Rightarrow> 'a" where
  "value_or x d = (case x of None \<Rightarrow> d | Some v \<Rightarrow> v)"

definition enqueue_record :: "EnqueueRequest \<Rightarrow> ('s, 'g) Engine \<Rightarrow> JobEnqueued" where
  "enqueue_record req en =
     (let opts = en_options en; now = st_wall_now (en_state en);
          backoff_base = value_or (er_backoff_base_ms req) (eo_default_backoff_base_ms opts) in
      \<lparr>je_id = st_next_job_id (en_state en), je_queue = er_queue req, je_payload = er_payload req,
       je_priority = er_priority req, je_run_at = max now (value_or (er_run_at req) (now + er_delay_ms req)),
       je_max_attempts = value_or (er_max_attempts req) (eo_default_max_attempts opts),
       je_backoff_base_ms = backoff_base,
       je_backoff_cap_ms = max backoff_base (value_or (er_backoff_cap_ms req) (eo_default_backoff_cap_ms opts)),
       je_idem_key = er_idem_key req,
       je_idem_expires_at = (if er_idem_key req \<noteq> [] then now + eo_idempotency_window_ms opts else 0),
       je_at = now\<rparr>)"

definition enqueue :: "('s, 'g) Env \<Rightarrow> EnqueueRequest \<Rightarrow> ('s, 'g) Engine \<Rightarrow> (EnqueueResult, 's, 'g) engine_result" where
  "enqueue env req en =
     (let st = en_state en; opts = en_options en; now = st_wall_now st;
          max_attempts = value_or (er_max_attempts req) (eo_default_max_attempts opts);
          hit = (if er_idem_key req = [] then None
                 else case find_idem (er_idem_key req) st of
                     None \<Rightarrow> None
                   | Some e \<Rightarrow> if ie_expires_at e > now then Some (ie_job_id e) else None)
      in
      if \<not> is_valid_queue_name (er_queue req) then Some (Inl bad_queue_name, en)
      else if length (er_payload req) > eo_max_payload_bytes opts
      then Some (Inl (limit_error [FS ''payload of '', FU (length (er_payload req)), FS '' bytes exceeds max-payload of '',
             FU (eo_max_payload_bytes opts), FS '' bytes'']), en)
      else if length (er_idem_key req) > kMaxIdemKeyBytes
      then Some (Inl (invalid [FS ''idempotency key longer than '', FU kMaxIdemKeyBytes, FS '' bytes'']), en)
      else if er_delay_ms req < 0 \<or> er_delay_ms req > eo_max_delay_ms opts
      then Some (Inl (invalid [FS ''delay must be between 0 and '', FI (eo_max_delay_ms opts), FS '' ms'']), en)
      else if (case er_run_at req of None \<Rightarrow> False | Some t \<Rightarrow> t - now > eo_max_delay_ms opts)
      then Some (Inl (invalid [FS ''run-at is more than '', FI (eo_max_delay_ms opts), FS '' ms in the future'']), en)
      else if max_attempts = 0 \<or> max_attempts > eo_max_max_attempts opts
      then Some (Inl (invalid [FS ''max attempts must be between 1 and '', FU (unat (eo_max_max_attempts opts))]), en)
      else case hit of
          Some i \<Rightarrow> Some (Inr \<lparr>enq_id = i, enq_created = False\<rparr>, en)
        | None \<Rightarrow>
            if eo_max_memory_bytes opts \<noteq> 0 \<and> st_memory_bytes st + estimated_job_bytes (st_abi st) req > eo_max_memory_bytes opts
            then Some (Inl (limit_error [FS ''max-memory of '', FU (unat (eo_max_memory_bytes opts)),
                   FS '' bytes reached; ACK or purge jobs, or raise the limit'']), en)
            else do {
              let rec = enqueue_record req en;
              en1 \<leftarrow> log_and_apply env (RJobEnqueued rec) en;
              Some (Inr \<lparr>enq_id = je_id rec, enq_created = True\<rparr>, en1)
            })"

definition bad_lease :: "EngineOptions \<Rightarrow> Error" where
  "bad_lease opts = invalid [FS ''lease must be between '', FI (eo_min_lease_ms opts), FS '' and '',
     FI (eo_max_lease_ms opts), FS '' ms'']"

definition reservation_of :: "Job \<Rightarrow> Reservation" where
  "reservation_of job = \<lparr>rs_id = j_id job, rs_token = j_lease_token job, rs_queue = j_queue job,
     rs_payload = j_payload job, rs_attempt = j_attempts job, rs_max_attempts = j_max_attempts job,
     rs_lease_expires_at = j_lease_expires_at job\<rparr>"

primrec reserve_from :: "('s, 'g) Env \<Rightarrow> bytes list \<Rightarrow> DurationMs \<Rightarrow> ('s, 'g) Engine \<Rightarrow>
    (Reservation option, 's, 'g) engine_result" where
  "reserve_from env [] lease_ms en = Some (Inr None, en)"
| "reserve_from env (name # names) lease_ms en =
     (let st = en_state en; now = st_wall_now st in
      case find_queue name st of
        None \<Rightarrow> reserve_from env names lease_ms en
      | Some q \<Rightarrow>
          (case heap_top (q_ready q) of
             None \<Rightarrow> reserve_from env names lease_ms en
           | Some i \<Rightarrow> do {
               en1 \<leftarrow> log_and_apply env (RJobLeased \<lparr>jl_id = j_id (job_of st i), jl_token = st_next_token st,
                        jl_lease_expires_at = now + lease_ms, jl_at = now\<rparr>) en;
               let job = job_of (en_state en1) i;
               Some (Inr (Some (reservation_of job\<lparr>rs_queue := q_name q\<rparr>)), en1)
             }))"

definition reserve :: "('s, 'g) Env \<Rightarrow> bytes list \<Rightarrow> DurationMs \<Rightarrow> ('s, 'g) Engine \<Rightarrow>
    (Reservation option, 's, 'g) engine_result" where
  "reserve env queues lease_ms en =
     (let opts = en_options en in
      if queues = [] then Some (Inl (invalid [FS ''at least one queue is required'']), en)
      else if \<not> list_all is_valid_queue_name queues then Some (Inl bad_queue_name, en)
      else if lease_ms < eo_min_lease_ms opts \<or> lease_ms > eo_max_lease_ms opts then Some (Inl (bad_lease opts), en)
      else reserve_from env queues lease_ms en)"

definition no_such_job :: "JobId \<Rightarrow> Error" where
  "no_such_job i = mk_error kNotFound [FS ''no such job: '', FU (unat i)]"

definition find_leased :: "JobId \<Rightarrow> LeaseToken \<Rightarrow> ('s, 'g) Engine \<Rightarrow> Job Result" where
  "find_leased i token en =
     (case find_job i (en_state en) of
        None \<Rightarrow> Inl (no_such_job i)
      | Some job \<Rightarrow>
          if j_state job \<noteq> kLeased
          then Inl (mk_error kStaleToken [FS ''job '', FU (unat i), FS '' is '', FS (to_string_state (j_state job)),
                 FS '', not leased: the lease was lost''])
          else if j_lease_token job \<noteq> token
          then Inl (mk_error kStaleToken [FS ''token '', FU (unat token), FS '' is not the current lease of job '',
                 FU (unat i), FS '': it was leased again''])
          else Inr job)"

definition heartbeat :: "('s, 'g) Env \<Rightarrow> JobId \<Rightarrow> LeaseToken \<Rightarrow> DurationMs \<Rightarrow> ('s, 'g) Engine \<Rightarrow> (WallTime, 's, 'g) engine_result" where
  "heartbeat env i token lease_ms en =
     (let opts = en_options en; now = st_wall_now (en_state en) in
      if lease_ms < eo_min_lease_ms opts \<or> lease_ms > eo_max_lease_ms opts then Some (Inl (bad_lease opts), en)
      else case find_leased i token en of
          Inl e \<Rightarrow> Some (Inl e, en)
        | Inr job \<Rightarrow> do {
            en1 \<leftarrow> log_and_apply env (RLeaseExtended \<lparr>le_id = j_id job, le_token = token,
                     le_lease_expires_at = now + lease_ms, le_at = now\<rparr>) en;
            Some (Inr (now + lease_ms), en1)
          })"

definition ack :: "('s, 'g) Env \<Rightarrow> JobId \<Rightarrow> LeaseToken \<Rightarrow> ('s, 'g) Engine \<Rightarrow> (unit, 's, 'g) engine_result" where
  "ack env i token en =
     (let st = en_state en in
      if (case find_job i st of None \<Rightarrow> False | Some d \<Rightarrow> j_state d = kSucceeded \<and> j_lease_token d = token)
      then Some (Inr (), en)
      else case find_leased i token en of
          Inl e \<Rightarrow> Some (Inl e, en)
        | Inr job \<Rightarrow> do {
            en1 \<leftarrow> log_and_apply env (RJobSucceeded \<lparr>js_id = j_id job, js_token = token, js_at = st_wall_now st\<rparr>) en;
            Some (Inr (), en1)
          })"

definition fail :: "('s, 'g) Env \<Rightarrow> FailRequest \<Rightarrow> ('s, 'g) Engine \<Rightarrow> (FailResult, 's, 'g) engine_result" where
  "fail env req en =
     (let opts = en_options en in
      if (case fq_retry_in_ms req of None \<Rightarrow> False | Some d \<Rightarrow> d < 0 \<or> d > eo_max_delay_ms opts)
      then Some (Inl (invalid [FS ''retry-in must be between 0 and '', FI (eo_max_delay_ms opts), FS '' ms'']), en)
      else case find_leased (fq_id req) (fq_token req) en of
          Inl e \<Rightarrow> Some (Inl e, en)
        | Inr job \<Rightarrow> do {
            let (rec, en1) = decide_failure env job kWorkerFailed (fq_error req) (fq_retry_in_ms req) (fq_no_retry req) en;
            en2 \<leftarrow> log_and_apply env (RAttemptFailed rec) en1;
            Some (Inr \<lparr>fl_dead = af_dead rec, fl_retry_at = af_retry_at rec\<rparr>, en2)
          })"

definition cancel_job :: "('s, 'g) Env \<Rightarrow> JobId \<Rightarrow> ('s, 'g) Engine \<Rightarrow> (unit, 's, 'g) engine_result" where
  "cancel_job env i en =
     (case find_job i (en_state en) of
        None \<Rightarrow> Some (Inl (no_such_job i), en)
      | Some job \<Rightarrow>
          if is_terminal (j_state job)
          then Some (Inl (mk_error kFailedPrecondition [FS ''job '', FU (unat i), FS '' is already '',
                 FS (to_string_state (j_state job))]), en)
          else do {
            en1 \<leftarrow> log_and_apply env (RJobCancelled \<lparr>jc_id = i, jc_at = st_wall_now (en_state en)\<rparr>) en;
            Some (Inr (), en1)
          })"

section \<open>The dead-letter queue\<close>

definition find_dead :: "JobId \<Rightarrow> ('s, 'g) Engine \<Rightarrow> Job Result" where
  "find_dead i en =
     (case find_job i (en_state en) of
        None \<Rightarrow> Inl (no_such_job i)
      | Some job \<Rightarrow>
          if j_state job \<noteq> kDead
          then Inl (mk_error kFailedPrecondition [FS ''job '', FU (unat i), FS '' is '',
                 FS (to_string_state (j_state job)), FS '', not dead''])
          else Inr job)"

definition dlq_list :: "bytes \<Rightarrow> nat \<Rightarrow> nat \<Rightarrow> ('s, 'g) Engine \<Rightarrow> (Job option list) Result" where
  "dlq_list queue offset count en =
     (if \<not> is_valid_queue_name queue then Inl bad_queue_name
      else case find_queue queue (en_state en) of
          None \<Rightarrow> Inr []
        | Some q \<Rightarrow>
            if offset \<ge> length (q_dead q) then Inr []
            else Inr (map (\<lambda>i. find_job i (en_state en)) (take count (drop offset (q_dead q)))))"

definition dlq_retry :: "('s, 'g) Env \<Rightarrow> JobId \<Rightarrow> ('s, 'g) Engine \<Rightarrow> (u64, 's, 'g) engine_result" where
  "dlq_retry env i en =
     (case find_dead i en of
        Inl e \<Rightarrow> Some (Inl e, en)
      | Inr job \<Rightarrow> do {
          let now = st_wall_now (en_state en);
          en1 \<leftarrow> log_and_apply env (RDeadJobRetried \<lparr>dr_id = j_id job, dr_run_at = now, dr_at = now\<rparr>) en;
          Some (Inr 1, en1)
        })"

primrec retry_each :: "('s, 'g) Env \<Rightarrow> WallTime \<Rightarrow> JobId list \<Rightarrow> ('s, 'g) Engine \<Rightarrow> ('s, 'g) Engine option" where
  "retry_each env now [] en = Some en"
| "retry_each env now (i # ids) en = do {
     en1 \<leftarrow> log_and_apply env (RDeadJobRetried \<lparr>dr_id = i, dr_run_at = now, dr_at = now\<rparr>) en;
     retry_each env now ids en1
   }"

definition dlq_retry_all :: "('s, 'g) Env \<Rightarrow> bytes \<Rightarrow> ('s, 'g) Engine \<Rightarrow> (u64, 's, 'g) engine_result" where
  "dlq_retry_all env queue en =
     (if \<not> is_valid_queue_name queue then Some (Inl bad_queue_name, en)
      else case find_queue queue (en_state en) of
          None \<Rightarrow> Some (Inr 0, en)
        | Some q \<Rightarrow> do {
            en1 \<leftarrow> retry_each env (st_wall_now (en_state en)) (q_dead q) en;
            Some (Inr (of_nat (length (q_dead q))), en1)
          })"

definition dlq_purge :: "('s, 'g) Env \<Rightarrow> JobId \<Rightarrow> ('s, 'g) Engine \<Rightarrow> (u64, 's, 'g) engine_result" where
  "dlq_purge env i en =
     (case find_dead i en of
        Inl e \<Rightarrow> Some (Inl e, en)
      | Inr job \<Rightarrow> do {
          en1 \<leftarrow> log_and_apply env (RJobsPurged \<lparr>jp_ids = [j_id job]\<rparr>) en;
          Some (Inr 1, en1)
        })"

function purge_chunks :: "('s, 'g) Env \<Rightarrow> JobId list \<Rightarrow> ('s, 'g) Engine \<Rightarrow> ('s, 'g) Engine option" where
  "purge_chunks env ids en =
     (if ids = [] then Some en
      else do {
        en1 \<leftarrow> log_and_apply env (RJobsPurged \<lparr>jp_ids = take kPurgeChunk ids\<rparr>) en;
        purge_chunks env (drop kPurgeChunk ids) en1
      })"
  by pat_completeness auto
termination by (relation "measure (\<lambda>(_, ids, _). length ids)") (auto simp: kPurgeChunk_def)

declare purge_chunks.simps [simp del]

definition dlq_purge_all :: "('s, 'g) Env \<Rightarrow> bytes \<Rightarrow> ('s, 'g) Engine \<Rightarrow> (u64, 's, 'g) engine_result" where
  "dlq_purge_all env queue en =
     (if \<not> is_valid_queue_name queue then Some (Inl bad_queue_name, en)
      else case find_queue queue (en_state en) of
          None \<Rightarrow> Some (Inr 0, en)
        | Some q \<Rightarrow> do {
            en1 \<leftarrow> purge_chunks env (q_dead q) en;
            Some (Inr (of_nat (length (q_dead q))), en1)
          })"

end
