(* ===== verification/EngineInv.thy ===== *)
theory EngineInv
  imports Engine
begin

text \<open>
  The engine keeps the invariant of the state and never aborts: every record it builds
  applies. It also keeps one fact that \<open>State\<close> itself does not check, that a pending job has
  an attempt left.
\<close>

section \<open>What applying leaves alone\<close>

lemma frame_write_totals: "st_mono_now (write_totals i f st) = st_mono_now st" "st_options (write_totals i f st) = st_options st"
  by (simp_all add: write_totals_def)

lemma frame_finish_core:
  "st_replaying (finish_core i t at st) = st_replaying st" "st_wall_now (finish_core i t at st) = st_wall_now st"
  "st_mono_now (finish_core i t at st) = st_mono_now st" "st_options (finish_core i t at st) = st_options st"
  "st_abi (finish_core i t at st) = st_abi st"
  by (simp_all add: finish_core_def Let_def)

lemma frame_note_failure:
  "st_replaying (note_failure r st) = st_replaying st" "st_wall_now (note_failure r st) = st_wall_now st"
  "st_mono_now (note_failure r st) = st_mono_now st" "st_options (note_failure r st) = st_options st"
  "st_abi (note_failure r st) = st_abi st"
  by (simp_all add: note_failure_def Let_def frame_write_totals)

lemma frame_upsert_idem:
  "st_wall_now (upsert_idem k i t st) = st_wall_now st" "st_mono_now (upsert_idem k i t st) = st_mono_now st"
  "st_options (upsert_idem k i t st) = st_options st" "st_abi (upsert_idem k i t st) = st_abi st"
  by (auto simp: upsert_idem_def Let_def split: option.split)

lemma frame_add_job:
  "st_replaying (add_job j st) = st_replaying st" "st_wall_now (add_job j st) = st_wall_now st"
  "st_mono_now (add_job j st) = st_mono_now st" "st_options (add_job j st) = st_options st" "st_abi (add_job j st) = st_abi st"
  by (simp_all add: add_job_def)

lemma frame_get_or_create:
  "st_mono_now (get_or_create_queue n st) = st_mono_now st" "st_options (get_or_create_queue n st) = st_options st"
  by (simp_all add: get_or_create_queue_def split: option.split)

lemma frame_enqueue_core:
  "st_replaying (enqueue_core r st) = st_replaying st" "st_wall_now (enqueue_core r st) = st_wall_now st"
  "st_mono_now (enqueue_core r st) = st_mono_now st" "st_options (enqueue_core r st) = st_options st"
  "st_abi (enqueue_core r st) = st_abi st"
  by (simp_all add: enqueue_core_def Let_def frame_upsert_idem frame_add_job frame_get_or_create)

lemma frame_purge_core:
  "st_replaying (purge_core ids st) = st_replaying st \<and> st_wall_now (purge_core ids st) = st_wall_now st \<and>
   st_mono_now (purge_core ids st) = st_mono_now st \<and> st_options (purge_core ids st) = st_options st \<and>
   st_abi (purge_core ids st) = st_abi st"
  by (induction ids arbitrary: st) (simp_all add: erase_core_def Let_def)

lemma frame_apply_core:
  "st_replaying (apply_core r st) = st_replaying st" "st_wall_now (apply_core r st) = st_wall_now st"
  "st_mono_now (apply_core r st) = st_mono_now st" "st_options (apply_core r st) = st_options st"
  "st_abi (apply_core r st) = st_abi st"
  by (cases r; simp add: lease_core_def succeed_core_def fail_core_def cancel_core_def retry_core_def frame_enqueue_core
      frame_purge_core frame_finish_core frame_note_failure frame_write_totals)+

section \<open>Attempts\<close>

definition att_job :: "Job \<Rightarrow> bool" where
  "att_job j \<longleftrightarrow> 0 < j_max_attempts j \<and> (j_state j = kScheduled \<longrightarrow> j_attempts j < j_max_attempts j)"

definition att_ok :: "Durable \<Rightarrow> bool" where
  "att_ok d \<longleftrightarrow> (\<forall>i j. d_jobs d i = Some j \<longrightarrow> att_job j)"

text \<open>A retry is only scheduled while attempts are left, and a lease only expires when its time has come.\<close>

fun fits :: "Record \<Rightarrow> Durable \<Rightarrow> bool" where
  "fits (RAttemptFailed r) d \<longleftrightarrow> (\<forall>j. d_jobs d (af_id r) = Some j \<longrightarrow> (\<not> af_dead r \<longrightarrow> j_attempts j < j_max_attempts j) \<and>
     (af_reason r = kLeaseExpired \<longrightarrow> j_lease_expires_at j \<le> af_at r))"
| "fits _ d \<longleftrightarrow> True"

lemma att_put: "att_ok d \<Longrightarrow> att_job j \<Longrightarrow> att_ok (put_job i j d)"
  by (auto simp: att_ok_def put_job_def)

lemma att_add [simp]: "att_ok (add_total n f d) = att_ok d"
  by (simp add: att_ok_def add_total_def)

lemma leased_toD: "leased_to i t d = Some j \<Longrightarrow> d_jobs d i = Some j \<and> j_state j = kLeased \<and> j_lease_token j = t"
  by (auto simp: leased_to_def split: option.splits if_splits)

lemma att_other [simp]:
  "att_ok (d\<lparr>d_totals := t\<rparr>) = att_ok d" "att_ok (d\<lparr>d_idem := y\<rparr>) = att_ok d"
  "att_ok (d\<lparr>d_next_job_id := n\<rparr>) = att_ok d" "att_ok (d\<lparr>d_next_token := k\<rparr>) = att_ok d"
  by (simp_all add: att_ok_def)

lemma att_leased:
  assumes "att_ok d" and "map_option F (leased_to i t d) = Some d'"
    and "\<And>j. leased_to i t d = Some j \<Longrightarrow> att_job j \<Longrightarrow> att_ok (F j)"
  shows "att_ok d'"
  using assms leased_toD [of i t d] by (auto simp: att_ok_def)

lemma att_step:
  assumes a: "att_ok d" and f: "fits r d" and s: "spec_step r d = Some d'"
  shows "att_ok d'"
proof -
  have job: "att_job j" if "d_jobs d i = Some j" for i j using a that by (simp add: att_ok_def)
  note put = att_put [OF a]
  show ?thesis
  proof (cases r)
    case (RJobEnqueued x)
    have "att_job (spec_job x)" if "je_max_attempts x \<noteq> 0" using that by (simp add: att_job_def spec_job_def word_gt_0)
    then have "att_ok (put_job (je_id x) (spec_job x) d)" if "je_max_attempts x \<noteq> 0" using put that by blast
    then show ?thesis using RJobEnqueued s by (auto simp: spec_enqueue_def Let_def split: if_splits option.splits)
  next
    case (RJobLeased x)
    then obtain j where j: "d_jobs d (jl_id x) = Some j"
      "d' = (put_job (jl_id x) (j\<lparr>j_state := kLeased, j_attempts := j_attempts j + 1, j_lease_token := jl_token x,
         j_lease_expires_at := jl_lease_expires_at x\<rparr>) d)\<lparr>d_next_token := jl_token x + 1\<rparr>"
      using s by (auto simp: spec_lease_def split: option.splits if_splits)
    show ?thesis unfolding j(2) att_other by (rule put) (use job [OF j(1)] in \<open>simp add: att_job_def\<close>)
  next
    case (RLeaseExtended x)
    show ?thesis
      by (rule att_leased [OF a s [unfolded RLeaseExtended spec_step.simps spec_extend_def]]) (rule put, simp add: att_job_def)
  next
    case (RJobSucceeded x)
    show ?thesis
      by (rule att_leased [OF a s [unfolded RJobSucceeded spec_step.simps spec_succeed_def]]) (simp, rule put, simp add: att_job_def)
  next
    case (RAttemptFailed x)
    have add: "att_ok (add_total n g d)" for n g using a by simp
    show ?thesis
    proof (rule att_leased [OF a s [unfolded RAttemptFailed spec_step.simps spec_fail_def]])
      fix j assume j: "leased_to (af_id x) (af_token x) d = Some j" "att_job j"
      have "j_attempts j < j_max_attempts j" if "\<not> af_dead x" using f RAttemptFailed leased_toD [OF j(1)] that by simp
      then show "att_ok (let d1 = add_total (j_queue j) (\<lambda>t. t\<lparr>qt_failed_attempts := qt_failed_attempts t + 1\<rparr>) d in
          if af_dead x
          then add_total (j_queue j) (\<lambda>t. t\<lparr>qt_dead := qt_dead t + 1\<rparr>)
                 (put_job (af_id x) (j\<lparr>j_state := kDead, j_last_error := af_error x, j_finished_at := af_at x, j_lease_token := 0\<rparr>) d1)
          else put_job (af_id x) (j\<lparr>j_state := kScheduled, j_last_error := af_error x, j_run_at := af_retry_at x, j_lease_token := 0\<rparr>) d1)"
        using j(2) by (simp add: Let_def att_put [OF add] att_job_def)
    qed
  next
    case (RJobCancelled x)
    then obtain j where j: "d_jobs d (jc_id x) = Some j"
      "d' = add_total (j_queue j) (\<lambda>t. t\<lparr>qt_cancelled := qt_cancelled t + 1\<rparr>)
         (put_job (jc_id x) (j\<lparr>j_state := kCancelled, j_finished_at := jc_at x, j_lease_token := 0\<rparr>) d)"
      using s by (auto simp: spec_cancel_def split: option.splits if_splits)
    show ?thesis unfolding j(2) att_add by (rule put) (use job [OF j(1)] in \<open>simp add: att_job_def\<close>)
  next
    case (RDeadJobRetried x)
    then obtain j where j: "d_jobs d (dr_id x) = Some j"
      "d' = put_job (dr_id x) (j\<lparr>j_state := kScheduled, j_attempts := 0, j_finished_at := 0, j_run_at := dr_run_at x\<rparr>) d"
      using s by (auto simp: spec_retry_def split: option.splits if_splits)
    show ?thesis unfolding j(2) by (rule put) (use job [OF j(1)] in \<open>simp add: att_job_def\<close>)
  next
    case (RJobsPurged x)
    then show ?thesis using s job by (auto simp: spec_purge_def att_ok_def split: if_splits)
  qed
qed

section \<open>Logging and applying\<close>

definition eng_good :: "('s, 'g) Engine \<Rightarrow> JobId set \<Rightarrow> bool" where
  "eng_good en X \<longleftrightarrow> good (en_state en) {} X {} \<and> \<not> st_replaying (en_state en) \<and> att_ok (durable (en_state en))"

definition eng_inv :: "('s, 'g) Engine \<Rightarrow> bool" where
  "eng_inv en \<longleftrightarrow> eng_good en {}"

text \<open>What one logged record does to the engine.\<close>

definition logged :: "('s, 'g) Env \<Rightarrow> Record \<Rightarrow> ('s, 'g) Engine \<Rightarrow> ('s, 'g) Engine \<Rightarrow> bool" where
  "logged env r en en' \<longleftrightarrow> spec_step r (durable (en_state en)) = Some (durable (en_state en')) \<and> fits r (durable (en_state en)) \<and>
     same_setting (en_state en') (en_state en) \<and> en_options en' = en_options en \<and> en_rng en' = en_rng en \<and>
     (en_last_lsn en', en_sink en') = ev_append env (type_of r) (encode_record r) (en_sink en) \<and>
     d_next_job_id (durable (en_state en)) \<le> d_next_job_id (durable (en_state en')) \<and>
     d_next_token (durable (en_state en)) \<le> d_next_token (durable (en_state en'))"

lemma spec_counters:
  assumes "spec_step r d = Some d'"
  shows "d_next_job_id d' = (case r of RJobEnqueued _ \<Rightarrow> d_next_job_id d + 1 | _ \<Rightarrow> d_next_job_id d)"
    and "d_next_token d' = (case r of RJobLeased _ \<Rightarrow> d_next_token d + 1 | _ \<Rightarrow> d_next_token d)"
  using assms
  by (cases r; auto simp: spec_enqueue_def spec_lease_def spec_extend_def spec_succeed_def spec_fail_def spec_cancel_def spec_retry_def
      spec_purge_def put_job_def add_total_def Let_def split: option.splits if_splits)+

lemma counters_grow:
  assumes "spec_step r (durable st) = Some d'" and "room_for r st"
  shows "d_next_job_id (durable st) \<le> d_next_job_id d'" and "d_next_token (durable st) \<le> d_next_token d'"
  using spec_counters [OF assms(1)] assms(2) word_succ_less [of "st_next_job_id st"] word_succ_less [of "st_next_token st"]
  by (cases r; simp add: room_for_def durable_def)+

lemma log_and_apply_ok:
  assumes g: "eng_good en X" and room: "room_for r (en_state en)" and e: "enabled r (en_state en)"
    and f: "fits r (durable (en_state en))"
  shows "\<exists>en'. log_and_apply env r en = Some en' \<and> eng_good en' (X - targets r) \<and> logged env r en en' \<and>
    outer (en_state en') = apply_core r (outer (en_state en))"
proof -
  let ?st = "en_state en"
  have gs: "good ?st {} X {}" using g by (simp add: eng_good_def)
  obtain st' where st': "apply_rec r ?st = Some (Inr (), st')" "good st' {} (X - targets r) {}" "outer st' = apply_core r (outer ?st)"
    using apply_rec_ok [OF gs room] apply_enabled [OF e] by (auto simp: applied_ok_def)
  have "idem_inv (outer ?st)" using gs base_outer [of ?st "{}"] by (simp add: good_def base_def)
  then have s: "spec_step r (durable ?st) = Some (durable st')"
    using spec_refined [of "outer ?st" r] e st'(3) durable_outer [of st'] by (simp add: durable_outer enabled_outer)
  have set: "same_setting st' ?st"
    using frame_apply_core [of r "outer ?st"] outer_setting [of ?st] outer_setting [of st'] st'(3)
    by (simp add: same_setting_def)
  have att: "att_ok (durable st')" by (rule att_step [OF _ f s]) (use g in \<open>simp add: eng_good_def\<close>)
  obtain lsn sink where app: "ev_append env (type_of r) (encode_record r) (en_sink en) = (lsn, sink)" by (cases "ev_append env (type_of r) (encode_record r) (en_sink en)")
  define en' where "en' = en\<lparr>en_state := st', en_sink := sink, en_last_lsn := lsn\<rparr>"
  have "log_and_apply env r en = Some en'" using st'(1) app by (simp add: log_and_apply_def en'_def)
  moreover have "eng_good en' (X - targets r)" using st'(2) att set g by (simp add: en'_def eng_good_def same_setting_def)
  moreover have "logged env r en en'" using s f set app counters_grow [OF s room] by (simp add: logged_def en'_def)
  ultimately show ?thesis using st'(3) by (auto simp: en'_def)
qed

end
