(* ===== verification/EngineRun.thy ===== *)
theory EngineRun
  imports EngineInv "HOL-Library.Sublist"
begin

text \<open>
  Runs of the engine as sequences of logged records and quiet changes (clock readings, timers,
  draws, garbage collection), and what the log of a run says when it is replayed.
\<close>

section \<open>Collected states\<close>

text \<open>
  The live state forgets finished jobs and idempotency keys without a record. So a state
  recovered from the log may still have them; it agrees on everything else.
\<close>

definition kept :: "Durable \<Rightarrow> Durable \<Rightarrow> bool" where
  "kept d d' \<longleftrightarrow> same_counters d d' \<and>
     (\<forall>i. d_jobs d i = d_jobs d' i \<or> d_jobs d i = None \<and> (\<exists>j. d_jobs d' i = Some j \<and> is_terminal (j_state j))) \<and>
     subseq (d_idem d) (d_idem d')"

lemma kept_refl [simp]: "kept d d"
  by (simp add: kept_def)

lemma kept_trans:
  assumes "kept d1 d2" and "kept d2 d3"
  shows "kept d1 d3"
proof -
  have "d_jobs d1 i = d_jobs d3 i \<or> d_jobs d1 i = None \<and> (\<exists>j. d_jobs d3 i = Some j \<and> is_terminal (j_state j))" for i
    using assms unfolding kept_def by metis
  moreover have "same_counters d1 d3" using assms by (simp add: kept_def same_counters_def)
  moreover have "subseq (d_idem d1) (d_idem d3)" using assms by (auto simp: kept_def intro: subseq_order.trans)
  ultimately show ?thesis unfolding kept_def by blast
qed

lemma kept_job: "kept d d' \<Longrightarrow> d_jobs d i = Some j \<Longrightarrow> d_jobs d' i = Some j"
  by (metis kept_def option.distinct(1))

lemma kept_put: "kept d d' \<Longrightarrow> kept (put_job i j d) (put_job i j d')"
  by (auto simp: kept_def put_job_def same_counters_def)

lemma kept_add: "kept d d' \<Longrightarrow> kept (add_total n f d) (add_total n f d')"
  by (auto simp: kept_def add_total_def same_counters_def)

lemma kept_totals: "kept d d' \<Longrightarrow> kept (d\<lparr>d_totals := t\<rparr>) (d'\<lparr>d_totals := t\<rparr>)"
  by (auto simp: kept_def same_counters_def)

lemma kept_ids:
  "kept d d' \<Longrightarrow> kept (d\<lparr>d_next_job_id := n\<rparr>) (d'\<lparr>d_next_job_id := n\<rparr>)"
  "kept d d' \<Longrightarrow> kept (d\<lparr>d_next_token := t\<rparr>) (d'\<lparr>d_next_token := t\<rparr>)"
  by (auto simp: kept_def same_counters_def)

lemma kept_idem:
  "kept d d' \<Longrightarrow> kept (d\<lparr>d_idem := filter P (d_idem d) @ xs\<rparr>) (d'\<lparr>d_idem := filter P (d_idem d') @ xs\<rparr>)"
  by (auto simp: kept_def same_counters_def intro!: list_emb_append_mono subseq_filter)

lemma kept_counters:
  "kept d d' \<Longrightarrow> d_totals d' = d_totals d" "kept d d' \<Longrightarrow> d_next_job_id d' = d_next_job_id d"
  "kept d d' \<Longrightarrow> d_next_token d' = d_next_token d"
  by (simp_all add: kept_def same_counters_def)

lemma kept_leased: "kept d d' \<Longrightarrow> leased_to i t d = Some j \<Longrightarrow> leased_to i t d' = Some j"
  using kept_job [of d d' i] by (auto simp: leased_to_def split: option.splits if_splits)

lemma kept_enqueue:
  assumes k: "kept d d'" and s: "spec_enqueue r d = Some d1"
  shows "\<exists>d1'. spec_enqueue r d' = Some d1' \<and> kept d1 d1'"
proof -
  let ?put = "put_job (je_id r) (spec_job r)"
  let ?new = "\<lambda>e. case d_totals e (je_queue r) of None \<Rightarrow> (?put e)\<lparr>d_totals := (d_totals (?put e))(je_queue r \<mapsto> zero_totals)\<rparr>
    | Some _ \<Rightarrow> ?put e"
  let ?cnt = "\<lambda>e. add_total (je_queue r) (\<lambda>t. t\<lparr>qt_enqueued := qt_enqueued t + 1\<rparr>) (?new e)"
  let ?key = "\<lambda>e. (?cnt e)\<lparr>d_idem := filter (\<lambda>(k, _). k \<noteq> je_idem_key r) (d_idem (?cnt e)) @
    [(je_idem_key r, je_id r, je_idem_expires_at r)]\<rparr>"
  let ?fin = "\<lambda>e. (if je_idem_key r = [] then ?cnt e else ?key e)\<lparr>d_next_job_id := je_id r + 1\<rparr>"
  have same: "d_totals (?put e) = d_totals e" for e by (simp add: put_job_def)
  have new: "kept (?new d) (?new d')"
    using kept_put [OF k, of "je_id r" "spec_job r"] kept_counters(1) [OF k]
    by (auto simp: same split: option.split intro: kept_totals)
  note steps = kept_add [OF new, of "je_queue r" "\<lambda>t. t\<lparr>qt_enqueued := qt_enqueued t + 1\<rparr>"]
  have "kept (if je_idem_key r = [] then ?cnt d else ?key d) (if je_idem_key r = [] then ?cnt d' else ?key d')"
    using steps kept_idem [OF steps] by simp
  from kept_ids(1) [OF this, of "je_id r + 1"] have fin: "kept (?fin d) (?fin d')" .
  have eq: "spec_enqueue r e = (if je_id r = d_next_job_id e \<and> je_queue r \<noteq> [] \<and> je_max_attempts r \<noteq> 0
      then Some (?fin e) else None)" for e
    unfolding spec_enqueue_def Let_def by (rule refl)
  have "d1 = ?fin d" "je_id r = d_next_job_id d' \<and> je_queue r \<noteq> [] \<and> je_max_attempts r \<noteq> 0"
    using s [unfolded eq] kept_counters(2) [OF k] by (auto split: if_split_asm)
  then show ?thesis unfolding eq [of d'] using fin by (simp only: if_True simp_thms option.inject)
qed

lemma kept_purge:
  assumes k: "kept d d'" and s: "spec_purge r d = Some d1"
  shows "\<exists>d1'. spec_purge r d' = Some d1' \<and> kept d1 d1'"
proof -
  have "case d_jobs d' i of None \<Rightarrow> False | Some j \<Rightarrow> is_terminal (j_state j)" if "i \<in> set (jp_ids r)" for i
    using s that kept_job [OF k, of i] by (auto simp: spec_purge_def list_all_iff split: if_splits option.splits)
  moreover have "kept (d\<lparr>d_jobs := (\<lambda>i. if i \<in> set (jp_ids r) then None else d_jobs d i)\<rparr>)
      (d'\<lparr>d_jobs := (\<lambda>i. if i \<in> set (jp_ids r) then None else d_jobs d' i)\<rparr>)"
    using k by (auto simp: kept_def same_counters_def)
  ultimately show ?thesis using s by (auto simp: spec_purge_def list_all_iff split: if_splits)
qed

text \<open>A record that fits the live state fits the recovered one, with the same effect.\<close>

lemma kept_step:
  assumes k: "kept d d'" and s: "spec_step r d = Some d1"
  shows "\<exists>d1'. spec_step r d' = Some d1' \<and> kept d1 d1'"
proof (cases r)
  case (RJobEnqueued x) then show ?thesis using kept_enqueue [OF k] s by simp
next
  case (RJobLeased x)
  then show ?thesis using s k kept_job [OF k, of "jl_id x"] kept_counters(3) [OF k]
    by (auto simp: spec_lease_def split: option.splits if_splits intro!: kept_put kept_ids)
next
  case (RLeaseExtended x)
  then show ?thesis using s k kept_leased [OF k] by (auto simp: spec_extend_def intro!: kept_put)
next
  case (RJobSucceeded x)
  then show ?thesis using s k kept_leased [OF k] by (auto simp: spec_succeed_def intro!: kept_put kept_add)
next
  case (RAttemptFailed x)
  then obtain j where j: "leased_to (af_id x) (af_token x) d = Some j" using s by (auto simp: spec_fail_def)
  show ?thesis using s k kept_leased [OF k j] RAttemptFailed j
    by (auto simp: spec_fail_def Let_def intro!: kept_put kept_add)
next
  case (RJobCancelled x)
  then show ?thesis using s k kept_job [OF k, of "jc_id x"]
    by (auto simp: spec_cancel_def split: option.splits if_splits intro!: kept_put kept_add)
next
  case (RDeadJobRetried x)
  then show ?thesis using s k kept_job [OF k, of "dr_id x"]
    by (auto simp: spec_retry_def split: option.splits if_splits intro!: kept_put)
next
  case (RJobsPurged x) then show ?thesis using kept_purge [OF k] s by simp
qed

section \<open>Runs\<close>

definition quiet :: "('s, 'g) Engine \<Rightarrow> ('s, 'g) Engine \<Rightarrow> bool" where
  "quiet en en' \<longleftrightarrow> kept (durable (en_state en')) (durable (en_state en)) \<and> en_options en' = en_options en \<and>
     en_sink en' = en_sink en \<and> en_last_lsn en' = en_last_lsn en \<and> st_abi (en_state en') = st_abi (en_state en) \<and>
     st_options (en_state en') = st_options (en_state en)"

inductive trace :: "('s, 'g) Env \<Rightarrow> Record list \<Rightarrow> ('s, 'g) Engine \<Rightarrow> ('s, 'g) Engine \<Rightarrow> bool" for env where
  trace_refl [simp, intro]: "trace env [] en en"
| trace_log: "trace env rs en en1 \<Longrightarrow> logged env r en1 en2 \<Longrightarrow> trace env (rs @ [r]) en en2"
| trace_quiet: "trace env rs en en1 \<Longrightarrow> quiet en1 en2 \<Longrightarrow> trace env rs en en2"

lemma trace_one: "logged env r en en' \<Longrightarrow> trace env [r] en en'"
  using trace_log [OF trace_refl, of env r en en'] by simp

lemma trace_still: "quiet en en' \<Longrightarrow> trace env [] en en'"
  by (rule trace_quiet [OF trace_refl])

lemma trace_trans:
  assumes "trace env rs1 en1 en2" and "trace env rs2 en2 en3"
  shows "trace env (rs1 @ rs2) en1 en3"
  using assms(2,1)
proof (induction rule: trace.induct)
  case (trace_log rs en en1 r en2)
  then show ?case using trace.trace_log [of env "rs1 @ rs"] by simp
qed (auto intro: trace.intros)

primrec append_all :: "('s, 'g) Env \<Rightarrow> Record list \<Rightarrow> Lsn \<times> 's \<Rightarrow> Lsn \<times> 's" where
  "append_all env [] p = p"
| "append_all env (r # rs) p = append_all env rs (ev_append env (type_of r) (encode_record r) (snd p))"

lemma append_all_snoc:
  "append_all env (rs @ [r]) p = ev_append env (type_of r) (encode_record r) (snd (append_all env rs p))"
  by (induction rs arbitrary: p) simp_all

lemma trace_sink: "trace env rs en en' \<Longrightarrow> (en_last_lsn en', en_sink en') = append_all env rs (en_last_lsn en, en_sink en)"
proof (induction rule: trace.induct)
  case (trace_log rs en en1 r en2)
  then show ?case unfolding append_all_snoc by (metis logged_def snd_conv)
qed (auto simp: quiet_def)

primrec spec_run :: "Record list \<Rightarrow> Durable \<Rightarrow> Durable option" where
  "spec_run [] d = Some d"
| "spec_run (r # rs) d = (case spec_step r d of None \<Rightarrow> None | Some d1 \<Rightarrow> spec_run rs d1)"

lemma spec_run_snoc: "spec_run (rs @ [r]) d = (case spec_run rs d of None \<Rightarrow> None | Some d1 \<Rightarrow> spec_step r d1)"
  by (induction rs arbitrary: d) (auto split: option.splits)

lemma trace_replay:
  "trace env rs en en' \<Longrightarrow> kept (durable (en_state en)) d \<Longrightarrow>
     \<exists>d'. spec_run rs d = Some d' \<and> kept (durable (en_state en')) d'"
proof (induction rule: trace.induct)
  case (trace_log rs en en1 r en2)
  then obtain d1 where d1: "spec_run rs d = Some d1" "kept (durable (en_state en1)) d1" by blast
  then show ?case using kept_step [OF d1(2)] trace_log.hyps(2) by (auto simp: logged_def spec_run_snoc)
next
  case (trace_quiet rs en en1 en2)
  then show ?case using kept_trans by (auto simp: quiet_def)
qed simp

lemma trace_fixed: "trace env rs en en' \<Longrightarrow> en_options en' = en_options en \<and> st_abi (en_state en') = st_abi (en_state en) \<and>
    st_options (en_state en') = st_options (en_state en)"
  by (induction rule: trace.induct) (auto simp: quiet_def logged_def same_setting_def)

lemma trace_counters:
  "trace env rs en en' \<Longrightarrow> d_next_job_id (durable (en_state en)) \<le> d_next_job_id (durable (en_state en')) \<and>
     d_next_token (durable (en_state en)) \<le> d_next_token (durable (en_state en'))"
proof (induction rule: trace.induct)
  case (trace_log rs en en1 r en2)
  then show ?case by (auto simp: logged_def)
next
  case (trace_quiet rs en en1 en2)
  have "kept (durable (en_state en2)) (durable (en_state en1))" using trace_quiet.hyps(2) by (simp add: quiet_def)
  from kept_counters(2,3) [OF this] show ?case using trace_quiet.IH by simp
qed simp

end
