(* ===== verification/EngineSafe.thy ===== *)
theory EngineSafe
  imports EngineRun
begin

text \<open>
  Every command of the engine runs to its end: it never builds a record that does not apply,
  keeps the invariant, and logs only records that a restart can decode.
\<close>

section \<open>Records that can be decoded\<close>

text \<open>A uniform draw from \<open>[0, n]\<close> lies in \<open>[0, n]\<close>.\<close>

definition fair_draw :: "('s, 'g) Env \<Rightarrow> bool" where
  "fair_draw env \<longleftrightarrow> (\<forall>n g. 0 \<le> n \<longrightarrow> 0 \<le> fst (ev_draw env n g) \<and> fst (ev_draw env n g) \<le> n)"

text \<open>The clock and the configured durations stay within the range of times a record can carry.\<close>

definition in_time :: "('s, 'g) Engine \<Rightarrow> bool" where
  "in_time en \<longleftrightarrow> (let now = st_wall_now (en_state en); opts = en_options en in
     0 \<le> now \<and> 0 \<le> eo_min_lease_ms opts \<and> 0 \<le> eo_idempotency_window_ms opts \<and>
     now + eo_idempotency_window_ms opts \<le> kMaxWallTimeMs \<and> now + eo_max_delay_ms opts \<le> kMaxWallTimeMs \<and>
     now + eo_max_lease_ms opts \<le> kMaxWallTimeMs \<and> now + 2 ^ 32 \<le> kMaxWallTimeMs \<and> eo_max_payload_bytes opts < 2 ^ 64)"

lemma in_timeD:
  assumes "in_time en"
  shows "0 \<le> st_wall_now (en_state en)" "0 \<le> eo_min_lease_ms (en_options en)" "0 \<le> eo_idempotency_window_ms (en_options en)"
    "st_wall_now (en_state en) + eo_idempotency_window_ms (en_options en) \<le> kMaxWallTimeMs"
    "st_wall_now (en_state en) + eo_max_delay_ms (en_options en) \<le> kMaxWallTimeMs"
    "st_wall_now (en_state en) + eo_max_lease_ms (en_options en) \<le> kMaxWallTimeMs"
    "st_wall_now (en_state en) + 2 ^ 32 \<le> kMaxWallTimeMs" "eo_max_payload_bytes (en_options en) < 2 ^ 64"
    "time_in_range (st_wall_now (en_state en))"
  using assms by (simp_all add: in_time_def Let_def time_in_range_def)

lemma backoff_ceiling_range: "0 \<le> backoff_ceiling n b c" "backoff_ceiling n b c \<le> uint c"
proof -
  have u: "uint (ucast c :: u64) = uint c" by (simp add: uint_up_ucast is_up)
  have "min (push_bit k (ucast b :: u64)) (ucast c) \<le> (ucast c :: u64)" for k by simp
  then have "uint (min (push_bit k (ucast b :: u64)) (ucast c)) \<le> uint c" for k unfolding word_le_def u .
  then show "backoff_ceiling n b c \<le> uint c" by (simp add: backoff_ceiling_def Let_def)
  show "0 \<le> backoff_ceiling n b c" by (simp add: backoff_ceiling_def Let_def)
qed

lemma uint32_less: "uint (c :: u32) < 2 ^ 32"
  using uint_lt2p [of c] by simp

section \<open>Logging one record\<close>

lemma spec_enabled:
  assumes "good (en_state en) {} X {}" and "spec_step r (durable (en_state en)) = Some d"
  shows "enabled r (en_state en)"
  using spec_disabled [of r "en_state en"] assms(2) by fastforce

text \<open>A record that the specification allows is applied and appended.\<close>

lemma log_ok:
  assumes g: "eng_good en X" and room: "room_for r (en_state en)" and s: "spec_step r (durable (en_state en)) = Some d"
    and f: "fits r (durable (en_state en))"
  shows "\<exists>en'. log_and_apply env r en = Some en' \<and> eng_good en' (X - targets r) \<and> logged env r en en' \<and>
    durable (en_state en') = d \<and> outer (en_state en') = apply_core r (outer (en_state en))"
proof -
  have "enabled r (en_state en)" using spec_enabled [OF _ s] g by (auto simp: eng_good_def)
  from log_and_apply_ok [OF g room this f, of env] show ?thesis using s by (auto simp: logged_def)
qed

lemma live_job:
  "find_job i st = Some j \<Longrightarrow> d_jobs (durable st) i = Some (persist j)"
  "d_jobs (durable st) i = Some p \<Longrightarrow> \<exists>j. find_job i st = Some j \<and> p = persist j"
  by (auto simp: durable_def find_job_def)

lemma persist_state:
  "j_state (persist j) = s \<longleftrightarrow> (if is_pending (j_state j) then s = kScheduled else s = j_state j)"
  "is_terminal (j_state (persist j)) = is_terminal (j_state j)"
  "j_attempts (persist j) = j_attempts j" "j_max_attempts (persist j) = j_max_attempts j" "j_lease_token (persist j) = j_lease_token j"
  "j_id (persist j) = j_id j" "j_payload (persist j) = j_payload j" "j_lease_expires_at (persist j) = j_lease_expires_at j"
  by (auto simp: persist_def is_pending_def)

lemma eng_job:
  assumes "eng_good en X" and "find_job i (en_state en) = Some j"
  shows "j_id j = i" and "att_job (persist j)" and "j_attempts j \<le> j_max_attempts j"
proof -
  show "att_job (persist j)" using assms live_job(1) [OF assms(2)] by (auto simp: eng_good_def att_ok_def)
  show "j_id j = i" "j_attempts j \<le> j_max_attempts j"
    using assms unfolding eng_good_def good_def idx_inv_def find_job_def base_def dur_inv_def
    by (auto dest!: idxD(5) simp: job_ok_def dur_job_def)
qed

section \<open>Failed attempts\<close>

lemma decide_failure_fields:
  assumes "decide_failure env job reason error retry no_retry en = (r, en1)"
  shows "af_id r = j_id job" "af_token r = j_lease_token job" "\<not> af_dead r \<Longrightarrow> j_attempts job < j_max_attempts job"
    "\<exists>g. en1 = en\<lparr>en_rng := g\<rparr>" "length (af_error r) \<le> kMaxErrorBytes" "af_at r = st_wall_now (en_state en)"
    "af_reason r = reason"
  using assms by (auto simp: decide_failure_def Let_def not_le split: if_splits option.splits prod.splits intro: exI [of _ "en_rng en"])

lemma decide_failure_time:
  assumes "decide_failure env job reason error retry no_retry en = (r, en1)" and "fair_draw env" and "in_time en"
    and "\<And>d. retry = Some d \<Longrightarrow> 0 \<le> d \<and> d \<le> eo_max_delay_ms (en_options en)"
  shows "record_ok (RAttemptFailed r)"
proof -
  let ?now = "st_wall_now (en_state en)" and ?c = "backoff_ceiling (j_attempts job) (j_backoff_base_ms job) (j_backoff_cap_ms job)"
  note t = in_timeD [OF assms(3)] and f = decide_failure_fields [OF assms(1)]
  have "0 \<le> fst (ev_draw env ?c g) \<and> fst (ev_draw env ?c g) \<le> ?c" for g
    using assms(2) backoff_ceiling_range(1) by (simp add: fair_draw_def)
  then have "time_in_range (?now + fst (ev_draw env ?c g))" for g
    using t(1,7) backoff_ceiling_range(2) [of "j_attempts job" "j_backoff_base_ms job" "j_backoff_cap_ms job"]
      uint32_less [of "j_backoff_cap_ms job"] by (smt (verit) time_in_range_def)
  moreover have "time_in_range (?now + d)" if "retry = Some d" for d using assms(4) [OF that] t(1,5) by (simp add: time_in_range_def)
  moreover have "time_in_range 0" by (simp add: time_in_range_def kMaxWallTimeMs_def)
  ultimately have "time_in_range (af_retry_at r)"
    using assms(1) by (auto simp: decide_failure_def Let_def split: if_splits option.splits prod.splits) (metis fst_conv)
  moreover have "size_ok (af_error r)" using f(5) by (simp add: size_ok_def kMaxErrorBytes_def)
  ultimately show ?thesis using t(9) f(6) by simp
qed

definition unleased :: "('s, 'g) Engine \<Rightarrow> JobId \<Rightarrow> bool" where
  "unleased en i \<longleftrightarrow> (\<exists>p. d_jobs (durable (en_state en)) i = Some p \<and> j_state p \<noteq> kLeased)"

lemma fail_ok:
  assumes g: "eng_good en X" and j: "find_job i (en_state en) = Some job" "j_state job = kLeased"
    and d: "decide_failure env job reason error retry no_retry en = (r, en1)"
    and due: "reason = kLeaseExpired \<Longrightarrow> j_lease_expires_at job \<le> st_wall_now (en_state en)"
  shows "\<exists>en2. log_and_apply env (RAttemptFailed r) en1 = Some en2 \<and> eng_good en2 (X - {i}) \<and>
    trace env [RAttemptFailed r] en en2 \<and> same_setting (en_state en2) (en_state en) \<and>
    (\<forall>k. k \<noteq> i \<longrightarrow> d_jobs (durable (en_state en2)) k = d_jobs (durable (en_state en)) k) \<and> unleased en2 i"
proof -
  note f = decide_failure_fields [OF d]
  obtain rng where en1: "en1 = en\<lparr>en_rng := rng\<rparr>" using f(4) by blast
  have id: "af_id r = i" using f(1) eng_job(1) [OF g j(1)] by simp
  have p: "d_jobs (durable (en_state en1)) i = Some (persist job)" using live_job(1) [OF j(1)] en1 by simp
  have l: "leased_to (af_id r) (af_token r) (durable (en_state en1)) = Some (persist job)"
    using p j(2) f(2) id by (simp add: leased_to_def persist_state)
  then obtain d' where s: "spec_step (RAttemptFailed r) (durable (en_state en1)) = Some d'" by (simp add: spec_fail_def)
  then have other: "d_jobs d' k = d_jobs (durable (en_state en)) k" if "k \<noteq> i" for k
    using l that en1 id by (auto simp: spec_fail_def Let_def put_job_def add_total_def)
  have un: "\<exists>p. d_jobs d' i = Some p \<and> j_state p \<noteq> kLeased"
    using s l id by (auto simp: spec_fail_def Let_def put_job_def add_total_def)
  have g1: "eng_good en1 X" using g by (simp add: eng_good_def en1)
  have "fits (RAttemptFailed r) (durable (en_state en1))" using f(3,6,7) due p id by (simp add: persist_state)
  from log_ok [OF g1 _ s this, of env] obtain en2 where en2: "log_and_apply env (RAttemptFailed r) en1 = Some en2"
      "eng_good en2 (X - {i})" "logged env (RAttemptFailed r) en1 en2" "durable (en_state en2) = d'"
    using id by (auto simp: room_for_def)
  have "trace env [RAttemptFailed r] en en2"
    using trace_trans [OF trace_still trace_one [OF en2(3)], of en] by (simp add: quiet_def en1)
  moreover have "same_setting (en_state en2) (en_state en)" using en2(3) by (simp add: logged_def en1)
  ultimately show ?thesis using en2 other un by (auto simp: unleased_def)
qed

lemma expire_leases_ok:
  assumes "eng_good en (set ids)" and "distinct ids" and "\<And>i. i \<in> set ids \<Longrightarrow> \<exists>j. find_job i (en_state en) = Some j \<and> j_state j = kLeased \<and>
      j_lease_expires_at j \<le> st_wall_now (en_state en)"
  shows "\<exists>en' rs. expire_leases env ids en = Some en' \<and> eng_inv en' \<and> trace env rs en en' \<and> same_setting (en_state en') (en_state en) \<and>
    (fair_draw env \<and> in_time en \<longrightarrow> list_all record_ok rs) \<and> (\<forall>i\<in>set ids. unleased en' i) \<and>
    (\<forall>k. k \<notin> set ids \<longrightarrow> d_jobs (durable (en_state en')) k = d_jobs (durable (en_state en)) k)"
  using assms
proof (induction ids arbitrary: en)
  case Nil
  then show ?case by (auto simp: eng_inv_def intro!: exI [of _ "[]"])
next
  case (Cons i ids)
  obtain job where job: "find_job i (en_state en) = Some job" "j_state job = kLeased"
    "j_lease_expires_at job \<le> st_wall_now (en_state en)" using Cons.prems(3) by auto
  obtain r en1 where d: "decide_failure env job kLeaseExpired (str ''lease expired'') None False en = (r, en1)" by fastforce
  obtain en2 where en2: "log_and_apply env (RAttemptFailed r) en1 = Some en2" "eng_good en2 (set (i # ids) - {i})"
      "trace env [RAttemptFailed r] en en2" "same_setting (en_state en2) (en_state en)"
      "\<And>k. k \<noteq> i \<Longrightarrow> d_jobs (durable (en_state en2)) k = d_jobs (durable (en_state en)) k" "unleased en2 i"
    using fail_ok [OF Cons.prems(1) job(1,2) d] job(3) by blast
  have X: "set (i # ids) - {i} = set ids" using Cons.prems(2) by auto
  have leased: "\<exists>j. find_job k (en_state en2) = Some j \<and> j_state j = kLeased \<and> j_lease_expires_at j \<le> st_wall_now (en_state en2)"
    if k: "k \<in> set ids" for k
  proof -
    obtain j where j: "find_job k (en_state en) = Some j" "j_state j = kLeased" "j_lease_expires_at j \<le> st_wall_now (en_state en)"
      using Cons.prems(3) k by auto
    have "k \<noteq> i" using k Cons.prems(2) by auto
    then obtain j' where "find_job k (en_state en2) = Some j'" "persist j = persist j'"
      using en2(5) live_job(1) [OF j(1)] live_job(2) by metis
    then show ?thesis using j(2,3) en2(4) persist_state(1) [of j kLeased] persist_state(1) [of j' kLeased]
        persist_state(8) [of j] persist_state(8) [of j'] by (auto simp: same_setting_def split: if_splits)
  qed
  obtain en' rs where en': "expire_leases env ids en2 = Some en'" "eng_inv en'" "trace env rs en2 en'"
      "same_setting (en_state en') (en_state en2)" "fair_draw env \<and> in_time en2 \<longrightarrow> list_all record_ok rs"
      "\<forall>i\<in>set ids. unleased en' i" "\<forall>k. k \<notin> set ids \<longrightarrow> d_jobs (durable (en_state en')) k = d_jobs (durable (en_state en2)) k"
    using Cons.IH [OF en2(2) [unfolded X] _ leased] Cons.prems(2) by auto
  have "expire_leases env (i # ids) en = Some en'" using job d en2(1) en'(1) by simp
  moreover have "trace env ([RAttemptFailed r] @ rs) en en'" using en2(3) en'(3) by (rule trace_trans)
  moreover have "in_time en2" if "in_time en"
    using that en2(4) trace_fixed [OF en2(3)] by (simp add: in_time_def same_setting_def)
  then have "list_all record_ok ([RAttemptFailed r] @ rs)" if "fair_draw env \<and> in_time en"
    using that en'(5) decide_failure_time [OF d] by simp
  moreover have "unleased en' i" using en2(6) en'(7) Cons.prems(2) by (simp add: unleased_def)
  then have "\<forall>i\<in>set (i # ids). unleased en' i" using en'(6) by simp
  moreover have "\<forall>k. k \<notin> set (i # ids) \<longrightarrow> d_jobs (durable (en_state en')) k = d_jobs (durable (en_state en)) k"
    using en'(7) en2(5) by simp
  ultimately show ?case using en'(2,4) en2(4) same_setting_trans by blast
qed

section \<open>Ticks\<close>

text \<open>
  A command ends in a sound state; what it did is a trace, and if the request, the clock and
  the options are in range (\<open>P\<close>) every record of it can be decoded.
\<close>

definition outcome :: "('s, 'g) Env \<Rightarrow> ('s, 'g) Engine \<Rightarrow> bool \<Rightarrow> ('s, 'g) Engine option \<Rightarrow> bool" where
  "outcome env en P res \<longleftrightarrow> (\<exists>en' rs. res = Some en' \<and> eng_inv en' \<and> trace env rs en en' \<and> (P \<longrightarrow> list_all record_ok rs))"

lemma outcome_same: "eng_inv en \<Longrightarrow> outcome env en P (Some en)"
  by (auto simp: outcome_def intro!: exI [of _ "[]"])

lemma detect_clock_jump_ok:
  assumes inv: "eng_inv en" and tick: "tick_ok (word_of_int (st_mono_now (en_state en)))"
    and order: "distinct order" "set order = dom (st_jobs (en_state en))"
  shows "\<exists>en'. detect_clock_jump order m en = Some en' \<and> eng_inv en' \<and> quiet en en' \<and> same_setting (en_state en') (en_state en)"
proof -
  let ?st = "en_state en"
  have st: "state_inv ?st" "\<not> st_replaying ?st" using inv by (simp_all add: eng_inv_def eng_good_def state_inv_def)
  have r: "rebuildable ?st" using state_inv_rebuildable [OF st(1), of "st_replaying ?st"] by simp
  obtain st' where st': "rebuild_derived order (eo_lease_grace_ms (en_options en)) ?st = Some st'" "state_inv st'"
      "durable st' = durable ?st" "same_setting st' ?st"
    using rebuild_derived_ok [OF r st(2) tick order] by blast
  show ?thesis
    using st' inv by (auto simp: detect_clock_jump_def Let_def eng_inv_def eng_good_def quiet_def state_inv_def same_setting_def)
qed

lemma collect_garbage_quiet:
  assumes "eng_inv en"
  shows "\<exists>st'. collect_garbage (en_state en) = Some st' \<and> eng_inv (en\<lparr>en_state := st'\<rparr>) \<and> quiet en (en\<lparr>en_state := st'\<rparr>)"
proof -
  let ?st = "en_state en"
  let ?P = "\<lambda>j. over (so_retain_finished_ms (st_options ?st)) (Collect is_terminal) (st_wall_now ?st) j \<or>
        over (so_retain_dead_ms (st_options ?st)) {kDead} (st_wall_now ?st) j"
  have "state_inv ?st" "\<not> st_replaying ?st" using assms by (simp_all add: eng_inv_def eng_good_def state_inv_def)
  from collect_garbage_ok [OF this refs_in_terminal] obtain st' where st': "collect_garbage ?st = Some st'" "state_inv st'" "same_setting st' ?st"
      "same_counters (durable st') (durable ?st)"
      "st_idem_order st' = dropWhile (\<lambda>e. ie_expires_at e \<le> st_wall_now ?st) (st_idem_order ?st)"
      "drops ?P (st_jobs ?st) (st_jobs st')"
    by blast
  have jobs: "d_jobs (durable st') i = d_jobs (durable ?st) i \<or>
      d_jobs (durable st') i = None \<and> (\<exists>j. d_jobs (durable ?st) i = Some j \<and> is_terminal (j_state j))" for i
    using drops_durable [OF st'(6), of i] by (auto simp: durable_def over_def persist_state)
  have "subseq (dropWhile Q xs) xs" for Q and xs :: "IdemEntry list"
    by (metis list_emb_append2 subseq_order.refl takeWhile_dropWhile_id)
  then have "subseq (d_idem (durable st')) (d_idem (durable ?st))"
    unfolding durable_def Durable.simps st'(5) by (rule subseq_map)
  then have k: "kept (durable st') (durable ?st)" using jobs st'(4) unfolding kept_def by blast
  have "att_ok (durable st')"
    using assms kept_job [OF k] by (auto simp: eng_inv_def eng_good_def att_ok_def)
  then have "eng_inv (en\<lparr>en_state := st'\<rparr>)"
    using st'(2,3) assms by (simp add: eng_inv_def eng_good_def state_inv_def same_setting_def)
  then show ?thesis using st'(1,3) k by (auto simp: quiet_def same_setting_def)
qed

lemma tick_run:
  assumes inv: "eng_inv en" and tick: "tick_ok (word_of_int m)"
    and order: "distinct order" "set order = dom (st_jobs (en_state en))"
  obtains en2 ids st' en4 rs en' where "detect_clock_jump order m' (en\<lparr>en_state := set_now w m (en_state en)\<rparr>) = Some en2" "eng_inv en2"
    "advance_timers [] (en_state en2) = Some (ids, st')" "expire_leases env ids (en2\<lparr>en_state := st'\<rparr>) = Some en4"
    "\<forall>i\<in>set ids. unleased en4 i" "quiet en4 en'" "tick env w m m' order en = Some en'" "eng_inv en'" "trace env rs en en'"
    "fair_draw env \<and> in_time (en\<lparr>en_state := set_now w m (en_state en)\<rparr>) \<Longrightarrow> list_all record_ok rs"
proof -
  define en1 where "en1 = en\<lparr>en_state := set_now w m (en_state en)\<rparr>"
  have d1: "durable (en_state en1) = durable (en_state en)" by (simp add: en1_def set_now_def durable_def)
  have e1: "eng_inv en1" using inv by (simp add: en1_def eng_inv_def eng_good_def set_now_good d1 [unfolded en1_def, simplified])
      (simp add: set_now_def)
  have q1: "quiet en en1" using d1 by (simp add: quiet_def) (simp add: en1_def set_now_def)
  have m1: "st_mono_now (en_state en1) = m" "st_jobs (en_state en1) = st_jobs (en_state en)" by (simp_all add: en1_def set_now_def)
  obtain en2 where en2: "detect_clock_jump order m' en1 = Some en2" "eng_inv en2" "quiet en1 en2"
      "same_setting (en_state en2) (en_state en1)"
    using detect_clock_jump_ok [OF e1, of order m'] tick order m1 by auto
  have s2: "state_inv (en_state en2)" using en2(2) by (simp add: eng_inv_def eng_good_def state_inv_def)
  have t2: "tick_ok (word_of_int (st_mono_now (en_state en2)))" using en2(4) m1 tick by (simp add: same_setting_def)
  obtain ids st' where st': "advance_timers [] (en_state en2) = Some (ids, st')" "distinct ids" "durable st' = durable (en_state en2)"
      "same_setting st' (en_state en2)" "good st' {} (set ids) {}"
      "set ids \<subseteq> {i. \<exists>j. st_jobs (en_state en2) i = Some j \<and> j_state j = kLeased \<and>
        j_lease_expires_at j \<le> st_wall_now (en_state en2)}"
    using advance_timers_reports [OF s2 t2] by fastforce
  let ?en3 = "en2\<lparr>en_state := st'\<rparr>"
  have g3: "eng_good ?en3 (set ids)" using st' en2(2) by (simp add: eng_inv_def eng_good_def same_setting_def)
  have q3: "quiet en2 ?en3" using st' by (simp add: quiet_def same_setting_def)
  have "\<exists>j. find_job i (en_state ?en3) = Some j \<and> j_state j = kLeased \<and> j_lease_expires_at j \<le> st_wall_now (en_state ?en3)"
    if i: "i \<in> set ids" for i
  proof -
    obtain j where j: "st_jobs (en_state en2) i = Some j" "j_state j = kLeased" "j_lease_expires_at j \<le> st_wall_now (en_state en2)"
      using st'(6) i by blast
    then obtain j' where "find_job i st' = Some j'" "persist j = persist j'"
      using live_job(1) [of i "en_state en2" j] live_job(2) [of st' i] st'(3) by (auto simp: find_job_def)
    then show ?thesis using j(2,3) st'(4) persist_state(1) [of j kLeased] persist_state(1) [of j' kLeased]
        persist_state(8) [of j] persist_state(8) [of j'] by (auto simp: same_setting_def split: if_splits)
  qed
  from expire_leases_ok [OF g3 st'(2) this, of env]
  obtain en4 rs where en4: "expire_leases env ids ?en3 = Some en4" "eng_inv en4" "trace env rs ?en3 en4"
      "fair_draw env \<and> in_time ?en3 \<longrightarrow> list_all record_ok rs" "\<forall>i\<in>set ids. unleased en4 i" by auto
  obtain st5 where st5: "collect_garbage (en_state en4) = Some st5" "eng_inv (en4\<lparr>en_state := st5\<rparr>)" "quiet en4 (en4\<lparr>en_state := st5\<rparr>)"
    using collect_garbage_quiet [OF en4(2)] by blast
  have run: "tick env w m m' order en = Some (en4\<lparr>en_state := st5\<rparr>)"
    using en2(1) st'(1) en4(1) st5(1) by (simp add: tick_def en1_def)
  have tr: "trace env rs en (en4\<lparr>en_state := st5\<rparr>)"
    using trace_trans [OF trace_quiet [OF trace_quiet [OF trace_still [OF q1] en2(3)] q3] trace_quiet [OF en4(3) st5(3)]] by simp
  have "in_time ?en3" if "in_time en1"
    using that en2(3,4) st'(4) by (simp add: in_time_def same_setting_def quiet_def)
  then show ?thesis
    using that [OF en2(1) [unfolded en1_def] en2(2) st'(1) en4(1,5) st5(3) run st5(2) tr] en4(4) by (simp add: en1_def)
qed

lemma tick_ok_outcome:
  assumes "eng_inv en" and "tick_ok (word_of_int m)" and "distinct order" "set order = dom (st_jobs (en_state en))"
  shows "outcome env en (fair_draw env \<and> in_time (en\<lparr>en_state := set_now w m (en_state en)\<rparr>)) (tick env w m m' order en)"
  by (rule tick_run [OF assms, of m' w env]) (auto simp: outcome_def)

section \<open>Commands\<close>

lemma log_one:
  assumes inv: "eng_inv en" and room: "room_for r (en_state en)" and s: "spec_step r (durable (en_state en)) = Some d"
    and f: "fits r (durable (en_state en))"
  shows "\<exists>en'. log_and_apply env r en = Some en' \<and> eng_inv en' \<and> logged env r en en' \<and> durable (en_state en') = d \<and>
    outer (en_state en') = apply_core r (outer (en_state en))"
  using log_ok [OF inv [unfolded eng_inv_def] room s f, of env] by (simp add: eng_inv_def)

lemma outcome_one:
  assumes "eng_inv en" and "room_for r (en_state en)" and "spec_step r (durable (en_state en)) \<noteq> None"
    and "fits r (durable (en_state en))" and "P \<Longrightarrow> record_ok r"
  shows "outcome env en P (log_and_apply env r en)"
proof -
  obtain d where "spec_step r (durable (en_state en)) = Some d" using assms(3) by blast
  from log_one [OF assms(1,2) this assms(4), of env] show ?thesis
    using trace_one assms(5) by (fastforce simp: outcome_def)
qed

lemma outcome_bind: "outcome env en P res \<Longrightarrow> outcome env en P (map_option snd (res \<bind> (\<lambda>en'. Some (f en', en'))))"
  by (auto simp: outcome_def)

text \<open>The identifiers have not run out and the slabs have room.\<close>

definition id_room :: "('s, 'g) Engine \<Rightarrow> bool" where
  "id_room en \<longleftrightarrow> card (dom (st_jobs (en_state en))) < kNil \<and> st_next_job_id (en_state en) \<noteq> - 1"

lemma valid_name_nonempty: "is_valid_queue_name n \<Longrightarrow> n \<noteq> [] \<and> length n \<le> 128"
  by (simp add: is_valid_queue_name_def kMaxQueueNameBytes_def)

lemma enqueue_record_ok:
  assumes t: "in_time en" and v: "is_valid_queue_name (er_queue req)" "length (er_payload req) \<le> eo_max_payload_bytes (en_options en)"
    "length (er_idem_key req) \<le> kMaxIdemKeyBytes" "0 \<le> er_delay_ms req" "er_delay_ms req \<le> eo_max_delay_ms (en_options en)"
    "\<And>w. er_run_at req = Some w \<Longrightarrow> w - st_wall_now (en_state en) \<le> eo_max_delay_ms (en_options en)" "in_i32 (er_priority req)"
  shows "record_ok (RJobEnqueued (enqueue_record req en))"
proof -
  note T = in_timeD [OF t]
  have "time_in_range (max (st_wall_now (en_state en)) (value_or (er_run_at req) (st_wall_now (en_state en) + er_delay_ms req)))"
    using T(1,5,9) v(4,5,6) by (cases "er_run_at req") (auto simp: time_in_range_def value_or_def)
  moreover have "time_in_range (st_wall_now (en_state en) + eo_idempotency_window_ms (en_options en))" "time_in_range 0"
    using T(1,3,4) by (simp_all add: time_in_range_def kMaxWallTimeMs_def)
  ultimately show ?thesis
    using v valid_name_nonempty [OF v(1)] T(8,9) by (simp add: enqueue_record_def Let_def size_ok_def kMaxIdemKeyBytes_def)
qed

lemma enqueue_cases:
  "(\<exists>x. enqueue env req en = Some (x, en)) \<or> enqueue env req en =
     log_and_apply env (RJobEnqueued (enqueue_record req en)) en \<bind>
       (\<lambda>en1. Some (Inr \<lparr>enq_id = je_id (enqueue_record req en), enq_created = True\<rparr>, en1))"
  by (simp add: enqueue_def Let_def split: option.split)

lemma enqueue_outcome:
  assumes inv: "eng_inv en" and room: "id_room en"
  shows "outcome env en (in_time en \<and> in_i32 (er_priority req)) (map_option snd (enqueue env req en))"
proof -
  let ?opts = "en_options en" and ?now = "st_wall_now (en_state en)"
  let ?bad = "\<not> is_valid_queue_name (er_queue req) \<or> length (er_payload req) > eo_max_payload_bytes ?opts \<or>
    length (er_idem_key req) > kMaxIdemKeyBytes \<or> er_delay_ms req < 0 \<or> er_delay_ms req > eo_max_delay_ms ?opts \<or>
    (case er_run_at req of None \<Rightarrow> False | Some t \<Rightarrow> t - ?now > eo_max_delay_ms ?opts) \<or>
    value_or (er_max_attempts req) (eo_default_max_attempts ?opts) = 0"
  let ?r = "RJobEnqueued (enqueue_record req en)"
  note same = outcome_same [OF inv]
  show ?thesis
  proof (cases ?bad)
    case True
    then have "\<exists>x. enqueue env req en = Some (x, en)"
      by (auto simp: enqueue_def Let_def split: if_splits option.splits)
    then show ?thesis using same by auto
  next
    case ok: False
    have "spec_step ?r (durable (en_state en)) \<noteq> None"
      using ok valid_name_nonempty [of "er_queue req"] by (auto simp: spec_enqueue_def enqueue_record_def Let_def durable_def)
    moreover have "room_for ?r (en_state en)" using room by (simp add: room_for_def id_room_def)
    moreover have "record_ok ?r" if "in_time en \<and> in_i32 (er_priority req)"
      by (rule enqueue_record_ok) (use ok that in \<open>auto simp: not_less\<close>)
    ultimately have "outcome env en (in_time en \<and> in_i32 (er_priority req)) (log_and_apply env ?r en)"
      by (intro outcome_one [OF inv]) simp_all
    from outcome_bind [OF this] same enqueue_cases [of env req en] show ?thesis by auto
  qed
qed

lemma lease_times:
  assumes "in_time en" and "eo_min_lease_ms (en_options en) \<le> l" and "l \<le> eo_max_lease_ms (en_options en)"
  shows "time_in_range (st_wall_now (en_state en) + l)"
  using in_timeD [OF assms(1)] assms(2,3) by (simp add: time_in_range_def)

lemma ready_top:
  assumes inv: "eng_inv en" and q: "find_queue n (en_state en) = Some q" and i: "heap_top (q_ready q) = Some i"
  shows "\<exists>j. find_job i (en_state en) = Some j \<and> j_id j = i \<and> j_state j = kReady \<and> j_queue j = n \<and> j_attempts j < j_max_attempts j"
proof -
  let ?st = "en_state en"
  have I: "idx (st_jobs ?st) (st_queues ?st) (st_wheel ?st) (st_replaying ?st) {} {}"
    using inv unfolding eng_inv_def eng_good_def good_def idx_inv_def by blast
  have "map_of (st_queues ?st) n = Some q" using q by (simp add: find_queue_def)
  then have "set (q_ready q) = jobs_in (st_jobs ?st) {} n kReady" using idxD(4) [OF I] by (simp add: queue_ok_def)
  moreover have "i \<in> set (q_ready q)" using i by (auto simp: heap_top_def split: if_splits list.splits)
  ultimately obtain j where j: "st_jobs ?st i = Some j" "j_state j = kReady" "j_queue j = n" by (auto simp: jobs_in_def)
  have "att_job (persist j)" "j_id j = i"
    using eng_job [OF inv [unfolded eng_inv_def], of i j] j(1) by (simp_all add: find_job_def)
  then show ?thesis using j by (auto simp: att_job_def persist_state find_job_def)
qed

lemma lease_ok:
  assumes inv: "eng_inv en" and room: "st_next_token (en_state en) \<noteq> - 1"
    and j: "find_job i (en_state en) = Some j" "j_state j = kReady" "j_attempts j < j_max_attempts j"
  shows "outcome env en (time_in_range e \<and> time_in_range w)
    (log_and_apply env (RJobLeased \<lparr>jl_id = i, jl_token = st_next_token (en_state en), jl_lease_expires_at = e, jl_at = w\<rparr>) en)"
proof (rule outcome_one [OF inv])
  have tok: "d_next_token (durable (en_state en)) = st_next_token (en_state en)" by (simp add: durable_def)
  show "spec_step (RJobLeased \<lparr>jl_id = i, jl_token = st_next_token (en_state en), jl_lease_expires_at = e, jl_at = w\<rparr>)
      (durable (en_state en)) \<noteq> None"
    using j(2,3) live_job(1) [OF j(1)] tok by (simp add: spec_lease_def persist_state)
qed (use room in \<open>simp_all add: room_for_def\<close>)

lemma reserve_from_outcome:
  assumes inv: "eng_inv en" and room: "st_next_token (en_state en) \<noteq> - 1"
  shows "outcome env en (time_in_range (st_wall_now (en_state en) + l) \<and> time_in_range (st_wall_now (en_state en)))
    (map_option snd (reserve_from env names l en))"
proof (induction names)
  case (Cons n names)
  show ?case
  proof (cases "find_queue n (en_state en)")
    case (Some q)
    show ?thesis
    proof (cases "heap_top (q_ready q)")
      case top: (Some i)
      obtain j where j: "find_job i (en_state en) = Some j" "j_id j = i" "j_state j = kReady" "j_attempts j < j_max_attempts j"
        using ready_top [OF inv Some top] by blast
      then have "j_id (job_of (en_state en) i) = i" by (simp add: find_job_def)
      then show ?thesis using outcome_bind [OF lease_ok [OF inv room j(1,3,4)]] Some top by (simp add: Let_def)
    qed (use Some Cons in \<open>simp add: Let_def\<close>)
  qed (use Cons in \<open>simp add: Let_def\<close>)
qed (simp add: outcome_same [OF inv])

lemma outcome_mono: "outcome env en P res \<Longrightarrow> (Q \<Longrightarrow> P) \<Longrightarrow> outcome env en Q res"
  by (auto simp: outcome_def)

lemma reserve_outcome:
  assumes inv: "eng_inv en" and room: "st_next_token (en_state en) \<noteq> - 1"
  shows "outcome env en (in_time en) (map_option snd (reserve env names l en))"
proof (cases "names = [] \<or> \<not> list_all is_valid_queue_name names \<or> l < eo_min_lease_ms (en_options en) \<or> l > eo_max_lease_ms (en_options en)")
  case True
  then show ?thesis using outcome_same [OF inv] by (auto simp: reserve_def Let_def)
next
  case False
  then show ?thesis
    using outcome_mono [OF reserve_from_outcome [OF inv room], of "in_time en" l env names] lease_times [of en l] in_timeD(9) [of en]
    by (simp add: reserve_def Let_def)
qed

lemma find_leased_cases:
  obtains e where "find_leased i t en = Inl e"
  | job where "find_leased i t en = Inr job" "find_job i (en_state en) = Some job" "j_state job = kLeased" "j_lease_token job = t"
proof (cases "find_job i (en_state en)")
  case (Some job)
  then have "(\<exists>e. find_leased i t en = Inl e) \<or> find_leased i t en = Inr job \<and> j_state job = kLeased \<and> j_lease_token job = t"
    by (auto simp: find_leased_def)
  then show ?thesis using that Some by blast
qed (use that in \<open>simp add: find_leased_def\<close>)

lemma leased_spec:
  assumes "find_job i (en_state en) = Some job" and "j_state job = kLeased" and "j_lease_token job = t"
  shows "leased_to i t (durable (en_state en)) = Some (persist job)"
  using live_job(1) [OF assms(1)] assms by (simp add: leased_to_def persist_state)

lemma heartbeat_outcome:
  assumes inv: "eng_inv en"
  shows "outcome env en (in_time en) (map_option snd (heartbeat env i t l en))"
proof (cases "l < eo_min_lease_ms (en_options en) \<or> l > eo_max_lease_ms (en_options en)")
  case True
  then show ?thesis using outcome_same [OF inv] by (auto simp: heartbeat_def Let_def)
next
  case False
  show ?thesis
  proof (rule find_leased_cases [of i t en])
    fix job assume j: "find_leased i t en = Inr job" "find_job i (en_state en) = Some job" "j_state job = kLeased" "j_lease_token job = t"
    have "outcome env en (in_time en) (log_and_apply env (RLeaseExtended \<lparr>le_id = j_id job, le_token = t,
        le_lease_expires_at = st_wall_now (en_state en) + l, le_at = st_wall_now (en_state en)\<rparr>) en)"
      by (rule outcome_one [OF inv])
        (use leased_spec [OF j(2-4)] eng_job(1) [OF inv [unfolded eng_inv_def] j(2)] lease_times [of en l] in_timeD(9) [of en] False
          in \<open>simp_all add: spec_extend_def room_for_def\<close>)
    from outcome_bind [OF this] show ?thesis using j(1) False by (simp add: heartbeat_def Let_def)
  qed (use False outcome_same [OF inv] in \<open>simp add: heartbeat_def Let_def\<close>)
qed

lemma ack_outcome:
  assumes inv: "eng_inv en"
  shows "outcome env en (in_time en) (map_option snd (ack env i t en))"
proof (cases "case find_job i (en_state en) of None \<Rightarrow> False | Some d \<Rightarrow> j_state d = kSucceeded \<and> j_lease_token d = t")
  case True
  then show ?thesis using outcome_same [OF inv] by (simp add: ack_def Let_def)
next
  case False
  show ?thesis
  proof (rule find_leased_cases [of i t en])
    fix job assume j: "find_leased i t en = Inr job" "find_job i (en_state en) = Some job" "j_state job = kLeased" "j_lease_token job = t"
    have "outcome env en (in_time en)
        (log_and_apply env (RJobSucceeded \<lparr>js_id = j_id job, js_token = t, js_at = st_wall_now (en_state en)\<rparr>) en)"
      by (rule outcome_one [OF inv])
        (use leased_spec [OF j(2-4)] eng_job(1) [OF inv [unfolded eng_inv_def] j(2)] in_timeD(9) [of en]
          in \<open>simp_all add: spec_succeed_def room_for_def\<close>)
    from outcome_bind [OF this] show ?thesis using j(1) False by (simp add: ack_def Let_def)
  qed (use False outcome_same [OF inv] in \<open>simp add: ack_def Let_def\<close>)
qed

lemma fail_outcome:
  assumes inv: "eng_inv en"
  shows "outcome env en (fair_draw env \<and> in_time en) (map_option snd (fail env req en))"
proof (cases "case fq_retry_in_ms req of None \<Rightarrow> False | Some d \<Rightarrow> d < 0 \<or> d > eo_max_delay_ms (en_options en)")
  case True
  then show ?thesis using outcome_same [OF inv] by (simp add: fail_def Let_def)
next
  case False
  show ?thesis
  proof (rule find_leased_cases [of "fq_id req" "fq_token req" en])
    fix job assume j: "find_leased (fq_id req) (fq_token req) en = Inr job" "find_job (fq_id req) (en_state en) = Some job" "j_state job = kLeased"
    obtain r en1 where d: "decide_failure env job kWorkerFailed (fq_error req) (fq_retry_in_ms req) (fq_no_retry req) en = (r, en1)" by fastforce
    obtain en2 where en2: "log_and_apply env (RAttemptFailed r) en1 = Some en2" "eng_inv en2" "trace env [RAttemptFailed r] en en2"
      using fail_ok [OF inv [unfolded eng_inv_def] j(2,3) d] by (auto simp: eng_inv_def)
    moreover have "record_ok (RAttemptFailed r)" if "fair_draw env \<and> in_time en"
      by (rule decide_failure_time [OF d]) (use that False in \<open>auto split: option.splits\<close>)
    ultimately show ?thesis using j(1) d False by (fastforce simp: fail_def Let_def outcome_def)
  qed (use False outcome_same [OF inv] in \<open>simp add: fail_def Let_def\<close>)
qed

lemma cancel_outcome:
  assumes inv: "eng_inv en"
  shows "outcome env en (in_time en) (map_option snd (cancel_job env i en))"
proof (cases "\<exists>j. find_job i (en_state en) = Some j \<and> \<not> is_terminal (j_state j)")
  case True
  then obtain j where j: "find_job i (en_state en) = Some j" "\<not> is_terminal (j_state j)" by blast
  have "outcome env en (in_time en) (log_and_apply env (RJobCancelled \<lparr>jc_id = i, jc_at = st_wall_now (en_state en)\<rparr>) en)"
    by (rule outcome_one [OF inv])
      (use live_job(1) [OF j(1)] j(2) in_timeD(9) [of en] in \<open>simp_all add: spec_cancel_def room_for_def persist_state\<close>)
  from outcome_bind [OF this] show ?thesis using j by (simp add: cancel_job_def)
next
  case False
  then show ?thesis using outcome_same [OF inv] by (auto simp: cancel_job_def split: option.split)
qed

section \<open>The dead-letter queue\<close>

definition dead_in :: "('s, 'g) Engine \<Rightarrow> JobId \<Rightarrow> bool" where
  "dead_in en i \<longleftrightarrow> (\<exists>p. d_jobs (durable (en_state en)) i = Some p \<and> j_state p = kDead)"

lemma dead_in_iff: "dead_in en i \<longleftrightarrow> (\<exists>j. find_job i (en_state en) = Some j \<and> j_state j = kDead)"
proof
  show "dead_in en i" if "\<exists>j. find_job i (en_state en) = Some j \<and> j_state j = kDead"
    using that live_job(1) [of i "en_state en"] by (auto simp: dead_in_def persist_state)
  show "\<exists>j. find_job i (en_state en) = Some j \<and> j_state j = kDead" if "dead_in en i"
    using that live_job(2) [of "en_state en" i] persist_state(1) [of _ kDead] by (fastforce simp: dead_in_def split: if_splits)
qed

lemma find_dead_cases:
  obtains e where "find_dead i en = Inl e" | job where "find_dead i en = Inr job" "find_job i (en_state en) = Some job" "dead_in en i"
proof (cases "find_job i (en_state en)")
  case (Some job)
  then have "(\<exists>e. find_dead i en = Inl e) \<or> find_dead i en = Inr job \<and> dead_in en i"
    by (auto simp: find_dead_def dead_in_iff)
  then show ?thesis using that Some by blast
qed (use that in \<open>simp add: find_dead_def\<close>)

lemma retry_log:
  assumes inv: "eng_inv en" and d: "dead_in en i"
  shows "\<exists>en'. log_and_apply env (RDeadJobRetried \<lparr>dr_id = i, dr_run_at = w, dr_at = w\<rparr>) en = Some en' \<and> eng_inv en' \<and>
    logged env (RDeadJobRetried \<lparr>dr_id = i, dr_run_at = w, dr_at = w\<rparr>) en en' \<and> (\<forall>k. k \<noteq> i \<longrightarrow> dead_in en' k = dead_in en k)"
proof -
  obtain p where p: "d_jobs (durable (en_state en)) i = Some p" "j_state p = kDead" using d by (auto simp: dead_in_def)
  define d' where "d' = put_job i (p\<lparr>j_state := kScheduled, j_attempts := 0, j_finished_at := 0, j_run_at := w\<rparr>) (durable (en_state en))"
  have s: "spec_step (RDeadJobRetried \<lparr>dr_id = i, dr_run_at = w, dr_at = w\<rparr>) (durable (en_state en)) = Some d'"
    using p by (simp add: spec_retry_def d'_def)
  have "d_jobs d' k = d_jobs (durable (en_state en)) k" if "k \<noteq> i" for k using that by (simp add: d'_def put_job_def)
  then show ?thesis using log_one [OF inv _ s, of env] by (auto simp: room_for_def dead_in_def)
qed

lemma retry_each_ok:
  assumes "eng_inv en" and "distinct ids" and "\<And>i. i \<in> set ids \<Longrightarrow> dead_in en i"
  shows "outcome env en (time_in_range w) (retry_each env w ids en)"
  using assms
proof (induction ids arbitrary: en)
  case (Cons i ids)
  let ?r = "RDeadJobRetried \<lparr>dr_id = i, dr_run_at = w, dr_at = w\<rparr>"
  obtain en1 where en1: "log_and_apply env ?r en = Some en1" "eng_inv en1" "logged env ?r en en1"
      "\<And>k. k \<noteq> i \<Longrightarrow> dead_in en1 k = dead_in en k"
    using retry_log [OF Cons.prems(1), of i env w] Cons.prems(3) by auto
  have "dead_in en1 k" if "k \<in> set ids" for k using en1(4) [of k] Cons.prems(2,3) that by auto
  then obtain en' rs where "retry_each env w ids en1 = Some en'" "eng_inv en'" "trace env rs en1 en'" "time_in_range w \<longrightarrow> list_all record_ok rs"
    using Cons.IH [OF en1(2)] Cons.prems(2) by (auto simp: outcome_def)
  then show ?case using en1(1) trace_trans [OF trace_one [OF en1(3)], of rs en'] by (fastforce simp: outcome_def)
qed (simp add: outcome_same)

lemma purge_log:
  assumes inv: "eng_inv en" and d: "\<And>i. i \<in> set ids \<Longrightarrow> dead_in en i"
  shows "\<exists>en'. log_and_apply env (RJobsPurged \<lparr>jp_ids = ids\<rparr>) en = Some en' \<and> eng_inv en' \<and>
    logged env (RJobsPurged \<lparr>jp_ids = ids\<rparr>) en en' \<and> (\<forall>k. k \<notin> set ids \<longrightarrow> dead_in en' k = dead_in en k)"
proof -
  let ?d = "durable (en_state en)"
  have "list_all (\<lambda>i. case d_jobs ?d i of None \<Rightarrow> False | Some j \<Rightarrow> is_terminal (j_state j)) ids"
    using d by (fastforce simp: list_all_iff dead_in_def)
  then have s: "spec_step (RJobsPurged \<lparr>jp_ids = ids\<rparr>) ?d = Some (?d\<lparr>d_jobs := (\<lambda>i. if i \<in> set ids then None else d_jobs ?d i)\<rparr>)"
    by (simp add: spec_purge_def)
  show ?thesis using log_one [OF inv _ s, of env] by (auto simp: room_for_def dead_in_def)
qed

lemma purge_chunks_ok:
  assumes "eng_inv en" and "distinct ids" and "\<And>i. i \<in> set ids \<Longrightarrow> dead_in en i"
  shows "outcome env en True (purge_chunks env ids en)"
  using assms
proof (induction "length ids" arbitrary: ids en rule: less_induct)
  case less
  show ?case
  proof (cases "ids = []")
    case True
    then show ?thesis using outcome_same [OF less.prems(1)] by (simp add: purge_chunks.simps)
  next
    case False
    let ?r = "RJobsPurged \<lparr>jp_ids = take kPurgeChunk ids\<rparr>"
    obtain en1 where en1: "log_and_apply env ?r en = Some en1" "eng_inv en1" "logged env ?r en en1"
        "\<And>k. k \<notin> set (take kPurgeChunk ids) \<Longrightarrow> dead_in en1 k = dead_in en k"
      using purge_log [OF less.prems(1), of "take kPurgeChunk ids" env] less.prems(3) in_set_takeD by metis
    have "dead_in en1 k" if "k \<in> set (drop kPurgeChunk ids)" for k
      using en1(4) [of k] that less.prems(2,3) in_set_dropD [OF that] set_take_disj_set_drop_if_distinct [OF less.prems(2), of kPurgeChunk kPurgeChunk]
      by blast
    moreover have "length (drop kPurgeChunk ids) < length ids" using False by (simp add: kPurgeChunk_def)
    ultimately obtain en' rs where "purge_chunks env (drop kPurgeChunk ids) en1 = Some en'" "eng_inv en'" "trace env rs en1 en'" "list_all record_ok rs"
      using less.hyps [of "drop kPurgeChunk ids" en1] en1(2) less.prems(2) by (auto simp: outcome_def)
    moreover have "record_ok ?r" by (simp add: size_ok_def kPurgeChunk_def)
    ultimately show ?thesis using False en1(1) trace_trans [OF trace_one [OF en1(3)], of rs en']
      by (subst purge_chunks.simps) (fastforce simp: outcome_def)
  qed
qed

lemma queue_dead:
  assumes inv: "eng_inv en" and q: "find_queue n (en_state en) = Some q"
  shows "distinct (q_dead q)" and "i \<in> set (q_dead q) \<Longrightarrow> dead_in en i"
proof -
  let ?st = "en_state en"
  have I: "idx (st_jobs ?st) (st_queues ?st) (st_wheel ?st) (st_replaying ?st) {} {}"
    using inv unfolding eng_inv_def eng_good_def good_def idx_inv_def by blast
  have ok: "queue_ok (st_jobs ?st) {} n q" using idxD(4) [OF I] q by (simp add: find_queue_def)
  show "distinct (q_dead q)" using ok by (simp add: queue_ok_def)
  show "dead_in en i" if "i \<in> set (q_dead q)" using ok that by (auto simp: queue_ok_def jobs_in_def dead_in_iff find_job_def)
qed

lemma dlq_retry_outcome:
  assumes inv: "eng_inv en"
  shows "outcome env en (in_time en) (map_option snd (dlq_retry env i en))"
proof (rule find_dead_cases [of i en])
  fix job assume j: "find_dead i en = Inr job" "find_job i (en_state en) = Some job" "dead_in en i"
  let ?now = "st_wall_now (en_state en)"
  have "outcome env en (in_time en) (log_and_apply env (RDeadJobRetried \<lparr>dr_id = i, dr_run_at = ?now, dr_at = ?now\<rparr>) en)"
    by (rule outcome_one [OF inv])
      (use retry_log [OF inv j(3), of env ?now] in_timeD(9) [of en] in \<open>auto simp: room_for_def logged_def\<close>)
  from outcome_bind [OF this] show ?thesis using j eng_job(1) [OF inv [unfolded eng_inv_def] j(2)] by (simp add: dlq_retry_def Let_def)
qed (use outcome_same [OF inv] in \<open>simp add: dlq_retry_def\<close>)

lemma dlq_purge_outcome:
  assumes inv: "eng_inv en"
  shows "outcome env en True (map_option snd (dlq_purge env i en))"
proof (rule find_dead_cases [of i en])
  fix job assume j: "find_dead i en = Inr job" "find_job i (en_state en) = Some job" "dead_in en i"
  have "outcome env en True (log_and_apply env (RJobsPurged \<lparr>jp_ids = [i]\<rparr>) en)"
    by (rule outcome_one [OF inv])
      (use purge_log [OF inv, of "[i]" env] j(3) in \<open>auto simp: room_for_def logged_def size_ok_def\<close>)
  from outcome_bind [OF this] show ?thesis using j eng_job(1) [OF inv [unfolded eng_inv_def] j(2)] by (simp add: dlq_purge_def)
qed (use outcome_same [OF inv] in \<open>simp add: dlq_purge_def\<close>)

lemma dlq_all_outcome:
  assumes inv: "eng_inv en"
  shows "outcome env en (in_time en) (map_option snd (dlq_retry_all env n en))"
    and "outcome env en True (map_option snd (dlq_purge_all env n en))"
proof -
  show "outcome env en (in_time en) (map_option snd (dlq_retry_all env n en))"
  proof (cases "find_queue n (en_state en)")
    case (Some q)
    have "outcome env en (in_time en) (retry_each env (st_wall_now (en_state en)) (q_dead q) en)"
      by (rule outcome_mono [OF retry_each_ok [OF inv]]) (use queue_dead [OF inv Some] in_timeD(9) [of en] in auto)
    then show ?thesis using Some outcome_same [OF inv] by (auto simp: dlq_retry_all_def intro!: outcome_bind)
  qed (simp add: dlq_retry_all_def outcome_same [OF inv])
  show "outcome env en True (map_option snd (dlq_purge_all env n en))"
  proof (cases "find_queue n (en_state en)")
    case (Some q)
    have "outcome env en True (purge_chunks env (q_dead q) en)"
      by (rule purge_chunks_ok [OF inv]) (use queue_dead [OF inv Some] in auto)
    then show ?thesis using Some outcome_same [OF inv] by (auto simp: dlq_purge_all_def intro!: outcome_bind)
  qed (simp add: dlq_purge_all_def outcome_same [OF inv])
qed

end
