(* ===== verification/EngineProps.thy ===== *)
theory EngineProps
  imports EngineSafe
begin

text \<open>
  What the engine promises its callers: no operation aborts, tokens fence off old workers, the
  best ready job is handed out, an enqueue creates what was asked for, leases end, and the retry
  delay follows the documented curve.
\<close>

section \<open>Operations\<close>

datatype EngineOp =
    OTick WallTime int int "JobId list"
  | OEnqueue EnqueueRequest
  | OReserve "bytes list" DurationMs
  | OHeartbeat JobId LeaseToken DurationMs
  | OAck JobId LeaseToken
  | OFail FailRequest
  | OCancel JobId
  | ORetry JobId
  | ORetryAll bytes
  | OPurge JobId
  | OPurgeAll bytes

fun run_op :: "('s, 'g) Env \<Rightarrow> EngineOp \<Rightarrow> ('s, 'g) Engine \<Rightarrow> ('s, 'g) Engine option" where
  "run_op env (OTick w m m' order) en = tick env w m m' order en"
| "run_op env (OEnqueue req) en = map_option snd (enqueue env req en)"
| "run_op env (OReserve qs l) en = map_option snd (reserve env qs l en)"
| "run_op env (OHeartbeat i t l) en = map_option snd (heartbeat env i t l en)"
| "run_op env (OAck i t) en = map_option snd (ack env i t en)"
| "run_op env (OFail req) en = map_option snd (fail env req en)"
| "run_op env (OCancel i) en = map_option snd (cancel_job env i en)"
| "run_op env (ORetry i) en = map_option snd (dlq_retry env i en)"
| "run_op env (ORetryAll q) en = map_option snd (dlq_retry_all env q en)"
| "run_op env (OPurge i) en = map_option snd (dlq_purge env i en)"
| "run_op env (OPurgeAll q) en = map_option snd (dlq_purge_all env q en)"

text \<open>
  What an operation may rely on: the 64-bit counters and 32-bit slab positions have not run
  out, the monotonic clock fits the wheel, and the hash map is walked completely.
\<close>

fun possible :: "EngineOp \<Rightarrow> ('s, 'g) Engine \<Rightarrow> bool" where
  "possible (OTick w m m' order) en \<longleftrightarrow> tick_ok (word_of_int m) \<and> distinct order \<and> set order = dom (st_jobs (en_state en))"
| "possible (OEnqueue req) en \<longleftrightarrow> id_room en"
| "possible (OReserve qs l) en \<longleftrightarrow> st_next_token (en_state en) \<noteq> - 1"
| "possible _ en \<longleftrightarrow> True"

text \<open>Times and priorities that fit a record.\<close>

fun timely :: "EngineOp \<Rightarrow> ('s, 'g) Engine \<Rightarrow> bool" where
  "timely (OTick w m m' order) en \<longleftrightarrow> in_time (en\<lparr>en_state := set_now w m (en_state en)\<rparr>)"
| "timely (OEnqueue req) en \<longleftrightarrow> in_time en \<and> in_i32 (er_priority req)"
| "timely _ en \<longleftrightarrow> in_time en"

lemma run_op_outcome:
  assumes "eng_inv en" and "possible op en"
  shows "outcome env en (fair_draw env \<and> timely op en) (run_op env op en)"
  using assms
  by (cases op)
    (auto intro: outcome_mono [OF tick_ok_outcome] outcome_mono [OF enqueue_outcome] outcome_mono [OF reserve_outcome]
      outcome_mono [OF heartbeat_outcome] outcome_mono [OF ack_outcome] outcome_mono [OF fail_outcome] outcome_mono [OF cancel_outcome]
      outcome_mono [OF dlq_retry_outcome] outcome_mono [OF dlq_all_outcome(1)] outcome_mono [OF dlq_purge_outcome]
      outcome_mono [OF dlq_all_outcome(2)])

inductive runs :: "('s, 'g) Env \<Rightarrow> ('s, 'g) Engine \<Rightarrow> EngineOp list \<Rightarrow> ('s, 'g) Engine \<Rightarrow> bool" for env where
  runs_Nil: "runs env en [] en"
| runs_Cons: "possible op en \<Longrightarrow> run_op env op en = Some en1 \<Longrightarrow> runs env en1 ops en2 \<Longrightarrow> runs env en (op # ops) en2"

inductive_cases runs_NilE [elim!]: "runs env en [] en'"
inductive_cases runs_ConsE: "runs env en (op # ops) en'"

lemma runs_trace: "runs env en ops en' \<Longrightarrow> eng_inv en \<Longrightarrow> eng_inv en' \<and> (\<exists>rs. trace env rs en en')"
proof (induction rule: runs.induct)
  case (runs_Nil en)
  then show ?case by blast
next
  case (runs_Cons op en en1 ops en2)
  have "eng_inv en1 \<and> (\<exists>rs. trace env rs en en1)"
    using run_op_outcome [OF runs_Cons.prems runs_Cons.hyps(1), of env] runs_Cons.hyps(2) by (auto simp: outcome_def)
  then show ?case using runs_Cons.IH trace_trans by blast
qed

section \<open>Reservations\<close>

definition granted :: "('s, 'g) Engine \<Rightarrow> DurationMs \<Rightarrow> Reservation \<Rightarrow> ('s, 'g) Engine \<Rightarrow> bool" where
  "granted en l rs en' \<longleftrightarrow> (\<exists>j j'. find_job (rs_id rs) (en_state en) = Some j \<and> j_state j = kReady \<and> j_queue j = rs_queue rs \<and>
     (\<forall>k jk. find_job k (en_state en) = Some jk \<longrightarrow> j_state jk = kReady \<longrightarrow> j_queue jk = rs_queue rs \<longrightarrow> \<not> before jk j) \<and>
     find_job (rs_id rs) (en_state en') = Some j' \<and> j_state j' = kLeased \<and> j_lease_token j' = rs_token rs \<and>
     rs_payload rs = j_payload j \<and> rs_attempt rs = j_attempts j + 1 \<and> rs_attempt rs \<le> rs_max_attempts rs \<and>
     rs_token rs = st_next_token (en_state en) \<and> st_next_token (en_state en') = rs_token rs + 1 \<and>
     rs_lease_expires_at rs = st_wall_now (en_state en) + l \<and>
     durable (en_state en') = (put_job (rs_id rs) (persist j') (durable (en_state en)))\<lparr>d_next_token := rs_token rs + 1\<rparr>)"

definition none_ready :: "('s, 'g) Engine \<Rightarrow> bytes \<Rightarrow> bool" where
  "none_ready en n \<longleftrightarrow> (\<forall>i j. find_job i (en_state en) = Some j \<longrightarrow> j_state j = kReady \<longrightarrow> j_queue j \<noteq> n)"

lemma eng_queue:
  assumes inv: "eng_inv en"
  shows "find_queue n (en_state en) = None \<Longrightarrow> none_ready en n"
    and "find_queue n (en_state en) = Some q \<Longrightarrow> q_name q = n \<and> heap_ok (st_jobs (en_state en)) (q_ready q) \<and>
      set (q_ready q) = {i. \<exists>j. find_job i (en_state en) = Some j \<and> j_state j = kReady \<and> j_queue j = n}"
proof -
  let ?st = "en_state en"
  have I: "idx (st_jobs ?st) (st_queues ?st) (st_wheel ?st) (st_replaying ?st) {} {}"
    using inv unfolding eng_inv_def eng_good_def good_def idx_inv_def by blast
  show "none_ready en n" if "find_queue n ?st = None"
    using idxD(5) [OF I] that by (fastforce simp: none_ready_def find_job_def find_queue_def job_ok_def)
  show "q_name q = n \<and> heap_ok (st_jobs ?st) (q_ready q) \<and>
      set (q_ready q) = {i. \<exists>j. find_job i ?st = Some j \<and> j_state j = kReady \<and> j_queue j = n}" if "find_queue n ?st = Some q"
    using idxD(4) [OF I, of n q] that by (simp add: find_queue_def queue_ok_def jobs_in_def find_job_def)
qed

lemma lease_effect:
  assumes inv: "eng_inv en" and room: "st_next_token (en_state en) \<noteq> - 1"
    and j: "find_job i (en_state en) = Some j" "j_state j = kReady" "j_attempts j < j_max_attempts j"
    and log: "log_and_apply env (RJobLeased \<lparr>jl_id = i, jl_token = st_next_token (en_state en), jl_lease_expires_at = e, jl_at = w\<rparr>) en = Some en'"
  shows "\<exists>j'. find_job i (en_state en') = Some j' \<and> j_id j' = i \<and> j_state j' = kLeased \<and> j_lease_token j' = st_next_token (en_state en) \<and>
    j_payload j' = j_payload j \<and> j_attempts j' = j_attempts j + 1 \<and> j_max_attempts j' = j_max_attempts j \<and> j_lease_expires_at j' = e \<and>
    st_next_token (en_state en') = st_next_token (en_state en) + 1 \<and>
    durable (en_state en') = (put_job i (persist j') (durable (en_state en)))\<lparr>d_next_token := st_next_token (en_state en) + 1\<rparr>"
proof -
  let ?r = "RJobLeased \<lparr>jl_id = i, jl_token = st_next_token (en_state en), jl_lease_expires_at = e, jl_at = w\<rparr>"
  let ?p = "(persist j)\<lparr>j_state := kLeased, j_attempts := j_attempts j + 1, j_lease_token := st_next_token (en_state en), j_lease_expires_at := e\<rparr>"
  have tok: "d_next_token (durable st) = st_next_token st" for st by (simp add: durable_def)
  have s: "spec_step ?r (durable (en_state en)) = Some ((put_job i ?p (durable (en_state en)))\<lparr>d_next_token := st_next_token (en_state en) + 1\<rparr>)"
    using j(2,3) live_job(1) [OF j(1)] tok by (simp add: spec_lease_def persist_state)
  have room': "room_for ?r (en_state en)" using room by (simp add: room_for_def)
  have d: "durable (en_state en') = (put_job i ?p (durable (en_state en)))\<lparr>d_next_token := st_next_token (en_state en) + 1\<rparr>"
    and inv': "eng_inv en'"
    using log_one [OF inv room' s, of env] log by auto
  then obtain j' where j': "find_job i (en_state en') = Some j'" "?p = persist j'"
    using live_job(2) [of "en_state en'" i ?p] by (auto simp: put_job_def)
  have "j_state j' = kLeased" using persist_state(1) [of j' kLeased] arg_cong [OF j'(2) [symmetric], of j_state] by (simp split: if_splits)
  moreover have "j_id j' = i" using eng_job(1) [OF inv' [unfolded eng_inv_def] j'(1)] .
  moreover have "st_next_token (en_state en') = st_next_token (en_state en) + 1" using d tok [of "en_state en'"] by simp
  ultimately show ?thesis
    using j'(1) d [unfolded j'(2)] arg_cong [OF j'(2), of j_lease_token] arg_cong [OF j'(2), of j_payload] arg_cong [OF j'(2), of j_attempts]
      arg_cong [OF j'(2), of j_max_attempts] arg_cong [OF j'(2), of j_lease_expires_at]
    by (simp add: persist_state)
qed

lemma reserve_from_granted:
  assumes inv: "eng_inv en" and room: "st_next_token (en_state en) \<noteq> - 1"
  shows "reserve_from env names l en = Some (Inr (Some rs), en') \<Longrightarrow>
    granted en l rs en' \<and> (\<exists>pre post. names = pre @ rs_queue rs # post \<and> (\<forall>n\<in>set pre. none_ready en n))"
proof (induction names)
  case (Cons n names)
  have skip: ?case if nr: "none_ready en n" and rf: "reserve_from env names l en = Some (Inr (Some rs), en')"
  proof -
    obtain pre post where "granted en l rs en'" "names = pre @ rs_queue rs # post" "\<forall>n\<in>set pre. none_ready en n"
      using Cons.IH [OF rf] by blast
    then show ?thesis using nr by (intro conjI exI [of _ "n # pre"] exI [of _ post]) simp_all
  qed
  show ?case
  proof (cases "find_queue n (en_state en)")
    case None
    then show ?thesis using skip eng_queue(1) [OF inv None] Cons.prems by (simp add: Let_def)
  next
    case q: (Some q)
    note Q = eng_queue(2) [OF inv q]
    show ?thesis
    proof (cases "heap_top (q_ready q)")
      case None
      then have "none_ready en n" using Q by (auto simp: none_ready_def heap_top_def split: if_splits)
      then show ?thesis using skip None q Cons.prems by (simp add: Let_def)
    next
      case top: (Some i)
      obtain j where j: "find_job i (en_state en) = Some j" "j_id j = i" "j_state j = kReady" "j_queue j = n" "j_attempts j < j_max_attempts j"
        using ready_top [OF inv q top] by blast
      have ji: "job_of (en_state en) i = j" using j(1) by (simp add: find_job_def)
      obtain en1 where en1: "log_and_apply env (RJobLeased \<lparr>jl_id = i, jl_token = st_next_token (en_state en),
          jl_lease_expires_at = st_wall_now (en_state en) + l, jl_at = st_wall_now (en_state en)\<rparr>) en = Some en1"
        "rs = reservation_of (job_of (en_state en1) i)\<lparr>rs_queue := q_name q\<rparr>" "en' = en1"
        using Cons.prems q top ji j(2) by (auto simp: Let_def bind_eq_Some_conv)
      obtain j' where j': "find_job i (en_state en1) = Some j'" "j_id j' = i" "j_state j' = kLeased" "j_lease_token j' = st_next_token (en_state en)"
          "j_payload j' = j_payload j" "j_attempts j' = j_attempts j + 1" "j_max_attempts j' = j_max_attempts j"
          "j_lease_expires_at j' = st_wall_now (en_state en) + l" "st_next_token (en_state en1) = st_next_token (en_state en) + 1"
          "durable (en_state en1) = (put_job i (persist j') (durable (en_state en)))\<lparr>d_next_token := st_next_token (en_state en) + 1\<rparr>"
        using lease_effect [OF inv room j(1,3,5) en1(1)] by blast
      have rs: "rs = reservation_of j'\<lparr>rs_queue := n\<rparr>" using en1(2) j'(1) Q by (simp add: find_job_def)
      have "\<not> before jk j" if "find_job k (en_state en) = Some jk" "j_state jk = kReady" "j_queue jk = n" for k jk
      proof -
        have "k \<in> set (q_ready q)" using that Q by simp
        then show ?thesis using heap_ok_top(2) [of "st_jobs (en_state en)" "q_ready q" i k] Q top that(1) j(1)
          by (simp add: deref_def find_job_def)
      qed
      then have "granted en l rs en'"
        using j j' attempts_succ(1) [OF j(5)] en1(3) unfolding granted_def rs reservation_of_def by auto
      moreover have "rs_queue rs = n" by (simp add: rs reservation_of_def)
      ultimately show ?thesis by (intro conjI exI [of _ "[]"] exI [of _ names]) simp_all
    qed
  qed
qed simp

lemma reserve_granted:
  assumes "eng_inv en" and "st_next_token (en_state en) \<noteq> - 1" and "reserve env names l en = Some (Inr (Some rs), en')"
  shows "granted en l rs en' \<and> (\<exists>pre post. names = pre @ rs_queue rs # post \<and> (\<forall>n\<in>set pre. none_ready en n))"
proof (rule reserve_from_granted [OF assms(1,2), of env])
  show "reserve_from env names l en = Some (Inr (Some rs), en')"
    using assms(3) by (auto simp: reserve_def Let_def split: if_splits)
qed

lemma lease_top:
  assumes inv: "eng_inv en" and room: "st_next_token (en_state en) \<noteq> - 1"
    and q: "find_queue n (en_state en) = Some q" and k: "heap_top (q_ready q) = Some k"
  shows "\<exists>en1. log_and_apply env (RJobLeased \<lparr>jl_id = j_id (job_of (en_state en) k), jl_token = st_next_token (en_state en),
    jl_lease_expires_at = e, jl_at = w\<rparr>) en = Some en1"
proof -
  obtain jk where jk: "find_job k (en_state en) = Some jk" "j_id jk = k" "j_state jk = kReady" "j_attempts jk < j_max_attempts jk"
    using ready_top [OF inv q k] by blast
  then have "j_id (job_of (en_state en) k) = k" by (simp add: find_job_def)
  then show ?thesis using lease_ok [OF inv room jk(1,3,4), of env e w] by (auto simp: outcome_def)
qed

lemma reserve_from_live:
  assumes inv: "eng_inv en" and room: "st_next_token (en_state en) \<noteq> - 1"
    and ready: "find_job i (en_state en) = Some j" "j_state j = kReady"
  shows "j_queue j \<in> set names \<Longrightarrow> \<exists>rs en'. reserve_from env names l en = Some (Inr (Some rs), en')"
proof (induction names)
  case (Cons n names)
  show ?case
  proof (cases "find_queue n (en_state en)")
    case None
    then have "j_queue j \<noteq> n" using eng_queue(1) [OF inv None] ready by (auto simp: none_ready_def)
    then show ?thesis using Cons None by (simp add: Let_def)
  next
    case (Some q)
    show ?thesis
    proof (cases "heap_top (q_ready q)")
      case None
      then have "j_queue j \<noteq> n" using eng_queue(2) [OF inv Some] ready by (auto simp: heap_top_def split: if_splits)
      then show ?thesis using Cons None Some by (simp add: Let_def)
    next
      case top: (Some k)
      then show ?thesis using lease_top [OF inv room Some top, of env "st_wall_now (en_state en) + l" "st_wall_now (en_state en)"] Some
        by (auto simp: Let_def)
    qed
  qed
qed simp

section \<open>The timer of a lease\<close>

lemma ok_unit: "ok r \<Longrightarrow> r = Inr ()"
  by (cases r) simp_all

lemma reserve_timer:
  assumes inv: "eng_inv en" "eng_inv en'" and r: "reserve env names l en = Some (Inr (Some rs), en')"
    and l: "0 \<le> eo_min_lease_ms (en_options en)"
  shows "\<exists>e\<in>pending (st_wheel (en_state en')). te_id e = rs_id rs \<and> te_deadline e = word_of_int (st_mono_now (en_state en) + l)"
proof -
  let ?rec = "\<lambda>k. RJobLeased \<lparr>jl_id = k, jl_token = st_next_token (en_state en), jl_lease_expires_at = st_wall_now (en_state en) + l,
    jl_at = st_wall_now (en_state en)\<rparr>"
  have legal: "0 \<le> l" and from_: "reserve_from env names l en = Some (Inr (Some rs), en')"
    using r l by (auto simp: reserve_def Let_def split: if_splits)
  have "\<exists>k. log_and_apply env (?rec k) en = Some en' \<and> rs_id rs = j_id (job_of (en_state en') k) \<and>
      find_job k (en_state en) \<noteq> None \<and> j_id (job_of (en_state en) k) = k"
    using from_
  proof (induction names)
    case (Cons n names)
    show ?case
    proof (cases "find_queue n (en_state en)")
      case (Some q)
      show ?thesis
      proof (cases "heap_top (q_ready q)")
        case top: (Some k)
        obtain j where j: "find_job k (en_state en) = Some j" "j_id j = k" using ready_top [OF inv(1) Some top] by blast
        then have "j_id (job_of (en_state en) k) = k" by (simp add: find_job_def)
        then show ?thesis using Cons.prems Some top j by (auto simp: Let_def bind_eq_Some_conv reservation_of_def intro!: exI [of _ k])
      qed (use Cons Some in \<open>simp add: Let_def\<close>)
    qed (use Cons in \<open>simp add: Let_def\<close>)
  qed simp
  then obtain k where k: "log_and_apply env (?rec k) en = Some en'" "rs_id rs = j_id (job_of (en_state en') k)" by blast
  have a: "apply_rec (?rec k) (en_state en) = Some (Inr (), en_state en')"
    using k(1) by (cases "ev_append env (type_of (?rec k)) (encode_record (?rec k)) (en_sink en)")
      (auto simp: log_and_apply_def bind_eq_Some_conv dest!: ok_unit)
  have g: "good (en_state en) {} {} {}" "\<not> st_replaying (en_state en)" using inv(1) by (simp_all add: eng_inv_def eng_good_def)
  obtain e where e: "e \<in> pending (st_wheel (en_state en'))" "te_id e = k"
      "te_deadline e = word_of_int (st_mono_now (en_state en) + l)"
    using lease_applied_timer [OF g a] legal by auto
  have "timers_ok (st_jobs (en_state en')) (st_replaying (en_state en')) {} {} (st_wheel (en_state en'))"
    using inv(2) idxD(6) by (auto simp: eng_inv_def eng_good_def good_def idx_inv_def)
  then obtain j where "st_jobs (en_state en') k = Some j" using timers_okD(4) e by blast
  then have "j_id (job_of (en_state en') k) = k" using eng_job(1) [OF inv(2) [unfolded eng_inv_def], of k j] by (simp add: find_job_def)
  then show ?thesis using e k(2) by auto
qed

section \<open>Enqueueing\<close>

lemma enqueue_core_job:
  assumes "je_queue r = n"
  shows "st_jobs (enqueue_core r st) (je_id r) = Some ((core (enqueue_job (st_abi st) r))\<lparr>j_state :=
    (if st_replaying st \<or> je_run_at r > st_wall_now st then kScheduled else kReady)\<rparr>)"
proof -
  define st1 where "st1 = add_job (core (enqueue_job (st_abi st) r)) (get_or_create_queue (je_queue r) st)"
  have "st_jobs st1 (je_id r) = Some (core (enqueue_job (st_abi st) r))" by (simp add: st1_def enqueue_job_def)
  then show ?thesis by (simp add: enqueue_core_def Let_def st1_def)
qed

lemma find_idem_enqueued:
  assumes "outer (en_state en') = enqueue_core r (outer st)" and "je_idem_key r \<noteq> []"
  shows "\<exists>e. find_idem (je_idem_key r) (en_state en') = Some e \<and> ie_job_id e = je_id r \<and> ie_expires_at e = je_idem_expires_at r"
proof -
  have "st_idem_index (outer (en_state en')) (je_idem_key r) = st_idem_index (enqueue_core r (outer st)) (je_idem_key r)"
    using assms(1) by simp
  then show ?thesis
    using assms(2) by (auto simp: find_idem_def outer_fields enqueue_core_def Let_def upsert_idem_def split: option.splits)
qed

lemma enqueue_logs:
  assumes "enqueue env req en = Some (Inr r, en')" and "enq_created r"
  shows "log_and_apply env (RJobEnqueued (enqueue_record req en)) en = Some en'" and "enq_id r = st_next_job_id (en_state en)"
    and "is_valid_queue_name (er_queue req)" and "je_max_attempts (enqueue_record req en) \<noteq> 0"
  using assms by (auto simp: enqueue_def Let_def bind_eq_Some_conv enqueue_record_def split: if_splits option.splits)

lemma enqueue_applied:
  assumes inv: "eng_inv en" and room: "id_room en" and enq: "enqueue env req en = Some (Inr r, en')" "enq_created r"
  shows "eng_inv en'" and "outer (en_state en') = enqueue_core (enqueue_record req en) (outer (en_state en))"
    and "same_setting (en_state en') (en_state en)" and "en_options en' = en_options en"
    and "spec_enqueue (enqueue_record req en) (durable (en_state en)) = Some (durable (en_state en'))"
proof -
  note l = enqueue_logs [OF enq]
  let ?r = "RJobEnqueued (enqueue_record req en)"
  have "spec_step ?r (durable (en_state en)) \<noteq> None"
    using l(3,4) valid_name_nonempty [of "er_queue req"] by (auto simp: spec_enqueue_def enqueue_record_def Let_def durable_def)
  then obtain d where "spec_step ?r (durable (en_state en)) = Some d" by blast
  from log_one [OF inv _ this, of env] room l(1)
  show "eng_inv en'" "outer (en_state en') = enqueue_core (enqueue_record req en) (outer (en_state en))"
    "same_setting (en_state en') (en_state en)" "en_options en' = en_options en"
    "spec_enqueue (enqueue_record req en) (durable (en_state en)) = Some (durable (en_state en'))"
    by (auto simp: room_for_def id_room_def logged_def)
qed

lemma spec_enqueue_effect:
  assumes "spec_enqueue r d = Some d'"
  shows "d_jobs d' = (d_jobs d)(je_id r \<mapsto> spec_job r)" "d_next_job_id d' = je_id r + 1" "d_next_token d' = d_next_token d"
  using assms by (auto simp: spec_enqueue_def Let_def put_job_def add_total_def split: if_splits option.splits)

lemma enqueue_counters:
  assumes inv: "eng_inv en" and room: "id_room en" and enq: "enqueue env req en = Some (Inr r, en')" "enq_created r"
  shows "dom (st_jobs (en_state en')) = insert (enq_id r) (dom (st_jobs (en_state en)))"
    and "st_next_job_id (en_state en') = enq_id r + 1" and "st_next_token (en_state en') = st_next_token (en_state en)"
proof -
  have id: "je_id (enqueue_record req en) = enq_id r" using enqueue_logs(2) [OF enq] by (simp add: enqueue_record_def Let_def)
  have d: "dom (st_jobs st) = dom (d_jobs (durable st))" "st_next_job_id st = d_next_job_id (durable st)"
    "st_next_token st = d_next_token (durable st)" for st by (auto simp: durable_def)
  show "dom (st_jobs (en_state en')) = insert (enq_id r) (dom (st_jobs (en_state en)))"
    "st_next_job_id (en_state en') = enq_id r + 1" "st_next_token (en_state en') = st_next_token (en_state en)"
    unfolding d using spec_enqueue_effect [OF enqueue_applied(5) [OF assms]] id by simp_all
qed

lemma spec_enqueue_durable:
  assumes "spec_enqueue r d = Some d'"
  shows "d' = d\<lparr>d_jobs := (d_jobs d)(je_id r \<mapsto> spec_job r),
      d_totals := (d_totals d)(je_queue r \<mapsto> (let t = value_or (d_totals d (je_queue r)) zero_totals in t\<lparr>qt_enqueued := qt_enqueued t + 1\<rparr>)),
      d_next_job_id := je_id r + 1,
      d_idem := (if je_idem_key r = [] then d_idem d
        else filter (\<lambda>(k, _). k \<noteq> je_idem_key r) (d_idem d) @ [(je_idem_key r, je_id r, je_idem_expires_at r)])\<rparr>"
  using assms by (auto simp: spec_enqueue_def Let_def put_job_def add_total_def value_or_def split: if_splits option.splits)

lemma enqueue_effect:
  assumes inv: "eng_inv en" and room: "id_room en" and enq: "enqueue env req en = Some (Inr r, en')" "enq_created r"
  defines "rec \<equiv> enqueue_record req en"
  shows "find_job (enq_id r) (en_state en) = None \<and> (\<exists>j. find_job (enq_id r) (en_state en') = Some j \<and> j_queue j = er_queue req \<and>
    j_payload j = er_payload req \<and> j_priority j = er_priority req \<and> j_attempts j = 0 \<and> j_run_at j = je_run_at rec \<and>
    j_state j = (if j_run_at j > st_wall_now (en_state en) then kScheduled else kReady) \<and>
    j_idem_key j = er_idem_key req \<and> j_created_at j = st_wall_now (en_state en) \<and> j_max_attempts j = je_max_attempts rec \<and>
    j_backoff_base_ms j = je_backoff_base_ms rec \<and> j_backoff_cap_ms j = je_backoff_cap_ms rec)"
proof -
  have id: "je_id rec = enq_id r" using enqueue_logs(2) [OF enq] by (simp add: enqueue_record_def Let_def rec_def)
  have "st_jobs (outer (en_state en')) (enq_id r) = Some ((core (enqueue_job (st_abi (en_state en)) rec))\<lparr>j_state :=
      (if je_run_at rec > st_wall_now (en_state en) then kScheduled else kReady)\<rparr>)"
    using enqueue_core_job [of rec _ "outer (en_state en)"] enqueue_applied(2) [OF inv room enq, folded rec_def] inv id
    by (simp add: outer_fields eng_inv_def eng_good_def)
  then obtain j where j: "find_job (enq_id r) (en_state en') = Some j"
      "core j = core ((enqueue_job (st_abi (en_state en)) rec)\<lparr>j_state := (if je_run_at rec > st_wall_now (en_state en) then kScheduled else kReady)\<rparr>)"
    by (auto simp: outer_fields cores_def find_job_def core_def)
  note c = core_eq_fields [OF j(2)] arg_cong [OF j(2), of j_idem_key]
  have f: "j_queue j = er_queue req" "j_payload j = er_payload req" "j_priority j = er_priority req" "j_attempts j = 0"
    "j_run_at j = je_run_at rec" "j_state j = (if je_run_at rec > st_wall_now (en_state en) then kScheduled else kReady)"
    "j_idem_key j = er_idem_key req" "j_created_at j = st_wall_now (en_state en)" "j_max_attempts j = je_max_attempts rec"
    "j_backoff_base_ms j = je_backoff_base_ms rec" "j_backoff_cap_ms j = je_backoff_cap_ms rec"
    using c by (simp_all add: enqueue_job_def fresh_job_def enqueue_record_def Let_def rec_def)
  have "dur_inv (en_state en) {}" using inv by (simp add: eng_inv_def eng_good_def good_def base_def)
  then have "i < st_next_job_id (en_state en)" if "st_jobs (en_state en) i = Some j" for i j
    using that by (auto simp: dur_inv_def dur_job_def)
  then have "st_jobs (en_state en) (enq_id r) = None" unfolding enqueue_logs(2) [OF enq] by (metis less_irrefl option.exhaust)
  then show ?thesis using j(1) f by (simp add: find_job_def)
qed

section \<open>Backoff\<close>

lemma shifted_base:
  assumes "d < 32"
  shows "uint (push_bit d (ucast (b :: u32) :: u64)) = uint b * 2 ^ d"
proof -
  have "uint b * 2 ^ d < 2 ^ 32 * 2 ^ d" using uint32_less [of b] by simp
  also have "\<dots> \<le> 2 ^ 32 * 2 ^ (32 :: nat)" using power_increasing [of d 32 "2 :: int"] assms by (intro mult_left_mono) simp_all
  finally have "uint b * 2 ^ d < 2 ^ 64" by simp
  moreover have "uint (push_bit d (ucast b :: u64)) = take_bit 64 (push_bit d (uint b))"
    by (simp add: unsigned_push_bit_eq uint_up_ucast is_up)
  ultimately show ?thesis by (simp add: push_bit_eq_mult take_bit_int_eq_self)
qed

section \<open>Properties\<close>

text \<open>
  C2: no operation of the engine aborts while the counters have room, whatever its arguments:
  it ends with every index, counter and timer consistent, and all it did to the durable state
  is in the records it appended. With the clock, the configured durations and the priority in
  range, each of these records can be decoded after a restart.
\<close>
theorem engine_ops_safe:
  assumes "eng_inv en" and "possible op en"
  shows "\<exists>en' rs. run_op env op en = Some en' \<and> eng_inv en' \<and>
    (en_last_lsn en', en_sink en') = append_all env rs (en_last_lsn en, en_sink en) \<and>
    (\<exists>d. spec_run rs (durable (en_state en)) = Some d \<and> kept (durable (en_state en')) d) \<and>
    (fair_draw env \<and> timely op en \<longrightarrow> (\<forall>r\<in>set rs. decode_record (type_of r) (encode_record r) = Inr r))"
proof -
  obtain en' rs where r: "run_op env op en = Some en'" "eng_inv en'" "trace env rs en en'"
      "fair_draw env \<and> timely op en \<longrightarrow> list_all record_ok rs"
    using run_op_outcome [OF assms, of env] by (auto simp: outcome_def)
  show ?thesis
    using r trace_sink [OF r(3)] trace_replay [OF r(3) kept_refl] decode_encode by (auto simp: list_all_iff)
qed

text \<open>
  C18: a reservation hands out a ready job of the first listed queue that has one, and no ready
  job of that queue should run before it. The job is then leased under a token no job had.
\<close>
theorem engine_reserve_best:
  assumes "eng_inv en" and "st_next_token (en_state en) \<noteq> - 1" and "reserve env names l en = Some (Inr (Some rs), en')"
  shows "granted en l rs en' \<and> (\<exists>pre post. names = pre @ rs_queue rs # post \<and> (\<forall>n\<in>set pre. none_ready en n)) \<and>
    (\<forall>i j. find_job i (en_state en) = Some j \<longrightarrow> j_lease_token j \<noteq> rs_token rs)"
proof -
  note g = reserve_granted [OF assms]
  have "dur_inv (en_state en) {}" using assms(1) by (simp add: eng_inv_def eng_good_def good_def base_def)
  then have "j_lease_token j < st_next_token (en_state en)" if "find_job i (en_state en) = Some j" for i j
    using that by (auto simp: dur_inv_def dur_job_def find_job_def)
  moreover have "rs_token rs = st_next_token (en_state en)" using g by (auto simp: granted_def)
  ultimately have "j_lease_token j \<noteq> rs_token rs" if "find_job i (en_state en) = Some j" for i j using that by fastforce
  then show ?thesis using g by blast
qed

text \<open>
  C3: tokens fence. However the engine runs between two reservations, the later one has the
  larger token; and once the same job is leased again, an acknowledgement, heartbeat or failure
  report under the earlier token is refused as stale and changes nothing.
\<close>
theorem engine_tokens_fence:
  assumes inv: "eng_inv en0" and room: "st_next_token (en_state en0) \<noteq> - 1" "st_next_token (en_state en2) \<noteq> - 1"
    and first: "reserve env qs l en0 = Some (Inr (Some rs), en1)" and run: "runs env en1 ops en2"
    and later: "reserve env qs' l' en2 = Some (Inr (Some rs'), en3)"
  shows "rs_token rs < rs_token rs' \<and> (rs_id rs' = rs_id rs \<longrightarrow>
    (\<exists>e. ack env (rs_id rs) (rs_token rs) en3 = Some (Inl e, en3) \<and> err_code e = kStaleToken) \<and>
    (\<exists>e. fail env \<lparr>fq_id = rs_id rs, fq_token = rs_token rs, fq_error = err, fq_retry_in_ms = None, fq_no_retry = nr\<rparr> en3 =
       Some (Inl e, en3) \<and> err_code e = kStaleToken) \<and>
    (\<exists>e. heartbeat env (rs_id rs) (rs_token rs) h en3 = Some (Inl e, en3)))"
proof -
  have inv1: "eng_inv en1"
    using run_op_outcome [OF inv, of "OReserve qs l" env] room(1) first by (auto simp: outcome_def)
  from runs_trace [OF run this] obtain rec where inv2: "eng_inv en2" and tr: "trace env rec en1 en2" by blast
  note g = reserve_granted [OF inv room(1) first] and g' = reserve_granted [OF inv2 room(2) later]
  have tok: "d_next_token (durable st) = st_next_token st" for st by (simp add: durable_def)
  have "rs_token rs < st_next_token (en_state en1)" using g room(1) word_succ_less by (auto simp: granted_def)
  also have "\<dots> \<le> st_next_token (en_state en2)" using trace_counters [OF tr] by (simp add: tok)
  also have "\<dots> = rs_token rs'" using g' by (auto simp: granted_def)
  finally have less: "rs_token rs < rs_token rs'" .
  obtain j where j: "find_job (rs_id rs') (en_state en3) = Some j" "j_state j = kLeased" "j_lease_token j = rs_token rs'"
    using g' by (auto simp: granted_def)
  have ne: "rs_token rs' \<noteq> rs_token rs" using less by auto
  then obtain e where e: "find_leased (rs_id rs') (rs_token rs) en3 = Inl e" "err_code e = kStaleToken"
    using j by (simp add: find_leased_def)
  show ?thesis
    using less e j by (auto simp: ack_def heartbeat_def fail_def Let_def)
qed

text \<open>
  C19: when a job is ready in one of the listed queues, a reservation with a legal lease gets one.
\<close>
theorem engine_reserve_live:
  assumes "eng_inv en" and "st_next_token (en_state en) \<noteq> - 1" and "list_all is_valid_queue_name names"
    and "eo_min_lease_ms (en_options en) \<le> l" and "l \<le> eo_max_lease_ms (en_options en)"
    and "find_job i (en_state en) = Some j" and "j_state j = kReady" and "j_queue j \<in> set names"
  shows "\<exists>rs en'. reserve env names l en = Some (Inr (Some rs), en')"
  using reserve_from_live [OF assms(1,2,6,7,8), of env l] assms(3-5,8) by (auto simp: reserve_def Let_def)

text \<open>
  C20: enqueueing creates one new job under an id no job had. The job has the queue, payload,
  priority and key that were asked for, the attempt limit and backoff that were asked for or
  else the defaults, the cap at least the base, and no attempt made. It runs at the time asked for, or after the delay,
  but never in the past, and is ready at once exactly when that time has come. Nothing
  else that is durable changes but the count of enqueued jobs of the queue, the next id and, with a
  key, the entry of that key, which expires one window later.
\<close>
theorem engine_enqueue_creates:
  assumes "eng_inv en" and "id_room en" and "enqueue env req en = Some (Inr r, en')" and "enq_created r"
  shows "find_job (enq_id r) (en_state en) = None \<and> same_setting (en_state en') (en_state en) \<and>
    (\<exists>j. find_job (enq_id r) (en_state en') = Some j \<and> j_queue j = er_queue req \<and>
      j_payload j = er_payload req \<and> j_priority j = er_priority req \<and> j_attempts j = 0 \<and>
      j_idem_key j = er_idem_key req \<and> j_created_at j = st_wall_now (en_state en) \<and>
      j_run_at j = max (st_wall_now (en_state en))
        (case er_run_at req of Some t \<Rightarrow> t | None \<Rightarrow> st_wall_now (en_state en) + er_delay_ms req) \<and>
      j_state j = (if j_run_at j > st_wall_now (en_state en) then kScheduled else kReady) \<and>
      j_max_attempts j = value_or (er_max_attempts req) (eo_default_max_attempts (en_options en)) \<and>
      j_backoff_base_ms j = value_or (er_backoff_base_ms req) (eo_default_backoff_base_ms (en_options en)) \<and>
      j_backoff_cap_ms j = max (j_backoff_base_ms j) (value_or (er_backoff_cap_ms req) (eo_default_backoff_cap_ms (en_options en))) \<and>
      durable (en_state en') = (durable (en_state en))
        \<lparr>d_jobs := (d_jobs (durable (en_state en)))(enq_id r \<mapsto> persist j),
         d_totals := (d_totals (durable (en_state en)))(er_queue req \<mapsto>
           (let t = value_or (d_totals (durable (en_state en)) (er_queue req)) zero_totals in t\<lparr>qt_enqueued := qt_enqueued t + 1\<rparr>)),
         d_next_job_id := enq_id r + 1,
         d_idem := (if er_idem_key req = [] then d_idem (durable (en_state en))
           else filter (\<lambda>(k, _). k \<noteq> er_idem_key req) (d_idem (durable (en_state en))) @
             [(er_idem_key req, enq_id r, st_wall_now (en_state en) + eo_idempotency_window_ms (en_options en))])\<rparr>)"
proof -
  let ?rec = "enqueue_record req en"
  note a = enqueue_applied [OF assms]
  have id: "je_id ?rec = enq_id r" using enqueue_logs(2) [OF assms(3,4)] by (simp add: enqueue_record_def Let_def)
  obtain j where none: "find_job (enq_id r) (en_state en) = None" and j: "find_job (enq_id r) (en_state en') = Some j"
      "j_queue j = er_queue req" "j_payload j = er_payload req" "j_priority j = er_priority req" "j_attempts j = 0"
      "j_run_at j = je_run_at ?rec" "j_state j = (if j_run_at j > st_wall_now (en_state en) then kScheduled else kReady)"
      "j_idem_key j = er_idem_key req" "j_created_at j = st_wall_now (en_state en)" "j_max_attempts j = je_max_attempts ?rec"
      "j_backoff_base_ms j = je_backoff_base_ms ?rec" "j_backoff_cap_ms j = je_backoff_cap_ms ?rec"
    using enqueue_effect [OF assms] by blast
  note d = spec_enqueue_durable [OF a(5), unfolded id]
  have "d_jobs (durable (en_state en')) (enq_id r) = Some (persist j)" using j(1) by (simp add: durable_def find_job_def)
  moreover have "d_jobs (durable (en_state en')) (enq_id r) = Some (spec_job ?rec)" by (subst d) simp
  ultimately have "spec_job ?rec = persist j" by simp
  then show ?thesis
    using none a(3) j d by (intro conjI exI [of _ j]) (simp_all add: enqueue_record_def Let_def value_or_def)
qed

text \<open>
  C4: a tick, without a clock step, ends every lease whose timer is due and whose time has run
  out on the wall clock: the job is pending again, dead, or gone, but not leased.
\<close>
theorem engine_tick_ends_leases:
  assumes inv: "eng_inv en" and tick: "tick_ok (word_of_int m)" and order: "distinct order" "set order = dom (st_jobs (en_state en))"
    and steady: "\<bar>w - m' - en_clock_offset_ms en\<bar> \<le> eo_clock_jump_threshold_ms (en_options en)"
    and timer: "e \<in> pending (st_wheel (en_state en))" "te_deadline e \<le> word_of_int m"
    and lease: "find_job (te_id e) (en_state en) = Some j" "j_state j = kLeased" "j_lease_expires_at j \<le> w"
  shows "\<exists>en'. tick env w m m' order en = Some en' \<and>
    (\<forall>j'. find_job (te_id e) (en_state en') = Some j' \<longrightarrow> j_state j' \<noteq> kLeased)"
proof -
  obtain en2 ids st' en4 rs en' where t: "detect_clock_jump order m' (en\<lparr>en_state := set_now w m (en_state en)\<rparr>) = Some en2" "eng_inv en2"
      "advance_timers [] (en_state en2) = Some (ids, st')" "\<forall>i\<in>set ids. unleased en4 i" "quiet en4 en'"
      "tick env w m m' order en = Some en'"
    by (rule tick_run [OF inv tick order, of m' w env]) blast
  have st2: "en_state en2 = set_now w m (en_state en)"
    using t(1) steady by (auto simp: detect_clock_jump_def Let_def set_now_def)
  have "state_inv (en_state en2)" using t(2) by (simp add: eng_inv_def eng_good_def state_inv_def)
  from advance_timers_reports [OF this] tick t(3) have ids: "set ids = {te_id e |e. e \<in> pending (st_wheel (en_state en2)) \<and>
      te_deadline e \<le> max (tw_now (st_wheel (en_state en2))) (word_of_int m) \<and>
      (\<exists>j. st_jobs (en_state en2) (te_id e) = Some j \<and> j_state j = kLeased \<and> j_lease_expires_at j \<le> w)}"
    by (auto simp: st2 set_now_def)
  have "te_id e \<in> set ids" unfolding ids using timer lease by (auto simp: st2 set_now_def find_job_def le_max_iff_disj)
  then obtain p where p: "d_jobs (durable (en_state en4)) (te_id e) = Some p" "j_state p \<noteq> kLeased" using t(4) by (auto simp: unleased_def)
  have "j_state j' \<noteq> kLeased" if j': "find_job (te_id e) (en_state en') = Some j'" for j'
  proof -
    have "d_jobs (durable (en_state en4)) (te_id e) = Some (persist j')"
      using kept_job [OF _ live_job(1) [OF j']] t(5) by (simp add: quiet_def)
    then show ?thesis using p persist_state(1) [of j' kLeased] by (auto split: if_splits)
  qed
  then show ?thesis using t(6) by blast
qed

text \<open>
  C22: the ceiling of the retry delay is the base doubled once per earlier attempt, up to the
  cap, for every base but zero and every attempt count; no 64-bit shift loses a bit.
\<close>
theorem backoff_ceiling_curve:
  assumes "base_ms \<noteq> 0 \<or> attempts \<le> 32"
  shows "backoff_ceiling attempts base_ms cap_ms = min (uint cap_ms) (uint base_ms * 2 ^ (unat attempts - 1))"
proof -
  let ?d = "if attempts = 0 then 0 else attempts - 1"
  have d: "unat ?d = unat attempts - 1" by (auto simp: unat_minus_one)
  show ?thesis
  proof (cases "?d \<ge> 32")
    case True
    then have big: "32 \<le> unat attempts - 1" using d word_le_nat_alt [of 32 ?d] by simp
    then have "\<not> attempts \<le> 32" by (auto simp: word_le_nat_alt)
    then have "1 \<le> uint base_ms" using assms by (simp add: word_neq_0_conv word_less_def)
    then have "2 ^ 32 * 1 \<le> uint base_ms * 2 ^ (unat attempts - 1)"
      using mult_mono [of 1 "uint base_ms" "2 ^ 32" "2 ^ (unat attempts - 1) :: int"] big power_increasing [OF big, of "2 :: int"] by simp
    then show ?thesis using True uint32_less [of cap_ms] by (simp add: backoff_ceiling_def Let_def)
  next
    case False
    then have "unat ?d < 32" using word_le_nat_alt [of 32 ?d] by simp
    moreover have "uint (min a b) = min (uint a) (uint b)" for a b :: u64 by (simp add: min_def word_le_def)
    ultimately show ?thesis using False shifted_base [of "unat ?d" base_ms] d
      by (simp add: backoff_ceiling_def Let_def uint_up_ucast is_up min.commute)
  qed
qed

text \<open>
  C36: with a zero base the curve is zero everywhere, but from the 33rd attempt on the code
  answers with the cap.
\<close>
theorem backoff_ceiling_zero_base:
  assumes "32 < attempts"
  shows "backoff_ceiling attempts 0 cap_ms = uint cap_ms \<and> min (uint cap_ms) (uint (0 :: u32) * 2 ^ (unat attempts - 1)) = 0"
proof -
  have n: "attempts \<noteq> 0" using assms by auto
  moreover have "32 \<le> attempts - 1" using assms unat_minus_one [OF n] by (simp add: word_le_nat_alt word_less_nat_alt)
  ultimately show ?thesis by (simp add: backoff_ceiling_def Let_def)
qed

section \<open>Witnesses\<close>

definition sample_env :: "((byte \<times> bytes) list, unit) Env" where
  "sample_env = \<lparr>ev_append = (\<lambda>t p s. (of_nat (length s) + 1, s @ [(t, p)])), ev_draw = (\<lambda>n g. (n, g))\<rparr>"

definition sample_engine :: "((byte \<times> bytes) list, unit) Engine" where
  "sample_engine = mk_engine sample_state [] 0 0 default_engine_options () 0"

definition sample_request :: EnqueueRequest where
  "sample_request = \<lparr>er_queue = str ''mail'', er_payload = str ''hi'', er_priority = 3, er_delay_ms = 0, er_run_at = None,
     er_max_attempts = None, er_backoff_base_ms = None, er_backoff_cap_ms = None, er_idem_key = str ''k''\<rparr>"

lemma sample_valid: "is_valid_queue_name (str ''mail'')"
  by (simp add: is_valid_queue_name_def str_def queue_name_char_def kMaxQueueNameBytes_def)

lemma sample_engine_fields:
  "en_options sample_engine = default_engine_options" "st_wall_now (en_state sample_engine) = 0" "st_mono_now (en_state sample_engine) = 0"
  "st_next_job_id (en_state sample_engine) = 1" "st_next_token (en_state sample_engine) = 1" "st_jobs (en_state sample_engine) = Map.empty"
  "find_idem k (en_state sample_engine) = None" "en_clock_offset_ms sample_engine = 0"
  by (simp_all add: sample_engine_def mk_engine_def set_now_def sample_state_def mk_state_def find_idem_def)

lemma sample_engine_inv: "eng_inv sample_engine"
proof -
  have "durable (en_state sample_engine) = durable sample_state" by (simp add: sample_engine_def mk_engine_def set_now_def durable_def)
  moreover have "att_ok (durable sample_state)" by (simp add: att_ok_def durable_def sample_state_def mk_state_def)
  ultimately show ?thesis
    using sample_inv by (simp add: eng_inv_def eng_good_def state_inv_def) 
      (simp add: sample_engine_def mk_engine_def set_now_good, simp add: set_now_def sample_state_def mk_state_def)
qed

lemma sample_engine_room: "id_room sample_engine"
  by (simp add: id_room_def sample_engine_fields kNil_def)

lemma log_and_apply_clock: "log_and_apply env r en = Some en' \<Longrightarrow> en_clock_offset_ms en' = en_clock_offset_ms en"
  by (cases "ev_append env (type_of r) (encode_record r) (en_sink en)") (auto simp: log_and_apply_def bind_eq_Some_conv)

lemma sample_enqueue_eq:
  assumes "en_options en = default_engine_options\<lparr>eo_idempotency_window_ms := window\<rparr>"
    and "find_idem (str ''k'') (en_state en) = None \<or> k = []" and "k = [] \<or> k = str ''k''"
  shows "enqueue sample_env (sample_request\<lparr>er_idem_key := k\<rparr>) en =
    log_and_apply sample_env (RJobEnqueued (enqueue_record (sample_request\<lparr>er_idem_key := k\<rparr>) en)) en \<bind>
      (\<lambda>en1. Some (Inr \<lparr>enq_id = je_id (enqueue_record (sample_request\<lparr>er_idem_key := k\<rparr>) en), enq_created = True\<rparr>, en1))"
  using sample_valid assms
  by (auto simp: enqueue_def Let_def sample_request_def default_engine_options_def str_def value_or_def kMaxIdemKeyBytes_def)

lemma sample_request_key: "sample_request\<lparr>er_idem_key := str ''k''\<rparr> = sample_request"
  by (simp add: sample_request_def)

lemma sample_enqueue_runs:
  assumes "eng_inv en" and "id_room en" and "en_options en = default_engine_options" and "find_idem (str ''k'') (en_state en) = None \<or> k = []"
    and k: "k = [] \<or> k = str ''k''"
  shows "\<exists>en1. enqueue sample_env (sample_request\<lparr>er_idem_key := k\<rparr>) en = Some (Inr \<lparr>enq_id = st_next_job_id (en_state en), enq_created = True\<rparr>, en1)"
proof -
  let ?req = "sample_request\<lparr>er_idem_key := k\<rparr>"
  have "enqueue sample_env ?req en = log_and_apply sample_env (RJobEnqueued (enqueue_record ?req en)) en \<bind>
      (\<lambda>en1. Some (Inr \<lparr>enq_id = je_id (enqueue_record ?req en), enq_created = True\<rparr>, en1))"
    by (rule sample_enqueue_eq [where window = "24 * 60 * 60 * 1000"]) (use k assms(3,4) in \<open>simp_all add: default_engine_options_def\<close>)
  moreover have "\<exists>en'. log_and_apply sample_env (RJobEnqueued (enqueue_record ?req en)) en = Some en'"
    using outcome_one [OF assms(1), of "RJobEnqueued (enqueue_record ?req en)" False sample_env] assms(2,3)
    by (auto simp: outcome_def room_for_def id_room_def spec_enqueue_def enqueue_record_def Let_def durable_def sample_request_def
        value_or_def default_engine_options_def str_def)
  ultimately show ?thesis by (auto simp: enqueue_record_def Let_def)
qed

lemma sample_enqueued:
  "\<exists>en1. enqueue sample_env sample_request sample_engine = Some (Inr \<lparr>enq_id = 1, enq_created = True\<rparr>, en1) \<and> eng_inv en1 \<and>
     en_options en1 = default_engine_options \<and> st_wall_now (en_state en1) = 0 \<and> st_next_token (en_state en1) = 1 \<and>
     en_clock_offset_ms en1 = 0 \<and> dom (st_jobs (en_state en1)) = {1} \<and> st_next_job_id (en_state en1) = 2 \<and>
     (\<exists>j. find_job 1 (en_state en1) = Some j \<and> j_state j = kReady \<and> j_queue j = str ''mail'')"
proof -
  from sample_enqueue_runs [OF sample_engine_inv sample_engine_room, of "str ''k''", unfolded sample_request_key]
  obtain en1 where en1: "enqueue sample_env sample_request sample_engine = Some (Inr \<lparr>enq_id = 1, enq_created = True\<rparr>, en1)"
    by (auto simp: sample_engine_fields)
  note a = enqueue_applied [OF sample_engine_inv sample_engine_room en1, simplified]
  note l = enqueue_logs [OF en1, simplified]
  have r: "je_run_at (enqueue_record sample_request sample_engine) = 0"
    by (simp add: enqueue_record_def Let_def sample_request_def value_or_def sample_engine_fields)
  note c = enqueue_counters [OF sample_engine_inv sample_engine_room en1, simplified sample_engine_fields, simplified]
  then show ?thesis
    using en1 a r c enqueue_effect [OF sample_engine_inv sample_engine_room en1] log_and_apply_clock [OF l(1)]
    by (auto simp: same_setting_def sample_engine_fields sample_request_def)
qed

theorem engine_ops_safe_witness:
  "\<exists>en' rs. run_op sample_env (OEnqueue sample_request) sample_engine = Some en' \<and> eng_inv en' \<and>
     (\<exists>d. spec_run rs (durable (en_state sample_engine)) = Some d \<and> kept (durable (en_state en')) d) \<and>
     (\<forall>r\<in>set rs. decode_record (type_of r) (encode_record r) = Inr r)"
proof -
  have "fair_draw sample_env \<and> timely (OEnqueue sample_request) sample_engine"
    by (simp add: fair_draw_def sample_env_def in_time_def Let_def sample_engine_fields default_engine_options_def kMaxWallTimeMs_def
        in_i32_def sample_request_def)
  then show ?thesis using engine_ops_safe [OF sample_engine_inv, of "OEnqueue sample_request" sample_env] sample_engine_room by auto
qed

lemma sample_reserved:
  "\<exists>en1 rs en2. enqueue sample_env sample_request sample_engine = Some (Inr \<lparr>enq_id = 1, enq_created = True\<rparr>, en1) \<and>
     eng_inv en1 \<and> st_next_token (en_state en1) = 1 \<and> reserve sample_env [str ''mail''] 1000 en1 = Some (Inr (Some rs), en2) \<and>
     eng_inv en2 \<and> id_room en2 \<and> en_options en2 = default_engine_options \<and> st_next_token (en_state en2) = 2"
proof -
  obtain en1 j where en1: "enqueue sample_env sample_request sample_engine = Some (Inr \<lparr>enq_id = 1, enq_created = True\<rparr>, en1)" "eng_inv en1"
      "en_options en1 = default_engine_options" "st_next_token (en_state en1) = 1" "dom (st_jobs (en_state en1)) = {1}"
      "st_next_job_id (en_state en1) = 2" "find_job 1 (en_state en1) = Some j" "j_state j = kReady" "j_queue j = str ''mail''"
    using sample_enqueued by auto
  have room: "st_next_token (en_state en1) \<noteq> - 1" using en1(4) by simp
  have "\<exists>rs en2. reserve_from sample_env [str ''mail''] 1000 en1 = Some (Inr (Some rs), en2)"
    by (rule reserve_from_live [OF en1(2) room en1(7,8)]) (simp add: en1(9))
  then obtain rs en2 where en2: "reserve sample_env [str ''mail''] 1000 en1 = Some (Inr (Some rs), en2)"
    using sample_valid en1(3) by (auto simp: reserve_def Let_def default_engine_options_def)
  note g = reserve_granted [OF en1(2) room en2]
  obtain recs where inv2: "eng_inv en2" and tr: "trace sample_env recs en1 en2"
    using run_op_outcome [OF en1(2), of "OReserve [str ''mail''] 1000" sample_env] room en2 by (auto simp: outcome_def)
  have d: "dom (st_jobs st) = dom (d_jobs (durable st))" "st_next_job_id st = d_next_job_id (durable st)" for st
    by (auto simp: durable_def)
  have "rs_id rs = 1" using g en1(5) by (auto simp: granted_def find_job_def)
  then have "dom (st_jobs (en_state en2)) = {1}" "st_next_job_id (en_state en2) = 2" "st_next_token (en_state en2) = 2"
    using g en1(4,5,6) unfolding d by (auto simp: granted_def put_job_def)
  then show ?thesis using en1 en2 inv2 trace_fixed [OF tr] by (auto simp: id_room_def kNil_def)
qed

theorem engine_reserve_best_witness:
  "\<exists>en1 rs en2. enqueue sample_env sample_request sample_engine = Some (Inr \<lparr>enq_id = 1, enq_created = True\<rparr>, en1) \<and>
     reserve sample_env [str ''mail''] 1000 en1 = Some (Inr (Some rs), en2) \<and> granted en1 1000 rs en2"
  using sample_reserved engine_reserve_best by fastforce

theorem engine_tokens_fence_witness:
  "\<exists>en1 rs en2 rs' en4 ops en3. enqueue sample_env sample_request sample_engine = Some (Inr \<lparr>enq_id = 1, enq_created = True\<rparr>, en1) \<and>
     reserve sample_env [str ''mail''] 1000 en1 = Some (Inr (Some rs), en2) \<and> runs sample_env en2 ops en3 \<and>
     reserve sample_env [str ''mail''] 1000 en3 = Some (Inr (Some rs'), en4) \<and> rs_token rs < rs_token rs'"
proof -
  obtain en1 rs en2 where a: "enqueue sample_env sample_request sample_engine = Some (Inr \<lparr>enq_id = 1, enq_created = True\<rparr>, en1)"
      "eng_inv en1" "st_next_token (en_state en1) = 1" "reserve sample_env [str ''mail''] 1000 en1 = Some (Inr (Some rs), en2)"
      "eng_inv en2" "id_room en2" "en_options en2 = default_engine_options" "st_next_token (en_state en2) = 2"
    using sample_reserved by blast
  let ?req = "sample_request\<lparr>er_idem_key := []\<rparr>"
  obtain en3 where b: "enqueue sample_env ?req en2 = Some (Inr \<lparr>enq_id = st_next_job_id (en_state en2), enq_created = True\<rparr>, en3)"
    using sample_enqueue_runs [OF a(5,6,7), of "[]"] by blast
  note c = enqueue_applied [OF a(5,6) b, simplified] enqueue_counters [OF a(5,6) b, simplified]
  have run: "runs sample_env en2 [OEnqueue ?req] en3" using a(6) b by (auto intro!: runs.intros)
  obtain j where j: "find_job (st_next_job_id (en_state en2)) (en_state en3) = Some j" "j_state j = kReady" "j_queue j = str ''mail''"
    using enqueue_effect [OF a(5,6) b] by (auto simp: enqueue_record_def Let_def sample_request_def value_or_def)
  have room: "st_next_token (en_state en1) \<noteq> - 1" "st_next_token (en_state en3) \<noteq> - 1" using a(3,8) c by simp_all
  have "\<exists>rs' en4. reserve_from sample_env [str ''mail''] 1000 en3 = Some (Inr (Some rs'), en4)"
    by (rule reserve_from_live [OF c(1) room(2) j(1,2)]) (simp add: j(3))
  then obtain rs' en4 where "reserve sample_env [str ''mail''] 1000 en3 = Some (Inr (Some rs'), en4)"
    using sample_valid a(7) c(4) by (auto simp: reserve_def Let_def default_engine_options_def)
  then show ?thesis using engine_tokens_fence [OF a(2) room a(4) run] a(1,4) run by blast
qed

theorem engine_reserve_live_witness:
  "\<exists>en1 rs en2. enqueue sample_env sample_request sample_engine = Some (Inr \<lparr>enq_id = 1, enq_created = True\<rparr>, en1) \<and>
     reserve sample_env [str ''mail''] 1000 en1 = Some (Inr (Some rs), en2)"
proof -
  obtain en1 j where en1: "enqueue sample_env sample_request sample_engine = Some (Inr \<lparr>enq_id = 1, enq_created = True\<rparr>, en1)" "eng_inv en1"
      "en_options en1 = default_engine_options" "st_next_token (en_state en1) = 1"
      "find_job 1 (en_state en1) = Some j" "j_state j = kReady" "j_queue j = str ''mail''"
    using sample_enqueued by auto
  have "\<exists>rs en2. reserve sample_env [str ''mail''] 1000 en1 = Some (Inr (Some rs), en2)"
    by (rule engine_reserve_live [OF en1(2) _ _ _ _ en1(5,6)])
      (use sample_valid in \<open>simp_all add: en1(3,4,7) default_engine_options_def\<close>)
  then show ?thesis using en1(1) by blast
qed

theorem engine_enqueue_creates_witness:
  "\<exists>en1 j. enqueue sample_env sample_request sample_engine = Some (Inr \<lparr>enq_id = 1, enq_created = True\<rparr>, en1) \<and>
     find_job 1 (en_state en1) = Some j \<and> j_payload j = str ''hi'' \<and> j_attempts j = 0"
proof -
  obtain en1 where en1: "enqueue sample_env sample_request sample_engine = Some (Inr \<lparr>enq_id = 1, enq_created = True\<rparr>, en1)"
    using sample_enqueued by auto
  from engine_enqueue_creates [OF sample_engine_inv sample_engine_room en1] show ?thesis
    using en1 by (auto simp: sample_request_def)
qed

theorem backoff_ceiling_curve_witness:
  "backoff_ceiling 3 1000 600000 = 4000 \<and> backoff_ceiling 40 1000 600000 = 600000"
  using backoff_ceiling_curve [of 1000 3 600000] backoff_ceiling_curve [of 1000 40 600000] by simp

theorem backoff_ceiling_zero_base_witness:
  "backoff_ceiling 33 0 600000 = 600000"
  using backoff_ceiling_zero_base [of 33 600000] by simp

theorem engine_tick_ends_leases_witness:
  "\<exists>en1 rs en2 w m m' en3. enqueue sample_env sample_request sample_engine = Some (Inr \<lparr>enq_id = 1, enq_created = True\<rparr>, en1) \<and>
     reserve sample_env [str ''mail''] 1000 en1 = Some (Inr (Some rs), en2) \<and> tick sample_env w m m' [1] en2 = Some en3 \<and>
     (\<forall>j. find_job 1 (en_state en3) = Some j \<longrightarrow> j_state j \<noteq> kLeased)"
proof -
  obtain en1 rs en2 where a: "enqueue sample_env sample_request sample_engine = Some (Inr \<lparr>enq_id = 1, enq_created = True\<rparr>, en1)"
      "eng_inv en1" "st_next_token (en_state en1) = 1" "reserve sample_env [str ''mail''] 1000 en1 = Some (Inr (Some rs), en2)"
      "eng_inv en2" "en_options en2 = default_engine_options"
    using sample_reserved by blast
  have s1: "st_wall_now (en_state en1) = 0" "st_mono_now (en_state en1) = 0" "dom (st_jobs (en_state en1)) = {1}"
    using enqueue_applied(3) [OF sample_engine_inv sample_engine_room a(1)] enqueue_counters(1) [OF sample_engine_inv sample_engine_room a(1)]
    by (simp_all add: same_setting_def sample_engine_fields)
  have b1: "en_options en1 = default_engine_options"
    using enqueue_applied(4) [OF sample_engine_inv sample_engine_room a(1)] by (simp add: sample_engine_fields)
  have room: "st_next_token (en_state en1) \<noteq> - 1" using a(3) by simp
  note g = reserve_granted [OF a(2) room a(4)]
  have id: "rs_id rs = 1" using g s1(3) by (auto simp: granted_def find_job_def)
  have d: "dom (st_jobs st) = dom (d_jobs (durable st))" for st by (auto simp: durable_def)
  have dom2: "dom (st_jobs (en_state en2)) = {1}" using g id s1(3) unfolding d by (auto simp: granted_def put_job_def)
  obtain j where j: "find_job 1 (en_state en2) = Some j" "j_state j = kLeased" using g id by (auto simp: granted_def)
  obtain e where e: "e \<in> pending (st_wheel (en_state en2))" "te_id e = 1" "te_deadline e = word_of_int 1000"
    using reserve_timer [OF a(2,5,4)] s1 id b1 by (auto simp: default_engine_options_def)
  let ?w = "j_lease_expires_at j"
  from engine_tick_ends_leases [OF a(5) _ _ _ _ e(1), of 1000 "[1]" ?w "?w - en_clock_offset_ms en2" j sample_env]
  show ?thesis using a e j dom2 by (auto simp: tick_ok_def default_engine_options_def)
qed

end
