(* ===== verification/EngineIdem.thy ===== *)
theory EngineIdem
  imports EngineProps
begin

text \<open>
  Idempotency keys over time: what the engine remembers of a key through any sequence of
  operations, and what it logs when the window reaches past the times a record can hold.
\<close>

section \<open>What leaves the keys alone\<close>

text \<open>The idempotency entries and the clock. Only an enqueue, the garbage collector and a tick change them.\<close>

definition held :: "State \<Rightarrow> IdemEntry list \<times> WallTime" where
  "held st = (st_idem_order st, st_wall_now st)"

lemma held_update [simp]:
  "held (st\<lparr>st_jobs := x1\<rparr>) = held st" "held (st\<lparr>st_queues := x2\<rparr>) = held st" "held (st\<lparr>st_wheel := x3\<rparr>) = held st"
  "held (st\<lparr>st_memory_bytes := x4\<rparr>) = held st" "held (st\<lparr>st_next_token := x5\<rparr>) = held st"
  "held (st\<lparr>st_finished_gc := x6\<rparr>) = held st" "held (st\<lparr>st_dead_gc := x7\<rparr>) = held st"
  "held (st\<lparr>st_ready_notifications := x8\<rparr>) = held st"
  by (simp_all add: held_def)

lemma held_write [simp]:
  "held (write_job i f st) = held st" "held (write_queue n g st) = held st" "held (write_totals i h st) = held st"
  "held (set_state i s st) = held st" "held (notify_ready n st) = held st" "held (clear_derived st) = held st"
  by (simp_all add: write_job_def write_queue_def write_totals_def set_state_def Let_def notify_ready_def) (simp add: held_def clear_derived_def)

named_theorems held_frame

lemma held_heap [held_frame]:
  "schedule_timer i t k st = Some st' \<Longrightarrow> held st' = held st" "push_ready i st = Some st' \<Longrightarrow> held st' = held st"
  "remove_ready i st = Some st' \<Longrightarrow> held st' = held st"
  by (auto simp: schedule_timer_def push_ready_def remove_ready_def bind_eq_Some_conv)

lemma held_index [held_frame]:
  "enter_pending i st = Some st' \<Longrightarrow> held st' = held st" "leave_indexes i st = Some st' \<Longrightarrow> held st' = held st"
  "schedule_lease_timer i g st = Some st' \<Longrightarrow> held st' = held st"
  by (auto simp: enter_pending_def leave_indexes_def schedule_lease_timer_def Let_def bind_eq_Some_conv dest!: held_frame split: if_splits)

lemma held_finish [held_frame]:
  "finish i s t st = Some st' \<Longrightarrow> held st' = held st" "erase_job i st = Some st' \<Longrightarrow> held st' = held st"
  by (auto simp: finish_def erase_job_def Let_def bind_eq_Some_conv baton_check_def dest!: held_frame split: if_splits)

lemma held_purge [held_frame]: "purge_erase ids st = Some st' \<Longrightarrow> held st' = held st"
  by (induction ids arbitrary: st) (auto simp: bind_eq_Some_conv dest!: held_frame split: if_splits)

lemma held_apply:
  assumes "apply_rec r st = Some (res, st')" and "\<And>x. r \<noteq> RJobEnqueued x"
  shows "held st' = held st"
proof (cases r)
  case (RJobLeased x)
  then show ?thesis using assms(1)
    by (auto simp: apply_JobLeased_def Let_def bind_eq_Some_conv dest!: held_frame split: if_splits option.splits)
next
  case (RAttemptFailed x)
  then show ?thesis using assms(1)
    by (auto simp: apply_AttemptFailed_def Let_def bind_eq_Some_conv dest!: held_frame split: if_splits sum.splits)
next
  case (RJobCancelled x)
  then show ?thesis using assms(1)
    by (auto simp: apply_JobCancelled_def Let_def bind_eq_Some_conv dest!: held_frame split: if_splits option.splits)
next
  case (RDeadJobRetried x)
  then show ?thesis using assms(1)
    by (auto simp: apply_DeadJobRetried_def Let_def bind_eq_Some_conv dest!: held_frame split: if_splits option.splits)
qed (use assms in \<open>auto simp: apply_LeaseExtended_def apply_JobSucceeded_def apply_JobsPurged_def Let_def bind_eq_Some_conv
  dest!: held_frame split: sum.splits\<close>)

lemma held_rebuild_job [held_frame]: "rebuild_job g i st = Some st' \<Longrightarrow> held st' = held st"
  by (auto simp: rebuild_job_def Let_def dest!: held_frame split: if_splits)

lemma held_rebuild_jobs [held_frame]: "rebuild_jobs g ids st = Some st' \<Longrightarrow> held st' = held st"
  by (induction ids arbitrary: st) (auto simp: bind_eq_Some_conv dest!: held_frame)

lemma held_rebuild [held_frame]: "rebuild_derived order g st = Some st' \<Longrightarrow> held st' = held st"
  by (auto simp: rebuild_derived_def Let_def bind_eq_Some_conv dest!: held_frame)

lemma held_timer_event: "timer_event e (ids, st) = Some (ids', st') \<Longrightarrow> held st' = held st"
  by (auto simp: timer_event_def Let_def dest!: held_frame split: if_splits option.splits)

lemma held_timer_events: "timer_events es (ids, st) = Some (ids', st') \<Longrightarrow> held st' = held st"
  by (induction es arbitrary: ids st) (auto simp: bind_eq_Some_conv dest!: held_timer_event)

lemma held_advance: "advance_timers ids st = Some (ids', st') \<Longrightarrow> held st' = held st"
  by (auto simp: advance_timers_def bind_eq_Some_conv dest!: held_timer_events)

lemma held_gc_collect: "gc_collect refs t d st = Some (refs', st') \<Longrightarrow> held st' = held st"
  by (induction refs t d st rule: gc_collect.induct) (auto simp: bind_eq_Some_conv dest: held_finish split: if_splits)

section \<open>The engine\<close>

lemma held_log:
  assumes "log_and_apply env r en = Some en'" and "\<And>x. r \<noteq> RJobEnqueued x"
  shows "held (en_state en') = held (en_state en)"
  using assms(1) held_apply [OF _ assms(2), of "en_state en"]
  by (cases "ev_append env (type_of r) (encode_record r) (en_sink en)") (auto simp: log_and_apply_def bind_eq_Some_conv)

lemma decide_state: "decide_failure env j why e d n en = (rec, en') \<Longrightarrow> en_state en' = en_state en"
  by (auto simp: decide_failure_def Let_def split: if_splits option.splits prod.splits)

lemma held_expire: "expire_leases env ids en = Some en' \<Longrightarrow> held (en_state en') = held (en_state en)"
proof (induction ids arbitrary: en)
  case (Cons i ids)
  then show ?case
    by (auto simp: bind_eq_Some_conv Let_def dest!: decide_state held_log split: option.splits if_splits prod.splits)
qed simp

lemma held_reserve: "reserve_from env ns l en = Some (res, en') \<Longrightarrow> held (en_state en') = held (en_state en)"
  by (induction ns) (auto simp: Let_def bind_eq_Some_conv dest!: held_log split: option.splits)

lemma held_retry_each: "retry_each env t ids en = Some en' \<Longrightarrow> held (en_state en') = held (en_state en)"
  by (induction ids arbitrary: en) (auto simp: bind_eq_Some_conv dest!: held_log)

lemma held_purge_chunks: "purge_chunks env ids en = Some en' \<Longrightarrow> held (en_state en') = held (en_state en)"
proof (induction env ids en rule: purge_chunks.induct)
  case (1 env ids en)
  then show ?case
    by (auto simp: purge_chunks.simps [of env ids en] bind_eq_Some_conv dest: held_log split: if_splits)
qed

lemma held_op:
  assumes "run_op env op en = Some en'" and "\<And>req. op \<noteq> OEnqueue req" and "\<And>w m m' order. op \<noteq> OTick w m m' order"
  shows "held (en_state en') = held (en_state en)"
proof (cases op)
  case (OFail req)
  then show ?thesis using assms(1)
    by (auto simp: fail_def Let_def bind_eq_Some_conv dest!: decide_state held_log split: if_splits sum.splits prod.splits)
next
  case (OReserve qs l)
  then show ?thesis using assms(1) by (auto simp: reserve_def Let_def dest!: held_reserve split: if_splits)
next
  case (ORetryAll q)
  then show ?thesis using assms(1)
    by (auto simp: dlq_retry_all_def bind_eq_Some_conv dest!: held_retry_each split: if_splits option.splits)
next
  case (OPurgeAll q)
  then show ?thesis using assms(1)
    by (auto simp: dlq_purge_all_def bind_eq_Some_conv dest!: held_purge_chunks split: if_splits option.splits)
qed (use assms in \<open>auto simp: heartbeat_def ack_def cancel_job_def dlq_retry_def dlq_purge_def Let_def bind_eq_Some_conv
  dest!: held_log split: if_splits sum.splits option.splits\<close>)

section \<open>A key that is remembered\<close>

definition remembers :: "bytes \<Rightarrow> JobId \<Rightarrow> WallTime \<Rightarrow> State \<Rightarrow> bool" where
  "remembers key i expires_at st \<longleftrightarrow> (key, i, expires_at) \<in> set (d_idem (durable st)) \<and> st_wall_now st < expires_at"

lemma remembers_held: "held st' = held st \<Longrightarrow> remembers k i x st' = remembers k i x st"
  by (simp add: held_def remembers_def durable_def)

lemma remembers_find:
  assumes inv: "eng_inv en" and k: "remembers k i x (en_state en)"
  shows "\<exists>e. find_idem k (en_state en) = Some e \<and> ie_job_id e = i \<and> ie_expires_at e = x"
proof -
  let ?st = "en_state en"
  obtain e where e: "e \<in> set (st_idem_order ?st)" "k = ie_key e" "i = ie_job_id e" "x = ie_expires_at e"
    using k by (auto simp: remembers_def durable_def)
  have "idem_inv ?st" using inv by (simp add: eng_inv_def eng_good_def good_def base_def)
  then have "find_idem k ?st = Some e"
    using e(1,2) map_of_eq_Some_iff [of "map (\<lambda>e. (ie_key e, e)) (st_idem_order ?st)" k e]
    by (auto simp: idem_inv_def find_idem_def o_def)
  then show ?thesis using e by blast
qed

lemma enqueue_hit:
  assumes "eng_inv en" and "remembers (er_idem_key req) i x (en_state en)" and "er_idem_key req \<noteq> []"
  shows "\<exists>res. enqueue env req en = Some (res, en) \<and> (\<forall>r. res = Inr r \<longrightarrow> r = \<lparr>enq_id = i, enq_created = False\<rparr>)"
proof -
  obtain e where "find_idem (er_idem_key req) (en_state en) = Some e" "ie_job_id e = i" "ie_expires_at e = x"
    using remembers_find [OF assms(1,2)] by blast
  then show ?thesis using assms(2,3) by (auto simp: enqueue_def Let_def remembers_def)
qed

lemma enqueue_refused:
  assumes "enqueue env req en = Some (res, en')" and "\<And>r. res = Inr r \<Longrightarrow> \<not> enq_created r"
  shows "en' = en"
  using assms by (auto simp: enqueue_def Let_def bind_eq_Some_conv split: if_splits option.splits)

lemma remembers_enqueue:
  assumes inv: "eng_inv en" and room: "id_room en" and k: "remembers k i x (en_state en)" "k \<noteq> []"
    and enq: "enqueue env req en = Some (res, en')"
  shows "remembers k i x (en_state en')"
proof (cases "er_idem_key req = k")
  case True
  then have "en' = en" using enqueue_hit [OF inv, of req i x env] k enq by auto
  then show ?thesis using k by simp
next
  case False
  show ?thesis
  proof (cases "\<exists>r. res = Inr r \<and> enq_created r")
    case True
    then obtain r where r: "res = Inr r" "enq_created r" by blast
    note a = enqueue_applied [OF inv room enq [unfolded r(1)] r(2)]
    have key: "je_idem_key (enqueue_record req en) \<noteq> k" using False by (simp add: enqueue_record_def Let_def)
    have "d_idem (durable (en_state en')) =
      (if je_idem_key (enqueue_record req en) = [] then d_idem (durable (en_state en))
       else filter (\<lambda>(k, _). k \<noteq> je_idem_key (enqueue_record req en)) (d_idem (durable (en_state en))) @
         [(je_idem_key (enqueue_record req en), je_id (enqueue_record req en), je_idem_expires_at (enqueue_record req en))])"
      by (subst spec_enqueue_durable [OF a(5)]) simp
    then show ?thesis using k a(3) key by (auto simp: remembers_def same_setting_def)
  next
    case False
    then have "en' = en" using enqueue_refused [OF enq] by blast
    then show ?thesis using k by simp
  qed
qed

lemma gc_idem_keeps:
  "e \<in> set (st_idem_order st) \<Longrightarrow> st_wall_now st < ie_expires_at e \<Longrightarrow>
     e \<in> set (st_idem_order (gc_idem n st)) \<and> st_wall_now (gc_idem n st) = st_wall_now st"
proof (induction n st rule: gc_idem.induct)
  case (2 n st)
  show ?case
  proof (cases "st_idem_order st \<noteq> [] \<and> ie_expires_at (hd (st_idem_order st)) \<le> st_wall_now st")
    case True
    have "e \<in> set (st_idem_order (erase_idem_front st))" "st_wall_now (erase_idem_front st) = st_wall_now st"
      using True "2.prems" by (cases "st_idem_order st"; auto simp: erase_idem_front_def Let_def)+
    then show ?thesis using "2.IH" [OF True] True "2.prems"(2) by simp
  next
    case False
    then have "gc_idem (Suc n) st = st" unfolding gc_idem.simps by (rule if_not_P)
    then show ?thesis using "2.prems" by simp
  qed
qed simp

lemma collect_garbage_keeps:
  assumes "collect_garbage st = Some st'" and "remembers k i x st"
  shows "remembers k i x st' \<and> st_wall_now st' = st_wall_now st"
proof -
  obtain refs1 st1 refs2 st3 where c: "gc_collect (st_finished_gc st) (so_retain_finished_ms (st_options st)) False st = Some (refs1, st1)"
      "gc_collect (st_dead_gc (st1\<lparr>st_finished_gc := refs1\<rparr>)) (so_retain_dead_ms (st_options (st1\<lparr>st_finished_gc := refs1\<rparr>))) True
        (st1\<lparr>st_finished_gc := refs1\<rparr>) = Some (refs2, st3)"
      "st' = gc_idem (length (st_idem_order (st3\<lparr>st_dead_gc := refs2\<rparr>))) (st3\<lparr>st_dead_gc := refs2\<rparr>)"
    using assms(1) by (auto simp: collect_garbage_def Let_def bind_eq_Some_conv)
  let ?st4 = "st3\<lparr>st_dead_gc := refs2\<rparr>"
  have h: "held ?st4 = held st" using held_gc_collect [OF c(1)] held_gc_collect [OF c(2)] by simp
  then obtain e where e: "e \<in> set (st_idem_order ?st4)" "k = ie_key e" "i = ie_job_id e" "x = ie_expires_at e" "st_wall_now ?st4 < x"
    using assms(2) by (auto simp: remembers_def durable_def held_def)
  have "e \<in> set (st_idem_order st') \<and> st_wall_now st' = st_wall_now ?st4"
    using gc_idem_keeps [OF e(1)] e(4,5) unfolding c(3) by blast
  then show ?thesis using e h by (auto simp: remembers_def durable_def held_def)
qed

lemma remembers_tick:
  assumes t: "tick env w m m' order en = Some en'" and k: "remembers k i x (en_state en)" and w: "w < x"
  shows "remembers k i x (en_state en')" and "st_wall_now (en_state en') = w"
proof -
  let ?en1 = "en\<lparr>en_state := set_now w m (en_state en)\<rparr>"
  obtain en2 ids st en3 st' where s: "detect_clock_jump order m' ?en1 = Some en2"
      "advance_timers [] (en_state en2) = Some (ids, st)" "expire_leases env ids (en2\<lparr>en_state := st\<rparr>) = Some en3"
      "collect_garbage (en_state en3) = Some st'" "en' = en3\<lparr>en_state := st'\<rparr>"
    using t by (auto simp: tick_def Let_def bind_eq_Some_conv)
  have "held (en_state en2) = held (set_now w m (en_state en))"
    using s(1) by (auto simp: detect_clock_jump_def Let_def bind_eq_Some_conv dest!: held_rebuild split: if_splits)
  then have h: "held (en_state en3) = held (set_now w m (en_state en))"
    using held_advance [OF s(2)] held_expire [OF s(3)] by simp
  have "remembers k i x (set_now w m (en_state en))" using k w by (simp add: remembers_def set_now_def durable_def)
  then have "remembers k i x (en_state en3)" using remembers_held [OF h] by simp
  from collect_garbage_keeps [OF s(4) this] s(5) h
  show "remembers k i x (en_state en')" "st_wall_now (en_state en') = w" by (simp_all add: held_def set_now_def)
qed

lemma remembers_op:
  assumes "eng_inv en" and "possible op en" and "run_op env op en = Some en'" and k: "remembers k i x (en_state en)" "k \<noteq> []"
    and w: "\<And>w m m' order. op = OTick w m m' order \<Longrightarrow> w < x"
  shows "remembers k i x (en_state en')"
proof (cases op)
  case (OTick w m m' order)
  then show ?thesis using remembers_tick(1) [OF _ k(1) w] assms(3) by simp
next
  case (OEnqueue req)
  then show ?thesis using remembers_enqueue [OF assms(1) _ k] assms(2,3) by auto
qed (use k(1) remembers_held [OF held_op [OF assms(3)]] in simp_all)

lemma remembers_runs:
  assumes "runs env en ops en'" and "eng_inv en" and "remembers k i x (en_state en)" and "k \<noteq> []"
    and "\<forall>w m m' order. OTick w m m' order \<in> set ops \<longrightarrow> w < x"
  shows "eng_inv en' \<and> en_options en' = en_options en \<and> remembers k i x (en_state en')"
  using assms
proof (induction rule: runs.induct)
  case (runs_Cons op en en1 ops en2)
  have "eng_inv en1" "en_options en1 = en_options en"
    using run_op_outcome [OF runs_Cons.prems(1) runs_Cons.hyps(1), of env] runs_Cons.hyps(2) trace_fixed
    by (auto simp: outcome_def)
  moreover have "remembers k i x (en_state en1)"
    by (rule remembers_op [OF runs_Cons.prems(1) runs_Cons.hyps(1,2) runs_Cons.prems(2,3)]) (use runs_Cons.prems(4) in auto)
  ultimately show ?case using runs_Cons.IH runs_Cons.prems(3,4) by auto
qed simp

lemma enqueue_found:
  assumes "enqueue env req en = Some (Inr r, en1)" and "\<not> enq_created r"
  shows "\<exists>e. find_idem (er_idem_key req) (en_state en) = Some e \<and> ie_job_id e = enq_id r \<and> st_wall_now (en_state en) < ie_expires_at e"
  using assms by (auto simp: enqueue_def Let_def bind_eq_Some_conv split: if_splits option.splits)

lemma enqueue_remembers:
  assumes inv: "eng_inv en" and room: "id_room en" and enq: "enqueue env req en = Some (Inr r, en1)"
    and key: "er_idem_key req \<noteq> []" and window: "0 < eo_idempotency_window_ms (en_options en)"
  shows "\<exists>x. remembers (er_idem_key req) (enq_id r) x (en_state en1) \<and>
    (enq_created r \<longrightarrow> x = st_wall_now (en_state en) + eo_idempotency_window_ms (en_options en))"
proof (cases "enq_created r")
  case True
  note a = enqueue_applied [OF inv room enq True]
  let ?x = "st_wall_now (en_state en) + eo_idempotency_window_ms (en_options en)"
  have rf: "je_idem_key (enqueue_record req en) = er_idem_key req" "je_id (enqueue_record req en) = enq_id r"
      "je_idem_expires_at (enqueue_record req en) = ?x"
    using key enqueue_logs(2) [OF enq True] by (simp_all add: enqueue_record_def Let_def)
  have "(er_idem_key req, enq_id r, ?x) \<in> set (d_idem (durable (en_state en1)))"
    by (subst spec_enqueue_durable [OF a(5)]) (simp add: rf key)
  then show ?thesis using a(3) window by (auto simp: remembers_def same_setting_def)
next
  case False
  then obtain e where e: "find_idem (er_idem_key req) (en_state en) = Some e" "ie_job_id e = enq_id r"
      "st_wall_now (en_state en) < ie_expires_at e" "en1 = en"
    using enqueue_found [OF enq] enqueue_refused [OF enq] by blast
  have "idem_inv (en_state en)" using inv by (simp add: eng_inv_def eng_good_def good_def base_def)
  then have "e \<in> set (st_idem_order (en_state en))" "ie_key e = er_idem_key req"
    using e(1) by (auto simp: idem_inv_def find_idem_def dest!: map_of_SomeD)
  then have "(er_idem_key req, enq_id r, ie_expires_at e) \<in> (\<lambda>e. (ie_key e, ie_job_id e, ie_expires_at e)) ` set (st_idem_order (en_state en))"
    using e(2) by (intro image_eqI [of _ _ e]) simp_all
  then have "remembers (er_idem_key req) (enq_id r) (ie_expires_at e) (en_state en1)"
    using e(3,4) by (simp add: remembers_def durable_def)
  then show ?thesis using False by blast
qed

lemma repeat_accepted:
  assumes "enqueue env req en = Some (Inr r, en1)" and "en_options en2 = en_options en"
    and "st_wall_now (en_state en) \<le> st_wall_now (en_state en2)"
    and "eng_inv en2" and "remembers (er_idem_key req) i x (en_state en2)" and "er_idem_key req \<noteq> []"
  shows "enqueue env req en2 = Some (Inr \<lparr>enq_id = i, enq_created = False\<rparr>, en2)"
proof -
  obtain e where e: "find_idem (er_idem_key req) (en_state en2) = Some e" "ie_job_id e = i" "ie_expires_at e = x"
    using remembers_find [OF assms(4,5)] by blast
  have "\<not> t - st_wall_now (en_state en2) > eo_max_delay_ms (en_options en)" if "er_run_at req = Some t" for t
    using assms(1,3) that by (auto simp: enqueue_def Let_def split: if_splits)
  then show ?thesis
    using assms(1,2,5,6) e by (auto simp: enqueue_def Let_def remembers_def split: if_splits option.splits)
qed

section \<open>A window that is too long\<close>

lemma get_time_any:
  assumes "- (2 ^ 63) \<le> t" and "t < 2 ^ 63"
  shows "run_state get_time (\<lparr>rin = put_time t @ rest, rok = True\<rparr>, g) = (t, (\<lparr>rin = rest, rok = True\<rparr>, g \<and> time_in_range t))"
  using assms by (auto simp: get_time_def put_time_def r_svarint_w time_in_range_def)

lemma decode_late_enqueue:
  assumes "size_ok (je_queue r)" and "size_ok (je_payload r)" and "size_ok (je_idem_key r)" and "in_i32 (je_priority r)"
    and "- (2 ^ 63) \<le> je_run_at r" "je_run_at r < 2 ^ 63" and "- (2 ^ 63) \<le> je_at r" "je_at r < 2 ^ 63"
    and "kMaxWallTimeMs < je_idem_expires_at r" "je_idem_expires_at r < 2 ^ 63"
  shows "decode_record 1 (encode_record (RJobEnqueued r)) = Inl (bad_record 1 ''field out of range'')"
proof -
  have x: "- (2 ^ 63) \<le> je_idem_expires_at r" "\<not> time_in_range (je_idem_expires_at r)"
    using assms(9) by (simp_all add: kMaxWallTimeMs_def time_in_range_def)
  note t = get_time_any [OF assms(5,6)] get_time_any [OF x(1) assms(10)] get_time_any [OF assms(7,8)]
    get_time_any [OF assms(7,8), where rest = "[]", simplified]
  have "\<exists>rec. run_state decode_JobEnqueued (\<lparr>rin = encode_body (RJobEnqueued r), rok = True\<rparr>, True) =
      (rec, (\<lparr>rin = [], rok = True\<rparr>, False))"
    using assms(1-4) x(2) by (simp add: decode_JobEnqueued_def t r_varint_w r_bytes_w get_i32_w get_u32_w size_ok_def)
  then obtain rec where run: "run_state decode_JobEnqueued (\<lparr>rin = encode_body (RJobEnqueued r), rok = True\<rparr>, True) =
      (rec, (\<lparr>rin = [], rok = True\<rparr>, False))" by blast
  have "r_u8 (mk_reader (encode_record (RJobEnqueued r))) = (kPayloadVersion, \<lparr>rin = encode_body (RJobEnqueued r), rok = True\<rparr>)"
    by (simp add: encode_record_def mk_reader_def w_u8_def r_u8_def need_def remaining_def remove_prefix_def)
  then show ?thesis using run by (simp add: decode_record_def decode_switch_def lift_ok_def)
qed

section \<open>Properties\<close>

text \<open>
  C21: an idempotency key names one job until it expires. After an enqueue with a key, the key is
  remembered until some later time \<open>x\<close>, one window after the enqueue if that created the job.
  Whatever operations follow, as long as no tick moves the clock to \<open>x\<close>, an enqueue with that
  key creates, logs and changes nothing, and unless its other fields are refused it
  returns the same job. The same request is not refused, unless the clock went back.
\<close>
theorem engine_enqueue_idempotent:
  assumes "eng_inv en" and "id_room en" and "enqueue env req en = Some (Inr r, en1)"
    and "er_idem_key req \<noteq> []" and "0 < eo_idempotency_window_ms (en_options en)"
  shows "\<exists>x. st_wall_now (en_state en) < x \<and>
    (enq_created r \<longrightarrow> x = st_wall_now (en_state en) + eo_idempotency_window_ms (en_options en)) \<and>
    (\<forall>ops en2 req'. runs env en1 ops en2 \<longrightarrow> (\<forall>w m m' order. OTick w m m' order \<in> set ops \<longrightarrow> w < x) \<longrightarrow>
      er_idem_key req' = er_idem_key req \<longrightarrow>
      (\<exists>res. enqueue env req' en2 = Some (res, en2) \<and>
        (\<forall>r'. res = Inr r' \<longrightarrow> r' = \<lparr>enq_id = enq_id r, enq_created = False\<rparr>) \<and>
        (req' = req \<and> st_wall_now (en_state en) \<le> st_wall_now (en_state en2) \<longrightarrow>
          res = Inr \<lparr>enq_id = enq_id r, enq_created = False\<rparr>)))"
proof -
  have inv1: "eng_inv en1" "en_options en1 = en_options en" "st_wall_now (en_state en1) = st_wall_now (en_state en)"
    using assms(1) enqueue_applied(1,3,4) [OF assms(1,2,3)] enqueue_refused [OF assms(3)]
    by (cases "enq_created r"; simp add: same_setting_def)+
  obtain x where x: "remembers (er_idem_key req) (enq_id r) x (en_state en1)"
      "enq_created r \<longrightarrow> x = st_wall_now (en_state en) + eo_idempotency_window_ms (en_options en)"
    using enqueue_remembers [OF assms] by blast
  show ?thesis
  proof (intro exI [of _ x] conjI allI impI)
    show "st_wall_now (en_state en) < x" using x(1) inv1(3) by (simp add: remembers_def)
    show "x = st_wall_now (en_state en) + eo_idempotency_window_ms (en_options en)" if "enq_created r" using x(2) that by simp
    fix ops en2 and req' :: EnqueueRequest
    assume run: "runs env en1 ops en2" "\<forall>w m m' order. OTick w m m' order \<in> set ops \<longrightarrow> w < x"
      and key: "er_idem_key req' = er_idem_key req"
    have e2: "eng_inv en2" "en_options en2 = en_options en" "remembers (er_idem_key req) (enq_id r) x (en_state en2)"
      using remembers_runs [OF run(1) inv1(1) x(1) assms(4) run(2)] inv1(2) by simp_all
    obtain res where res: "enqueue env req' en2 = Some (res, en2)"
        "\<forall>r'. res = Inr r' \<longrightarrow> r' = \<lparr>enq_id = enq_id r, enq_created = False\<rparr>"
      using enqueue_hit [OF e2(1), of req' "enq_id r" x env] e2(3) assms(4) unfolding key by blast
    have "res = Inr \<lparr>enq_id = enq_id r, enq_created = False\<rparr>"
      if "req' = req \<and> st_wall_now (en_state en) \<le> st_wall_now (en_state en2)"
      using repeat_accepted [OF assms(3) e2(2) _ e2(1,3) assms(4)] that res(1) by simp
    with res show "\<exists>res. enqueue env req' en2 = Some (res, en2) \<and>
        (\<forall>r'. res = Inr r' \<longrightarrow> r' = \<lparr>enq_id = enq_id r, enq_created = False\<rparr>) \<and>
        (req' = req \<and> st_wall_now (en_state en) \<le> st_wall_now (en_state en2) \<longrightarrow>
          res = Inr \<lparr>enq_id = enq_id r, enq_created = False\<rparr>)" by blast
  qed
qed

text \<open>
  C37: an idempotency window that reaches past \<open>kMaxWallTimeMs\<close> is accepted by the engine, which
  then logs a record that no restart can decode. This holds for every enqueue with a key that creates
  a job, whenever one window after the clock is past that bound and the other fields have their C++ types.
\<close>
theorem engine_window_unreadable:
  assumes "enqueue env req en = Some (Inr r, en1)" and "enq_created r" and "er_idem_key req \<noteq> []"
    and "size_ok (er_payload req)" and "in_i32 (er_priority req)"
    and "- (2 ^ 63) \<le> st_wall_now (en_state en)" and "je_run_at (enqueue_record req en) < 2 ^ 63"
    and "kMaxWallTimeMs < st_wall_now (en_state en) + eo_idempotency_window_ms (en_options en)"
    and "st_wall_now (en_state en) + eo_idempotency_window_ms (en_options en) < 2 ^ 63"
  shows "\<exists>payload. (en_last_lsn en1, en_sink en1) = ev_append env 1 payload (en_sink en) \<and>
    decode_record 1 payload = Inl (bad_record 1 ''field out of range'')"
proof -
  let ?r = "enqueue_record req en"
  have v: "length (er_queue req) \<le> kMaxQueueNameBytes" "length (er_idem_key req) \<le> kMaxIdemKeyBytes"
    using enqueue_logs(3) [OF assms(1,2)] assms(1) by (auto simp: is_valid_queue_name_def enqueue_def Let_def split: if_splits)
  have "st_wall_now (en_state en) \<le> je_run_at ?r" by (simp add: enqueue_record_def Let_def)
  then have "decode_record 1 (encode_record (RJobEnqueued ?r)) = Inl (bad_record 1 ''field out of range'')"
    using assms(3-9) v
    by (intro decode_late_enqueue) (auto simp: enqueue_record_def Let_def size_ok_def kMaxQueueNameBytes_def kMaxIdemKeyBytes_def)
  moreover have "(en_last_lsn en1, en_sink en1) = ev_append env 1 (encode_record (RJobEnqueued ?r)) (en_sink en)"
    using enqueue_logs(1) [OF assms(1,2)]
    by (cases "ev_append env 1 (encode_record (RJobEnqueued ?r)) (en_sink en)") (auto simp: log_and_apply_def bind_eq_Some_conv)
  ultimately show ?thesis by blast
qed

section \<open>Witnesses\<close>

theorem engine_enqueue_idempotent_witness:
  "\<exists>en1 en2. enqueue sample_env sample_request sample_engine = Some (Inr \<lparr>enq_id = 1, enq_created = True\<rparr>, en1) \<and>
     tick sample_env 5000 5000 5000 [1] en1 = Some en2 \<and>
     enqueue sample_env sample_request en2 = Some (Inr \<lparr>enq_id = 1, enq_created = False\<rparr>, en2)"
proof -
  obtain en1 where en1: "enqueue sample_env sample_request sample_engine = Some (Inr \<lparr>enq_id = 1, enq_created = True\<rparr>, en1)"
      "eng_inv en1" "dom (st_jobs (en_state en1)) = {1}" using sample_enqueued by auto
  have key: "er_idem_key sample_request \<noteq> []" by (simp add: sample_request_def str_def)
  let ?op = "OTick 5000 5000 5000 [1]"
  have p: "possible ?op en1" using en1(3) by (simp add: tick_ok_def)
  obtain en2 where en2: "tick sample_env 5000 5000 5000 [1] en1 = Some en2"
    using run_op_outcome [OF en1(2) p, of sample_env] by (auto simp: outcome_def)
  have run: "runs sample_env en1 [?op] en2" using runs_Cons [OF p _ runs_Nil] en2 by simp
  have o: "0 < eo_idempotency_window_ms (en_options sample_engine)" "st_wall_now (en_state sample_engine) = 0"
      "5000 < eo_idempotency_window_ms (en_options sample_engine)"
    by (simp_all add: sample_engine_fields default_engine_options_def)
  have "remembers (er_idem_key sample_request) 1 (eo_idempotency_window_ms (en_options sample_engine)) (en_state en1)"
    using enqueue_remembers [OF sample_engine_inv sample_engine_room en1(1) key o(1)] o(2) by simp
  from remembers_tick(2) [OF en2 this o(3)] have "st_wall_now (en_state en2) = 5000" .
  moreover obtain x where "x = eo_idempotency_window_ms (en_options sample_engine)" and "\<forall>ops en2 req'. runs sample_env en1 ops en2 \<longrightarrow>
      (\<forall>w m m' order. OTick w m m' order \<in> set ops \<longrightarrow> w < x) \<longrightarrow> er_idem_key req' = er_idem_key sample_request \<longrightarrow>
      (\<exists>res. enqueue sample_env req' en2 = Some (res, en2) \<and>
        (\<forall>r'. res = Inr r' \<longrightarrow> r' = \<lparr>enq_id = 1, enq_created = False\<rparr>) \<and>
        (req' = sample_request \<and> 0 \<le> st_wall_now (en_state en2) \<longrightarrow> res = Inr \<lparr>enq_id = 1, enq_created = False\<rparr>))"
    using engine_enqueue_idempotent [OF sample_engine_inv sample_engine_room en1(1) key o(1)] o(2) by auto
  ultimately show ?thesis using en1(1) en2 run o(3) by fastforce
qed

theorem engine_window_unreadable_witness:
  "\<exists>en1 payload. enqueue sample_env sample_request (sample_engine\<lparr>en_options := default_engine_options\<lparr>eo_idempotency_window_ms := 1125899906842625\<rparr>\<rparr>) =
     Some (Inr \<lparr>enq_id = 1, enq_created = True\<rparr>, en1) \<and> (en_last_lsn en1, en_sink en1) = ev_append sample_env 1 payload (en_sink sample_engine) \<and>
     decode_record 1 payload = Inl (bad_record 1 ''field out of range'')"
proof -
  let ?opts = "default_engine_options\<lparr>eo_idempotency_window_ms := 1125899906842625\<rparr>"
  let ?en = "sample_engine\<lparr>en_options := ?opts\<rparr>"
  have inv: "eng_inv ?en" "id_room ?en"
    using sample_engine_inv sample_engine_room by (simp_all add: eng_inv_def eng_good_def id_room_def)
  have "spec_step (RJobEnqueued (enqueue_record sample_request ?en)) (durable (en_state ?en)) \<noteq> None"
    by (simp add: spec_enqueue_def enqueue_record_def sample_request_def value_or_def default_engine_options_def Let_def durable_def
        sample_engine_fields str_def)
  then obtain en1 where l: "log_and_apply sample_env (RJobEnqueued (enqueue_record sample_request ?en)) ?en = Some en1"
    using log_one [OF inv(1), of "RJobEnqueued (enqueue_record sample_request ?en)" _ sample_env] inv(2)
    by (auto simp: room_for_def id_room_def)
  have enq: "enqueue sample_env sample_request ?en = Some (Inr \<lparr>enq_id = 1, enq_created = True\<rparr>, en1)"
    using sample_enqueue_eq [of ?en 1125899906842625 "str ''k''", unfolded sample_request_key] l
    by (simp add: sample_engine_fields enqueue_record_def Let_def)
  have "\<exists>payload. (en_last_lsn en1, en_sink en1) = ev_append sample_env 1 payload (en_sink ?en) \<and>
      decode_record 1 payload = Inl (bad_record 1 ''field out of range'')"
    by (rule engine_window_unreadable [OF enq]) (simp_all add: sample_request_def str_def size_ok_def in_i32_def sample_engine_fields
        enqueue_record_def Let_def value_or_def kMaxWallTimeMs_def)
  then show ?thesis using enq by auto
qed

end
