(* ===== verification/FileSystem.thy ===== *)
theory FileSystem
  imports Prelude
begin

text \<open>
  \<^verbatim>\<open>common/fs.h\<close>: the file-system interface as a record of operations on a state \<open>'s\<close>, with
  writable handles \<open>'h\<close> and readers \<open>'r\<close>. An operation answers a result and the new
  state; it is \<open>None\<close> when the call does not return (an abort, or a wait without end).
  \<open>file_store\<close> is the contract the log relies on: what directories and files hold after
  each operation, on a file system in working order.
\<close>

section \<open>The interface\<close>

datatype OpenMode = kCreateNew | kAppendExisting

type_synonym ('s, 'a) fs_op = "'s \<Rightarrow> ('a Result \<times> 's) option"

record ('s, 'h, 'r) FileSystem =
  fs_create_dir_if_missing :: "bytes \<Rightarrow> ('s, unit) fs_op"
  fs_list_dir :: "bytes \<Rightarrow> ('s, bytes list) fs_op"
  fs_open_append :: "bytes \<Rightarrow> OpenMode \<Rightarrow> ('s, 'h) fs_op"
  fs_read_file :: "bytes \<Rightarrow> ('s, bytes) fs_op"
  fs_open_read :: "bytes \<Rightarrow> ('s, 'r) fs_op"
  fs_file_size :: "bytes \<Rightarrow> ('s, nat) fs_op"
  fs_truncate :: "bytes \<Rightarrow> nat \<Rightarrow> ('s, unit) fs_op"
  fs_rename :: "bytes \<Rightarrow> bytes \<Rightarrow> ('s, unit) fs_op"
  fs_remove :: "bytes \<Rightarrow> ('s, unit) fs_op"
  fs_sync_dir :: "bytes \<Rightarrow> ('s, unit) fs_op"
  fs_lock_dir :: "bytes \<Rightarrow> ('s, unit) fs_op"
  fs_available_bytes :: "bytes \<Rightarrow> ('s, nat) fs_op"
  fh_append :: "'h \<Rightarrow> bytes \<Rightarrow> ('s, unit) fs_op"
  fh_sync :: "'h \<Rightarrow> ('s, unit) fs_op"
  fh_size :: "'h \<Rightarrow> 's \<Rightarrow> nat"
  fr_read :: "'r \<Rightarrow> nat \<Rightarrow> bytes Result \<times> 'r"

text \<open>\<^verbatim>\<open>BATON_ASSIGN_OR_RETURN\<close> over an operation: an error is returned with the state it left.\<close>

definition try_op :: "('a Result \<times> 's) option \<Rightarrow> ('a \<Rightarrow> 's \<Rightarrow> ('b Result \<times> 's) option) \<Rightarrow> ('b Result \<times> 's) option" where
  "try_op m f = (case m of
       None \<Rightarrow> None
     | Some (Inl e, s) \<Rightarrow> Some (Inl e, s)
     | Some (Inr x, s) \<Rightarrow> f x s)"

lemma try_op_simps [simp]:
  "try_op None f = None"
  "try_op (Some (Inl e, s)) f = Some (Inl e, s)"
  "try_op (Some (Inr x, s)) f = f x s"
  by (simp_all add: try_op_def)

definition join_path :: "bytes \<Rightarrow> bytes \<Rightarrow> bytes" where
  "join_path dir name = (if dir \<noteq> [] \<and> last dir \<noteq> 47 then dir @ [47] else dir) @ name"

section \<open>What the log relies on\<close>

definition plain_dir :: "bytes \<Rightarrow> bool" where
  "plain_dir dir \<longleftrightarrow> dir \<noteq> [] \<and> last dir \<noteq> 47"

definition plain_name :: "bytes \<Rightarrow> bool" where
  "plain_name name \<longleftrightarrow> 47 \<notin> set name"

text \<open>\<open>entries s dir\<close> is what a reader finds in a directory: a map from names to contents.\<close>

type_synonym 's dir_view = "'s \<Rightarrow> bytes \<Rightarrow> (bytes \<rightharpoonup> bytes) option"

locale file_store =
  fixes fs :: "('s, 'h, 'r) FileSystem"
    and working :: "'s \<Rightarrow> bool"
    and entries :: "'s dir_view"
  assumes list_dir_ok: "working s \<Longrightarrow> entries s dir = Some m \<Longrightarrow>
      \<exists>names. fs_list_dir fs dir s = Some (Inr names, s) \<and> distinct names \<and> set names = dom m"
    and read_file_ok: "working s \<Longrightarrow> entries s dir = Some m \<Longrightarrow> plain_dir dir \<Longrightarrow> plain_name name \<Longrightarrow>
      m name = Some d \<Longrightarrow> fs_read_file fs (join_path dir name) s = Some (Inr d, s)"
    and truncate_ok: "working s \<Longrightarrow> entries s dir = Some m \<Longrightarrow> plain_dir dir \<Longrightarrow> plain_name name \<Longrightarrow>
      m name = Some d \<Longrightarrow> n \<le> length d \<Longrightarrow>
      \<exists>s'. fs_truncate fs (join_path dir name) n s = Some (Inr (), s') \<and> working s' \<and>
        entries s' dir = Some (m(name \<mapsto> take n d))"
    and remove_ok: "working s \<Longrightarrow> entries s dir = Some m \<Longrightarrow> plain_dir dir \<Longrightarrow> plain_name name \<Longrightarrow>
      m name = Some d \<Longrightarrow>
      \<exists>s'. fs_remove fs (join_path dir name) s = Some (Inr (), s') \<and> working s' \<and>
        entries s' dir = Some (m(name := None))"
    and sync_dir_ok: "working s \<Longrightarrow> entries s dir = Some m \<Longrightarrow>
      \<exists>s'. fs_sync_dir fs dir s = Some (Inr (), s') \<and> working s' \<and> entries s' dir = Some m"

end
