(* ===== verification/SimFs.thy ===== *)
theory SimFs
  imports FileSystem
begin

text \<open>
  \<^verbatim>\<open>testing/sim_fs.h\<close> and \<^verbatim>\<open>testing/sim_fs.cpp\<close>: the in-memory file system that the
  durability code is tested against, with crash images and injected faults. A shared
  pointer to a file is an index into \<open>sim_files\<close>. The random engine of a seed is the function
  \<open>sim_rng\<close> (the n-th number drawn from that seed), a field of the state. A capture callback runs
  code of the test and has no part in the state. The theory ends with the invariant of the
  state and with what the files and directories hold after each operation.
\<close>

section \<open>Data\<close>

datatype CrashMode = kLoseUnsynced | kKeepUnsynced | kTorn

record SimFile =
  sf_data :: bytes
  sf_synced :: nat

type_synonym FileRef = nat
type_synonym Entries = "(bytes \<times> FileRef) list"

datatype DirOp = kLink bytes FileRef | kUnlink bytes | kRename bytes bytes FileRef

record SimDir =
  sd_current :: Entries
  sd_durable :: Entries
  sd_pending :: "DirOp list"

record Capture =
  cap_at_op :: u64
  cap_mode :: CrashMode
  cap_seed :: u64

text \<open>A crash image, before it becomes a file system of its own: directories, names, contents.\<close>

type_synonym SimImage = "(bytes \<times> (bytes \<times> bytes) list) list"

record SimFs =
  sim_files :: "SimFile list"
  sim_dirs :: "(bytes \<times> SimDir) list"
  sim_ops :: u64
  sim_capture :: "Capture option"
  sim_captured :: "SimImage option"
  sim_sync_failure :: "u64 option"
  sim_sync_broken :: bool
  sim_append_failure :: "u64 option"
  sim_capacity :: "nat option"
  sim_locked :: "bytes list"
  sim_syncs_held :: bool
  sim_held_prefix :: bytes
  sim_rng :: "u64 \<Rightarrow> nat \<Rightarrow> u64"

record SimHandle =
  hd_file :: FileRef
  hd_name :: bytes

record SimReader =
  sr_data :: bytes
  sr_offset :: nat

definition empty_sim :: "(u64 \<Rightarrow> nat \<Rightarrow> u64) \<Rightarrow> SimFs" where
  "empty_sim rng = \<lparr>sim_files = [], sim_dirs = [], sim_ops = 0, sim_capture = None, sim_captured = None,
     sim_sync_failure = None, sim_sync_broken = False, sim_append_failure = None, sim_capacity = None,
     sim_locked = [], sim_syncs_held = False, sim_held_prefix = [], sim_rng = rng\<rparr>"

definition empty_dir :: SimDir where
  "empty_dir = \<lparr>sd_current = [], sd_durable = [], sd_pending = []\<rparr>"

definition omap_erase :: "'k \<Rightarrow> ('k \<times> 'v) list \<Rightarrow> ('k \<times> 'v) list" where
  "omap_erase k m = filter (\<lambda>kv. fst kv \<noteq> k) m"

section \<open>Paths and files\<close>

definition split_path :: "bytes \<Rightarrow> (bytes \<times> bytes) option" where
  "split_path path = (if 47 \<in> set path then
       let name = rev (takeWhile (\<lambda>b. b \<noteq> 47) (rev path)) in
       Some (take (length path - length name - 1) path, name)
     else None)"

definition find_locked :: "SimFs \<Rightarrow> bytes \<Rightarrow> FileRef option option" where
  "find_locked fs path = do {
     (dir, name) \<leftarrow> split_path path;
     Some (case map_of (sim_dirs fs) dir of
         None \<Rightarrow> None
       | Some d \<Rightarrow> map_of (sd_current d) name)
   }"

definition file_at :: "SimFs \<Rightarrow> FileRef \<Rightarrow> SimFile" where
  "file_at fs r = sim_files fs ! r"

definition set_file :: "FileRef \<Rightarrow> SimFile \<Rightarrow> SimFs \<Rightarrow> SimFs" where
  "set_file r f fs = fs\<lparr>sim_files := (sim_files fs)[r := f]\<rparr>"

definition used_bytes_locked :: "SimFs \<Rightarrow> nat" where
  "used_bytes_locked fs = (\<Sum>(dir_name, dir) \<leftarrow> sim_dirs fs.
     \<Sum>(name, file) \<leftarrow> sd_current dir. length (sf_data (file_at fs file)))"

section \<open>Crash images\<close>

definition apply_dir_op :: "DirOp \<Rightarrow> Entries \<Rightarrow> Entries" where
  "apply_dir_op op surviving = (case op of
      kLink name file \<Rightarrow> omap_insert name file surviving
    | kUnlink name \<Rightarrow> omap_erase name surviving
    | kRename name new_name file \<Rightarrow> omap_insert new_name file (omap_erase name surviving))"

text \<open>The draws are numbered; each function answers the number of the next draw.\<close>

fun keep_some :: "(nat \<Rightarrow> u64) \<Rightarrow> DirOp list \<Rightarrow> Entries \<Rightarrow> nat \<Rightarrow> Entries \<times> nat" where
  "keep_some rng [] surviving n = (surviving, n)"
| "keep_some rng (op # ops) surviving n =
     (if rng n AND 1 = 0 then keep_some rng ops surviving (n + 1)
      else keep_some rng ops (apply_dir_op op surviving) (n + 1))"

definition surviving_entries :: "(nat \<Rightarrow> u64) \<Rightarrow> CrashMode \<Rightarrow> SimDir \<Rightarrow> nat \<Rightarrow> Entries \<times> nat" where
  "surviving_entries rng mode dir n =
     (let surviving = (if mode = kKeepUnsynced then sd_current dir else sd_durable dir) in
      if mode = kTorn then keep_some rng (sd_pending dir) surviving n else (surviving, n))"

definition surviving_data :: "(nat \<Rightarrow> u64) \<Rightarrow> CrashMode \<Rightarrow> SimFile \<Rightarrow> nat \<Rightarrow> bytes \<times> nat" where
  "surviving_data rng mode file n =
     (let keep = length (sf_data file);
          keep = (if mode = kLoseUnsynced then sf_synced file else keep);
          unsynced = length (sf_data file) - sf_synced file;
          (keep, n) = (if mode = kTorn then (sf_synced file + unat (rng n) mod (unsynced + 1), n + 1) else (keep, n));
          data = take keep (sf_data file) in
      if mode = kTorn \<and> keep > sf_synced file then
        (if rng n AND 1 \<noteq> 0 then
           let garbage = min (keep - sf_synced file) (1 + unat (rng (n + 1)) mod 64) in
           (take (keep - garbage) data @ map (\<lambda>i. ucast (rng (n + 2 + i))) [0 ..< garbage], n + 2 + garbage)
         else (data, n + 1))
      else (data, n))"

fun image_entries :: "SimFs \<Rightarrow> (nat \<Rightarrow> u64) \<Rightarrow> CrashMode \<Rightarrow> Entries \<Rightarrow> nat \<Rightarrow> (bytes \<times> bytes) list \<times> nat" where
  "image_entries fs rng mode [] n = ([], n)"
| "image_entries fs rng mode ((name, file) # surviving) n =
     (let (data, n) = surviving_data rng mode (file_at fs file) n;
          (rest, n) = image_entries fs rng mode surviving n in ((name, data) # rest, n))"

fun image_dirs :: "SimFs \<Rightarrow> (nat \<Rightarrow> u64) \<Rightarrow> CrashMode \<Rightarrow> (bytes \<times> SimDir) list \<Rightarrow> nat \<Rightarrow> SimImage" where
  "image_dirs fs rng mode [] n = []"
| "image_dirs fs rng mode ((dir_name, dir) # dirs) n =
     (let (surviving, n) = surviving_entries rng mode dir n;
          (out, n) = image_entries fs rng mode surviving n in (dir_name, out) # image_dirs fs rng mode dirs n)"

definition build_image_locked :: "SimFs \<Rightarrow> CrashMode \<Rightarrow> u64 \<Rightarrow> SimImage" where
  "build_image_locked fs mode seed = image_dirs fs (sim_rng fs seed) mode (sim_dirs fs) 0"

text \<open>The image as a file system: every copy is durable, in its contents and its directory.\<close>

definition install_file :: "bytes \<Rightarrow> bytes \<times> bytes \<Rightarrow> SimFs \<Rightarrow> SimFs" where
  "install_file dir_name entry fs =
     (let r = length (sim_files fs);
          d = the (map_of (sim_dirs fs) dir_name) in
      fs\<lparr>sim_files := sim_files fs @ [\<lparr>sf_data = snd entry, sf_synced = length (snd entry)\<rparr>],
         sim_dirs := omap_insert dir_name (d\<lparr>sd_current := omap_insert (fst entry) r (sd_current d),
           sd_durable := omap_insert (fst entry) r (sd_durable d)\<rparr>) (sim_dirs fs)\<rparr>)"

definition install_dir :: "bytes \<times> (bytes \<times> bytes) list \<Rightarrow> SimFs \<Rightarrow> SimFs" where
  "install_dir dir fs = fold (install_file (fst dir)) (snd dir)
     (fs\<lparr>sim_dirs := omap_insert (fst dir) empty_dir (sim_dirs fs)\<rparr>)"

definition fs_of_image :: "(u64 \<Rightarrow> nat \<Rightarrow> u64) \<Rightarrow> SimImage \<Rightarrow> SimFs" where
  "fs_of_image rng img = fold install_dir img (empty_sim rng)"

definition crash_image :: "SimFs \<Rightarrow> CrashMode \<Rightarrow> u64 \<Rightarrow> SimFs" where
  "crash_image fs mode seed = fs_of_image (sim_rng fs) (build_image_locked fs mode seed)"

definition count_op_locked :: "SimFs \<Rightarrow> SimFs" where
  "count_op_locked fs =
     (let fs = fs\<lparr>sim_ops := sim_ops fs + 1\<rparr> in
      case sim_capture fs of
        None \<Rightarrow> fs
      | Some c \<Rightarrow>
          if sim_ops fs = cap_at_op c then
            fs\<lparr>sim_captured := Some (build_image_locked fs (cap_mode c) (cap_seed c)), sim_capture := None\<rparr>
          else fs)"

definition capture_crash_image_after :: "u64 \<Rightarrow> CrashMode \<Rightarrow> u64 \<Rightarrow> SimFs \<Rightarrow> SimFs option" where
  "capture_crash_image_after ops mode seed fs = do {
     baton_check (ops > 0);
     Some (fs\<lparr>sim_capture := Some \<lparr>cap_at_op = sim_ops fs + ops, cap_mode = mode, cap_seed = seed\<rparr>\<rparr>)
   }"

definition take_captured_image :: "SimFs \<Rightarrow> SimFs option \<times> SimFs" where
  "take_captured_image fs = (map_option (fs_of_image (sim_rng fs)) (sim_captured fs), fs\<lparr>sim_captured := None\<rparr>)"

definition mutating_ops :: "SimFs \<Rightarrow> u64" where
  "mutating_ops fs = sim_ops fs"

section \<open>The file-system operations\<close>

definition sim_create_dir_if_missing :: "bytes \<Rightarrow> (SimFs, unit) fs_op" where
  "sim_create_dir_if_missing dir fs =
     Some (Inr (), if map_of (sim_dirs fs) dir = None
       then fs\<lparr>sim_dirs := omap_insert dir empty_dir (sim_dirs fs)\<rparr> else fs)"

definition sim_list_dir :: "bytes \<Rightarrow> (SimFs, bytes list) fs_op" where
  "sim_list_dir dir fs = Some (case map_of (sim_dirs fs) dir of
      None \<Rightarrow> (Inl (mk_error kIo [FS ''opendir '', FB dir, FS '': no such directory'']), fs)
    | Some d \<Rightarrow> (Inr (map fst (sd_current d)), fs))"

definition set_dir :: "bytes \<Rightarrow> SimDir \<Rightarrow> SimFs \<Rightarrow> SimFs" where
  "set_dir dir d fs = fs\<lparr>sim_dirs := omap_update dir (\<lambda>_. d) (sim_dirs fs)\<rparr>"

definition sim_open_append :: "bytes \<Rightarrow> OpenMode \<Rightarrow> (SimFs, SimHandle) fs_op" where
  "sim_open_append path mode fs = do {
     (dir, name) \<leftarrow> split_path path;
     Some (case map_of (sim_dirs fs) dir of
         None \<Rightarrow> (Inl (mk_error kIo [FS ''open '', FB path, FS '': no such directory'']), fs)
       | Some d \<Rightarrow>
           (case mode of
              kCreateNew \<Rightarrow>
                if map_of (sd_current d) name \<noteq> None then
                  (Inl (mk_error kIo [FS ''open '', FB path, FS '': File exists'']), fs)
                else
                  let file = length (sim_files fs);
                      fs = fs\<lparr>sim_files := sim_files fs @ [\<lparr>sf_data = [], sf_synced = 0\<rparr>]\<rparr>;
                      fs = set_dir dir (d\<lparr>sd_current := omap_insert name file (sd_current d),
                             sd_pending := sd_pending d @ [kLink name file]\<rparr>) fs
                  in (Inr \<lparr>hd_file = file, hd_name = name\<rparr>, count_op_locked fs)
            | kAppendExisting \<Rightarrow>
                (case map_of (sd_current d) name of
                   None \<Rightarrow> (Inl (mk_error kIo [FS ''open '', FB path, FS '': No such file or directory'']), fs)
                 | Some file \<Rightarrow> (Inr \<lparr>hd_file = file, hd_name = name\<rparr>, fs))))
   }"

definition no_such_file :: "string \<Rightarrow> bytes \<Rightarrow> Error" where
  "no_such_file call path = mk_error kIo [FS call, FS '' '', FB path, FS '': No such file or directory'']"

definition sim_read_file :: "bytes \<Rightarrow> (SimFs, bytes) fs_op" where
  "sim_read_file path fs = do {
     file \<leftarrow> find_locked fs path;
     Some (case file of
         None \<Rightarrow> (Inl (no_such_file ''open'' path), fs)
       | Some r \<Rightarrow> (Inr (sf_data (file_at fs r)), fs))
   }"

definition sim_open_read :: "bytes \<Rightarrow> (SimFs, SimReader) fs_op" where
  "sim_open_read path fs = do {
     file \<leftarrow> find_locked fs path;
     Some (case file of
         None \<Rightarrow> (Inl (no_such_file ''open'' path), fs)
       | Some r \<Rightarrow> (Inr \<lparr>sr_data = sf_data (file_at fs r), sr_offset = 0\<rparr>, fs))
   }"

definition sim_read :: "SimReader \<Rightarrow> nat \<Rightarrow> bytes Result \<times> SimReader" where
  "sim_read rd mx =
     (let n = min mx (length (sr_data rd) - sr_offset rd) in
      (Inr (take n (drop (sr_offset rd) (sr_data rd))), rd\<lparr>sr_offset := sr_offset rd + n\<rparr>))"

definition sim_file_size :: "bytes \<Rightarrow> (SimFs, nat) fs_op" where
  "sim_file_size path fs = do {
     file \<leftarrow> find_locked fs path;
     Some (case file of
         None \<Rightarrow> (Inl (no_such_file ''stat'' path), fs)
       | Some r \<Rightarrow> (Inr (length (sf_data (file_at fs r))), fs))
   }"

definition sim_truncate :: "bytes \<Rightarrow> nat \<Rightarrow> (SimFs, unit) fs_op" where
  "sim_truncate path sz fs = do {
     file \<leftarrow> find_locked fs path;
     (case file of
        None \<Rightarrow> Some (Inl (no_such_file ''open'' path), fs)
      | Some r \<Rightarrow> do {
          baton_check (sz \<le> length (sf_data (file_at fs r)));
          Some (Inr (), count_op_locked (set_file r \<lparr>sf_data = take sz (sf_data (file_at fs r)), sf_synced = sz\<rparr> fs))
        })
   }"

definition sim_rename :: "bytes \<Rightarrow> bytes \<Rightarrow> (SimFs, unit) fs_op" where
  "sim_rename from to fs = do {
     (from_dir, from_name) \<leftarrow> split_path from;
     (to_dir, to_name) \<leftarrow> split_path to;
     baton_check (from_dir = to_dir);
     Some (case map_of (sim_dirs fs) from_dir of
         None \<Rightarrow> (Inl (mk_error kIo [FS ''rename '', FB from, FS '': no such directory'']), fs)
       | Some d \<Rightarrow>
           (case map_of (sd_current d) from_name of
              None \<Rightarrow> (Inl (no_such_file ''rename'' from), fs)
            | Some file \<Rightarrow>
                (Inr (), count_op_locked (set_dir from_dir
                   (d\<lparr>sd_current := omap_insert to_name file (omap_erase from_name (sd_current d)),
                     sd_pending := sd_pending d @ [kRename from_name to_name file]\<rparr>) fs))))
   }"

definition sim_remove :: "bytes \<Rightarrow> (SimFs, unit) fs_op" where
  "sim_remove path fs = do {
     (dir, name) \<leftarrow> split_path path;
     Some (case map_of (sim_dirs fs) dir of
         None \<Rightarrow> (Inl (no_such_file ''unlink'' path), fs)
       | Some d \<Rightarrow>
           if map_of (sd_current d) name = None then (Inl (no_such_file ''unlink'' path), fs)
           else (Inr (), count_op_locked (set_dir dir
                  (d\<lparr>sd_current := omap_erase name (sd_current d), sd_pending := sd_pending d @ [kUnlink name]\<rparr>) fs)))
   }"

definition sim_sync_dir :: "bytes \<Rightarrow> (SimFs, unit) fs_op" where
  "sim_sync_dir dir fs = Some (case map_of (sim_dirs fs) dir of
      None \<Rightarrow> (Inl (mk_error kIo [FS ''fsync dir '', FB dir, FS '': no such directory'']), fs)
    | Some d \<Rightarrow> (Inr (), count_op_locked (set_dir dir (d\<lparr>sd_durable := sd_current d, sd_pending := []\<rparr>) fs)))"

text \<open>\<^verbatim>\<open>--*countdown == 0\<close>: the counter after the call, and whether it has run out.\<close>

definition count_down :: "u64 option \<Rightarrow> bool \<times> u64 option" where
  "count_down c = (case c of
      None \<Rightarrow> (False, None)
    | Some n \<Rightarrow> if n - 1 = 0 then (True, None) else (False, Some (n - 1)))"

definition add_data :: "FileRef \<Rightarrow> bytes \<Rightarrow> SimFs \<Rightarrow> SimFs" where
  "add_data r data fs = set_file r (file_at fs r\<lparr>sf_data := sf_data (file_at fs r) @ data\<rparr>) fs"

definition handle_append :: "SimHandle \<Rightarrow> bytes \<Rightarrow> (SimFs, unit) fs_op" where
  "handle_append h data fs =
     (let (fails, countdown) = count_down (sim_append_failure fs);
          fs = fs\<lparr>sim_append_failure := countdown\<rparr>;
          room = (case sim_capacity fs of None \<Rightarrow> length data | Some cap \<Rightarrow> cap - used_bytes_locked fs) in
      if fails then
        Some (Inl (mk_error kIo [FS ''write: Input/output error (injected)'']),
          count_op_locked (add_data (hd_file h) (take (length data div 2) data) fs))
      else if length data > room then
        Some (Inl (mk_error kIo [FS ''write: No space left on device (injected)'']),
          count_op_locked (add_data (hd_file h) (take room data) fs))
      else Some (Inr (), count_op_locked (add_data (hd_file h) data fs)))"

text \<open>While syncs are held, \<open>sync\<close> does not return.\<close>

definition handle_sync :: "SimHandle \<Rightarrow> (SimFs, unit) fs_op" where
  "handle_sync h fs =
     (if sim_syncs_held fs \<and> take (length (sim_held_prefix fs)) (hd_name h) = sim_held_prefix fs then None
      else
        let (fails, countdown) = count_down (sim_sync_failure fs);
            fs = fs\<lparr>sim_sync_failure := countdown, sim_sync_broken := sim_sync_broken fs \<or> fails\<rparr> in
        if sim_sync_broken fs then
          Some (Inl (mk_error kIo [FS ''fsync: Input/output error (injected)'']), count_op_locked fs)
        else
          Some (Inr (), count_op_locked (set_file (hd_file h)
            (file_at fs (hd_file h)\<lparr>sf_synced := length (sf_data (file_at fs (hd_file h)))\<rparr>) fs)))"

definition handle_size :: "SimHandle \<Rightarrow> SimFs \<Rightarrow> nat" where
  "handle_size h fs = length (sf_data (file_at fs (hd_file h)))"

definition hold_syncs :: "bytes \<Rightarrow> SimFs \<Rightarrow> SimFs" where
  "hold_syncs name_prefix fs = fs\<lparr>sim_syncs_held := True, sim_held_prefix := name_prefix\<rparr>"

definition release_syncs :: "SimFs \<Rightarrow> SimFs" where
  "release_syncs fs = fs\<lparr>sim_syncs_held := False\<rparr>"

definition sim_lock_dir :: "bytes \<Rightarrow> (SimFs, unit) fs_op" where
  "sim_lock_dir dir fs = Some (if dir \<in> set (sim_locked fs) then
       (Inl (mk_error kFailedPrecondition [FS ''data directory '', FB dir, FS '' is in use by another baton process'']), fs)
     else (Inr (), fs\<lparr>sim_locked := dir # sim_locked fs\<rparr>))"

definition sim_unlock_dir :: "bytes \<Rightarrow> SimFs \<Rightarrow> SimFs" where
  "sim_unlock_dir dir fs = fs\<lparr>sim_locked := filter (\<lambda>d. d \<noteq> dir) (sim_locked fs)\<rparr>"

definition sim_available_bytes :: "bytes \<Rightarrow> (SimFs, nat) fs_op" where
  "sim_available_bytes dir fs = Some (case sim_capacity fs of
      None \<Rightarrow> (Inr (push_bit 40 1), fs)
    | Some cap \<Rightarrow> (Inr (cap - used_bytes_locked fs), fs))"

definition sim_fs :: "(SimFs, SimHandle, SimReader) FileSystem" where
  "sim_fs = \<lparr>fs_create_dir_if_missing = sim_create_dir_if_missing, fs_list_dir = sim_list_dir,
     fs_open_append = sim_open_append, fs_read_file = sim_read_file, fs_open_read = sim_open_read,
     fs_file_size = sim_file_size, fs_truncate = sim_truncate, fs_rename = sim_rename,
     fs_remove = sim_remove, fs_sync_dir = sim_sync_dir, fs_lock_dir = sim_lock_dir,
     fs_available_bytes = sim_available_bytes, fh_append = handle_append, fh_sync = handle_sync,
     fh_size = handle_size, fr_read = sim_read\<rparr>"

section \<open>Fault injection and test helpers\<close>

definition fail_sync_after :: "u64 \<Rightarrow> SimFs \<Rightarrow> SimFs option" where
  "fail_sync_after n fs = do { baton_check (n > 0); Some (fs\<lparr>sim_sync_failure := Some n\<rparr>) }"

definition fail_append_after :: "u64 \<Rightarrow> SimFs \<Rightarrow> SimFs option" where
  "fail_append_after n fs = do { baton_check (n > 0); Some (fs\<lparr>sim_append_failure := Some n\<rparr>) }"

definition set_capacity :: "nat option \<Rightarrow> SimFs \<Rightarrow> SimFs" where
  "set_capacity cap fs = fs\<lparr>sim_capacity := cap\<rparr>"

definition write_file :: "bytes \<Rightarrow> bytes \<Rightarrow> SimFs \<Rightarrow> SimFs option" where
  "write_file path contents fs = do {
     (dir, name) \<leftarrow> split_path path;
     let fs = (if map_of (sim_dirs fs) dir = None
               then fs\<lparr>sim_dirs := omap_insert dir empty_dir (sim_dirs fs)\<rparr> else fs)
     in Some (install_file dir (name, contents) fs)
   }"

definition flip_bit :: "bytes \<Rightarrow> nat \<Rightarrow> nat \<Rightarrow> SimFs \<Rightarrow> SimFs option" where
  "flip_bit path byte_offset b fs = do {
     file \<leftarrow> find_locked fs path;
     baton_check (file \<noteq> None);
     let r = the file; f = file_at fs r in do {
       baton_check (byte_offset < length (sf_data f));
       baton_check (b < 8);
       Some (set_file r (f\<lparr>sf_data := (sf_data f)[byte_offset := sf_data f ! byte_offset XOR push_bit b 1]\<rparr>) fs)
     }
   }"

definition exists_file :: "bytes \<Rightarrow> SimFs \<Rightarrow> bool option" where
  "exists_file path fs = map_option (\<lambda>file. file \<noteq> None) (find_locked fs path)"

end
