(* ===== verification/CharConv.thy ===== *)
theory CharConv
  imports Prelude
begin

text \<open>
  What the sources use of \<^verbatim>\<open><charconv>\<close>: \<^verbatim>\<open>std::from_chars\<close> in base ten for the 64-bit
  integers. A conversion reads the longest run of digits (after an optional minus sign
  for the signed type; a plus sign is not accepted), answers the value and the text it
  did not consume, and is \<open>None\<close> for either error: no digits, or a value out of range.
  The lemmas are the round trip with decimal rendering and the width of a rendering.
\<close>

section \<open>Conversions\<close>

definition is_digit :: "byte \<Rightarrow> bool" where
  "is_digit b \<longleftrightarrow> 48 \<le> b \<and> b \<le> 57"

definition digits_value :: "bytes \<Rightarrow> nat" where
  "digits_value ds = foldl (\<lambda>acc d. 10 * acc + unat (d - 48)) 0 ds"

definition from_chars_nat :: "bytes \<Rightarrow> (nat \<times> bytes) option" where
  "from_chars_nat s = (let ds = takeWhile is_digit s in
     if ds = [] then None else Some (digits_value ds, dropWhile is_digit s))"

definition from_chars_u64 :: "bytes \<Rightarrow> (u64 \<times> bytes) option" where
  "from_chars_u64 s = (case from_chars_nat s of
       None \<Rightarrow> None
     | Some (n, rest) \<Rightarrow> if n < 2 ^ 64 then Some (of_nat n, rest) else None)"

definition from_chars_i64 :: "bytes \<Rightarrow> (int \<times> bytes) option" where
  "from_chars_i64 s = (case s of
       [] \<Rightarrow> None
     | c # s' \<Rightarrow>
         if c = 45 then (case from_chars_nat s' of
             None \<Rightarrow> None
           | Some (n, rest) \<Rightarrow> if n \<le> 2 ^ 63 then Some (- int n, rest) else None)
         else (case from_chars_nat s of
             None \<Rightarrow> None
           | Some (n, rest) \<Rightarrow> if n < 2 ^ 63 then Some (int n, rest) else None))"

section \<open>Decimal rendering\<close>

lemma digit_facts:
  assumes "d < 10"
  shows "is_digit (48 + of_nat d)" and "unat ((48 + of_nat d :: byte) - 48) = d"
    and "unat (48 + of_nat d :: byte) = 48 + d"
proof -
  have "unat (of_nat d :: byte) = d"
    using assms by (simp add: unat_of_nat)
  then show "unat ((48 + of_nat d :: byte) - 48) = d" by simp
  show u: "unat (48 + of_nat d :: byte) = 48 + d"
    using assms by (simp add: unat_word_ariths unat_of_nat)
  show "is_digit (48 + of_nat d)"
    unfolding is_digit_def word_le_nat_alt u using assms by simp
qed

lemma digits_value_snoc: "digits_value (ds @ [d]) = 10 * digits_value ds + unat (d - 48)"
  by (simp add: digits_value_def)

lemma nat_dec_digits: "d \<in> set (nat_dec n) \<Longrightarrow> is_digit d"
proof (induction n rule: nat_dec.induct)
  case (1 n)
  have "is_digit (48 + of_nat (n mod 10))" by (rule digit_facts) simp
  moreover have "is_digit (48 + of_nat n)" if "n < 10" using that by (rule digit_facts)
  ultimately show ?case
    using 1 by (subst (asm) nat_dec.simps) (auto split: if_splits)
qed

lemma digits_value_nat_dec: "digits_value (nat_dec n) = n"
proof (induction n rule: nat_dec.induct)
  case (1 n)
  show ?case
  proof (cases "n < 10")
    case True
    then show ?thesis
      by (subst nat_dec.simps) (simp add: digits_value_def unat_of_nat)
  next
    case False
    then have "nat_dec n = nat_dec (n div 10) @ [48 + of_nat (n mod 10)]"
      by (subst nat_dec.simps) simp
    then show ?thesis
      using 1 [OF False] digit_facts(2) [of "n mod 10"] by (simp add: digits_value_snoc del: add_diff_cancel_left')
  qed
qed

lemma nat_dec_nonempty [simp]: "nat_dec n \<noteq> []"
  by (subst nat_dec.simps) simp

lemma length_nat_dec: "0 < k \<Longrightarrow> n < 10 ^ k \<Longrightarrow> length (nat_dec n) \<le> k"
proof (induction n arbitrary: k rule: nat_dec.induct)
  case (1 n)
  show ?case
  proof (cases "n < 10")
    case True
    then show ?thesis using 1(2) by (subst nat_dec.simps) simp
  next
    case False
    then obtain j where k: "k = Suc (Suc j)"
      using 1(2,3) by (metis One_nat_def not0_implies_Suc power_one_right less_not_refl)
    then have "n div 10 < 10 ^ Suc j" using 1(3) by (simp add: div_less_iff_less_mult)
    from 1(1) [OF False _ this] show ?thesis
      using False k by (subst nat_dec.simps) simp
  qed
qed

lemma digits_value_zeros: "digits_value (replicate k 48 @ ds) = digits_value ds"
  by (induction k) (simp_all add: digits_value_def)

lemma takeWhile_all: "(\<And>x. x \<in> set xs \<Longrightarrow> P x) \<Longrightarrow> (case ys of [] \<Rightarrow> True | y # _ \<Rightarrow> \<not> P y) \<Longrightarrow>
    takeWhile P (xs @ ys) = xs \<and> dropWhile P (xs @ ys) = ys"
  by (induction xs) (auto split: list.splits)

text \<open>Digits with leading zeros are read back, up to the first byte that is no digit.\<close>

lemma from_chars_nat_dec:
  assumes "case rest of [] \<Rightarrow> True | b # _ \<Rightarrow> \<not> is_digit b"
  shows "from_chars_nat (replicate k 48 @ nat_dec n @ rest) = Some (n, rest)"
proof -
  have "is_digit d" if "d \<in> set (replicate k 48 @ nat_dec n)" for d
    using that by (auto simp: nat_dec_digits) (simp add: is_digit_def)
  from takeWhile_all [of "replicate k 48 @ nat_dec n", OF this assms] show ?thesis
    by (simp add: from_chars_nat_def digits_value_zeros digits_value_nat_dec)
qed

lemma from_chars_u64_dec:
  assumes "case rest of [] \<Rightarrow> True | b # _ \<Rightarrow> \<not> is_digit b"
  shows "from_chars_u64 (replicate k 48 @ nat_dec (unat v) @ rest) = Some (v, rest)"
  using from_chars_nat_dec [OF assms, of k "unat v"] unsigned_less [of v] by (simp add: from_chars_u64_def)

lemma from_chars_i64_dec:
  assumes "case rest of [] \<Rightarrow> True | b # _ \<Rightarrow> \<not> is_digit b" and "- (2 ^ 63) \<le> i" and "i < 2 ^ 63"
  shows "from_chars_i64 (int_dec i @ rest) = Some (i, rest)"
proof (cases "i < 0")
  case True
  then show ?thesis
    using from_chars_nat_dec [OF assms(1), of 0 "nat (- i)"] assms(2) by (simp add: from_chars_i64_def int_dec_def nat_le_iff)
next
  case False
  obtain c s where cs: "nat_dec (nat i) = c # s"
    using nat_dec_nonempty by (cases "nat_dec (nat i)") auto
  then have "is_digit c" using nat_dec_digits [of c "nat i"] by simp
  then have "c \<noteq> 45" by (auto simp: is_digit_def)
  then show ?thesis
    using False from_chars_nat_dec [OF assms(1), of 0 "nat i"] assms(3) cs
    by (simp add: from_chars_i64_def int_dec_def nat_less_iff)
qed

section \<open>Digit strings of one width\<close>

lemma digit_value_bound: "is_digit d \<Longrightarrow> unat (d - 48) < 10"
  by (auto simp: is_digit_def word_le_nat_alt unat_sub)

lemma digit_value_inj: "unat (d - 48) = unat (e - 48) \<longleftrightarrow> d = (e :: byte)"
  by (simp flip: word_eq_iff_unsigned)

lemma digits_value_inj:
  assumes "length xs = length ys" and "\<forall>d \<in> set xs. is_digit d" and "\<forall>d \<in> set ys. is_digit d"
    and "digits_value xs = digits_value ys"
  shows "xs = ys"
  using assms
proof (induction xs arbitrary: ys rule: rev_induct)
  case (snoc d xs)
  obtain zs e where ys: "ys = zs @ [e]"
    using snoc.prems(1) by (cases ys rule: rev_cases) auto
  have "unat (d - 48) < 10" "unat (e - 48) < 10"
    using snoc.prems(2,3) by (auto simp: ys intro: digit_value_bound)
  with snoc.prems(4) have "digits_value xs = digits_value zs" "unat (d - 48) = unat (e - 48)"
    unfolding ys digits_value_snoc by presburger+
  then show ?case
    using snoc.IH [of zs] snoc.prems(1-3) digit_value_inj [of d e] by (simp add: ys)
qed simp

lemma from_chars_u64_all:
  "from_chars_u64 s = Some (v, []) \<longleftrightarrow> s \<noteq> [] \<and> (\<forall>d \<in> set s. is_digit d) \<and> digits_value s = unat v"
proof -
  have n: "from_chars_nat s = Some (n, []) \<longleftrightarrow> s \<noteq> [] \<and> (\<forall>d \<in> set s. is_digit d) \<and> digits_value s = n" for n
  proof (cases "\<forall>d \<in> set s. is_digit d")
    case True
    then have "takeWhile is_digit s = s" "dropWhile is_digit s = []" by simp_all
    then show ?thesis using True by (simp only: from_chars_nat_def Let_def) auto
  qed (auto simp: from_chars_nat_def Let_def dropWhile_eq_Nil_conv)
  have "from_chars_u64 s = Some (v, []) \<longleftrightarrow> from_chars_nat s = Some (unat v, [])"
    using unsigned_less [of v, where ?'a = nat]
    by (auto simp: from_chars_u64_def unat_of_nat split: option.splits if_splits)
  then show ?thesis by (simp only: n)
qed

end
