(* ===== verification/Crc32c.thy ===== *)
theory Crc32c
  imports Codec
begin

text \<open>
  \<^verbatim>\<open>common/crc32c.h\<close> and \<^verbatim>\<open>common/crc32c.cpp\<close>: the slicing-by-8 tables, the software
  routine, the hardware routine over the two CRC instructions it uses, and the selection
  between them. The reference is the bit-at-a-time definition of CRC32C.
\<close>

unbundle bit_operations_syntax

section \<open>The code\<close>

definition kPolynomialReflected :: u32 where
  "kPolynomialReflected = 0x82F63B78"

definition crc_bit :: "u32 \<Rightarrow> u32" where
  "crc_bit c = (if c AND 1 \<noteq> 0 then drop_bit 1 c XOR kPolynomialReflected else drop_bit 1 c)"

fun kTables :: "nat \<Rightarrow> u32 \<Rightarrow> u32" where
  "kTables 0 i = (crc_bit ^^ 8) i"
| "kTables (Suc k) i = drop_bit 8 (kTables k i) XOR kTables 0 (kTables k i AND 0xFF)"

definition lookup :: "nat \<Rightarrow> nat \<Rightarrow> u64 \<Rightarrow> u32" where
  "lookup k shift w = kTables k (ucast (drop_bit shift w AND 0xFF))"

definition crc_word :: "u64 \<Rightarrow> u32" where
  "crc_word word = lookup 7 0 word XOR lookup 6 8 word XOR lookup 5 16 word XOR lookup 4 24 word XOR
     lookup 3 32 word XOR lookup 2 40 word XOR lookup 1 48 word XOR lookup 0 56 word"

definition crc_byte :: "u32 \<Rightarrow> byte \<Rightarrow> u32" where
  "crc_byte c b = kTables 0 ((c XOR ucast b) AND 0xFF) XOR drop_bit 8 c"

function crc_software_words :: "u32 \<Rightarrow> bytes \<Rightarrow> u32 \<times> bytes" where
  "crc_software_words c p =
     (if length p \<ge> 8 then crc_software_words (crc_word (le_word (take 8 p) XOR ucast c)) (drop 8 p) else (c, p))"
  by pat_completeness auto
termination by (relation "measure (\<lambda>(_, p). length p)") auto

declare crc_software_words.simps [simp del]

definition crc32c_software :: "u32 \<Rightarrow> bytes \<Rightarrow> u32" where
  "crc32c_software crc data =
     (let (c, p) = crc_software_words (NOT crc) data in NOT (fold (\<lambda>b c. crc_byte c b) p c))"

text \<open>
  The instructions \<^verbatim>\<open>_mm_crc32_u64\<close> and \<^verbatim>\<open>_mm_crc32_u8\<close> are parameters.
\<close>

function crc_hardware_words :: "(u64 \<Rightarrow> u64 \<Rightarrow> u64) \<Rightarrow> u64 \<Rightarrow> bytes \<Rightarrow> u64 \<times> bytes" where
  "crc_hardware_words mm_u64 c p =
     (if length p \<ge> 8 then crc_hardware_words mm_u64 (mm_u64 c (le_word (take 8 p))) (drop 8 p) else (c, p))"
  by pat_completeness auto
termination by (relation "measure (\<lambda>(_, _, p). length p)") auto

declare crc_hardware_words.simps [simp del]

definition hardware_impl :: "(u64 \<Rightarrow> u64 \<Rightarrow> u64) \<Rightarrow> (u32 \<Rightarrow> byte \<Rightarrow> u32) \<Rightarrow> u32 \<Rightarrow> bytes \<Rightarrow> u32" where
  "hardware_impl mm_u64 mm_u8 crc data =
     (let (c, p) = crc_hardware_words mm_u64 (ucast (NOT crc)) data in NOT (fold (\<lambda>b c. mm_u8 c b) p (ucast c)))"

text \<open>\<open>None\<close> stands for a processor without the instructions.\<close>

type_synonym crc_unit = "((u64 \<Rightarrow> u64 \<Rightarrow> u64) \<times> (u32 \<Rightarrow> byte \<Rightarrow> u32)) option"

definition crc32c_hardware :: "crc_unit \<Rightarrow> u32 \<Rightarrow> bytes \<Rightarrow> u32 option" where
  "crc32c_hardware hw crc data = (case hw of None \<Rightarrow> None | Some (mm_u64, mm_u8) \<Rightarrow> Some (hardware_impl mm_u64 mm_u8 crc data))"

definition select_impl :: "crc_unit \<Rightarrow> u32 \<Rightarrow> bytes \<Rightarrow> u32" where
  "select_impl hw = (case hw of None \<Rightarrow> crc32c_software | Some (mm_u64, mm_u8) \<Rightarrow> hardware_impl mm_u64 mm_u8)"

section \<open>The reference\<close>

definition crc_step :: "u32 \<Rightarrow> byte \<Rightarrow> u32" where
  "crc_step c b = (crc_bit ^^ 8) (c XOR ucast b)"

definition crc_ref :: "u32 \<Rightarrow> bytes \<Rightarrow> u32" where
  "crc_ref crc data = NOT (fold (\<lambda>b c. crc_step c b) data (NOT crc))"

section \<open>Linearity\<close>

lemma crc_bit_alt: "crc_bit c = drop_bit 1 c XOR (if bit c 0 then kPolynomialReflected else 0)"
  by (simp add: crc_bit_def and_one_eq bit_0 odd_iff_mod_2_eq_one)

lemma crc_bit_xor: "crc_bit (a XOR b) = crc_bit a XOR crc_bit b"
  by (rule bit_word_eqI) (auto simp: crc_bit_alt bit_simps)

text \<open>One byte of zeros pushed through the register.\<close>

definition adv :: "u32 \<Rightarrow> u32" where
  "adv c = (crc_bit ^^ 8) c"

lemma crc_bits_xor: "(crc_bit ^^ n) (a XOR b) = (crc_bit ^^ n) a XOR (crc_bit ^^ n) b"
  by (induction n) (simp_all add: crc_bit_xor)

lemma adv_xor: "adv (a XOR b) = adv a XOR adv b"
  by (simp add: adv_def crc_bits_xor)

lemma advs_xor: "(adv ^^ n) (a XOR b) = (adv ^^ n) a XOR (adv ^^ n) b"
  by (induction n) (simp_all add: adv_xor)

lemma crc_bits_zeros: "(\<And>k. k < n \<Longrightarrow> \<not> bit c k) \<Longrightarrow> (crc_bit ^^ n) c = drop_bit n c"
proof (induction n arbitrary: c)
  case (Suc n)
  have "crc_bit c = drop_bit 1 c" using Suc.prems [of 0] by (simp add: crc_bit_alt)
  moreover have "(crc_bit ^^ n) (drop_bit 1 c) = drop_bit n (drop_bit 1 c)"
    by (rule Suc.IH) (use Suc.prems in \<open>simp add: bit_simps\<close>)
  ultimately show ?case by (simp add: funpow_Suc_right del: funpow.simps)
qed simp

lemma mask_8: "0xFF = (mask 8 :: 'a::len word)"
  by (simp add: mask_eq_exp_minus_1)

lemma adv_split: "adv c = adv (c AND 0xFF) XOR drop_bit 8 c"
proof -
  have "c = (c AND mask 8) XOR (c AND NOT (mask 8))" by (rule bit_word_eqI) (auto simp: bit_simps)
  then have "adv c = adv (c AND mask 8) XOR adv (c AND NOT (mask 8))" using adv_xor by metis
  moreover have "adv (c AND NOT (mask 8)) = drop_bit 8 (c AND NOT (mask 8))"
    unfolding adv_def by (rule crc_bits_zeros) (auto simp: bit_simps)
  moreover have "drop_bit 8 (c AND NOT (mask 8)) = drop_bit 8 c"
    by (rule bit_word_eqI) (auto simp: bit_simps dest: bit_imp_le_length)
  ultimately show ?thesis unfolding mask_8 by simp
qed

lemma kTables_adv: "kTables k i = (adv ^^ Suc k) i"
proof (induction k)
  case (Suc k)
  have "kTables (Suc k) i = adv (kTables k i)"
    using adv_split [of "kTables k i"] by (simp add: adv_def xor.commute)
  then show ?case unfolding Suc.IH by simp
qed (simp add: adv_def)

lemma crc_byte_step: "crc_byte c b = crc_step c b"
proof -
  have "drop_bit 8 (ucast b :: u32) = 0" by (rule bit_word_eqI) (auto simp: bit_simps dest: bit_imp_le_length)
  then have "drop_bit 8 (c XOR ucast b) = drop_bit 8 c" by (simp add: drop_bit_xor)
  then show ?thesis using adv_split [of "c XOR ucast b"] by (simp add: crc_byte_def crc_step_def adv_def)
qed

section \<open>Eight bytes at a time\<close>

lemma bit_le_word:
  "bit (le_word bs :: 'a::len word) n \<longleftrightarrow> n < LENGTH('a) \<and> n div 8 < length bs \<and> bit (bs ! (n div 8)) (n mod 8)"
proof (induction bs arbitrary: n)
  case (Cons b bs)
  show ?case
  proof (cases "n < 8")
    case True
    then show ?thesis by (auto simp: bit_simps)
  next
    case False
    then obtain m where m: "n = m + 8" by (metis add.commute le_add_diff_inverse not_less)
    then have "n div 8 = Suc (m div 8)" "n mod 8 = m mod 8" by simp_all
    then show ?thesis using Cons.IH [of m] m by (auto simp: bit_simps dest: bit_imp_le_length)
  qed
qed simp

text \<open>Byte \<open>k\<close> of a 64-bit word that has the register mixed into its low half.\<close>

lemma mixed_byte:
  assumes "length p = 8" and "k < 8"
  shows "ucast (drop_bit (8 * k) (le_word p XOR ucast (c :: u32) :: u64) AND 0xFF) = (ucast (p ! k) XOR (drop_bit (8 * k) c AND 0xFF) :: u32)"
proof (rule bit_word_eqI)
  fix n assume "n < LENGTH(32)"
  have "(8 * k + n) div 8 = k" "(8 * k + n) mod 8 = n" if "n < 8" using that by simp_all
  then show "bit (ucast (drop_bit (8 * k) (le_word p XOR ucast c :: u64) AND 0xFF) :: u32) n =
      bit (ucast (p ! k) XOR (drop_bit (8 * k) c AND 0xFF) :: u32) n"
    using assms unfolding mask_8 by (cases "n < 8") (auto simp: bit_simps bit_le_word dest: bit_imp_le_length)
qed

lemma lookup_adv:
  assumes "length p = 8" and "k < 8"
  shows "lookup j (8 * k) (le_word p XOR ucast c) = (adv ^^ Suc j) (ucast (p ! k)) XOR (adv ^^ Suc j) (drop_bit (8 * k) c AND 0xFF)"
  unfolding lookup_def mixed_byte [OF assms] kTables_adv advs_xor ..

lemma advs_split: "(adv ^^ Suc n) c = (adv ^^ Suc n) (c AND 0xFF) XOR (adv ^^ n) (drop_bit 8 c)"
proof -
  have "(adv ^^ Suc n) x = (adv ^^ n) (adv x)" for x by (simp add: funpow_swap1)
  then show ?thesis using adv_split [of c] advs_xor [of n "adv (c AND 0xFF)" "drop_bit 8 c"] by simp
qed

lemma advs_register:
  "(adv ^^ 8) c = (adv ^^ 8) (c AND 0xFF) XOR (adv ^^ 7) (drop_bit 8 c AND 0xFF) XOR
     (adv ^^ 6) (drop_bit 16 c AND 0xFF) XOR (adv ^^ 5) (drop_bit 24 c AND 0xFF)"
proof -
  have z: "drop_bit 32 c = 0" by (rule bit_word_eqI) (auto simp: bit_simps dest: bit_imp_le_length)
  have "(adv ^^ n) 0 = 0" for n using advs_xor [of n 0 0] by simp
  then show ?thesis
    using advs_split [of 7 c] advs_split [of 6 "drop_bit 8 c"] advs_split [of 5 "drop_bit 16 c"] advs_split [of 4 "drop_bit 24 c"] z
    by (simp add: eval_nat_numeral ac_simps del: funpow.simps)
qed

abbreviation crc_steps :: "bytes \<Rightarrow> u32 \<Rightarrow> u32" where
  "crc_steps p c \<equiv> fold (\<lambda>b c. crc_step c b) p c"

lemma crc_step_adv: "crc_step c b = adv c XOR adv (ucast b)"
  by (simp add: crc_step_def adv_xor flip: adv_def)

lemma crc_word_steps:
  assumes p: "length p = 8"
  shows "crc_word (le_word p XOR ucast c) = crc_steps p c"
proof -
  have high: "drop_bit n c AND 0xFF = 0" if "32 \<le> n" for n
    by (rule bit_word_eqI) (use that in \<open>auto simp: bit_simps dest: bit_imp_le_length\<close>)
  have zero: "(adv ^^ n) 0 = 0" for n using advs_xor [of n 0 0] by simp
  obtain b0 b1 b2 b3 b4 b5 b6 b7 where bs: "p = [b0, b1, b2, b3, b4, b5, b6, b7]"
    using p by (auto simp: eval_nat_numeral length_Suc_conv)
  note L = lookup_adv [OF p, where c = c]
  have "crc_word (le_word p XOR ucast c) =
      ((adv ^^ 8) (c AND 0xFF) XOR (adv ^^ 7) (drop_bit 8 c AND 0xFF) XOR (adv ^^ 6) (drop_bit 16 c AND 0xFF) XOR
       (adv ^^ 5) (drop_bit 24 c AND 0xFF)) XOR
      ((adv ^^ 8) (ucast b0) XOR (adv ^^ 7) (ucast b1) XOR (adv ^^ 6) (ucast b2) XOR (adv ^^ 5) (ucast b3) XOR
       (adv ^^ 4) (ucast b4) XOR (adv ^^ 3) (ucast b5) XOR (adv ^^ 2) (ucast b6) XOR (adv ^^ 1) (ucast b7))"
    using L [of 0 7] L [of 1 6] L [of 2 5] L [of 3 4] L [of 4 3] L [of 5 2] L [of 6 1] L [of 7 0]
    by (simp add: crc_word_def bs high zero ac_simps eval_nat_numeral del: funpow.simps)
  also have "\<dots> = crc_steps p c"
    unfolding advs_register [symmetric]
    by (simp add: bs crc_step_adv adv_xor eval_nat_numeral ac_simps)
  finally show ?thesis .
qed

lemma crc_software_words_steps:
  "\<exists>q. crc_software_words c p = (q, drop (length p - length p mod 8) p) \<and> crc_steps (drop (length p - length p mod 8) p) q = crc_steps p c"
proof (induction c p rule: crc_software_words.induct)
  case (1 c p)
  show ?case
  proof (cases "8 \<le> length p")
    case True
    have len: "length (take 8 p) = 8" "length p - 8 - (length p - 8) mod 8 + 8 = length p - length p mod 8"
      using True by (auto simp: le_mod_geq mod_less_eq_dividend)
    have split: "crc_steps p c = crc_steps (drop 8 p) (crc_word (le_word (take 8 p) XOR ucast c))"
      unfolding crc_word_steps [OF len(1)] by (metis append_take_drop_id comp_apply fold_append)
    then show ?thesis using "1.IH" [OF True] True len(2) by (subst crc_software_words.simps) (simp add: add.commute)
  next
    case False
    then show ?thesis by (subst crc_software_words.simps) simp
  qed
qed

lemma crc32c_software_ref: "crc32c_software crc data = crc_ref crc data"
proof -
  let ?rest = "drop (length data - length data mod 8) data"
  obtain q where q: "crc_software_words (NOT crc) data = (q, ?rest)" "crc_steps ?rest q = crc_steps data (NOT crc)"
    using crc_software_words_steps by blast
  then show ?thesis by (simp add: crc32c_software_def crc_ref_def crc_byte_step)
qed

section \<open>The hardware routine\<close>

text \<open>What the processor manuals say of the two instructions.\<close>

definition crc_instructions :: "(u64 \<Rightarrow> u64 \<Rightarrow> u64) \<Rightarrow> (u32 \<Rightarrow> byte \<Rightarrow> u32) \<Rightarrow> bool" where
  "crc_instructions mm_u64 mm_u8 \<longleftrightarrow> (\<forall>c b. mm_u8 c b = crc_step c b) \<and>
     (\<forall>c p. length p = 8 \<longrightarrow> mm_u64 (ucast c) (le_word p) = ucast (crc_steps p c))"

lemma crc_hardware_words_steps:
  assumes hw: "crc_instructions mm_u64 mm_u8"
  shows "\<exists>q. crc_hardware_words mm_u64 (ucast c) p = (ucast (q :: u32), drop (length p - length p mod 8) p) \<and>
    crc_steps (drop (length p - length p mod 8) p) q = crc_steps p c"
proof (induction "length p" arbitrary: c p rule: less_induct)
  case less
  show ?case
  proof (cases "8 \<le> length p")
    case True
    have len: "length (take 8 p) = 8" "length p - 8 - (length p - 8) mod 8 + 8 = length p - length p mod 8"
      using True by (auto simp: le_mod_geq mod_less_eq_dividend)
    have step: "mm_u64 (ucast c) (le_word (take 8 p)) = ucast (crc_steps (take 8 p) c)"
      using hw len(1) unfolding crc_instructions_def by blast
    have "crc_steps p c = crc_steps (drop 8 p) (crc_steps (take 8 p) c)" by (metis append_take_drop_id comp_apply fold_append)
    then show ?thesis using less [of "drop 8 p" "crc_steps (take 8 p) c"] True len(2) step
      by (subst crc_hardware_words.simps) (simp add: add.commute)
  next
    case False
    then show ?thesis by (subst crc_hardware_words.simps) auto
  qed
qed

lemma hardware_impl_ref:
  assumes hw: "crc_instructions mm_u64 mm_u8"
  shows "hardware_impl mm_u64 mm_u8 crc data = crc_ref crc data"
proof -
  let ?rest = "drop (length data - length data mod 8) data"
  obtain q :: u32 where q: "crc_hardware_words mm_u64 (ucast (NOT crc)) data = (ucast q, ?rest)"
      "crc_steps ?rest q = crc_steps data (NOT crc)"
    using crc_hardware_words_steps [OF hw] by blast
  have "ucast (ucast q :: u64) = q" by (rule bit_word_eqI) (auto simp: bit_simps)
  then show ?thesis using q hw by (simp add: hardware_impl_def crc_ref_def crc_instructions_def)
qed

section \<open>Error detection\<close>

text \<open>The register can be run backwards: the polynomial has its top bit set.\<close>

lemma xor_zero: "a XOR b = (0 :: 'a::len word) \<longleftrightarrow> a = b"
  by (auto simp: bit_eq_iff bit_simps)

lemma crc_bit_zero: "crc_bit x = 0 \<longleftrightarrow> x = 0"
proof
  assume z: "crc_bit x = 0"
  have "bit (crc_bit x) 31 \<longleftrightarrow> bit x 0"
    by (auto simp: crc_bit_alt bit_simps kPolynomialReflected_def dest: bit_imp_le_length)
  then have b0: "\<not> bit x 0" using z by simp
  then have "drop_bit 1 x = 0" using z by (simp add: crc_bit_alt)
  then have "\<not> bit x (Suc n)" for n using bit_drop_bit_eq [of 1 x] by (metis bit_0_eq bot_apply bot_bool_def comp_apply plus_1_eq_Suc)
  then have "\<not> bit x n" for n using b0 by (cases n) simp_all
  then show "x = 0" by (simp add: bit_eq_iff)
qed (simp add: crc_bit_alt)

lemma crc_bits_zero: "(crc_bit ^^ n) x = 0 \<longleftrightarrow> x = 0"
  by (induction n) (simp_all add: crc_bit_zero)

lemma advs_zero: "(adv ^^ n) x = 0 \<longleftrightarrow> x = 0"
  by (induction n) (simp_all add: adv_def crc_bits_zero)

lemma adv_inj: "adv a = adv b \<longleftrightarrow> a = b"
  using advs_zero [of 1 "a XOR b"] adv_xor [of a b] xor_zero [of "adv a" "adv b"] xor_zero [of a b] by simp

lemma crc_step_inj: "crc_step a b = crc_step c b \<longleftrightarrow> a = c"
proof -
  have "a XOR x = c XOR x \<longleftrightarrow> a = c" for x by (auto simp: bit_eq_iff bit_simps)
  then show ?thesis by (simp add: crc_step_def adv_inj flip: adv_def)
qed

lemma crc_steps_inj: "crc_steps p a = crc_steps p b \<longleftrightarrow> a = b"
  by (induction p arbitrary: a b) (simp_all add: crc_step_inj)

text \<open>Up to four bytes land in the register whole.\<close>

lemma crc_steps_le_word: "length p \<le> 4 \<Longrightarrow> crc_steps p c = (adv ^^ length p) (c XOR le_word p)"
proof (induction p arbitrary: c)
  case (Cons b p)
  have lp: "length p \<le> 3" using Cons.prems by simp
  have "adv (push_bit 8 (le_word p)) = le_word p"
  proof -
    have "adv (push_bit 8 (le_word p)) = drop_bit 8 (push_bit 8 (le_word p :: u32))"
      unfolding adv_def by (rule crc_bits_zeros) (simp add: bit_simps)
    also have "\<dots> = le_word p"
    proof (rule bit_word_eqI)
      fix n
      have "n div 8 < length p \<Longrightarrow> n < 24" using lp by linarith
      then show "bit (drop_bit 8 (push_bit 8 (le_word p :: u32))) n = bit (le_word p :: u32) n"
        by (auto simp: bit_simps bit_le_word)
    qed
    finally show ?thesis .
  qed
  moreover have "ucast b OR push_bit 8 (le_word p) = (ucast b XOR push_bit 8 (le_word p) :: u32)"
    by (rule bit_word_eqI) (auto simp: bit_simps dest: bit_imp_le_length)
  ultimately have "adv (c XOR le_word (b # p)) = crc_step c b XOR le_word p"
    by (simp add: adv_xor crc_step_adv ac_simps)
  then show ?case using Cons.IH [of "crc_step c b"] lp by (simp add: funpow_swap1)
qed simp

lemma le_word_inj:
  assumes "length p = length q" and "8 * length p \<le> LENGTH('a)" and "(le_word p :: 'a::len word) = le_word q"
  shows "p = q"
proof (rule nth_equalityI)
  fix i assume i: "i < length p"
  show "p ! i = q ! i"
  proof (rule bit_word_eqI)
    fix n assume n: "n < LENGTH(8)"
    have "(8 * i + n) div 8 = i" "(8 * i + n) mod 8 = n" "8 * i + n < 8 * length p" using i n by simp_all
    then show "bit (p ! i) n = bit (q ! i) n"
      using bit_le_word [of p "8 * i + n", where 'a = 'a] bit_le_word [of q "8 * i + n", where 'a = 'a] assms i by simp
  qed
qed (use assms in simp)

lemma advs_inj: "(adv ^^ n) a = (adv ^^ n) b \<longleftrightarrow> a = b"
  using advs_zero [of n "a XOR b"] advs_xor [of n a b] xor_zero [of "(adv ^^ n) a" "(adv ^^ n) b"] xor_zero [of a b] by simp

lemma crc_burst:
  assumes "length w = length w'" and "length w \<le> 4" and "w \<noteq> w'"
  shows "crc_steps (p @ w @ s) c \<noteq> crc_steps (p @ w' @ s) c"
proof
  let ?a = "crc_steps p c"
  assume "crc_steps (p @ w @ s) c = crc_steps (p @ w' @ s) c"
  then have "crc_steps w ?a = crc_steps w' ?a" by (simp add: crc_steps_inj)
  then have "?a XOR le_word w = ?a XOR le_word w'"
    using crc_steps_le_word [of w ?a] crc_steps_le_word [of w' ?a] assms(1,2) by (simp add: advs_inj)
  then have "le_word w = (le_word w' :: u32)" by (auto simp: bit_eq_iff bit_simps)
  then show False using le_word_inj [of w w', where 'a = 32] assms by simp
qed

section \<open>The checksum the rest of the program uses\<close>

text \<open>
  By the equivalence below it does not matter which routine is selected; the other
  components are modelled with the one for a processor without the instructions.
\<close>

definition crc32c_extend :: "u32 \<Rightarrow> bytes \<Rightarrow> u32" where
  "crc32c_extend crc data = select_impl None crc data"

definition crc32c :: "bytes \<Rightarrow> u32" where
  "crc32c data = crc32c_extend 0 data"

lemma crc32c_extend_ref: "crc32c_extend crc data = crc_ref crc data"
  by (simp add: crc32c_extend_def select_impl_def crc32c_software_ref)

lemma crc32c_extend_append: "crc32c_extend (crc32c_extend crc a) b = crc32c_extend crc (a @ b)"
  by (simp add: crc32c_extend_ref crc_ref_def)

lemma crc32c_append: "crc32c_extend (crc32c a) b = crc32c (a @ b)"
  by (simp add: crc32c_def crc32c_extend_append)

lemma crc32c_burst:
  assumes "length w = length w'" and "length w \<le> 4" and "w \<noteq> w'"
  shows "crc32c (p @ w @ s) \<noteq> crc32c (p @ w' @ s)"
  using crc_burst [OF assms, of p s "NOT 0"] by (simp add: crc32c_def crc32c_extend_ref crc_ref_def)

section \<open>Properties\<close>

text \<open>
  C29: the slicing-by-8 software routine and the hardware routine compute the bit-by-bit CRC32C
  of any data from any starting value, so the selected routine does too, provided the two
  instructions do what the processor manual says.
\<close>
theorem crc32c_impls_agree:
  assumes "\<And>mm_u64 mm_u8. hw = Some (mm_u64, mm_u8) \<Longrightarrow> crc_instructions mm_u64 mm_u8"
  shows "select_impl hw crc data = crc_ref crc data \<and> crc32c_software crc data = crc_ref crc data"
  using assms hardware_impl_ref crc32c_software_ref by (auto simp: select_impl_def split: option.split)

text \<open>
  C30: any change of data confined to at most four consecutive bytes changes its CRC32C.
\<close>
theorem crc32c_detects_bursts:
  assumes "length w = length w'" and "length w \<le> 4" and "w \<noteq> w'"
  shows "crc32c (p @ w @ s) \<noteq> crc32c (p @ w' @ s)"
  using assms by (rule crc32c_burst)

section \<open>Witnesses\<close>

text \<open>The instructions as functions: the reference steps on the bytes of the operand.\<close>

definition sample_crc_unit :: crc_unit where
  "sample_crc_unit = Some (\<lambda>c w. ucast (crc_steps (w_u64 w) (ucast c)), crc_step)"

lemma w_u64_le_word: "length p = 8 \<Longrightarrow> w_u64 (le_word p) = p"
  by (rule le_word_inj [where 'a = 64]) simp_all

lemma funpow_8: "(f ^^ 8) x = f (f (f (f (f (f (f (f x)))))))"
  by (simp add: eval_nat_numeral)

lemmas crc_bit_numeral = crc_bit_def [of "numeral k" for k]

theorem crc32c_impls_agree_witness:
  "select_impl sample_crc_unit (NOT 0) (str ''a'') = NOT 0x93AD1061"
proof -
  have "ucast (ucast c :: u64) = (c :: u32)" for c by (rule bit_word_eqI) (auto simp: bit_simps)
  then have "crc_instructions mm_u64 mm_u8" if "sample_crc_unit = Some (mm_u64, mm_u8)" for mm_u64 mm_u8
    using that by (auto simp: sample_crc_unit_def crc_instructions_def w_u64_le_word)
  from crc32c_impls_agree [OF this] have "select_impl sample_crc_unit (NOT 0) (str ''a'') = crc_ref (NOT 0) (str ''a'')" by blast
  also have "\<dots> = NOT 0x93AD1061"
    by (simp add: crc_ref_def crc_step_def str_def) (simp add: crc_bit_numeral kPolynomialReflected_def funpow_8)
  finally show ?thesis .
qed

theorem crc32c_detects_bursts_witness:
  "crc32c (str ''job 17'') \<noteq> crc32c (str ''job 71'')"
  using crc32c_detects_bursts [of "str ''17''" "str ''71''" "str ''job ''" "[]"] by (simp add: str_def)

end
