(* ===== verification/LogFormat.thy ===== *)
theory LogFormat
  imports CharConv Crc32c "HOL-Library.Sublist"
begin

text \<open>
  \<^verbatim>\<open>log/format.h\<close> and \<^verbatim>\<open>log/format.cpp\<close>: segment file names, the segment header and the
  framing of records. Appending functions take the string so far and answer it extended.
  A parse answers exactly when the bytes are a canonical encoding, so it inverts the
  encoder; a truncated record is recognised as such, and damage of up to four bytes in
  the checksum or in what it covers is detected.
\<close>

section \<open>Names and constants\<close>

definition kSegmentPrefix :: bytes where
  "kSegmentPrefix = str ''wal-''"

definition kSegmentSuffix :: bytes where
  "kSegmentSuffix = str ''.log''"

definition kLsnDigits :: nat where
  "kLsnDigits = 20"

definition kSegmentMagic :: bytes where
  "kSegmentMagic = str ''BATONLOG''"

definition kLogFormatVersion :: u32 where
  "kLogFormatVersion = 1"

definition kSegmentHeaderSize :: nat where
  "kSegmentHeaderSize = 32"

definition kRecordHeaderSize :: nat where
  "kRecordHeaderSize = 17"

definition kMaxRecordPayload :: nat where
  "kMaxRecordPayload = push_bit 20 64 + push_bit 10 64"

record LogRecordView =
  lv_lsn :: Lsn
  lv_type :: byte
  lv_payload :: bytes

definition load_u32 :: "bytes \<Rightarrow> nat \<Rightarrow> u32" where
  "load_u32 data offset = le_word (take 4 (drop offset data))"

definition record_crc :: "bytes \<Rightarrow> bytes \<Rightarrow> u32" where
  "record_crc length_field after_crc = crc32c_extend (crc32c length_field) after_crc"

text \<open>\<^verbatim>\<open>{:020}\<close>: decimal digits, padded with zeros on the left to a width of twenty.\<close>

definition dec_padded :: "nat \<Rightarrow> nat \<Rightarrow> bytes" where
  "dec_padded width n = replicate (width - length (nat_dec n)) 48 @ nat_dec n"

definition segment_file_name :: "Lsn \<Rightarrow> bytes" where
  "segment_file_name first_lsn = kSegmentPrefix @ dec_padded 20 (unat first_lsn) @ kSegmentSuffix"

definition parse_segment_file_name :: "bytes \<Rightarrow> Lsn option" where
  "parse_segment_file_name name =
     (if length name \<noteq> length kSegmentPrefix + kLsnDigits + length kSegmentSuffix then None
      else if \<not> prefix kSegmentPrefix name \<or> \<not> suffix kSegmentSuffix name then None
      else
        let digits = take kLsnDigits (drop (length kSegmentPrefix) name) in
        case from_chars_u64 digits of
          None \<Rightarrow> None
        | Some (lsn, end) \<Rightarrow> if end \<noteq> [] then None else Some lsn)"

section \<open>Segment headers\<close>

definition append_segment_header :: "bytes \<Rightarrow> Lsn \<Rightarrow> bytes" where
  "append_segment_header out first_lsn =
     (let start = length out;
          out = out @ kSegmentMagic @ w_u32 kLogFormatVersion @ w_u32 0 @ w_u64 first_lsn;
          out = out @ w_u32 (crc32c (take 24 (drop start out)))
      in out @ w_u32 0)"

definition parse_segment_header :: "bytes \<Rightarrow> Lsn Result" where
  "parse_segment_header segment =
     (if length segment < kSegmentHeaderSize then
        Inl (mk_error kCorruption [FS ''segment header truncated: '', FU (length segment), FS '' of '',
          FU kSegmentHeaderSize, FS '' bytes''])
      else
        let r = mk_reader (take kSegmentHeaderSize segment);
            (magic, r) = r_raw (length kSegmentMagic) r in
        if magic \<noteq> kSegmentMagic then Inl (mk_error kCorruption [FS ''segment header: bad magic''])
        else
          let (version, r) = r_u32 r;
              (reserved, r) = r_u32 r;
              (first_lsn, r) = r_u64 r;
              (stored_crc, r) = r_u32 r in
          if stored_crc \<noteq> crc32c (take 24 segment) then
            Inl (mk_error kCorruption [FS ''segment header: bad checksum''])
          else if version \<noteq> kLogFormatVersion then
            Inl (mk_error kFailedPrecondition
              [FS ''segment header: unsupported format version '', FU (unat version)])
          else if first_lsn = 0 then
            Inl (mk_error kCorruption [FS ''segment header: first LSN is 0''])
          else Inr first_lsn)"

section \<open>Records\<close>

definition append_record :: "bytes \<Rightarrow> Lsn \<Rightarrow> byte \<Rightarrow> bytes \<Rightarrow> bytes option" where
  "append_record out lsn type payload = do {
     baton_check (length payload \<le> kMaxRecordPayload);
     baton_check (lsn \<noteq> 0);
     let start = length out;
         out = out @ w_u32 (of_nat (length payload)) @ w_u32 0 @ w_u8 type @ w_u64 lsn @ payload;
         encoded = drop start out;
         crc = record_crc (take 4 encoded) (drop 8 encoded)
     in Some (take (start + 4) out @ w_u32 crc @ drop (start + 4 + 4) out)
   }"

datatype RecordParseStatus = RP_Ok | RP_EndOfData | RP_Truncated | RP_BadLength | RP_BadCrc

record RecordParseResult =
  rp_status :: RecordParseStatus
  rp_record :: LogRecordView
  rp_size :: nat

definition no_record :: "RecordParseStatus \<Rightarrow> RecordParseResult" where
  "no_record s = \<lparr>rp_status = s, rp_record = \<lparr>lv_lsn = 0, lv_type = 0, lv_payload = []\<rparr>, rp_size = 0\<rparr>"

definition parse_record :: "bytes \<Rightarrow> RecordParseResult" where
  "parse_record data =
     (if data = [] then no_record RP_EndOfData
      else if length data < kRecordHeaderSize then no_record RP_Truncated
      else
        let len = unat (load_u32 data 0) in
        if len > kMaxRecordPayload then no_record RP_BadLength
        else
          let total = kRecordHeaderSize + len in
          if length data < total then no_record RP_Truncated
          else
            let encoded = take total data in
            if load_u32 encoded 4 \<noteq> record_crc (take 4 encoded) (drop 8 encoded) then no_record RP_BadCrc
            else
              let r = mk_reader (drop 8 encoded);
                  (type, r) = r_u8 r;
                  (lsn, r) = r_u64 r;
                  (payload, r) = r_raw len r in
              \<lparr>rp_status = RP_Ok, rp_record = \<lparr>lv_lsn = lsn, lv_type = type, lv_payload = payload\<rparr>,
               rp_size = total\<rparr>)"

definition to_string_status :: "RecordParseStatus \<Rightarrow> bytes" where
  "to_string_status status = str (case status of
      RP_Ok \<Rightarrow> ''ok''
    | RP_EndOfData \<Rightarrow> ''end of data''
    | RP_Truncated \<Rightarrow> ''truncated record''
    | RP_BadLength \<Rightarrow> ''implausible record length''
    | RP_BadCrc \<Rightarrow> ''checksum mismatch'')"

section \<open>The canonical form of a record\<close>

definition record_tail :: "LogRecordView \<Rightarrow> bytes" where
  "record_tail v = w_u8 (lv_type v) @ w_u64 (lv_lsn v) @ lv_payload v"

definition length_field :: "LogRecordView \<Rightarrow> bytes" where
  "length_field v = w_u32 (of_nat (length (lv_payload v)))"

definition record_bytes :: "LogRecordView \<Rightarrow> bytes" where
  "record_bytes v = length_field v @ w_u32 (crc32c (length_field v @ record_tail v)) @ record_tail v"

definition fits :: "LogRecordView \<Rightarrow> bool" where
  "fits v \<longleftrightarrow> length (lv_payload v) \<le> kMaxRecordPayload"

lemma kMaxRecordPayload_eq: "kMaxRecordPayload = 67174400"
  by (simp add: kMaxRecordPayload_def push_bit_eq_mult)

lemma record_crc_append: "record_crc a b = crc32c (a @ b)"
  by (simp add: record_crc_def crc32c_append)

lemma length_length_field [simp]: "length (length_field v) = 4"
  by (simp add: length_field_def)

lemma length_record_tail [simp]: "length (record_tail v) = 9 + length (lv_payload v)"
  by (simp add: record_tail_def w_u8_def)

lemma length_record_bytes [simp]: "length (record_bytes v) = kRecordHeaderSize + length (lv_payload v)"
  by (simp add: record_bytes_def kRecordHeaderSize_def)

lemma record_bytes_nonempty [simp]: "record_bytes v \<noteq> []"
  by (simp add: record_bytes_def record_tail_def w_u8_def)

lemma append_record_eq:
  "append_record out lsn type payload =
     (if length payload \<le> kMaxRecordPayload \<and> lsn \<noteq> 0
      then Some (out @ record_bytes \<lparr>lv_lsn = lsn, lv_type = type, lv_payload = payload\<rparr>) else None)"
  by (simp add: append_record_def record_bytes_def record_tail_def length_field_def Let_def
      record_crc_append baton_check_def w_u8_def)

lemma load_length_field: "fits v \<Longrightarrow> unat (load_u32 (length_field v @ rest) 0) = length (lv_payload v)"
  by (simp add: load_u32_def length_field_def fits_def kMaxRecordPayload_eq unat_of_nat)

lemma parse_record_bytes:
  assumes "fits v"
  shows "parse_record (record_bytes v @ rest) =
    \<lparr>rp_status = RP_Ok, rp_record = v, rp_size = length (record_bytes v)\<rparr>"
proof -
  have "unat (load_u32 (record_bytes v @ rest) 0) = length (lv_payload v)"
    using load_length_field [OF assms] by (simp add: record_bytes_def)
  moreover have "take (17 + length (lv_payload v)) (record_bytes v @ rest) = record_bytes v"
    by (simp add: kRecordHeaderSize_def)
  moreover have "load_u32 (record_bytes v) 4 = crc32c (length_field v @ record_tail v)"
    by (simp add: load_u32_def record_bytes_def)
  moreover have "take 4 (record_bytes v) = length_field v" "drop 8 (record_bytes v) = record_tail v"
    by (simp_all add: record_bytes_def)
  ultimately show ?thesis
    using assms by (simp add: parse_record_def fits_def record_crc_append Let_def kRecordHeaderSize_def mk_reader_def
        record_tail_def codec_simps) (simp add: r_raw_def need_def)
qed

lemma le_word_32: "length p = 4 \<Longrightarrow> w_u32 (le_word p) = p"
  by (rule le_word_inj [where 'a = 32]) simp_all

text \<open>Whatever parses is a canonical encoding.\<close>

lemma parse_record_ok:
  assumes "rp_status (parse_record data) = RP_Ok"
  shows "\<exists>v rest. fits v \<and> data = record_bytes v @ rest"
proof -
  let ?n = "unat (load_u32 data 0)"
  let ?e = "take (17 + ?n) data"
  have size: "17 + ?n \<le> length data" "?n \<le> kMaxRecordPayload"
    and crc: "load_u32 ?e 4 = record_crc (take 4 ?e) (drop 8 ?e)"
    using assms by (auto simp: parse_record_def no_record_def Let_def kRecordHeaderSize_def split: if_splits)
  define v where "v = \<lparr>lv_lsn = le_word (take 8 (drop 9 ?e)), lv_type = ?e ! 8, lv_payload = drop 17 ?e\<rparr>"
  have "drop 8 ?e = ?e ! 8 # drop 9 ?e"
    using size Cons_nth_drop_Suc [of 8 ?e] by simp
  also have "drop 9 ?e = take 8 (drop 9 ?e) @ drop 17 ?e"
    using append_take_drop_id [of 8 "drop 9 ?e"] by simp
  finally have tail: "drop 8 ?e = record_tail v"
    using size by (simp add: v_def record_tail_def w_u8_def w_u64_le_word)
  have len: "length (lv_payload v) = ?n" using size by (simp add: v_def)
  have field: "take 4 ?e = length_field v"
    using size by (simp add: length_field_def len load_u32_def le_word_32)
  have "?e = take 4 ?e @ take 4 (drop 4 ?e) @ drop 8 ?e"
    by (metis append_take_drop_id drop_drop numeral_Bit0)
  moreover have "take 4 (drop 4 ?e) = w_u32 (record_crc (take 4 ?e) (drop 8 ?e))"
    using size unfolding crc [symmetric] by (simp add: load_u32_def le_word_32)
  ultimately have "?e = record_bytes v"
    by (simp only: tail field record_bytes_def record_crc_append)
  moreover have "fits v" using len size by (simp add: fits_def)
  ultimately show ?thesis by (metis append_take_drop_id)
qed

text \<open>A record cut short is recognised as such, wherever it is cut.\<close>

lemma parse_record_prefix:
  assumes "fits v" and "strict_prefix data (record_bytes v)"
  shows "rp_status (parse_record data) = (if data = [] then RP_EndOfData else RP_Truncated)"
proof (cases "length data < 17")
  case True
  then show ?thesis by (simp add: parse_record_def no_record_def kRecordHeaderSize_def)
next
  case False
  obtain rest where r: "record_bytes v = data @ rest" and ne: "rest \<noteq> []"
    using assms(2) by (auto simp: strict_prefix_def prefix_def)
  have "take 4 data = take 4 (record_bytes v)" using False by (simp add: r)
  then have "unat (load_u32 data 0) = length (lv_payload v)"
    using load_length_field [OF assms(1), of "[]"] by (simp add: load_u32_def record_bytes_def)
  moreover have "length data < 17 + length (lv_payload v)"
    using ne arg_cong [OF r, of length] by (simp add: kRecordHeaderSize_def)
  ultimately show ?thesis
    using False assms(1) by (simp add: parse_record_def no_record_def kRecordHeaderSize_def fits_def)
qed

text \<open>Damage behind the length field that keeps the length is a checksum mismatch.\<close>

lemma parse_record_bad_crc:
  assumes "fits v" and "length tail = length (record_tail v)"
    and "crc \<noteq> crc32c (length_field v @ tail)"
  shows "rp_status (parse_record (length_field v @ w_u32 crc @ tail @ rest)) = RP_BadCrc"
proof -
  let ?d = "length_field v @ w_u32 crc @ tail @ rest"
  have "unat (load_u32 ?d 0) = length (lv_payload v)" by (rule load_length_field [OF assms(1)])
  moreover have e: "take (17 + length (lv_payload v)) ?d = length_field v @ w_u32 crc @ tail"
    using assms(2) by simp
  moreover have "?d \<noteq> []" using length_length_field [of v] by (metis append_is_Nil_conv list.size(3) zero_neq_numeral)
  ultimately show ?thesis
    using assms by (simp add: parse_record_def fits_def no_record_def Let_def kRecordHeaderSize_def record_crc_append)
      (simp add: load_u32_def)
qed

section \<open>The canonical segment header and file name\<close>

definition header_bytes :: "Lsn \<Rightarrow> bytes" where
  "header_bytes lsn = append_segment_header [] lsn"

lemma append_segment_header_eq: "append_segment_header out lsn = out @ header_bytes lsn"
  by (simp add: header_bytes_def append_segment_header_def Let_def)

lemma length_kSegmentMagic [simp]: "length kSegmentMagic = 8"
  by (simp add: kSegmentMagic_def)

lemma length_header_bytes [simp]: "length (header_bytes lsn) = kSegmentHeaderSize"
  by (simp add: header_bytes_def append_segment_header_def Let_def kSegmentHeaderSize_def)

lemma parse_header_bytes:
  assumes "lsn \<noteq> 0"
  shows "parse_segment_header (header_bytes lsn @ rest) = Inr lsn"
proof -
  let ?b = "kSegmentMagic @ w_u32 kLogFormatVersion @ w_u32 0 @ w_u64 lsn"
  have h: "header_bytes lsn = ?b @ w_u32 (crc32c ?b) @ w_u32 0"
    by (simp add: header_bytes_def append_segment_header_def Let_def)
  show ?thesis
    using assms by (simp add: parse_segment_header_def kSegmentHeaderSize_def mk_reader_def codec_simps h)
qed

lemma length_dec_padded: "length (nat_dec n) \<le> w \<Longrightarrow> length (dec_padded w n) = w"
  by (simp add: dec_padded_def)

lemma length_nat_dec_u64: "length (nat_dec (unat (v :: u64))) \<le> 20"
proof (rule length_nat_dec)
  have "unat v < 2 ^ 64" using unsigned_less [of v] by simp
  then show "unat v < 10 ^ 20" by simp
qed simp

lemma dec_padded_digits: "d \<in> set (dec_padded w n) \<Longrightarrow> is_digit d"
  by (auto simp: dec_padded_def nat_dec_digits) (simp add: is_digit_def)

lemma parse_segment_file_name_iff:
  "parse_segment_file_name name = Some lsn \<longleftrightarrow> name = segment_file_name lsn"
proof
  let ?d = "dec_padded 20 (unat lsn)"
  have len: "length ?d = 20" by (rule length_dec_padded [OF length_nat_dec_u64])
  have "digits_value ?d = unat lsn" by (simp add: dec_padded_def digits_value_zeros digits_value_nat_dec)
  then have all: "from_chars_u64 ?d = Some (lsn, [])"
    unfolding from_chars_u64_all using dec_padded_digits by (auto simp: dec_padded_def)
  show "parse_segment_file_name name = Some lsn" if "name = segment_file_name lsn"
    using len all by (simp add: that segment_file_name_def parse_segment_file_name_def kLsnDigits_def suffix_def)
  show "name = segment_file_name lsn" if p: "parse_segment_file_name name = Some lsn"
  proof -
    obtain rest where rest: "name = kSegmentPrefix @ rest" and l: "length rest = 20 + length kSegmentSuffix"
      using p by (auto simp: parse_segment_file_name_def kLsnDigits_def prefix_def split: if_splits)
    let ?ds = "take 20 rest"
    have "suffix kSegmentSuffix name" "from_chars_u64 ?ds = Some (lsn, [])"
      using p l by (auto simp: rest parse_segment_file_name_def kLsnDigits_def Let_def split: if_splits option.splits)
    then obtain zs where "(kSegmentPrefix @ ?ds) @ drop 20 rest = zs @ kSegmentSuffix"
      and v: "from_chars_u64 ?ds = Some (lsn, [])" by (auto simp: rest suffix_def)
    then have "drop 20 rest = kSegmentSuffix" using l by (subst (asm) append_eq_append_conv) auto
    moreover have "?ds = ?d"
      using v all l len unfolding from_chars_u64_all by (intro digits_value_inj) auto
    ultimately show ?thesis
      unfolding rest segment_file_name_def by (metis append_take_drop_id)
  qed
qed

lemma parse_segment_file_name_name [simp]: "parse_segment_file_name (segment_file_name lsn) = Some lsn"
  by (simp add: parse_segment_file_name_iff)

lemma segment_file_name_inj [simp]: "segment_file_name l = segment_file_name l' \<longleftrightarrow> l = l'"
  by (metis option.inject parse_segment_file_name_name)

section \<open>Properties\<close>

text \<open>
  C31: a record within the size limit is appended without an abort, is parsed back from whatever
  follows it, and every proper non-empty prefix of it is recognised as a truncated record.
\<close>
theorem log_record_round_trip:
  assumes "lsn \<noteq> 0" and "length payload \<le> kMaxRecordPayload"
  shows "\<exists>r. append_record out lsn type payload = Some (out @ r) \<and>
    (\<forall>rest. parse_record (r @ rest) =
       \<lparr>rp_status = RP_Ok, rp_record = \<lparr>lv_lsn = lsn, lv_type = type, lv_payload = payload\<rparr>, rp_size = length r\<rparr>) \<and>
    (\<forall>data. strict_prefix data r \<longrightarrow> data \<noteq> [] \<longrightarrow> rp_status (parse_record data) = RP_Truncated)"
proof -
  let ?v = "\<lparr>lv_lsn = lsn, lv_type = type, lv_payload = payload\<rparr>"
  have "fits ?v" using assms by (simp add: fits_def)
  then show ?thesis
    using assms parse_record_bytes [of ?v] parse_record_prefix [of ?v]
    by (intro exI [of _ "record_bytes ?v"]) (simp add: append_record_eq)
qed

text \<open>
  C32: when at most four consecutive bytes behind the length field and the checksum of a stored
  record are damaged, or the checksum itself is, parsing it reports a checksum mismatch.
\<close>
theorem log_record_damage_detected:
  assumes "append_record out lsn type payload = Some (out @ len @ crc @ p @ w @ s)"
    and "length len = 4" and "length crc = 4"
    and "length w' = length w" and "length w \<le> 4" and "length crc' = 4"
    and "w' \<noteq> w \<and> crc' = crc \<or> w' = w \<and> crc' \<noteq> crc"
  shows "rp_status (parse_record (len @ crc' @ p @ w' @ s @ rest)) = RP_BadCrc"
proof -
  let ?v = "\<lparr>lv_lsn = lsn, lv_type = type, lv_payload = payload\<rparr>"
  have fits: "fits ?v" and eq: "length_field ?v @ w_u32 (crc32c (length_field ?v @ record_tail ?v)) @ record_tail ?v
      = len @ crc @ p @ w @ s"
    using assms(1) by (auto simp: append_record_eq fits_def record_bytes_def split: if_splits)
  have len: "len = length_field ?v" and crc: "crc = w_u32 (crc32c (len @ p @ w @ s))"
    and tail: "record_tail ?v = p @ w @ s"
    using eq assms(2,3) by (auto simp: append_eq_append_conv)
  have "le_word crc' \<noteq> crc32c (len @ p @ w' @ s)"
  proof
    assume c: "le_word crc' = crc32c (len @ p @ w' @ s)"
    show False
    proof (cases "w' = w")
      case True
      then have "le_word crc' = (le_word crc :: u32)" using c by (simp add: crc)
      then show False using True assms(3,6,7) le_word_inj [of crc' crc, where 'a = 32] by simp
    next
      case False
      then have "crc32c (len @ p @ w' @ s) = crc32c (len @ p @ w @ s)"
        using c assms(7) by (simp add: crc)
      then show False using crc32c_burst [of w' w "len @ p" s] False assms(4,5) by simp
    qed
  qed
  from parse_record_bad_crc [OF fits _ this [unfolded len], of rest] show ?thesis
    using assms(4,6) by (simp add: tail len le_word_32)
qed

text \<open>
  C33: the parser of segment file names accepts exactly the names the writer gives to segments,
  and answers the LSN the segment was named after.
\<close>
theorem segment_names_inverse:
  "parse_segment_file_name name = Some lsn \<longleftrightarrow> name = segment_file_name lsn"
  by (rule parse_segment_file_name_iff)

theorem log_record_round_trip_witness:
  "\<exists>r. append_record (str ''log'') 7 1 (str ''job'') = Some (str ''log'' @ r) \<and>
    parse_record r = \<lparr>rp_status = RP_Ok, rp_record = \<lparr>lv_lsn = 7, lv_type = 1, lv_payload = str ''job''\<rparr>, rp_size = length r\<rparr>"
proof -
  have "length (str ''job'') \<le> kMaxRecordPayload" by (simp add: kMaxRecordPayload_eq)
  from log_record_round_trip [of 7 "str ''job''" "str ''log''" 1, OF _ this]
  obtain r where "append_record (str ''log'') 7 1 (str ''job'') = Some (str ''log'' @ r)"
    and p: "\<And>rest. parse_record (r @ rest) =
       \<lparr>rp_status = RP_Ok, rp_record = \<lparr>lv_lsn = 7, lv_type = 1, lv_payload = str ''job''\<rparr>, rp_size = length r\<rparr>"
    by auto
  with p [of "[]"] show ?thesis by (intro exI [of _ r]) simp
qed

theorem log_record_damage_detected_witness:
  "\<exists>len crc. append_record [] 7 1 (str ''job'') = Some (len @ crc @ w_u8 1 @ w_u64 7 @ str ''job'') \<and>
     length len = 4 \<and> length crc = 4 \<and>
     rp_status (parse_record (len @ crc @ w_u8 1 @ w_u64 7 @ str ''jab'')) = RP_BadCrc"
proof -
  let ?v = "\<lparr>lv_lsn = 7, lv_type = 1, lv_payload = str ''job''\<rparr>"
  let ?len = "length_field ?v" and ?crc = "w_u32 (crc32c (length_field ?v @ record_tail ?v))"
  have a: "append_record [] 7 1 (str ''job'') = Some (?len @ ?crc @ w_u8 1 @ w_u64 7 @ str ''job'')"
    by (simp add: append_record_eq kMaxRecordPayload_eq record_bytes_def record_tail_def)
  then have a': "append_record [] 7 1 (str ''job'') = Some ([] @ ?len @ ?crc @ (w_u8 1 @ w_u64 7) @ str ''job'' @ [])"
    by simp
  have "str ''jab'' \<noteq> str ''job''" by (simp add: str_def)
  then have "rp_status (parse_record (?len @ ?crc @ (w_u8 1 @ w_u64 7) @ str ''jab'' @ [] @ [])) = RP_BadCrc"
    by (intro log_record_damage_detected [OF a']) simp_all
  then show ?thesis using a by (intro exI [of _ ?len] exI [of _ ?crc]) simp
qed

end
