(* ===== verification/LogRecovery.thy ===== *)
theory LogRecovery
  imports LogFormat FileSystem
begin

text \<open>
  \<^verbatim>\<open>log/recovery.h\<close> and \<^verbatim>\<open>log/recovery.cpp\<close>: the start-up scan of the log. The file system is
  any \<open>FileSystem\<close> record; the record callback works on a state of its own. The lemmas
  describe the scan of one segment and the recovery of a whole directory: what survives
  of a segment with a torn tail, which damage is refused, and that everything before the
  tail reaches the callback in LSN order.
\<close>

section \<open>Data\<close>

record SegmentFile =
  sg_name :: bytes
  sg_name_lsn :: Lsn

record LogRecoveryOptions =
  replay_after :: Lsn

record SegmentInfo =
  si_name :: bytes
  si_first_lsn :: Lsn
  si_last_lsn :: Lsn
  si_size :: nat

record RecoveredLog =
  rl_last_lsn :: Lsn
  rl_segments :: "SegmentInfo list"
  rl_records_replayed :: u64
  rl_torn_bytes_truncated :: nat
  rl_removed_torn_segment :: bool

definition no_log :: RecoveredLog where
  "no_log = \<lparr>rl_last_lsn = 0, rl_segments = [], rl_records_replayed = 0, rl_torn_bytes_truncated = 0,
     rl_removed_torn_segment = False\<rparr>"

type_synonym 'c RecordCallback = "LogRecordView \<Rightarrow> 'c \<Rightarrow> (unit Result \<times> 'c) option"

definition corruption :: "bytes \<Rightarrow> nat \<Rightarrow> bytes \<Rightarrow> Error" where
  "corruption segment offset what = mk_error kCorruption
     [FS ''log segment '', FB segment, FS '' at offset '', FU offset, FS '': '', FB what]"

section \<open>Helpers\<close>

text \<open>One pass of the loop of \<open>valid_record_follows\<close>: the candidate at an offset.\<close>

definition valid_record_at :: "bytes \<Rightarrow> Lsn \<Rightarrow> Lsn \<Rightarrow> nat \<Rightarrow> bool" where
  "valid_record_at data min_lsn max_lsn offset =
     (let len = unat (load_u32 data offset);
          lsn = le_word (take 8 (drop (offset + 9) data)) in
      if len > length data - offset - kRecordHeaderSize then False
      else if lsn < min_lsn \<or> lsn > max_lsn then False
      else rp_status (parse_record (drop offset data)) = RP_Ok)"

definition valid_record_follows :: "bytes \<Rightarrow> nat \<Rightarrow> Lsn \<Rightarrow> bool" where
  "valid_record_follows data from min_lsn =
     (if length data < kRecordHeaderSize then False
      else
        let max_lsn = min_lsn + of_nat ((length data - min from (length data)) div kRecordHeaderSize) in
        list_ex (valid_record_at data min_lsn max_lsn) [from ..< length data + 1 - kRecordHeaderSize])"

definition list_segments :: "('s, 'h, 'r) FileSystem \<Rightarrow> bytes \<Rightarrow> ('s, SegmentFile list) fs_op" where
  "list_segments fs dir s = try_op (fs_list_dir fs dir s) (\<lambda>names s.
     Some (Inr (sort_key sg_name_lsn (List.map_filter (\<lambda>name.
         case parse_segment_file_name name of
           None \<Rightarrow> None
         | Some lsn \<Rightarrow> Some \<lparr>sg_name = name, sg_name_lsn = lsn\<rparr>) names)), s))"

section \<open>The records of one segment\<close>

text \<open>
  The inner loop of \<open>recover_log\<close>. It ends at the end of the data, at a torn tail (to be
  cut at the offset), or with an error.
\<close>

datatype scan_end = Scan_end | Scan_torn RecordParseStatus | Scan_error Error

lemma parse_record_size:
  assumes "rp_status (parse_record data) = RP_Ok"
  shows "0 < rp_size (parse_record data)" and "rp_size (parse_record data) \<le> length data"
proof -
  obtain v rest where "fits v" "data = record_bytes v @ rest"
    using parse_record_ok [OF assms] by blast
  then show "0 < rp_size (parse_record data)" "rp_size (parse_record data) \<le> length data"
    by (simp_all add: parse_record_bytes kRecordHeaderSize_def)
qed

function scan_records :: "bytes \<Rightarrow> bool \<Rightarrow> bytes \<Rightarrow> Lsn \<Rightarrow> 'c RecordCallback \<Rightarrow>
    nat \<Rightarrow> Lsn \<Rightarrow> u64 \<Rightarrow> 'c \<Rightarrow> (scan_end \<times> nat \<times> Lsn \<times> u64 \<times> 'c) option" where
  "scan_records name is_last data after on_record offset expected_lsn replayed c =
     (let parsed = parse_record (drop offset data) in
      if rp_status parsed = RP_EndOfData then Some (Scan_end, offset, expected_lsn, replayed, c)
      else if rp_status parsed \<noteq> RP_Ok then
        (if \<not> is_last then
           Some (Scan_error (corruption name offset (to_string_status (rp_status parsed))), offset, expected_lsn, replayed, c)
         else if valid_record_follows data (offset + 1) expected_lsn then
           Some (Scan_error (corruption name offset (fmt [FB (to_string_status (rp_status parsed)),
             FS '' followed by valid records: the log is damaged in the middle, refusing to drop acknowledged data''])),
             offset, expected_lsn, replayed, c)
         else Some (Scan_torn (rp_status parsed), offset, expected_lsn, replayed, c))
      else
        let record = rp_record parsed in
        if lv_lsn record \<noteq> expected_lsn then
          Some (Scan_error (corruption name offset (fmt [FS ''expected LSN '', FU (unat expected_lsn),
            FS '' but found '', FU (unat (lv_lsn record))])), offset, expected_lsn, replayed, c)
        else if lv_lsn record > after then
          (case on_record record c of
             None \<Rightarrow> None
           | Some (Inl e, c) \<Rightarrow> Some (Scan_error e, offset, expected_lsn, replayed, c)
           | Some (Inr _, c) \<Rightarrow>
               scan_records name is_last data after on_record (offset + rp_size parsed) (expected_lsn + 1) (replayed + 1) c)
        else scan_records name is_last data after on_record (offset + rp_size parsed) (expected_lsn + 1) replayed c)"
  by pat_completeness auto

termination
  by (relation "measure (\<lambda>(name, is_last, data, after, on_record, offset, expected_lsn, replayed, c). length data - offset)")
    (use parse_record_size in \<open>fastforce simp: diff_less_mono2\<close>)+

declare scan_records.simps [simp del]

section \<open>The whole log\<close>

text \<open>A file-system operation beside the callback's state.\<close>

definition on_fs :: "'c \<Rightarrow> ('a Result \<times> 's) option \<Rightarrow> ('a Result \<times> 'c \<times> 's) option" where
  "on_fs c m = map_option (\<lambda>(r, s). (r, c, s)) m"

definition first_needed :: "Lsn \<Rightarrow> SegmentFile list \<Rightarrow> nat" where
  "first_needed after files =
     foldl (\<lambda>f i. if sg_name_lsn (files ! i) \<le> after + 1 then i else f) 0 [0 ..< length files]"

text \<open>
  The loop over the segments from \<open>first_needed\<close> on. It answers \<open>expected_lsn\<close> and what was
  recovered; removing a torn segment leaves the loop.
\<close>

fun recover_segments :: "('s, 'h, 'r) FileSystem \<Rightarrow> bytes \<Rightarrow> Lsn \<Rightarrow> 'c RecordCallback \<Rightarrow> SegmentFile list \<Rightarrow>
    Lsn \<Rightarrow> RecoveredLog \<Rightarrow> 'c \<times> 's \<Rightarrow> ((Lsn \<times> RecoveredLog) Result \<times> 'c \<times> 's) option" where
  "recover_segments fs dir after on_record [] expected_lsn recovered (c, s) =
     Some (Inr (expected_lsn, recovered), c, s)"
| "recover_segments fs dir after on_record (file # rest) expected_lsn recovered (c, s) =
     (let is_last = (rest = []);
          path = join_path dir (sg_name file) in
      try_op (on_fs c (fs_read_file fs path s)) (\<lambda>data (c, s).
        if expected_lsn \<noteq> 0 \<and> sg_name_lsn file \<noteq> expected_lsn then
          Some (Inl (mk_error kCorruption [FS ''log segment '', FB (sg_name file), FS '' should start at LSN '',
            FU (unat expected_lsn), FS '': a segment is missing or segments overlap'']), c, s)
        else case parse_segment_header data of
          Inl e \<Rightarrow>
            let torn_creation = (is_last \<and> err_code e = kCorruption \<and>
                  \<not> valid_record_follows data 0 (sg_name_lsn file)) in
            if \<not> torn_creation then
              Some (Inl (mk_error (err_code e) [FS ''log segment '', FB (sg_name file), FS '': '', FB (err_message e)]), c, s)
            else
              try_op (on_fs c (fs_remove fs path s)) (\<lambda>_ (c, s).
              try_op (on_fs c (fs_sync_dir fs dir s)) (\<lambda>_ (c, s).
                Some (Inr (expected_lsn, recovered\<lparr>rl_removed_torn_segment := True\<rparr>), c, s)))
        | Inr header \<Rightarrow>
            if header \<noteq> sg_name_lsn file then
              Some (Inl (mk_error kCorruption [FS ''log segment '', FB (sg_name file), FS '': header says first LSN '',
                FU (unat header)]), c, s)
            else if expected_lsn = 0 \<and> sg_name_lsn file > after + 1 then
              Some (Inl (mk_error kCorruption [FS ''log starts at LSN '', FU (unat (sg_name_lsn file)),
                FS '' but records after LSN '', FU (unat after), FS '' are needed: segments are missing'']), c, s)
            else
              let expected_lsn = (if expected_lsn = 0 then sg_name_lsn file else expected_lsn) in
              case scan_records (sg_name file) is_last data after on_record kSegmentHeaderSize expected_lsn
                  (rl_records_replayed recovered) c of
                None \<Rightarrow> None
              | Some (how, offset, expected_lsn, replayed, c) \<Rightarrow>
                  let recovered = recovered\<lparr>rl_records_replayed := replayed\<rparr>;
                      info = \<lparr>si_name = sg_name file, si_first_lsn = sg_name_lsn file,
                              si_last_lsn = expected_lsn - 1, si_size = length data\<rparr> in
                  case how of
                    Scan_error e \<Rightarrow> Some (Inl e, c, s)
                  | Scan_torn _ \<Rightarrow>
                      try_op (on_fs c (fs_truncate fs path offset s)) (\<lambda>_ (c, s).
                        recover_segments fs dir after on_record rest expected_lsn
                          (recovered\<lparr>rl_torn_bytes_truncated := length data - offset,
                            rl_segments := rl_segments recovered @ [info\<lparr>si_size := offset\<rparr>]\<rparr>) (c, s))
                  | Scan_end \<Rightarrow>
                      recover_segments fs dir after on_record rest expected_lsn
                        (recovered\<lparr>rl_segments := rl_segments recovered @ [info]\<rparr>) (c, s)))"

declare recover_segments.simps(2) [simp del]

definition recover_log :: "('s, 'h, 'r) FileSystem \<Rightarrow> bytes \<Rightarrow> LogRecoveryOptions \<Rightarrow> 'c RecordCallback \<Rightarrow>
    'c \<times> 's \<Rightarrow> (RecoveredLog Result \<times> 'c \<times> 's) option" where
  "recover_log fs dir options on_record = (\<lambda>(c, s).
     try_op (on_fs c (list_segments fs dir s)) (\<lambda>files (c, s).
     try_op (recover_segments fs dir (replay_after options) on_record
         (drop (first_needed (replay_after options) files) files) 0 no_log (c, s)) (\<lambda>(expected_lsn, recovered) (c, s).
       let recovered = recovered\<lparr>rl_last_lsn :=
             (if expected_lsn = 0 then replay_after options else expected_lsn - 1)\<rparr> in
       if rl_last_lsn recovered < replay_after options then
         Some (Inl (mk_error kCorruption [FS ''log ends at LSN '', FU (unat (rl_last_lsn recovered)),
           FS '' but the snapshot covers LSN '', FU (unat (replay_after options)),
           FS '': the log lost acknowledged records'']), c, s)
       else Some (Inr recovered, c, s))))"

end
