(* ===== verification/LogScan.thy ===== *)
theory LogScan
  imports LogRecovery
begin

text \<open>
  What the start-up scan of \<open>LogRecovery\<close> does. A log is described by its segments, each a
  first LSN and the records in it; \<open>deliver\<close> is the callback run over a list of records. The
  scan of a segment that holds records and then a tail hands over exactly those records
  and stops at the tail; recovery of a directory chains the segments together.
\<close>

section \<open>Records in a row\<close>

fun deliver :: "'c RecordCallback \<Rightarrow> LogRecordView list \<Rightarrow> 'c \<Rightarrow> (unit Result \<times> 'c) option" where
  "deliver on_record [] c = Some (Inr (), c)"
| "deliver on_record (r # rs) c = (case on_record r c of
       None \<Rightarrow> None
     | Some (Inl e, c) \<Rightarrow> Some (Inl e, c)
     | Some (Inr _, c) \<Rightarrow> deliver on_record rs c)"

definition records_bytes :: "LogRecordView list \<Rightarrow> bytes" where
  "records_bytes rs = concat (map record_bytes rs)"

fun numbered :: "Lsn \<Rightarrow> LogRecordView list \<Rightarrow> bool" where
  "numbered l [] = True"
| "numbered l (r # rs) = (lv_lsn r = l \<and> fits r \<and> numbered (l + 1) rs)"

lemma records_bytes_simps [simp]:
  "records_bytes [] = []" "records_bytes (r # rs) = record_bytes r @ records_bytes rs"
  "records_bytes (rs @ rs') = records_bytes rs @ records_bytes rs'"
  by (simp_all add: records_bytes_def)

lemma numbered_append [simp]: "numbered l (rs @ rs') \<longleftrightarrow> numbered l rs \<and> numbered (l + of_nat (length rs)) rs'"
  by (induction rs arbitrary: l) (auto simp: algebra_simps)

lemma numbered_nth: "numbered l rs \<Longrightarrow> i < length rs \<Longrightarrow> lv_lsn (rs ! i) = l + of_nat i"
  by (induction rs arbitrary: l i) (auto simp: nth_Cons algebra_simps split: nat.split)

lemma deliver_append:
  "deliver on_record (rs @ rs') c = (case deliver on_record rs c of
       None \<Rightarrow> None
     | Some (Inl e, c) \<Rightarrow> Some (Inl e, c)
     | Some (Inr _, c) \<Rightarrow> deliver on_record rs' c)"
  by (induction rs arbitrary: c) (auto split: option.split sum.split)

lemma deliver_Cons_ok:
  "deliver on_record (r # rs) c = Some (Inr u, c') \<longleftrightarrow>
     (\<exists>c1. on_record r c = Some (Inr (), c1) \<and> deliver on_record rs c1 = Some (Inr u, c'))"
  by (auto split: option.splits sum.splits)

text \<open>The records a snapshot up to \<open>after\<close> does not cover.\<close>

abbreviation newer :: "Lsn \<Rightarrow> LogRecordView list \<Rightarrow> LogRecordView list" where
  "newer after rs \<equiv> filter (\<lambda>r. lv_lsn r > after) rs"

section \<open>The scan of a segment\<close>

lemma scan_records_run:
  assumes "numbered l rs" and "deliver on_record (newer after rs) c = Some (Inr (), c')"
  shows "scan_records name is_last (pre @ records_bytes rs @ tail) after on_record (length pre) l n c =
    scan_records name is_last (pre @ records_bytes rs @ tail) after on_record
      (length (pre @ records_bytes rs)) (l + of_nat (length rs)) (n + of_nat (length (newer after rs))) c'"
  using assms
proof (induction rs arbitrary: l n c pre)
  case (Cons r rs)
  let ?d = "pre @ records_bytes (r # rs) @ tail"
  have r: "fits r" "lv_lsn r = l" and rs: "numbered (l + 1) rs" using Cons.prems(1) by auto
  have parsed: "parse_record (drop (length pre) ?d) =
      \<lparr>rp_status = RP_Ok, rp_record = r, rp_size = length (record_bytes r)\<rparr>"
    using r by (simp add: parse_record_bytes)
  have IH: "scan_records name is_last ?d after on_record (length pre + length (record_bytes r)) (l + 1) k c1 =
      scan_records name is_last ?d after on_record (length (pre @ records_bytes (r # rs)))
        (l + of_nat (length (r # rs))) (k + of_nat (length (newer after rs))) c'"
    if "deliver on_record (newer after rs) c1 = Some (Inr (), c')" for c1 k
    using Cons.IH [OF rs that, of "pre @ record_bytes r" k] by (simp add: algebra_simps)
  show ?case
  proof (cases "l > after")
    case True
    then obtain c1 where c1: "on_record r c = Some (Inr (), c1)"
      "deliver on_record (newer after rs) c1 = Some (Inr (), c')"
      using Cons.prems(2) r by (auto split: option.splits sum.splits)
    have "scan_records name is_last ?d after on_record (length pre) l n c =
        scan_records name is_last ?d after on_record (length pre + length (record_bytes r)) (l + 1) (n + 1) c1"
      by (subst scan_records.simps) (simp only: parsed Let_def, simp add: r True c1)
    also note IH [OF c1(2)]
    finally show ?thesis using True r by (simp add: algebra_simps)
  next
    case False
    then have d: "deliver on_record (newer after rs) c = Some (Inr (), c')" using Cons.prems(2) r by simp
    show ?thesis
      by (subst scan_records.simps) (simp only: parsed Let_def, simp add: r False d IH [simplified])
  qed
qed simp

lemma scan_records_clean:
  "scan_records name is_last data after on_record (length data) l n c = Some (Scan_end, length data, l, n, c)"
  by (subst scan_records.simps) (simp add: parse_record_def no_record_def)

lemma scan_records_torn:
  assumes "rp_status (parse_record tail) \<noteq> RP_Ok" and "tail \<noteq> []"
  shows "scan_records name True (pre @ tail) after on_record (length pre) l n c =
    Some (if valid_record_follows (pre @ tail) (length pre + 1) l then
        Scan_error (corruption name (length pre) (fmt [FB (to_string_status (rp_status (parse_record tail))),
          FS '' followed by valid records: the log is damaged in the middle, refusing to drop acknowledged data'']))
      else Scan_torn (rp_status (parse_record tail)), length pre, l, n, c)"
proof -
  have "rp_status (parse_record tail) \<noteq> RP_EndOfData"
    using assms(2) by (auto simp: parse_record_def no_record_def Let_def split: prod.split)
  then show ?thesis
    using assms by (subst scan_records.simps) (simp add: Let_def)
qed

section \<open>The records a tail begins with\<close>

text \<open>
  Bytes behind the known records may begin with further records that continue the
  numbering: \<open>split_tail\<close> takes these off.
\<close>

function split_tail :: "Lsn \<Rightarrow> bytes \<Rightarrow> LogRecordView list \<times> bytes" where
  "split_tail l tail =
     (let parsed = parse_record tail in
      if rp_status parsed = RP_Ok \<and> lv_lsn (rp_record parsed) = l then
        let (rs, rest) = split_tail (l + 1) (drop (rp_size parsed) tail) in (rp_record parsed # rs, rest)
      else ([], tail))"
  by pat_completeness auto
termination
  by (relation "measure (\<lambda>(l, tail). length tail)") (use parse_record_size in \<open>fastforce simp: diff_less_mono2\<close>)+

declare split_tail.simps [simp del]

definition continues :: "Lsn \<Rightarrow> bytes \<Rightarrow> bool" where
  "continues l tail \<longleftrightarrow> rp_status (parse_record tail) = RP_Ok \<and> lv_lsn (rp_record (parse_record tail)) = l"

lemma split_tail_correct:
  "split_tail l tail = (rs, rest) \<Longrightarrow>
     tail = records_bytes rs @ rest \<and> numbered l rs \<and> \<not> continues (l + of_nat (length rs)) rest"
proof (induction l tail arbitrary: rs rest rule: split_tail.induct)
  case (1 l tail)
  show ?case
  proof (cases "continues l tail")
    case True
    then obtain v more where v: "fits v" "tail = record_bytes v @ more"
      using parse_record_ok [of tail] by (auto simp: continues_def)
    then have p: "parse_record tail = \<lparr>rp_status = RP_Ok, rp_record = v, rp_size = length (record_bytes v)\<rparr>"
      by (simp add: parse_record_bytes)
    then have l: "lv_lsn v = l" using True by (simp add: continues_def)
    have more: "drop (rp_size (parse_record tail)) tail = more" by (simp add: p) (simp add: v)
    have "split_tail l tail = (let (rs, rest) = split_tail (l + 1) more in (v # rs, rest))"
      by (subst split_tail.simps) (simp only: more Let_def, simp add: p l)
    with "1.prems" obtain rs' where st: "split_tail (l + 1) more = (rs', rest)" and rs: "rs = v # rs'"
      by (cases "split_tail (l + 1) more") auto
    have "rp_status (parse_record tail) = RP_Ok \<and> lv_lsn (rp_record (parse_record tail)) = l" by (simp add: p l)
    from 1(1) [OF refl this, of rs' rest, unfolded more, OF st]
    show ?thesis by (simp add: l rs v algebra_simps)
  next
    case False
    then have "split_tail l tail = ([], tail)"
      by (subst split_tail.simps) (auto simp: continues_def Let_def)
    with "1.prems" False show ?thesis by simp
  qed
qed

section \<open>Segments in a row\<close>

type_synonym segment = "Lsn \<times> LogRecordView list"

definition seg_bytes :: "segment \<Rightarrow> bytes" where
  "seg_bytes seg = header_bytes (fst seg) @ records_bytes (snd seg)"

definition seg_file :: "Lsn \<Rightarrow> SegmentFile" where
  "seg_file l = \<lparr>sg_name = segment_file_name l, sg_name_lsn = l\<rparr>"

abbreviation all_records :: "segment list \<Rightarrow> LogRecordView list" where
  "all_records segs \<equiv> concat (map snd segs)"

fun chain :: "Lsn \<Rightarrow> segment list \<Rightarrow> bool" where
  "chain l [] = True"
| "chain l (seg # segs) = (fst seg = l \<and> numbered l (snd seg) \<and> (snd seg = [] \<longrightarrow> segs = []) \<and>
     chain (l + of_nat (length (snd seg))) segs)"

text \<open>The LSNs of a log do not reach the end of their range.\<close>

definition lsn_room :: "Lsn \<Rightarrow> nat \<Rightarrow> bool" where
  "lsn_room l n \<longleftrightarrow> l \<noteq> 0 \<and> unat l + n < 2 ^ 64"

text \<open>What recovery notes of a segment it has read.\<close>

definition note_segment :: "Lsn \<Rightarrow> segment \<Rightarrow> RecoveredLog \<Rightarrow> RecoveredLog" where
  "note_segment after seg R = R\<lparr>rl_records_replayed := rl_records_replayed R + of_nat (length (newer after (snd seg))),
     rl_segments := rl_segments R @ [\<lparr>si_name = segment_file_name (fst seg), si_first_lsn = fst seg,
       si_last_lsn = fst seg + of_nat (length (snd seg)) - 1, si_size = length (seg_bytes seg)\<rparr>]\<rparr>"

lemma unat_plus_nat: "unat l + n < 2 ^ 64 \<Longrightarrow> unat (l + of_nat n :: u64) = unat l + n"
  by (simp add: unat_word_ariths unat_of_nat)

lemma plain_segment_name: "plain_name (segment_file_name l)"
proof -
  have "\<not> is_digit 47" by (simp add: is_digit_def)
  then have "47 \<notin> set (dec_padded 20 (unat l))" using dec_padded_digits by blast
  then show ?thesis
    by (simp add: plain_name_def segment_file_name_def kSegmentPrefix_def kSegmentSuffix_def str_def)
qed

lemma on_fs_simps [simp]: "on_fs c None = None" "on_fs c (Some (r, s)) = Some (r, c, s)"
  by (simp_all add: on_fs_def)

lemma length_seg_bytes: "length (seg_bytes seg) = kSegmentHeaderSize + length (records_bytes (snd seg))"
  by (simp add: seg_bytes_def)

lemma chain_numbered: "chain l segs \<Longrightarrow> numbered l (all_records segs)"
  by (induction segs arbitrary: l) auto

lemma chain_drop: "chain l segs \<Longrightarrow> chain (l + of_nat (length (all_records (take k segs)))) (drop k segs)"
proof (induction k arbitrary: l segs)
  case (Suc k)
  then show ?case
    by (cases segs) (use Suc.IH in \<open>auto simp: add.assoc [symmetric]\<close>)
qed simp

lemma chain_hd: "chain l segs \<Longrightarrow> segs \<noteq> [] \<Longrightarrow> fst (hd segs) = l"
  by (cases segs) auto

lemma chain_take: "chain l segs \<Longrightarrow> chain l (take k segs)"
proof (induction k arbitrary: l segs)
  case (Suc k)
  then show ?case by (cases segs) auto
qed simp

lemma lsn_room_plus: "lsn_room l (n + k) \<Longrightarrow> lsn_room (l + of_nat n) k \<and> unat (l + of_nat n) = unat l + n"
  using unat_plus_nat [of l n] by (auto simp: lsn_room_def unat_eq_zero [symmetric] simp del: unat_eq_zero)

lemma chain_sorted:
  "chain l segs \<Longrightarrow> lsn_room l (length (all_records segs)) \<Longrightarrow>
     sorted_wrt (<) (map fst segs) \<and> (\<forall>seg \<in> set segs. l \<le> fst seg)"
proof (induction segs arbitrary: l)
  case (Cons seg segs)
  let ?l = "l + of_nat (length (snd seg))"
  have room: "lsn_room ?l (length (all_records segs)) \<and> unat ?l = unat l + length (snd seg)"
    using Cons.prems(2) by (intro lsn_room_plus) simp
  then have IH: "sorted_wrt (<) (map fst segs)" "\<forall>seg \<in> set segs. ?l \<le> fst seg"
    using Cons.IH [of ?l] Cons.prems(1) by auto
  have "l < fst seg' \<and> l \<le> fst seg'" if "seg' \<in> set segs" for seg'
  proof -
    have "snd seg \<noteq> []" using Cons.prems(1) that by auto
    then have "l < ?l" using room by (simp add: word_less_nat_alt)
    then show ?thesis using IH(2) that by (meson less_imp_le less_le_trans)
  qed
  then show ?case using IH(1) Cons.prems(1) by auto
qed simp

lemma first_needed_covers:
  assumes "files \<noteq> []" and "sg_name_lsn (hd files) \<le> after + 1"
  shows "first_needed after files < length files \<and> sg_name_lsn (files ! first_needed after files) \<le> after + 1"
proof -
  let ?f = "\<lambda>n. foldl (\<lambda>f i. if sg_name_lsn (files ! i) \<le> after + 1 then i else f) 0 [0 ..< n]"
  have "?f n < length files \<and> sg_name_lsn (files ! ?f n) \<le> after + 1" if "n \<le> length files" for n
    using that by (induction n) (use assms in \<open>auto simp: hd_conv_nth\<close>)
  then show ?thesis by (simp add: first_needed_def)
qed

text \<open>The records before the first segment needed are older than what is asked for.\<close>

lemma newer_old_segments:
  assumes "chain l segs" and "lsn_room l (length (all_records segs))" and "k < length segs"
    and "fst (segs ! k) \<le> after + 1" and "after + 1 \<noteq> 0"
  shows "newer after (all_records (take k segs)) = []"
proof -
  let ?old = "all_records (take k segs)"
  have "lsn_room l (length ?old + length (all_records (drop k segs)))"
    using assms(2) by (metis append_take_drop_id concat_append length_append map_append)
  then have u: "unat (l + of_nat (length ?old)) = unat l + length ?old" and room: "unat l + length ?old < 2 ^ 64"
    using lsn_room_plus by (auto simp: lsn_room_def)
  have "fst (segs ! k) = l + of_nat (length ?old)"
    using chain_hd [OF chain_drop [OF assms(1), of k]] assms(3) by (simp add: hd_drop_conv_nth)
  moreover have "unat (after + 1) = unat after + 1"
    using unatSuc [of after] assms(5) by (simp add: add.commute)
  ultimately have le: "unat l + length ?old \<le> unat after + 1"
    using assms(4) u by (simp add: word_le_nat_alt)
  have "lv_lsn r \<le> after" if old: "r \<in> set ?old" for r
  proof -
    obtain i where i: "i < length ?old" "?old ! i = r" using old unfolding in_set_conv_nth by blast
    have "lv_lsn (?old ! i) = l + of_nat i"
      using i(1) by (rule numbered_nth [OF chain_numbered [OF chain_take [OF assms(1)]]])
    then have "unat (lv_lsn r) = unat l + i" using i(1) room unfolding i(2) by (simp add: unat_plus_nat)
    then show ?thesis using i(1) le by (simp add: word_le_nat_alt)
  qed
  then show ?thesis by (auto simp: filter_empty_conv not_less)
qed

text \<open>The part of a log that recovery reads: from the first segment needed to the last.\<close>

lemma needed_segments:
  assumes "chain l segs" and "segs \<noteq> []" and "lsn_room l (length (all_records segs))" and "l \<le> after + 1"
    and "last segs = (l', rs)"
  obtains init lk where "drop (first_needed after (map (seg_file \<circ> fst) segs)) segs = init @ [(l', rs)]"
    and "set init \<subseteq> set (butlast segs)" and "chain lk (init @ [(l', rs)])"
    and "lsn_room lk (length (all_records init) + length rs)" and "lk \<le> after + 1"
    and "newer after (all_records segs) = newer after (all_records init @ rs)"
    and "l' + of_nat (length rs) = l + of_nat (length (all_records segs))"
proof
  let ?files = "map (seg_file \<circ> fst) segs"
  let ?k = "first_needed after ?files"
  let ?init = "butlast (drop ?k segs)" and ?lk = "l + of_nat (length (all_records (take ?k segs)))"
  have k: "?k < length segs" "fst (segs ! ?k) \<le> after + 1"
    using first_needed_covers [of ?files after] assms(2,4) chain_hd [OF assms(1,2)]
    by (auto simp: hd_map seg_file_def)
  show dk: "drop ?k segs = ?init @ [(l', rs)]"
    using k(1) assms(5) append_butlast_last_id [of "drop ?k segs"] by (simp add: last_drop)
  have "all_records (take ?k segs @ drop ?k segs) = all_records (take ?k segs) @ all_records ?init @ rs"
    by (subst dk) simp
  then have split: "all_records segs = all_records (take ?k segs) @ all_records ?init @ rs" by simp
  show "set ?init \<subseteq> set (butlast segs)" by (auto simp: butlast_drop dest: in_set_dropD)
  have "chain ?lk (drop ?k segs)" by (rule chain_drop [OF assms(1)])
  then show chk: "chain ?lk (?init @ [(l', rs)])" by (simp only: dk [symmetric])
  show "?lk \<le> after + 1"
    using chain_hd [OF chain_drop [OF assms(1), of ?k]] k by (simp add: hd_drop_conv_nth)
  show "lsn_room ?lk (length (all_records ?init) + length rs)"
    using lsn_room_plus [of l "length (all_records (take ?k segs))"] assms(3) by (simp only: split length_append)
  have "after + 1 \<noteq> 0" using assms(3,4) by (auto simp: lsn_room_def)
  from newer_old_segments [OF assms(1,3) k this]
  show "newer after (all_records segs) = newer after (all_records ?init @ rs)"
    by (simp only: split filter_append append_Nil)
  have "l' = ?lk + of_nat (length (all_records ?init))"
    using chain_drop [OF chk, of "length ?init"] by simp
  then show "l' + of_nat (length rs) = l + of_nat (length (all_records segs))"
    by (simp only: split length_append of_nat_add add.assoc)
qed

lemma note_segments:
  "rl_records_replayed (fold (note_segment after) segs R) =
     rl_records_replayed R + of_nat (length (newer after (all_records segs)))"
  "map si_name (rl_segments (fold (note_segment after) segs R)) =
     map si_name (rl_segments R) @ map (segment_file_name \<circ> fst) segs"
  "rl_torn_bytes_truncated (fold (note_segment after) segs R) = rl_torn_bytes_truncated R"
  "rl_removed_torn_segment (fold (note_segment after) segs R) = rl_removed_torn_segment R"
  by (induction segs arbitrary: R) (auto simp: note_segment_def)

text \<open>What a log directory holds: the segments, and a tail behind the last one.\<close>

definition log_dir :: "(bytes \<rightharpoonup> bytes) \<Rightarrow> Lsn \<Rightarrow> segment list \<Rightarrow> bytes \<Rightarrow> bool" where
  "log_dir m l segs tail \<longleftrightarrow> chain l segs \<and> segs \<noteq> [] \<and> lsn_room l (length (all_records segs)) \<and>
     (\<forall>l'. segment_file_name l' \<in> dom m \<longleftrightarrow> l' \<in> fst ` set segs) \<and>
     (\<forall>seg \<in> set (butlast segs). m (segment_file_name (fst seg)) = Some (seg_bytes seg)) \<and>
     m (segment_file_name (fst (last segs))) = Some (seg_bytes (last segs) @ tail) \<and>
     \<not> continues (l + of_nat (length (all_records segs))) tail"

lemma in_map_filter: "x \<in> set (List.map_filter f xs) \<longleftrightarrow> (\<exists>y \<in> set xs. f y = Some x)"
  by (induction xs) (auto simp: List.map_filter_def)

lemma distinct_map_filter:
  assumes "distinct xs" and "\<And>x y a b. f x = Some a \<Longrightarrow> f y = Some b \<Longrightarrow> g a = g b \<Longrightarrow> x = y"
  shows "distinct (map g (List.map_filter f xs))"
  using assms(1)
proof (induction xs)
  case (Cons x xs)
  have "g a \<notin> g ` set (List.map_filter f xs)" if "f x = Some a" for a
    using Cons.prems assms(2) [OF that] by (auto simp: in_map_filter)
  then show ?case
    using Cons by (cases "f x") (auto simp: List.map_filter_def)
qed (simp add: List.map_filter_def)

context file_store
begin

lemma recover_read:
  assumes "working s" and "entries s dir = Some m" and "plain_dir dir"
    and "m (segment_file_name l) = Some (seg_bytes (l, rs) @ tail)" and "l \<noteq> 0"
    and "expected = l \<or> expected = 0 \<and> l \<le> after + 1"
    and "scan_records (segment_file_name l) (rest = []) (seg_bytes (l, rs) @ tail) after on_record kSegmentHeaderSize l
      (rl_records_replayed R) c = Some (how, offset, l', n', c')"
  shows "recover_segments fs dir after on_record (seg_file l # rest) expected R (c, s) =
    (let info = \<lparr>si_name = segment_file_name l, si_first_lsn = l, si_last_lsn = l' - 1,
           si_size = length (seg_bytes (l, rs) @ tail)\<rparr>;
         R = R\<lparr>rl_records_replayed := n'\<rparr> in
     case how of
       Scan_error e \<Rightarrow> Some (Inl e, c', s)
     | Scan_torn _ \<Rightarrow> try_op (on_fs c' (fs_truncate fs (join_path dir (segment_file_name l)) offset s)) (\<lambda>_ (c, s).
         recover_segments fs dir after on_record rest l' (R\<lparr>rl_torn_bytes_truncated := length (seg_bytes (l, rs) @ tail) - offset,
           rl_segments := rl_segments R @ [info\<lparr>si_size := offset\<rparr>]\<rparr>) (c, s))
     | Scan_end \<Rightarrow> recover_segments fs dir after on_record rest l' (R\<lparr>rl_segments := rl_segments R @ [info]\<rparr>) (c', s))"
proof -
  let ?d = "seg_bytes (l, rs) @ tail"
  have read: "fs_read_file fs (join_path dir (segment_file_name l)) s = Some (Inr ?d, s)"
    using read_file_ok [OF assms(1-3) plain_segment_name assms(4)] .
  have header: "parse_segment_header ?d = Inr l"
    using assms(5) by (simp add: seg_bytes_def parse_header_bytes)
  have e: "\<not> (expected \<noteq> 0 \<and> l \<noteq> expected)" "\<not> (expected = 0 \<and> after + 1 < l)" "(if expected = 0 then l else expected) = l"
    using assms(5,6) by auto
  show ?thesis
    unfolding recover_segments.simps(2) Let_def seg_file_def
    by (simp only: SegmentFile.simps read header e assms(7) on_fs_simps try_op_simps prod.case sum.case option.case
        if_False not_False_eq_True if_True simp_thms)
qed

lemma scan_segment:
  assumes "numbered l rs" and "deliver on_record (newer after rs) c = Some (Inr (), c')"
  shows "scan_records (segment_file_name l) is_last (seg_bytes (l, rs) @ tail) after on_record kSegmentHeaderSize l n c =
    scan_records (segment_file_name l) is_last (seg_bytes (l, rs) @ tail) after on_record (length (seg_bytes (l, rs)))
      (l + of_nat (length rs)) (n + of_nat (length (newer after rs))) c'"
  using scan_records_run [OF assms, of "segment_file_name l" is_last "header_bytes l" tail n]
  by (simp add: seg_bytes_def)

lemma recover_one:
  assumes "working s" and "entries s dir = Some m" and "plain_dir dir"
    and "m (segment_file_name l) = Some (seg_bytes (l, rs))" and "l \<noteq> 0"
    and "expected = l \<or> expected = 0 \<and> l \<le> after + 1"
    and "numbered l rs" and "deliver on_record (newer after rs) c = Some (Inr (), c')"
  shows "recover_segments fs dir after on_record (seg_file l # rest) expected R (c, s) =
    recover_segments fs dir after on_record rest (l + of_nat (length rs)) (note_segment after (l, rs) R) (c', s)"
proof -
  let ?d = "seg_bytes (l, rs) @ []"
  have "scan_records (segment_file_name l) (rest = []) ?d after on_record kSegmentHeaderSize l (rl_records_replayed R) c =
      Some (Scan_end, length ?d, l + of_nat (length rs), rl_records_replayed R + of_nat (length (newer after rs)), c')"
    using scan_segment [OF assms(7,8), of "rest = []" "[]"] scan_records_clean [of "segment_file_name l" "rest = []" ?d]
    by simp
  from recover_read [OF assms(1-3) _ assms(5,6) this] assms(4) show ?thesis
    by (simp add: note_segment_def)
qed

lemma recover_chain:
  assumes "working s" and "entries s dir = Some m" and "plain_dir dir"
    and "chain l segs" and "\<And>seg. seg \<in> set segs \<Longrightarrow> m (segment_file_name (fst seg)) = Some (seg_bytes seg)"
    and "lsn_room l (length (all_records segs))" and "expected = l \<or> expected = 0 \<and> l \<le> after + 1"
    and "deliver on_record (newer after (all_records segs)) c = Some (Inr (), c')"
  shows "recover_segments fs dir after on_record (map (seg_file \<circ> fst) segs @ rest) expected R (c, s) =
    recover_segments fs dir after on_record rest
      (if segs = [] then expected else l + of_nat (length (all_records segs)))
      (fold (note_segment after) segs R) (c', s)"
  using assms(4-8)
proof (induction segs arbitrary: l expected R c)
  case (Cons seg segs)
  obtain rs where seg: "seg = (l, rs)" using Cons.prems(1) by (cases seg) auto
  have room: "lsn_room l (length rs + length (all_records segs))" using Cons.prems(3) by (simp add: seg)
  then have l: "l \<noteq> 0" by (simp add: lsn_room_def)
  obtain c1 where c1: "deliver on_record (newer after rs) c = Some (Inr (), c1)"
    and c2: "deliver on_record (newer after (all_records segs)) c1 = Some (Inr (), c')"
    using Cons.prems(5) by (auto simp: seg deliver_append split: option.splits sum.splits)
  have u: "unat (l + of_nat (length rs)) = unat l + length rs"
    using room by (intro unat_plus_nat) (simp add: lsn_room_def)
  then have "lsn_room (l + of_nat (length rs)) (length (all_records segs))"
    using room l by (auto simp: lsn_room_def unat_eq_zero [symmetric] simp del: unat_eq_zero)
  note IH = Cons.IH [of "l + of_nat (length rs)" "l + of_nat (length rs)" c1, OF _ _ this _ c2]
  have "recover_segments fs dir after on_record (map (seg_file \<circ> fst) (seg # segs) @ rest) expected R (c, s) =
      recover_segments fs dir after on_record (map (seg_file \<circ> fst) segs @ rest) (l + of_nat (length rs))
        (note_segment after (l, rs) R) (c1, s)"
    using recover_one [OF assms(1-3) Cons.prems(2) [of seg, unfolded seg fst_conv] l Cons.prems(4) _ c1] Cons.prems(1)
    by (simp add: seg)
  also have "\<dots> = recover_segments fs dir after on_record rest (l + of_nat (length (all_records (seg # segs))))
      (fold (note_segment after) (seg # segs) R) (c', s)"
    using IH Cons.prems(1,2) by (auto simp: seg algebra_simps comp_def)
  finally show ?case by (simp add: comp_def)
qed simp

text \<open>The last segment, when bytes that are no further record follow its records.\<close>

definition refused_tail :: "segment \<Rightarrow> bytes \<Rightarrow> bool" where
  "refused_tail seg tail \<longleftrightarrow> rp_status (parse_record tail) = RP_Ok \<or>
     valid_record_follows (seg_bytes seg @ tail) (length (seg_bytes seg) + 1) (fst seg + of_nat (length (snd seg)))"

lemma recover_last:
  assumes "working s" and "entries s dir = Some m" and "plain_dir dir"
    and "m (segment_file_name l) = Some (seg_bytes (l, rs) @ tail)" and "l \<noteq> 0"
    and "expected = l \<or> expected = 0 \<and> l \<le> after + 1"
    and "numbered l rs" and "deliver on_record (newer after rs) c = Some (Inr (), c')"
    and "tail \<noteq> []" and "\<not> continues (l + of_nat (length rs)) tail"
  shows "if refused_tail (l, rs) tail then
      \<exists>e. recover_segments fs dir after on_record [seg_file l] expected R (c, s) = Some (Inl e, c', s) \<and>
        err_code e = kCorruption
    else \<exists>s'. recover_segments fs dir after on_record [seg_file l] expected R (c, s) =
        Some (Inr (l + of_nat (length rs), (note_segment after (l, rs) R)\<lparr>rl_torn_bytes_truncated := length tail\<rparr>), c', s') \<and>
        working s' \<and> entries s' dir = Some (m(segment_file_name l \<mapsto> seg_bytes (l, rs)))"
proof -
  let ?d = "seg_bytes (l, rs) @ tail" and ?l = "l + of_nat (length rs)"
  let ?n = "rl_records_replayed R + of_nat (length (newer after rs))"
  note scan = scan_segment [OF assms(7,8), of True tail "rl_records_replayed R"]
  note read = recover_read [OF assms(1-6), where rest = "[]" and R = R and on_record = on_record and c = c,
      unfolded simp_thms(6) scan]
  show ?thesis
  proof (cases "rp_status (parse_record tail) = RP_Ok")
    case True
    then have "lv_lsn (rp_record (parse_record tail)) \<noteq> ?l" using assms(10) by (simp add: continues_def)
    then have "\<exists>e. scan_records (segment_file_name l) True ?d after on_record (length (seg_bytes (l, rs))) ?l ?n c' =
        Some (Scan_error e, length (seg_bytes (l, rs)), ?l, ?n, c') \<and> err_code e = kCorruption"
      using True by (subst scan_records.simps) (simp add: Let_def corruption_def)
    then obtain e where e: "scan_records (segment_file_name l) True ?d after on_record (length (seg_bytes (l, rs))) ?l ?n c' =
        Some (Scan_error e, length (seg_bytes (l, rs)), ?l, ?n, c')" "err_code e = kCorruption" by blast
    show ?thesis using True read [OF e(1)] e(2) by (simp add: refused_tail_def)
  next
    case False
    note torn = scan_records_torn [OF False assms(9), of "segment_file_name l" "seg_bytes (l, rs)" after on_record ?l]
    obtain s' where s': "fs_truncate fs (join_path dir (segment_file_name l)) (length (seg_bytes (l, rs))) s = Some (Inr (), s')"
      "working s'" "entries s' dir = Some (m(segment_file_name l \<mapsto> seg_bytes (l, rs)))"
      using truncate_ok [OF assms(1-3) plain_segment_name assms(4), of "length (seg_bytes (l, rs))"] by auto
    show ?thesis
    proof (cases "valid_record_follows ?d (length (seg_bytes (l, rs)) + 1) ?l")
      case True
      then show ?thesis using read [OF torn] by (simp add: refused_tail_def corruption_def)
    next
      case follows: False
      then show ?thesis using False s' read [OF torn] by (simp add: refused_tail_def note_segment_def)
    qed
  qed
qed

text \<open>A segment whose creation was interrupted is removed again.\<close>

lemma recover_torn_creation:
  assumes "working s" and "entries s dir = Some m" and "plain_dir dir"
    and "m (segment_file_name l) = Some data" and "expected = 0 \<or> expected = l"
    and "parse_segment_header data = Inl e" and "err_code e = kCorruption" and "\<not> valid_record_follows data 0 l"
  shows "\<exists>s'. recover_segments fs dir after on_record [seg_file l] expected R (c, s) =
      Some (Inr (expected, R\<lparr>rl_removed_torn_segment := True\<rparr>), c, s') \<and>
      working s' \<and> entries s' dir = Some (m(segment_file_name l := None))"
proof -
  have read: "fs_read_file fs (join_path dir (segment_file_name l)) s = Some (Inr data, s)"
    using read_file_ok [OF assms(1-3) plain_segment_name assms(4)] .
  obtain s1 where s1: "fs_remove fs (join_path dir (segment_file_name l)) s = Some (Inr (), s1)" "working s1"
    "entries s1 dir = Some (m(segment_file_name l := None))"
    using remove_ok [OF assms(1-3) plain_segment_name assms(4)] by blast
  obtain s2 where "fs_sync_dir fs dir s1 = Some (Inr (), s2)" "working s2"
    "entries s2 dir = Some (m(segment_file_name l := None))"
    using sync_dir_ok [OF s1(2,3)] by blast
  then show ?thesis
    using assms(5-8) s1(1) by (auto simp: recover_segments.simps(2) seg_file_def read)
qed

lemma list_segments_sorted:
  assumes "working s" and "entries s dir = Some m" and "sorted_wrt (<) ls"
    and "\<And>l. segment_file_name l \<in> dom m \<longleftrightarrow> l \<in> set ls"
  shows "list_segments fs dir s = Some (Inr (map seg_file ls), s)"
proof -
  obtain names where names: "fs_list_dir fs dir s = Some (Inr names, s)" "distinct names" "set names = dom m"
    using list_dir_ok [OF assms(1,2)] by blast
  let ?f = "\<lambda>name. case parse_segment_file_name name of None \<Rightarrow> None | Some lsn \<Rightarrow> Some \<lparr>sg_name = name, sg_name_lsn = lsn\<rparr>"
  let ?files = "List.map_filter ?f names"
  have f: "?f name = Some x \<longleftrightarrow> (\<exists>l. name = segment_file_name l \<and> x = seg_file l)" for name x
    by (auto simp: seg_file_def parse_segment_file_name_iff split: option.splits)
  have "set ?files = seg_file ` set ls"
    unfolding set_eq_iff in_map_filter f names(3) using assms(4) by (metis image_iff)
  moreover have "distinct (map sg_name_lsn ?files)"
    using names(2) by (rule distinct_map_filter) (auto simp: f seg_file_def)
  ultimately have "map sg_name_lsn (sort_key sg_name_lsn ?files) = ls"
    using assms(3) sorted_sort_key [of sg_name_lsn ?files]
    by (intro sorted_distinct_set_unique)
      (auto simp: distinct_map strict_sorted_iff seg_file_def image_image intro: inj_on_subset)
  moreover have "\<forall>x \<in> set (sort_key sg_name_lsn ?files). x = seg_file (sg_name_lsn x)"
    using \<open>set ?files = _\<close> by (auto simp: seg_file_def)
  ultimately have "sort_key sg_name_lsn ?files = map seg_file ls"
    by (metis (no_types, lifting) map_idI map_map comp_apply)
  then show ?thesis by (simp add: list_segments_def names(1))
qed

lemma recover_dir:
  assumes "working s" and "entries s dir = Some m" and "plain_dir dir"
    and "chain l (init @ [(l', rs)])" and "lsn_room l (length (all_records init) + length rs)" and "l \<le> after + 1"
    and "\<And>seg. seg \<in> set init \<Longrightarrow> m (segment_file_name (fst seg)) = Some (seg_bytes seg)"
    and "m (segment_file_name l') = Some (seg_bytes (l', rs) @ tail)"
    and "\<not> continues (l' + of_nat (length rs)) tail"
    and "deliver on_record (newer after (all_records init @ rs)) c = Some (Inr (), c')"
  shows "if tail \<noteq> [] \<and> refused_tail (l', rs) tail then
      \<exists>e. recover_segments fs dir after on_record (map (seg_file \<circ> fst) (init @ [(l', rs)])) 0 R (c, s) = Some (Inl e, c', s) \<and>
        err_code e = kCorruption
    else \<exists>s'. recover_segments fs dir after on_record (map (seg_file \<circ> fst) (init @ [(l', rs)])) 0 R (c, s) =
        Some (Inr (l' + of_nat (length rs), (fold (note_segment after) (init @ [(l', rs)]) R)
          \<lparr>rl_torn_bytes_truncated := (if tail = [] then rl_torn_bytes_truncated R else length tail)\<rparr>), c', s') \<and>
        working s' \<and> entries s' dir = Some (m(segment_file_name l' \<mapsto> seg_bytes (l', rs)))"
proof -
  have l': "l' = l + of_nat (length (all_records init))" and num: "numbered l' rs"
    using chain_drop [OF assms(4), of "length init"] by auto
  have c_init: "chain l init" using chain_take [OF assms(4), of "length init"] by simp
  have room: "lsn_room l (length (all_records init))" "l' \<noteq> 0"
    using assms(5) lsn_room_plus [of l "length (all_records init)" "length rs"] by (auto simp: l' lsn_room_def)
  obtain c1 where c1: "deliver on_record (newer after (all_records init)) c = Some (Inr (), c1)"
    and c2: "deliver on_record (newer after rs) c1 = Some (Inr (), c')"
    using assms(10) by (auto simp: deliver_append split: option.splits sum.splits)
  let ?x = "if init = [] then 0 else l'"
  let ?R = "fold (note_segment after) init R"
  have run: "recover_segments fs dir after on_record (map (seg_file \<circ> fst) (init @ [(l', rs)])) 0 R (c, s) =
      recover_segments fs dir after on_record [seg_file l'] ?x ?R (c1, s)"
    using recover_chain [OF assms(1-3) c_init assms(7) room(1) _ c1, of 0 "[seg_file l']"] assms(6) by (simp add: l')
  have x: "?x = l' \<or> ?x = 0 \<and> l' \<le> after + 1" using assms(6) l' by auto
  show ?thesis
  proof (cases "tail = []")
    case True
    have "m(segment_file_name l' \<mapsto> seg_bytes (l', rs)) = m" using assms(8) True by (simp add: map_upd_triv)
    then show ?thesis
      using recover_one [OF assms(1-3) _ room(2) x num c2, of "[]" ?R] assms(1,2,8) True note_segments(3) [of after "init @ [(l', rs)]" R]
      unfolding run by simp
  next
    case False
    then show ?thesis
      using recover_last [OF assms(1-3) assms(8) room(2) x num c2 False assms(9), of ?R] unfolding run by simp
  qed
qed

lemma recover_log_dir:
  assumes "working s" and "entries s dir = Some m" and "plain_dir dir" and "log_dir m l segs tail"
    and "l \<le> replay_after opts + 1" and "unat (replay_after opts) < unat l + length (all_records segs)"
    and "deliver on_record (newer (replay_after opts) (all_records segs)) c = Some (Inr (), c')"
  shows "if tail \<noteq> [] \<and> refused_tail (last segs) tail then
      \<exists>e. recover_log fs dir opts on_record (c, s) = Some (Inl e, c', s) \<and> err_code e = kCorruption
    else \<exists>R s'. recover_log fs dir opts on_record (c, s) = Some (Inr R, c', s') \<and>
        working s' \<and> entries s' dir = Some (m(segment_file_name (fst (last segs)) \<mapsto> seg_bytes (last segs))) \<and>
        rl_last_lsn R = l + of_nat (length (all_records segs)) - 1 \<and>
        rl_segments R \<noteq> [] \<and> si_name (last (rl_segments R)) = segment_file_name (fst (last segs)) \<and>
        rl_records_replayed R = of_nat (length (newer (replay_after opts) (all_records segs))) \<and>
        rl_torn_bytes_truncated R = length tail"
proof -
  let ?a = "replay_after opts" and ?files = "map (seg_file \<circ> fst) segs"
  have ch: "chain l segs" and ne: "segs \<noteq> []" and room: "lsn_room l (length (all_records segs))"
    and names: "\<And>l'. segment_file_name l' \<in> dom m \<longleftrightarrow> l' \<in> set (map fst segs)"
    and datas: "\<And>seg. seg \<in> set (butlast segs) \<Longrightarrow> m (segment_file_name (fst seg)) = Some (seg_bytes seg)"
    and data: "m (segment_file_name (fst (last segs))) = Some (seg_bytes (last segs) @ tail)"
    and tl: "\<not> continues (l + of_nat (length (all_records segs))) tail"
    using assms(4) by (auto simp: log_dir_def)
  have list: "list_segments fs dir s = Some (Inr ?files, s)"
    using list_segments_sorted [OF assms(1,2) _ names] chain_sorted [OF ch room] by simp
  obtain l' rs where lr: "last segs = (l', rs)" by (cases "last segs")
  obtain init lk where nd: "drop (first_needed ?a ?files) segs = init @ [(l', rs)]" "set init \<subseteq> set (butlast segs)"
      "chain lk (init @ [(l', rs)])" "lsn_room lk (length (all_records init) + length rs)" "lk \<le> ?a + 1"
    and new: "newer ?a (all_records segs) = newer ?a (all_records init @ rs)"
    and nxt: "l' + of_nat (length rs) = l + of_nat (length (all_records segs))"
    using needed_segments [OF ch ne room assms(5) lr] by blast
  have files: "drop (first_needed ?a ?files) ?files = map (seg_file \<circ> fst) (init @ [(l', rs)])"
    by (simp only: drop_map nd)
  have initd: "m (segment_file_name (fst seg)) = Some (seg_bytes seg)" if "seg \<in> set init" for seg
    using that datas nd(2) by blast
  have "\<not> continues (l' + of_nat (length rs)) tail" using tl by (simp only: nxt not_False_eq_True)
  note dir = recover_dir [OF assms(1-3) nd(3-5) initd data [unfolded lr fst_conv] this assms(7) [unfolded new], of no_log]
  have "l + of_nat (length (all_records segs)) \<noteq> 0"
    and last: "\<not> l + of_nat (length (all_records segs)) - 1 < ?a"
    using lsn_room_plus [of l "length (all_records segs)" 0] room assms(6)
    by (auto simp: lsn_room_def word_less_nat_alt unat_sub word_le_nat_alt)
  moreover define F where "F = fold (note_segment ?a) (init @ [(l', rs)]) no_log"
  have F: "rl_records_replayed F = of_nat (length (newer ?a (all_records segs)))" "rl_torn_bytes_truncated F = 0"
    using note_segments [of ?a "init @ [(l', rs)]" no_log] by (simp_all only: F_def new) (simp_all add: no_log_def)
  have "map si_name (rl_segments F) = map (segment_file_name \<circ> fst) init @ [segment_file_name l']"
    using note_segments(2) [of ?a "init @ [(l', rs)]" no_log] by (simp only: F_def) (simp add: no_log_def)
  then have "rl_segments F \<noteq> [] \<and> si_name (last (rl_segments F)) = segment_file_name l'"
    by (cases "rl_segments F" rule: rev_cases) auto
  ultimately show ?thesis
    using dir F unfolding F_def [symmetric] files nxt lr
    by (auto simp: recover_log_def list files nxt no_log_def [of] split: if_splits)
qed

end

end
