(* ===== verification/Histogram.thy ===== *)
theory Histogram
  imports Prelude
begin

text \<open>
  \<^verbatim>\<open>common/histogram.h\<close>: the log-linear histogram. The floating-point product that turns a
  quantile into a rank is an argument of \<open>percentile\<close> (the rank before it is clamped). The
  lemmas show that slots are in range, ordered and at most a thirty-second wide, and that
  the answer of \<open>percentile\<close> is never below the value of that rank and at most a thirty-second
  above it.
\<close>

section \<open>The histogram\<close>

definition kSubBucketBits :: nat where
  "kSubBucketBits = 5"

definition kSubBuckets :: nat where
  "kSubBuckets = push_bit kSubBucketBits 1"

definition kSlots :: nat where
  "kSlots = (64 - kSubBucketBits + 1) * kSubBuckets"

record Histogram =
  hi_counts :: "u64 list"
  hi_count :: u64
  hi_sum :: u64
  hi_min :: u64
  hi_max :: u64

definition empty_histogram :: Histogram where
  "empty_histogram = \<lparr>hi_counts = replicate kSlots 0, hi_count = 0, hi_sum = 0, hi_min = 0, hi_max = 0\<rparr>"

text \<open>\<^verbatim>\<open>std::bit_width\<close>.\<close>

fun bit_width :: "nat \<Rightarrow> nat" where
  "bit_width n = (if n = 0 then 0 else Suc (bit_width (n div 2)))"

declare bit_width.simps [simp del]

definition slot_for :: "u64 \<Rightarrow> nat" where
  "slot_for value =
     (if unat value < kSubBuckets then unat value
      else
        let exponent = bit_width (unat value) - 1;
            shift = exponent - kSubBucketBits;
            sub = drop_bit shift value AND (of_nat kSubBuckets - 1)
        in (exponent - kSubBucketBits + 1) * kSubBuckets + unat sub)"

definition upper_bound_of :: "nat \<Rightarrow> u64" where
  "upper_bound_of slot =
     (if slot < kSubBuckets then of_nat slot
      else
        let exponent = slot div kSubBuckets + kSubBucketBits - 1;
            sub = slot mod kSubBuckets;
            shift = exponent - kSubBucketBits;
            lower = push_bit shift (of_nat (kSubBuckets + sub))
        in lower + (push_bit shift 1 - 1))"

definition record_value :: "u64 \<Rightarrow> Histogram \<Rightarrow> Histogram" where
  "record_value value h =
     (let h = h\<lparr>hi_counts := (hi_counts h)[slot_for value := hi_counts h ! slot_for value + 1],
            hi_count := hi_count h + 1, hi_sum := hi_sum h + value\<rparr> in
      h\<lparr>hi_min := (if hi_count h = 1 then value else min (hi_min h) value), hi_max := max (hi_max h) value\<rparr>)"

definition merge_histogram :: "Histogram \<Rightarrow> Histogram \<Rightarrow> Histogram" where
  "merge_histogram other h =
     (if hi_count other = 0 then h
      else h\<lparr>hi_counts := map2 (+) (hi_counts h) (hi_counts other),
             hi_min := (if hi_count h = 0 then hi_min other else min (hi_min h) (hi_min other)),
             hi_max := max (hi_max h) (hi_max other),
             hi_count := hi_count h + hi_count other, hi_sum := hi_sum h + hi_sum other\<rparr>)"

definition histogram_min :: "Histogram \<Rightarrow> u64" where
  "histogram_min h = (if hi_count h = 0 then 0 else hi_min h)"

fun percentile_from :: "u64 \<Rightarrow> u64 \<Rightarrow> u64 \<Rightarrow> nat \<Rightarrow> u64 list \<Rightarrow> u64" where
  "percentile_from mx target seen i [] = mx"
| "percentile_from mx target seen i (c # counts) =
     (let seen = seen + c in
      if seen \<ge> target then min (upper_bound_of i) mx else percentile_from mx target seen (i + 1) counts)"

definition percentile :: "u64 \<Rightarrow> Histogram \<Rightarrow> u64" where
  "percentile wanted h =
     (if hi_count h = 0 then 0
      else let target = max 1 (min wanted (hi_count h)) in percentile_from (hi_max h) target 0 0 (hi_counts h))"

section \<open>Slots\<close>

lemma kSubBuckets_eq [simp]: "kSubBuckets = 32"
  by (simp add: kSubBuckets_def kSubBucketBits_def push_bit_eq_mult)

lemma kSlots_eq: "kSlots = 1920"
  by (simp add: kSlots_def kSubBucketBits_def)

lemma bit_width_bounds: "0 < n \<Longrightarrow> 2 ^ (bit_width n - 1) \<le> n \<and> n < 2 ^ bit_width n \<and> 0 < bit_width n"
proof (induction n rule: bit_width.induct)
  case (1 n)
  show ?case
  proof (cases "n = 1")
    case True
    then show ?thesis by (simp add: bit_width.simps)
  next
    case False
    let ?b = "bit_width (n div 2)"
    have IH: "2 ^ (?b - 1) \<le> n div 2" "n div 2 < 2 ^ ?b" "0 < ?b" using 1 False by auto
    have b: "bit_width n = Suc ?b" using 1(2) by (subst bit_width.simps) simp
    obtain k where k: "?b = Suc k" using IH(3) by (cases ?b) auto
    show ?thesis
      using IH(1,2) unfolding b k by (simp add: less_eq_div_iff_mult_less_eq div_less_iff_less_mult mult.commute)
  qed
qed

text \<open>The slot over the natural numbers: the exponent and the five bits behind the leading one.\<close>

lemma slot_parts:
  fixes v :: u64
  assumes "32 \<le> unat v"
  defines "e \<equiv> bit_width (unat v) - 1"
  defines "q \<equiv> unat v div 2 ^ (e - 5)"
  shows "5 \<le> e" and "e < 64" and "32 \<le> q" and "q < 64" and "slot_for v = (e - 4) * 32 + (q - 32)"
proof -
  have b: "2 ^ e \<le> unat v" "unat v < 2 ^ Suc e"
    using bit_width_bounds [of "unat v"] assms(1) by (simp_all add: e_def)
  show e5: "5 \<le> e"
  proof (rule ccontr)
    assume "\<not> 5 \<le> e"
    then have "(2 :: nat) ^ Suc e \<le> 2 ^ 5" by (intro power_increasing) auto
    then show False using b(2) assms(1) by simp
  qed
  have "unat v < 2 ^ 64" using unsigned_less [of v, where ?'a = nat] by simp
  then have "(2 :: nat) ^ e < 2 ^ 64" using b(1) by linarith
  then show "e < 64" using power_less_imp_less_exp [of "2 :: nat" e 64] by simp
  obtain s where s: "e = s + 5" using e5 by (metis add.commute le_Suc_ex)
  show q: "32 \<le> q" "q < 64"
    using b by (simp_all add: q_def s power_add less_eq_div_iff_mult_less_eq div_less_iff_less_mult mult.commute)
  have "unat (drop_bit s v AND 31) = q mod 32"
  proof -
    have "(31 :: u64) = mask 5" by (simp add: mask_eq_exp_minus_1)
    then have "unat (drop_bit s v AND 31) = unat (drop_bit s v) mod 32"
      by (simp only: take_bit_eq_mask [symmetric] take_bit_eq_mod) (simp add: unat_mod)
    moreover have "unat (drop_bit s v) = drop_bit s (unat v)"
      using unsigned_less [of v, where ?'a = nat] by (simp add: unsigned_drop_bit_eq take_bit_nat_eq_self)
    ultimately show ?thesis by (simp only: q_def s drop_bit_eq_div) simp
  qed
  moreover have "q mod 32 = q - 32" using q by (simp add: mod_if)
  moreover have "bit_width (unat v) - 1 = s + 5" using s unfolding e_def .
  then have "bit_width (unat v) - 6 = s" by linarith
  ultimately show "slot_for v = (e - 4) * 32 + (q - 32)"
    using assms(1) by (simp add: slot_for_def e_def [symmetric] kSubBucketBits_def Let_def s)
qed

lemma slot_bound: "slot_for v < kSlots"
proof (cases "32 \<le> unat v")
  case True
  let ?e = "bit_width (unat v) - 1"
  have "(?e - 4) * 32 \<le> 59 * 32" using slot_parts(2) [OF True] by (intro mult_le_mono1) simp
  then show ?thesis using slot_parts(3-5) [OF True] unfolding kSlots_eq by linarith
qed (simp add: slot_for_def kSlots_eq)

text \<open>The largest value of a slot is at most a thirty-second above any value in it.\<close>

lemma upper_bound_tight:
  fixes v :: u64
  shows "unat v \<le> unat (upper_bound_of (slot_for v))"
    and "unat (upper_bound_of (slot_for v)) \<le> unat v + unat v div 32"
proof -
  have "unat v \<le> unat (upper_bound_of (slot_for v)) \<and>
    unat (upper_bound_of (slot_for v)) \<le> unat v + unat v div 32"
  proof (cases "32 \<le> unat v")
    case False
    then show ?thesis by (simp add: slot_for_def upper_bound_of_def)
  next
    case True
    define e where "e = bit_width (unat v) - 1"
    define q where "q = unat v div 2 ^ (e - 5)"
    note p = slot_parts [OF True, folded e_def, folded q_def]
    obtain s where s: "e = s + 5" using p(1) by (metis add.commute le_Suc_ex)
    have s59: "s < 59" using p(2) by (simp add: s)
    have slot: "slot_for v = (s + 1) * 32 + (q - 32)" using p(5) by (simp add: s)
    have dm: "slot_for v div 32 = s + 1" "slot_for v mod 32 = q - 32"
    proof -
      obtain r where "q = 32 + r" using p(3) le_Suc_ex by blast
      then show "slot_for v div 32 = s + 1" "slot_for v mod 32 = q - 32"
        unfolding slot using p(4) by (simp_all del: mult_Suc add: add.commute [of 32])
    qed
    have big: "(q + 1) * 2 ^ s \<le> (2 :: nat) ^ 64"
    proof -
      have "(q + 1) * 2 ^ s \<le> 2 ^ 6 * 2 ^ s" using p(4) by (intro mult_le_mono1) simp
      also have "\<dots> = (2 :: nat) ^ (6 + s)" by (simp only: power_add)
      also have "\<dots> \<le> 2 ^ 64" using s59 by (intro power_increasing) auto
      finally show ?thesis .
    qed
    have one: "(1 :: nat) \<le> 2 ^ s" by simp
    have u1: "unat (push_bit s (of_nat q) :: u64) = q * 2 ^ s"
    proof -
      have "q * 2 ^ s < (q + 1) * 2 ^ s" by simp
      then have "q * 2 ^ s < (2 :: nat) ^ 64" using big by linarith
      moreover have "push_bit s (of_nat q) = (of_nat (q * 2 ^ s) :: u64)" by (simp add: push_bit_eq_mult)
      ultimately show ?thesis by (simp only: unat_of_nat) simp
    qed
    have u2: "unat (push_bit s 1 :: u64) = 2 ^ s"
    proof -
      have "(2 :: nat) ^ s < 2 ^ 64" using s59 by (intro power_strict_increasing) auto
      moreover have "push_bit s 1 = (of_nat (2 ^ s) :: u64)" by (simp add: push_bit_eq_mult)
      ultimately show ?thesis by (simp only: unat_of_nat) simp
    qed
    have sum: "unat (push_bit s (of_nat q) + (push_bit s 1 - 1) :: u64) = q * 2 ^ s + (2 ^ s - 1)"
    proof -
      have "unat (push_bit s 1 - 1 :: u64) = 2 ^ s - 1" using u2 by (simp add: unat_sub word_le_nat_alt)
      moreover have "q * 2 ^ s + (2 ^ s - 1) < (2 :: nat) ^ 64" using big one by (simp add: distrib_right)
      ultimately show ?thesis by (simp add: unat_word_ariths u1)
    qed
    have "upper_bound_of (slot_for v) = push_bit s (of_nat q) + (push_bit s 1 - 1)"
      using p(3) dm by (simp add: upper_bound_of_def slot kSubBucketBits_def Let_def)
    then have upper: "unat (upper_bound_of (slot_for v)) = q * 2 ^ s + (2 ^ s - 1)" by (simp only: sum)
    have v: "q * 2 ^ s \<le> unat v" "unat v < q * 2 ^ s + 2 ^ s"
      using div_times_less_eq_dividend [of "unat v" "2 ^ s"] dividend_less_div_times [of "2 ^ s" "unat v"]
      by (simp_all add: q_def s)
    have "32 * 2 ^ s \<le> unat v" using v(1) mult_le_mono1 [OF p(3), of "2 ^ s"] by linarith
    then have "2 ^ s \<le> unat v div 32" by (simp add: less_eq_div_iff_mult_less_eq mult.commute)
    with v upper one have "unat v \<le> unat (upper_bound_of (slot_for v))"
      "unat (upper_bound_of (slot_for v)) \<le> unat v + unat v div 32" by linarith+
    then show ?thesis by blast
  qed
  then show "unat v \<le> unat (upper_bound_of (slot_for v))"
    and "unat (upper_bound_of (slot_for v)) \<le> unat v + unat v div 32" by auto
qed

lemma slot_mono:
  fixes v w :: u64
  assumes "v \<le> w"
  shows "slot_for v \<le> slot_for w"
proof (cases "32 \<le> unat v")
  case False
  have "32 \<le> slot_for w" if "32 \<le> unat w"
  proof -
    have "1 * 32 \<le> (bit_width (unat w) - 1 - 4) * 32" using slot_parts(1) [OF that] by (intro mult_le_mono1) simp
    then show ?thesis using slot_parts(3,5) [OF that] by linarith
  qed
  then show ?thesis
    using assms False by (cases "32 \<le> unat w") (simp_all add: slot_for_def word_le_nat_alt)
next
  case True
  have le: "unat v \<le> unat w" using assms by (simp add: word_le_nat_alt)
  define e where "e = bit_width (unat v) - 1"
  define f where "f = bit_width (unat w) - 1"
  have w: "32 \<le> unat w" using True le by simp
  note p = slot_parts [OF True, folded e_def] and r = slot_parts [OF w, folded f_def]
  have b: "2 ^ e \<le> unat v" "unat w < 2 ^ Suc f"
    using bit_width_bounds [of "unat v"] bit_width_bounds [of "unat w"] True w by (simp_all add: e_def f_def)
  then have "(2 :: nat) ^ e < 2 ^ Suc f" using le by linarith
  then have "e \<le> f" using power_less_imp_less_exp [of "2 :: nat" e "Suc f"] by simp
  show ?thesis
  proof (cases "e = f")
    case True
    then show ?thesis using div_le_mono [OF le, of "2 ^ (e - 5)"] unfolding p(5) r(5) by (simp add: diff_le_mono)
  next
    case False
    then have "(e - 4) * 32 + 32 \<le> (f - 4) * 32" using \<open>e \<le> f\<close> p(1) by simp
    then show ?thesis using p(3-5) r(3-5) by linarith
  qed
qed

section \<open>What has been recorded\<close>

definition histogram_of :: "u64 list \<Rightarrow> Histogram" where
  "histogram_of vs = fold record_value vs empty_histogram"

lemma histogram_of_snoc: "histogram_of (vs @ [v]) = record_value v (histogram_of vs)"
  by (simp add: histogram_of_def)

lemma histogram_counts:
  "length (hi_counts (histogram_of vs)) = kSlots"
  "i < kSlots \<Longrightarrow> hi_counts (histogram_of vs) ! i = of_nat (length (filter (\<lambda>v. slot_for v = i) vs))"
  "hi_count (histogram_of vs) = of_nat (length vs)"
  "v \<in> set vs \<Longrightarrow> v \<le> hi_max (histogram_of vs)"
proof (induction vs rule: rev_induct)
  case (snoc w vs)
  { case 1 show ?case using snoc(1) by (simp add: histogram_of_snoc record_value_def Let_def) }
  { case 2 then show ?case
      using snoc(1,2) slot_bound [of w] by (simp add: histogram_of_snoc record_value_def nth_upd Let_def) }
  { case 3 show ?case using snoc(3) by (simp add: histogram_of_snoc record_value_def Let_def) }
  { case 4 then show ?case
      using snoc(4) by (auto simp: histogram_of_snoc record_value_def Let_def intro: max.coboundedI1) }
qed (simp_all add: histogram_of_def empty_histogram_def)

lemma histogram_max_recorded: "vs \<noteq> [] \<Longrightarrow> hi_max (histogram_of vs) \<in> set vs"
proof (induction vs rule: rev_induct)
  case (snoc w vs)
  show ?case
  proof (cases "vs = []")
    case True
    then show ?thesis by (simp add: histogram_of_def record_value_def empty_histogram_def Let_def)
  next
    case False
    then show ?thesis using snoc.IH by (simp add: histogram_of_snoc record_value_def Let_def max_def)
  qed
qed simp

lemma histogram_max: "vs \<noteq> [] \<Longrightarrow> hi_max (histogram_of vs) = Max (set vs)"
  by (rule Max_eqI [symmetric]) (simp_all add: histogram_counts(4) histogram_max_recorded)

lemma filter_slots_Suc:
  "length (filter (\<lambda>v. slot_for v < Suc i) vs) =
     length (filter (\<lambda>v. slot_for v < i) vs) + length (filter (\<lambda>v. slot_for v = i) vs)"
  by (induction vs) auto

text \<open>The loop stops at the first slot up to which at least \<open>target\<close> values lie.\<close>

lemma percentile_from_stops:
  assumes "length vs < 2 ^ 64" and "counts = drop i (hi_counts (histogram_of vs))" and "i \<le> kSlots"
    and "length (filter (\<lambda>v. slot_for v < i) vs) < target" and "target \<le> length vs"
  shows "\<exists>k. length (filter (\<lambda>v. slot_for v < k) vs) < target \<and> target \<le> length (filter (\<lambda>v. slot_for v < Suc k) vs) \<and>
    percentile_from mx (of_nat target) (of_nat (length (filter (\<lambda>v. slot_for v < i) vs))) i counts = min (upper_bound_of k) mx"
  using assms(2-4)
proof (induction counts arbitrary: i)
  case Nil
  then have "i = kSlots" using histogram_counts(1) [of vs] by simp
  then have "filter (\<lambda>v. slot_for v < i) vs = vs" using slot_bound by (simp add: filter_id_conv)
  then show ?case using Nil(3) assms(5) by simp
next
  case (Cons c counts)
  let ?below = "\<lambda>i. length (filter (\<lambda>v. slot_for v < i) vs)"
  have i: "i < kSlots" using Cons.prems(1) histogram_counts(1) [of vs] by (metis drop_all leI list.distinct(1))
  then have c: "c = of_nat (length (filter (\<lambda>v. slot_for v = i) vs))" and rest: "counts = drop (Suc i) (hi_counts (histogram_of vs))"
    using Cons.prems(1) histogram_counts(1) [of vs] histogram_counts(2) [of i vs]
      Cons_nth_drop_Suc [of i "hi_counts (histogram_of vs)"] by (metis list.inject)+
  have seen: "of_nat (?below i) + c = (of_nat (?below (Suc i)) :: u64)" by (simp add: filter_slots_Suc c)
  have "?below (Suc i) < 2 ^ 64" "target < 2 ^ 64"
    using assms(1,5) by (auto intro: le_less_trans [OF length_filter_le])
  then have cmp: "(of_nat target \<le> (of_nat (?below (Suc i)) :: u64)) \<longleftrightarrow> target \<le> ?below (Suc i)"
    by (simp add: word_le_nat_alt unat_of_nat)
  show ?case
  proof (cases "target \<le> ?below (Suc i)")
    case True
    then show ?thesis using Cons.prems(3) seen cmp by (intro exI [of _ i]) (simp add: Let_def)
  next
    case False
    then have "percentile_from mx (of_nat target) (of_nat (?below i)) i (c # counts) =
        percentile_from mx (of_nat target) (of_nat (?below (Suc i))) (Suc i) counts"
      using seen cmp by (simp add: Let_def)
    then show ?thesis using Cons.IH [OF rest] i False by simp
  qed
qed

lemma sorted_filter_nth:
  assumes "sorted xs" and "\<And>x y. x \<le> y \<Longrightarrow> P y \<Longrightarrow> P x" and "j < length xs"
  shows "P (xs ! j) \<longleftrightarrow> j < length (filter P xs)"
  using assms(1,3)
proof (induction xs arbitrary: j)
  case (Cons x xs)
  show ?case
  proof (cases "P x")
    case True
    then show ?thesis using Cons by (cases j) auto
  next
    case False
    then have "\<not> P y" if "y \<in> set (x # xs)" for y using that Cons.prems(1) assms(2) [of x y] by auto
    then have "filter P (x # xs) = []" "\<not> P ((x # xs) ! j)"
      using Cons.prems(2) nth_mem [of j "x # xs"] by (auto simp: filter_empty_conv)
    then show ?thesis by simp
  qed
qed simp

lemma sort_filter_nth:
  fixes vs :: "u64 list"
  assumes "j < length vs"
  shows "slot_for (sort vs ! j) < k \<longleftrightarrow> j < length (filter (\<lambda>v. slot_for v < k) vs)"
  using sorted_filter_nth [of "sort vs" "\<lambda>v. slot_for v < k" j] slot_mono assms
  by (simp add: filter_sort) (meson le_less_trans)

section \<open>Properties\<close>

text \<open>
  C34: after recording at least one and fewer than 2^64 values, \<open>percentile\<close> answers a number that is
  never below the recorded value of the rank asked for (clamped to the recorded range), at most a
  thirty-second above it, and never above the largest value recorded.
\<close>
theorem percentile_close:
  assumes "vs \<noteq> []" and "length vs < 2 ^ 64"
  shows "let true_value = sort vs ! (max 1 (min (unat wanted) (length vs)) - 1) in
    true_value \<le> percentile wanted (histogram_of vs) \<and>
    unat (percentile wanted (histogram_of vs)) \<le> unat true_value + unat true_value div 32 \<and>
    percentile wanted (histogram_of vs) \<le> Max (set vs)"
proof -
  define t where "t = max 1 (min (unat wanted) (length vs))"
  define tv where "tv = sort vs ! (t - 1)"
  let ?h = "histogram_of vs"
  have t: "0 < t" "t \<le> length vs" using assms(1) by (auto simp: t_def Suc_le_eq)
  have n: "unat (hi_count ?h) = length vs"
    using assms(2) by (simp add: histogram_counts(3) unat_of_nat)
  then have n0: "hi_count ?h \<noteq> 0" using assms(1) by auto
  have target: "max 1 (min wanted (hi_count ?h)) = of_nat t"
    using n t(2) assms(2) histogram_counts(3) [of vs] by (auto simp: t_def max_def min_def word_le_nat_alt)
  obtain k where k: "length (filter (\<lambda>v. slot_for v < k) vs) < t" "t \<le> length (filter (\<lambda>v. slot_for v < Suc k) vs)"
      and p: "percentile wanted ?h = min (upper_bound_of k) (hi_max ?h)"
    using percentile_from_stops [OF assms(2), of "hi_counts ?h" 0 t "hi_max ?h"] t n0
    by (auto simp: percentile_def target Let_def)
  have t1: "t - 1 < length vs" using t by simp
  have "\<not> slot_for tv < k" "slot_for tv < Suc k"
    using k t(1) unfolding tv_def sort_filter_nth [OF t1] by linarith+
  then have "slot_for tv = k" by simp
  moreover have "tv \<in> set vs" using t nth_mem [of "t - 1" "sort vs"] by (simp add: tv_def)
  ultimately show ?thesis
    using upper_bound_tight [of tv] histogram_counts(4) [of tv vs] histogram_max [OF assms(1)]
    unfolding t_def [symmetric] tv_def [symmetric] Let_def by (auto simp: p word_le_nat_alt min_def)
qed

theorem percentile_close_witness:
  "100 \<le> percentile 2 (histogram_of [100, 7, 5000]) \<and> percentile 3 (histogram_of [100, 7, 5000]) = 5000"
proof -
  have "percentile 3 (histogram_of [100, 7, 5000]) = 5000"
    using percentile_close [of "[100, 7, 5000]" 3] by (intro antisym) (simp_all add: Let_def max_def)
  moreover have "100 \<le> percentile 2 (histogram_of [100, 7, 5000])"
    using percentile_close [of "[100, 7, 5000]" 2] by (simp add: Let_def)
  ultimately show ?thesis by blast
qed

end
