(* ===== verification/LogWriter.thy ===== *)
theory LogWriter
  imports LogRecovery Histogram
begin

text \<open>
  \<^verbatim>\<open>log/log_writer.h\<close> and \<^verbatim>\<open>log/log_writer.cpp\<close>: the write side of the log with group commit.
  The writer's fields are one record. \<open>lw_step\<close> interleaves the operations of the owner
  thread with the steps of the log thread, which are cut where the code takes or releases
  the mutex. A failed write or sync kills the process (\<open>None\<close>). The time a sync took and
  whether the sync timer is due are arguments. The commit callback only wakes the event
  loop and is left out.
\<close>

section \<open>Data\<close>

datatype FsyncPolicy = kAlways | kInterval

record LogWriterOptions =
  lo_dir :: bytes
  lo_fsync_policy :: FsyncPolicy
  lo_fsync_interval_ms :: int
  lo_segment_size :: nat

record LogWriterStats =
  ls_batches :: u64
  ls_records :: u64
  ls_bytes :: u64
  ls_syncs :: u64
  ls_segments_created :: u64
  ls_batch_records :: Histogram
  ls_sync_micros :: Histogram

record Batch =
  b_bytes :: bytes
  b_first_lsn :: Lsn
  b_last_lsn :: Lsn
  b_records :: u32

definition empty_batch :: Batch where
  "empty_batch = \<lparr>b_bytes = [], b_first_lsn = 0, b_last_lsn = 0, b_records = 0\<rparr>"

definition batch_empty :: "Batch \<Rightarrow> bool" where
  "batch_empty b \<longleftrightarrow> b_records b = 0"

record 'h LogWriter =
  lw_options :: LogWriterOptions
  lw_pending :: Batch
  lw_next_lsn :: Lsn
  lw_appended_bytes :: u64
  lw_stopped :: bool
  lw_inbox :: Batch
  lw_stop :: bool
  lw_active :: "'h option"
  lw_dirty :: bool
  lw_committed_lsn :: Lsn
  lw_committed_bytes :: u64
  lw_stats :: LogWriterStats

definition no_stats :: LogWriterStats where
  "no_stats = \<lparr>ls_batches = 0, ls_records = 0, ls_bytes = 0, ls_syncs = 0, ls_segments_created = 0,
     ls_batch_records = empty_histogram, ls_sync_micros = empty_histogram\<rparr>"

definition mk_writer :: "LogWriterOptions \<Rightarrow> Lsn \<Rightarrow> 'h LogWriter" where
  "mk_writer options next_lsn = \<lparr>lw_options = options, lw_pending = empty_batch, lw_next_lsn = next_lsn,
     lw_appended_bytes = 0, lw_stopped = False, lw_inbox = empty_batch, lw_stop = False, lw_active = None,
     lw_dirty = False, lw_committed_lsn = next_lsn - 1, lw_committed_bytes = 0, lw_stats = no_stats\<rparr>"

section \<open>Opening\<close>

definition create_segment :: "('s, 'h, 'r) FileSystem \<Rightarrow> Lsn \<Rightarrow> ('h LogWriter \<times> 's, unit) fs_op" where
  "create_segment fs first_lsn = (\<lambda>(w, s).
     let path = join_path (lo_dir (lw_options w)) (segment_file_name first_lsn) in
     try_op (on_fs w (fs_open_append fs path kCreateNew s)) (\<lambda>file (w, s).
     let header = append_segment_header [] first_lsn in
     try_op (on_fs w (fh_append fs file header s)) (\<lambda>_ (w, s).
     try_op (on_fs w (fh_sync fs file s)) (\<lambda>_ (w, s).
     try_op (on_fs w (fs_sync_dir fs (lo_dir (lw_options w)) s)) (\<lambda>_ (w, s).
       Some (Inr (), w\<lparr>lw_active := Some file, lw_dirty := False,
         lw_stats := (lw_stats w)\<lparr>ls_segments_created := ls_segments_created (lw_stats w) + 1\<rparr>\<rparr>, s))))))"

definition open_active_segment :: "('s, 'h, 'r) FileSystem \<Rightarrow> RecoveredLog \<Rightarrow> ('h LogWriter \<times> 's, unit) fs_op" where
  "open_active_segment fs recovered = (\<lambda>(w, s).
     if rl_segments recovered = [] then create_segment fs (lw_next_lsn w) (w, s)
     else
       let path = join_path (lo_dir (lw_options w)) (si_name (last (rl_segments recovered))) in
       try_op (on_fs w (fs_open_append fs path kAppendExisting s)) (\<lambda>file (w, s).
         Some (Inr (), w\<lparr>lw_active := Some file\<rparr>, s)))"

text \<open>\<open>LogWriter::open\<close>; the log thread it starts is at \<open>Waiting\<close>.\<close>

definition open_writer :: "('s, 'h, 'r) FileSystem \<Rightarrow> LogWriterOptions \<Rightarrow> RecoveredLog \<Rightarrow> ('s, 'h LogWriter) fs_op" where
  "open_writer fs options recovered s =
     (if lo_segment_size options < kSegmentHeaderSize + kRecordHeaderSize then
        Some (Inl (mk_error kInvalidArgument [FS ''segment_size is too small to hold a record'']), s)
      else if lo_fsync_policy options = kInterval \<and> lo_fsync_interval_ms options \<le> 0 then
        Some (Inl (mk_error kInvalidArgument [FS ''fsync_interval_ms must be positive'']), s)
      else
        let w = mk_writer options (rl_last_lsn recovered + 1) in
        case open_active_segment fs recovered (w, s) of
          None \<Rightarrow> None
        | Some (Inl e, w, s) \<Rightarrow> Some (Inl e, s)
        | Some (Inr _, w, s) \<Rightarrow> Some (Inr w, s))"

section \<open>The owner thread\<close>

definition append_log :: "byte \<Rightarrow> bytes \<Rightarrow> 'h LogWriter \<Rightarrow> (Lsn \<times> 'h LogWriter) option" where
  "append_log type payload w = do {
     baton_check (\<not> lw_stopped w);
     let lsn = lw_next_lsn w;
     let before = length (b_bytes (lw_pending w));
     bytes \<leftarrow> append_record (b_bytes (lw_pending w)) lsn type payload;
     let p = lw_pending w;
     Some (lsn, w\<lparr>lw_next_lsn := lw_next_lsn w + 1,
       lw_appended_bytes := lw_appended_bytes w + of_nat (length bytes - before),
       lw_pending := \<lparr>b_bytes = bytes, b_first_lsn = (if b_records p = 0 then lsn else b_first_lsn p),
         b_last_lsn = lsn, b_records = b_records p + 1\<rparr>\<rparr>)
   }"

definition flush_log :: "'h LogWriter \<Rightarrow> 'h LogWriter" where
  "flush_log w =
     (if batch_empty (lw_pending w) then w
      else
        let p = lw_pending w; i = lw_inbox w in
        w\<lparr>lw_inbox := (if batch_empty i then p
             else i\<lparr>b_bytes := b_bytes i @ b_bytes p, b_last_lsn := b_last_lsn p, b_records := b_records i + b_records p\<rparr>),
          lw_pending := empty_batch\<rparr>)"

definition last_appended_lsn :: "'h LogWriter \<Rightarrow> Lsn" where
  "last_appended_lsn w = lw_next_lsn w - 1"

definition backlog_bytes :: "'h LogWriter \<Rightarrow> u64" where
  "backlog_bytes w = lw_appended_bytes w - lw_committed_bytes w"

text \<open>\<open>stop\<close> up to the join, and what follows it.\<close>

definition stop_begin :: "'h LogWriter \<Rightarrow> 'h LogWriter" where
  "stop_begin w = (flush_log w)\<lparr>lw_stop := True\<rparr>"

definition stop_end :: "'h LogWriter \<Rightarrow> 'h LogWriter" where
  "stop_end w = w\<lparr>lw_stopped := True\<rparr>"

section \<open>The log thread\<close>

text \<open>\<open>die\<close>: an error of the file system ends the process.\<close>

definition or_die :: "(unit Result \<times> 'a) option \<Rightarrow> 'a option" where
  "or_die m = (case m of None \<Rightarrow> None | Some (Inl e, x) \<Rightarrow> None | Some (Inr _, x) \<Rightarrow> Some x)"

definition sync_active :: "('s, 'h, 'r) FileSystem \<Rightarrow> u64 \<Rightarrow> 'h LogWriter \<times> 's \<Rightarrow> ('h LogWriter \<times> 's) option" where
  "sync_active fs micros = (\<lambda>(w, s). do {
     file \<leftarrow> lw_active w;
     (w, s) \<leftarrow> or_die (on_fs w (fh_sync fs file s));
     Some (w\<lparr>lw_dirty := False, lw_stats := (lw_stats w)\<lparr>ls_syncs := ls_syncs (lw_stats w) + 1,
       ls_sync_micros := record_value micros (ls_sync_micros (lw_stats w))\<rparr>\<rparr>, s)
   })"

definition roll_segment :: "('s, 'h, 'r) FileSystem \<Rightarrow> Batch \<Rightarrow> u64 \<Rightarrow> 'h LogWriter \<times> 's \<Rightarrow> ('h LogWriter \<times> 's) option" where
  "roll_segment fs batch micros = (\<lambda>(w, s). do {
     (w, s) \<leftarrow> (if lw_dirty w then sync_active fs micros (w, s) else Some (w, s));
     or_die (create_segment fs (b_first_lsn batch) (w\<lparr>lw_active := None\<rparr>, s))
   })"

definition write_batch :: "('s, 'h, 'r) FileSystem \<Rightarrow> Batch \<Rightarrow> u64 \<Rightarrow> u64 \<Rightarrow> 'h LogWriter \<times> 's \<Rightarrow> ('h LogWriter \<times> 's) option" where
  "write_batch fs batch micros1 micros2 = (\<lambda>(w, s). do {
     file \<leftarrow> lw_active w;
     (w, s) \<leftarrow> (if fh_size fs file s \<ge> lo_segment_size (lw_options w)
                then roll_segment fs batch micros1 (w, s) else Some (w, s));
     file \<leftarrow> lw_active w;
     (w, s) \<leftarrow> or_die (on_fs w (fh_append fs file (b_bytes batch) s));
     let w = w\<lparr>lw_dirty := True\<rparr>;
     (w, s) \<leftarrow> (if lo_fsync_policy (lw_options w) = kAlways then sync_active fs micros2 (w, s) else Some (w, s));
     let st = lw_stats w;
     Some (w\<lparr>lw_stats := st\<lparr>ls_batches := ls_batches st + 1, ls_records := ls_records st + ucast (b_records batch),
           ls_bytes := ls_bytes st + of_nat (length (b_bytes batch)),
           ls_batch_records := record_value (ucast (b_records batch)) (ls_batch_records st)\<rparr>,
         lw_committed_bytes := lw_committed_bytes w + of_nat (length (b_bytes batch)),
         lw_committed_lsn := b_last_lsn batch\<rparr>, s)
   })"

text \<open>Where the log thread is in \<open>run\<close>.\<close>

datatype Phase = Waiting | Writing Batch | Checking | Checked | Exited

text \<open>A step is labelled with the record it appends, if any.\<close>

inductive lw_step :: "('s, 'h, 'r) FileSystem \<Rightarrow> 'h LogWriter \<times> Phase \<times> 's \<Rightarrow> LogRecordView list \<Rightarrow>
    'h LogWriter \<times> Phase \<times> 's \<Rightarrow> bool"
  for fs where
  step_append: "append_log type payload w = Some (lsn, w') \<Longrightarrow>
    lw_step fs (w, ph, s) [\<lparr>lv_lsn = lsn, lv_type = type, lv_payload = payload\<rparr>] (w', ph, s)"
| step_flush: "lw_step fs (w, ph, s) [] (flush_log w, ph, s)"
| step_stop: "\<not> lw_stopped w \<Longrightarrow> lw_step fs (w, ph, s) [] (stop_begin w, ph, s)"
| step_joined: "lw_stop w \<Longrightarrow> lw_step fs (w, Exited, s) [] (stop_end w, Exited, s)"
| step_take: "\<not> batch_empty (lw_inbox w) \<Longrightarrow>
    lw_step fs (w, Waiting, s) [] (w\<lparr>lw_inbox := empty_batch\<rparr>, Writing (lw_inbox w), s)"
| step_idle: "batch_empty (lw_inbox w) \<Longrightarrow> lw_stop w \<or> lw_dirty w \<Longrightarrow> lw_step fs (w, Waiting, s) [] (w, Checking, s)"
| step_write: "write_batch fs batch micros1 micros2 (w, s) = Some (w', s') \<Longrightarrow>
    lw_step fs (w, Writing batch, s) [] (w', Checking, s')"
| step_sync: "lw_dirty w \<Longrightarrow> (lw_stop w \<and> batch_empty (lw_inbox w)) \<or> due \<Longrightarrow>
    sync_active fs micros (w, s) = Some (w', s') \<Longrightarrow> lw_step fs (w, Checking, s) [] (w', Checked, s')"
| step_no_sync: "\<not> (lw_dirty w \<and> (lw_stop w \<and> batch_empty (lw_inbox w) \<or> due)) \<Longrightarrow>
    lw_step fs (w, Checking, s) [] (w, Checked, s)"
| step_exit: "lw_stop w \<and> batch_empty (lw_inbox w) \<Longrightarrow> lw_step fs (w, Checked, s) [] (w, Exited, s)"
| step_again: "\<not> (lw_stop w \<and> batch_empty (lw_inbox w)) \<Longrightarrow> lw_step fs (w, Checked, s) [] (w, Waiting, s)"

inductive lw_run :: "('s, 'h, 'r) FileSystem \<Rightarrow> 'h LogWriter \<times> Phase \<times> 's \<Rightarrow> LogRecordView list \<Rightarrow>
    'h LogWriter \<times> Phase \<times> 's \<Rightarrow> bool"
  for fs c where
  run_start: "lw_run fs c [] c"
| run_step: "lw_run fs c rs c' \<Longrightarrow> lw_step fs c' r c'' \<Longrightarrow> lw_run fs c (rs @ r) c''"

end
