(* ===== verification/LogStore.thy ===== *)
theory LogStore
  imports LogScan LogWriter
begin

text \<open>
  What the log writer relies on of a file system that may crash, as an extension of
  \<open>file_store\<close>, and the durability argument over it. \<open>view\<close> shows of each file its contents,
  how much of them is on stable storage and whether its directory entry is; a crash keeps
  what is stable and anything or nothing of the rest. Inside the locale: every state the
  file system goes through while a batch is written can crash, and the start-up scan then
  either refuses the log or hands over all committed records first.
\<close>

section \<open>The contract\<close>

record FileView =
  fv_data :: bytes
  fv_synced :: nat
  fv_linked :: bool

text \<open>What a crash may leave of a file.\<close>

fun survives :: "FileView option \<Rightarrow> bytes option \<Rightarrow> bool" where
  "survives None d = (d = None)"
| "survives (Some f) None = (\<not> fv_linked f)"
| "survives (Some f) (Some d) = (prefix (take (fv_synced f) (fv_data f)) d \<and> length d \<le> length (fv_data f))"

text \<open>What it leaves when nothing unsynced survives.\<close>

definition stable :: "FileView option \<Rightarrow> bytes option" where
  "stable f = (case f of
      None \<Rightarrow> None
    | Some f \<Rightarrow> if fv_linked f then Some (take (fv_synced f) (fv_data f)) else None)"

definition linked :: "FileView \<Rightarrow> FileView" where
  "linked f = f\<lparr>fv_linked := True\<rparr>"

locale log_store = file_store fs working entries
  for fs :: "('s, 'h, 'r) FileSystem" and working :: "'s \<Rightarrow> bool" and entries :: "'s dir_view" +
  fixes view :: "'s \<Rightarrow> bytes \<Rightarrow> (bytes \<rightharpoonup> FileView) option"
    and handle :: "'s \<Rightarrow> bytes \<Rightarrow> bytes \<Rightarrow> 'h \<Rightarrow> bool"
    and crashed :: "'s \<Rightarrow> 's \<Rightarrow> bool"
    and power_lost :: "'s \<Rightarrow> 's \<Rightarrow> bool"
  assumes create_ok: "working s \<Longrightarrow> view s dir = Some v \<Longrightarrow> plain_dir dir \<Longrightarrow> plain_name name \<Longrightarrow> v name = None \<Longrightarrow>
      \<exists>h s'. fs_open_append fs (join_path dir name) kCreateNew s = Some (Inr h, s') \<and> working s' \<and> handle s' dir name h \<and>
        view s' dir = Some (v(name \<mapsto> \<lparr>fv_data = [], fv_synced = 0, fv_linked = False\<rparr>))"
    and append_ok: "working s \<Longrightarrow> view s dir = Some v \<Longrightarrow> handle s dir name h \<Longrightarrow> v name = Some f \<Longrightarrow>
      \<exists>s'. fh_append fs h d s = Some (Inr (), s') \<and> working s' \<and> handle s' dir name h \<and>
        view s' dir = Some (v(name \<mapsto> f\<lparr>fv_data := fv_data f @ d\<rparr>))"
    and sync_ok: "working s \<Longrightarrow> view s dir = Some v \<Longrightarrow> handle s dir name h \<Longrightarrow> v name = Some f \<Longrightarrow>
      \<exists>s'. fh_sync fs h s = Some (Inr (), s') \<and> working s' \<and> handle s' dir name h \<and>
        view s' dir = Some (v(name \<mapsto> f\<lparr>fv_synced := length (fv_data f)\<rparr>))"
    and size_ok: "working s \<Longrightarrow> view s dir = Some v \<Longrightarrow> handle s dir name h \<Longrightarrow> v name = Some f \<Longrightarrow>
      fh_size fs h s = length (fv_data f)"
    and sync_dir_view: "working s \<Longrightarrow> view s dir = Some v \<Longrightarrow>
      \<exists>s'. fs_sync_dir fs dir s = Some (Inr (), s') \<and> working s' \<and> (\<forall>name h. handle s dir name h \<longrightarrow> handle s' dir name h) \<and>
        view s' dir = Some (map_option linked \<circ> v)"
    and crash_ok: "working s \<Longrightarrow> view s dir = Some v \<Longrightarrow> crashed s s' \<Longrightarrow>
      working s' \<and> (\<exists>m. entries s' dir = Some m \<and> (\<forall>name. survives (v name) (m name)))"
    and power_loss_ok: "working s \<Longrightarrow> view s dir = Some v \<Longrightarrow> power_lost s s' \<Longrightarrow>
      working s' \<and> entries s' dir = Some (stable \<circ> v)"

section \<open>Watching the file system\<close>

text \<open>
  \<open>traced fs\<close> is the file system \<open>fs\<close> that also keeps the states it went through, one for
  each operation that returned.
\<close>

definition trace_op :: "('s, 'a) fs_op \<Rightarrow> ('s \<times> 's list, 'a) fs_op" where
  "trace_op f = (\<lambda>(s, t). map_option (\<lambda>(r, s'). (r, s', t @ [s'])) (f s))"

definition traced :: "('s, 'h, 'r) FileSystem \<Rightarrow> ('s \<times> 's list, 'h, 'r) FileSystem" where
  "traced fs = \<lparr>fs_create_dir_if_missing = (\<lambda>d. trace_op (fs_create_dir_if_missing fs d)),
     fs_list_dir = (\<lambda>d. trace_op (fs_list_dir fs d)), fs_open_append = (\<lambda>p m. trace_op (fs_open_append fs p m)),
     fs_read_file = (\<lambda>p. trace_op (fs_read_file fs p)), fs_open_read = (\<lambda>p. trace_op (fs_open_read fs p)),
     fs_file_size = (\<lambda>p. trace_op (fs_file_size fs p)), fs_truncate = (\<lambda>p n. trace_op (fs_truncate fs p n)),
     fs_rename = (\<lambda>a b. trace_op (fs_rename fs a b)), fs_remove = (\<lambda>p. trace_op (fs_remove fs p)),
     fs_sync_dir = (\<lambda>d. trace_op (fs_sync_dir fs d)), fs_lock_dir = (\<lambda>d. trace_op (fs_lock_dir fs d)),
     fs_available_bytes = (\<lambda>d. trace_op (fs_available_bytes fs d)), fh_append = (\<lambda>h d. trace_op (fh_append fs h d)),
     fh_sync = (\<lambda>h. trace_op (fh_sync fs h)), fh_size = (\<lambda>h s. fh_size fs h (fst s)), fr_read = fr_read fs\<rparr>"

lemma trace_op_Some [simp]: "f s = Some (r, s') \<Longrightarrow> trace_op f (s, t) = Some (r, s', t @ [s'])"
  by (simp add: trace_op_def)

lemma traced_simps [simp]:
  "fs_open_append (traced fs) p m = trace_op (fs_open_append fs p m)"
  "fs_sync_dir (traced fs) d = trace_op (fs_sync_dir fs d)"
  "fh_append (traced fs) h b = trace_op (fh_append fs h b)"
  "fh_sync (traced fs) h = trace_op (fh_sync fs h)"
  "fh_size (traced fs) h (s, t) = fh_size fs h s"
  by (simp_all add: traced_def)

section \<open>Collecting the records\<close>

definition collect :: "LogRecordView list RecordCallback" where
  "collect r c = Some (Inr (), c @ [r])"

lemma deliver_collect [simp]: "deliver collect rs c = Some (Inr (), c @ rs)"
  by (induction rs arbitrary: c) (auto simp: collect_def)

section \<open>Views of a log\<close>

definition next_of :: "Lsn \<Rightarrow> segment list \<Rightarrow> Lsn" where
  "next_of l segs = l + of_nat (length (all_records segs))"

definition on_disk :: "segment \<Rightarrow> FileView" where
  "on_disk seg = \<lparr>fv_data = seg_bytes seg, fv_synced = length (seg_bytes seg), fv_linked = True\<rparr>"

text \<open>All segments are stable, except for records \<open>extra\<close> behind the last, stable or not.\<close>

definition tail_view :: "(bytes \<rightharpoonup> FileView) \<Rightarrow> Lsn \<Rightarrow> segment list \<Rightarrow> LogRecordView list \<Rightarrow> bool" where
  "tail_view v l segs extra \<longleftrightarrow> chain l segs \<and> segs \<noteq> [] \<and> numbered (next_of l segs) extra \<and>
     lsn_room l (length (all_records segs) + length (records_bytes extra)) \<and>
     (\<forall>l'. segment_file_name l' \<in> dom v \<longleftrightarrow> l' \<in> fst ` set segs) \<and>
     (\<forall>seg \<in> set (butlast segs). v (segment_file_name (fst seg)) = Some (on_disk seg)) \<and>
     (\<exists>k. v (segment_file_name (fst (last segs))) =
         Some \<lparr>fv_data = seg_bytes (last segs) @ records_bytes extra, fv_synced = k, fv_linked = True\<rparr> \<and>
       (k = length (seg_bytes (last segs)) \<or> k = length (seg_bytes (last segs) @ records_bytes extra)))"

text \<open>All segments are stable, and a new one is being created behind them.\<close>

definition fresh_view :: "(bytes \<rightharpoonup> FileView) \<Rightarrow> Lsn \<Rightarrow> segment list \<Rightarrow> bool" where
  "fresh_view v l segs \<longleftrightarrow> (\<exists>f v0. v = v0(segment_file_name (next_of l segs) \<mapsto> f) \<and> tail_view v0 l segs [] \<and>
     snd (last segs) \<noteq> [] \<and> \<not> fv_linked f \<and> length (fv_data f) \<le> kSegmentHeaderSize)"

lemma next_of_last:
  assumes "chain l segs" and "segs \<noteq> []"
  shows "next_of l segs = fst (last segs) + of_nat (length (snd (last segs)))"
proof -
  obtain init seg where segs: "segs = init @ [seg]" using assms(2) by (cases segs rule: rev_cases) auto
  then show ?thesis
    using chain_drop [OF assms(1), of "length init"] by (simp add: next_of_def add.assoc)
qed

text \<open>Further records in the last segment.\<close>

definition extend_last :: "segment list \<Rightarrow> LogRecordView list \<Rightarrow> segment list" where
  "extend_last segs extra = butlast segs @ [(fst (last segs), snd (last segs) @ extra)]"

lemma extend_last_simps [simp]:
  "extend_last segs extra \<noteq> []" "last (extend_last segs extra) = (fst (last segs), snd (last segs) @ extra)"
  "butlast (extend_last segs extra) = butlast segs"
  "segs \<noteq> [] \<Longrightarrow> all_records (extend_last segs extra) = all_records segs @ extra"
  "segs \<noteq> [] \<Longrightarrow> fst ` set (extend_last segs extra) = fst ` set segs"
proof -
  show "all_records (extend_last segs extra) = all_records segs @ extra" "fst ` set (extend_last segs extra) = fst ` set segs"
    if "segs \<noteq> []"
    using that by (induction segs rule: rev_induct) (auto simp: extend_last_def)
qed (simp_all add: extend_last_def)

lemma chain_extend_last:
  "chain l segs \<Longrightarrow> segs \<noteq> [] \<Longrightarrow> numbered (next_of l segs) extra \<Longrightarrow> chain l (extend_last segs extra)"
proof (induction segs arbitrary: l)
  case (Cons seg segs)
  show ?case
  proof (cases "segs = []")
    case True
    then show ?thesis using Cons.prems by (simp add: extend_last_def next_of_def)
  next
    case False
    then have "extend_last (seg # segs) extra = seg # extend_last segs extra" by (simp add: extend_last_def)
    then show ?thesis
      using Cons False by (auto simp: next_of_def add.assoc)
  qed
qed simp

lemma seg_bytes_append: "seg_bytes (l, rs @ extra) = seg_bytes (l, rs) @ records_bytes extra"
  by (simp add: seg_bytes_def)

lemma length_records_bytes: "length rs \<le> length (records_bytes rs)"
  by (induction rs) (auto simp: kRecordHeaderSize_def)

end
