(* ===== verification/LogCrash.thy ===== *)
theory LogCrash
  imports LogStore
begin

text \<open>
  The start-up scan after a crash, over the contract of \<open>log_store\<close>: from each of the views of a log
  that the writer passes through, recovery hands over the stable records first and then
  either succeeds or refuses with a corruption error; after a loss of power with nothing in flight it succeeds.
\<close>

lemma in_butlast: "x \<in> set xs \<Longrightarrow> x \<noteq> last xs \<Longrightarrow> x \<in> set (butlast xs)"
  by (induction xs) (auto split: if_splits)

lemma survives_on_disk: "survives (Some (on_disk seg)) d \<longleftrightarrow> d = Some (seg_bytes seg)"
  by (cases d) (auto simp: on_disk_def prefix_def)

lemma survives_dom: "survives f d \<Longrightarrow> f = None \<Longrightarrow> d = None"
  by simp

lemma survives_linked: "survives (Some f) d \<Longrightarrow> fv_linked f \<Longrightarrow> \<exists>b. d = Some b \<and>
    prefix (take (fv_synced f) (fv_data f)) b \<and> length b \<le> length (fv_data f)"
  by (cases d) auto

lemma tail_view_log_dir:
  assumes "tail_view v l segs extra" and "\<And>name. survives (v name) (m name)"
  obtains rs rest where "log_dir m l (extend_last segs rs) rest"
proof -
  obtain k where k: "v (segment_file_name (fst (last segs))) =
        Some \<lparr>fv_data = seg_bytes (last segs) @ records_bytes extra, fv_synced = k, fv_linked = True\<rparr>"
      "k = length (seg_bytes (last segs)) \<or> k = length (seg_bytes (last segs) @ records_bytes extra)"
    and ch: "chain l segs" and ne: "segs \<noteq> []"
    and room: "lsn_room l (length (all_records segs) + length (records_bytes extra))"
    and names: "\<And>l'. segment_file_name l' \<in> dom v \<longleftrightarrow> l' \<in> fst ` set segs"
    and datas: "\<And>seg. seg \<in> set (butlast segs) \<Longrightarrow> v (segment_file_name (fst seg)) = Some (on_disk seg)"
    using assms(1) by (auto simp: tail_view_def)
  obtain b where b: "m (segment_file_name (fst (last segs))) = Some b"
      "prefix (take k (seg_bytes (last segs) @ records_bytes extra)) b"
      "length b \<le> length (seg_bytes (last segs) @ records_bytes extra)"
    using assms(2) [of "segment_file_name (fst (last segs))"] survives_linked by (fastforce simp: k(1))
  have "prefix (seg_bytes (last segs)) b" using b(2) k(2) by (auto simp: prefix_def)
  then obtain tail where tail: "b = seg_bytes (last segs) @ tail" by (auto simp: prefix_def)
  obtain rs rest where st: "split_tail (next_of l segs) tail = (rs, rest)" by (cases "split_tail (next_of l segs) tail")
  note sp = split_tail_correct [OF st]
  have "length rs \<le> length (records_bytes extra)"
    using length_records_bytes [of rs] sp b(3) by (simp add: tail)
  then have "lsn_room l (length (all_records segs) + length rs)" using room by (simp add: lsn_room_def)
  moreover have "m (segment_file_name (fst seg)) = Some (seg_bytes seg)" if "seg \<in> set (butlast segs)" for seg
    using assms(2) [of "segment_file_name (fst seg)"] datas [OF that] survives_on_disk by simp
  moreover have "segment_file_name l' \<in> dom m \<longleftrightarrow> l' \<in> fst ` set segs" for l'
  proof (cases "v (segment_file_name l')")
    case None
    then show ?thesis using assms(2) [of "segment_file_name l'"] names [of l'] by auto
  next
    case (Some f)
    then obtain seg where seg: "seg \<in> set segs" "l' = fst seg" using names [of l'] by blast
    have "m (segment_file_name l') \<noteq> None"
    proof (cases "seg = last segs")
      case False
      then have "seg \<in> set (butlast segs)" using seg(1) by (intro in_butlast)
      then show ?thesis using seg calculation(2) by simp
    qed (use seg b(1) in simp)
    then show ?thesis using names [of l'] Some by auto
  qed
  ultimately have "log_dir m l (extend_last segs rs) rest"
    using ch ne sp b(1) chain_extend_last [OF ch ne] unfolding log_dir_def
    by (simp add: seg_bytes_append tail next_of_def add.assoc) 
  then show ?thesis by (rule that)
qed

lemma chain_new_segment:
  "chain l segs \<Longrightarrow> segs \<noteq> [] \<Longrightarrow> snd (last segs) \<noteq> [] \<Longrightarrow> chain l (segs @ [(next_of l segs, [])])"
proof (induction segs arbitrary: l)
  case (Cons seg segs)
  then show ?case
    by (cases "segs = []") (auto simp: next_of_def add.assoc [symmetric])
qed simp

lemma next_not_in:
  assumes "chain l segs" and "segs \<noteq> []" and "snd (last segs) \<noteq> []" and "lsn_room l (length (all_records segs))"
  shows "next_of l segs \<notin> fst ` set segs"
proof -
  have "sorted_wrt (<) (map fst (segs @ [(next_of l segs, [])]))"
    using chain_sorted [OF chain_new_segment [OF assms(1-3)]] assms(4) by simp
  then show ?thesis by (auto simp: sorted_wrt_append)
qed

section \<open>What recovery must do\<close>

text \<open>The scan returns, and has handed over the known records first, if it does not refuse the log.\<close>

definition recovers :: "('s, 'h, 'r) FileSystem \<Rightarrow> bytes \<Rightarrow> Lsn \<Rightarrow> 's \<Rightarrow> LogRecordView list \<Rightarrow> bool" where
  "recovers fs dir after s known \<longleftrightarrow> (\<exists>res rs s'.
     recover_log fs dir \<lparr>replay_after = after\<rparr> collect ([], s) = Some (res, rs, s') \<and> prefix (newer after known) rs \<and>
     (case res of Inl e \<Rightarrow> err_code e = kCorruption \<or> err_code e = kFailedPrecondition | Inr R \<Rightarrow> True))"

text \<open>The scan succeeds and hands over exactly the known records.\<close>

definition recovers_exactly :: "('s, 'h, 'r) FileSystem \<Rightarrow> bytes \<Rightarrow> Lsn \<Rightarrow> 's \<Rightarrow> LogRecordView list \<Rightarrow> bool" where
  "recovers_exactly fs dir after s known \<longleftrightarrow> (\<exists>R s'.
     recover_log fs dir \<lparr>replay_after = after\<rparr> collect ([], s) = Some (Inr R, newer after known, s'))"

text \<open>The part of the log that is asked for is there.\<close>

definition reaches :: "Lsn \<Rightarrow> segment list \<Rightarrow> Lsn \<Rightarrow> bool" where
  "reaches l segs after \<longleftrightarrow> l \<le> after + 1 \<and> unat after < unat l + length (all_records segs)"

lemma recover_log_by:
  assumes "list_segments fs dir s = Some (Inr files, s)"
    and "recover_segments fs dir after on_record (drop (first_needed after files) files) 0 no_log (c, s) = Some (res, c', s')"
  shows "recover_log fs dir \<lparr>replay_after = after\<rparr> on_record (c, s) = (case res of
      Inl e \<Rightarrow> Some (Inl e, c', s')
    | Inr (x, R) \<Rightarrow>
        let R = R\<lparr>rl_last_lsn := (if x = 0 then after else x - 1)\<rparr> in
        if rl_last_lsn R < after then
          Some (Inl (mk_error kCorruption [FS ''log ends at LSN '', FU (unat (rl_last_lsn R)),
            FS '' but the snapshot covers LSN '', FU (unat after), FS '': the log lost acknowledged records'']), c', s')
        else Some (Inr R, c', s'))"
  using assms by (cases res) (auto simp: recover_log_def Let_def)

context log_store
begin

lemma recovers_log_dir:
  assumes "working s" and "entries s dir = Some m" and "plain_dir dir" and "log_dir m l segs tail" and "reaches l segs after"
  shows "(tail = [] \<longrightarrow> recovers_exactly fs dir after s (all_records segs)) \<and>
    (prefix known (all_records segs) \<longrightarrow> recovers fs dir after s known)"
proof -
  have d: "deliver collect (newer (replay_after \<lparr>replay_after = after\<rparr>) (all_records segs)) [] =
      Some (Inr (), newer after (all_records segs))"
    by simp
  from assms(5) have "l \<le> replay_after \<lparr>replay_after = after\<rparr> + 1"
    "unat (replay_after \<lparr>replay_after = after\<rparr>) < unat l + length (all_records segs)" by (auto simp: reaches_def)
  note run = recover_log_dir [OF assms(1-4) this d]
  have "prefix (newer after known) (newer after (all_records segs))" if "prefix known (all_records segs)"
    using that by (auto simp: prefix_def)
  then show ?thesis
    using run unfolding recovers_def recovers_exactly_def
    by (cases "tail \<noteq> [] \<and> refused_tail (last segs) tail") fastforce+
qed

lemma tail_recovers:
  assumes "working s" and "view s dir = Some v" and "plain_dir dir" and "tail_view v l segs extra" and "reaches l segs after"
    and "crashed s s'"
  shows "recovers fs dir after s' (all_records segs)"
proof -
  obtain m where m: "working s'" "entries s' dir = Some m" "\<And>name. survives (v name) (m name)"
    using crash_ok [OF assms(1,2,6)] by blast
  obtain rs rest where dir: "log_dir m l (extend_last segs rs) rest"
    using tail_view_log_dir [OF assms(4) m(3)] by blast
  have ne: "segs \<noteq> []" using assms(4) by (auto simp: tail_view_def)
  then have "reaches l (extend_last segs rs) after" using assms(5) by (auto simp: reaches_def)
  then show ?thesis
    using recovers_log_dir [OF m(1,2) assms(3) dir, of after "all_records segs"] ne by simp
qed

lemma tail_power_loss:
  assumes "working s'" and "entries s' dir = Some (stable \<circ> v)" and "plain_dir dir" and "tail_view v l segs extra"
    and "reaches l segs after"
  shows "recovers_exactly fs dir after s' (all_records segs) \<or> recovers_exactly fs dir after s' (all_records segs @ extra)"
proof -
  obtain k where k: "v (segment_file_name (fst (last segs))) =
        Some \<lparr>fv_data = seg_bytes (last segs) @ records_bytes extra, fv_synced = k, fv_linked = True\<rparr>"
      "k = length (seg_bytes (last segs)) \<or> k = length (seg_bytes (last segs) @ records_bytes extra)"
    and tv: "chain l segs" "segs \<noteq> []" "numbered (next_of l segs) extra"
      "lsn_room l (length (all_records segs) + length (records_bytes extra))"
      "\<And>l'. segment_file_name l' \<in> dom v \<longleftrightarrow> l' \<in> fst ` set segs"
      "\<And>seg. seg \<in> set (butlast segs) \<Longrightarrow> v (segment_file_name (fst seg)) = Some (on_disk seg)"
    using assms(4) by (auto simp: tail_view_def)
  have link: "fv_linked f" if f: "v (segment_file_name l') = Some f" for l' f
  proof -
    obtain seg where seg: "seg \<in> set segs" "l' = fst seg" using tv(5) [of l'] f by blast
    consider "seg = last segs" | "seg \<in> set (butlast segs)"
      using in_butlast [OF seg(1)] by blast
    then show ?thesis using seg f k(1) tv(6) by cases (auto simp: on_disk_def)
  qed
  have names: "segment_file_name l' \<in> dom (stable \<circ> v) \<longleftrightarrow> l' \<in> fst ` set segs" for l'
    using tv(5) [of l'] link [of l'] by (auto simp: stable_def split: option.splits)
  have datas: "(stable \<circ> v) (segment_file_name (fst seg)) = Some (seg_bytes seg)" if "seg \<in> set (butlast segs)" for seg
    using tv(6) [OF that] by (simp add: stable_def on_disk_def)
  have fin: "\<not> continues x []" for x by (simp add: continues_def parse_record_def no_record_def)
  have room: "lsn_room l (length (all_records segs) + n)" if "n \<le> length (records_bytes extra)" for n
    using tv(4) that by (simp add: lsn_room_def)
  from k(2) show ?thesis
  proof
    assume "k = length (seg_bytes (last segs))"
    then have "log_dir (stable \<circ> v) l segs []"
      using tv names datas k(1) fin room [of 0] by (simp add: log_dir_def stable_def)
    then show ?thesis using recovers_log_dir [OF assms(1-3) _ assms(5)] by blast
  next
    assume full: "k = length (seg_bytes (last segs) @ records_bytes extra)"
    have "log_dir (stable \<circ> v) l (extend_last segs extra) []"
      using tv names datas k(1) fin room [of "length extra"] length_records_bytes [of extra] full
        chain_extend_last [OF tv(1-3)]
      by (simp add: log_dir_def stable_def seg_bytes_append)
    moreover have "reaches l (extend_last segs extra) after" using assms(5) tv(2) by (auto simp: reaches_def)
    ultimately show ?thesis
      using recovers_log_dir [OF assms(1-3), of l "extend_last segs extra" "[]" after] tv(2) by auto
  qed
qed

text \<open>A file with nothing but (part of) a header at the end of the log.\<close>

lemma recover_fresh_file:
  assumes "working s" and "entries s dir = Some m" and "plain_dir dir" and "m (segment_file_name l) = Some d"
    and "length d \<le> kSegmentHeaderSize" and "l \<noteq> 0" and "expected = l \<or> expected = 0 \<and> l \<le> after + 1"
  shows "\<exists>res s'. recover_segments fs dir after on_record [seg_file l] expected R (c, s) = Some (res, c, s') \<and>
    (case res of Inl e \<Rightarrow> err_code e = kCorruption \<or> err_code e = kFailedPrecondition
     | Inr (x, R') \<Rightarrow> x = expected \<or> x = l)"
proof (cases "parse_segment_header d")
  case (Inl e)
  have code: "err_code e = kCorruption \<or> err_code e = kFailedPrecondition"
    using Inl by (auto simp: parse_segment_header_def Let_def split: if_splits prod.splits)
  show ?thesis
  proof (cases "err_code e = kCorruption \<and> \<not> valid_record_follows d 0 l")
    case True
    then show ?thesis
      using recover_torn_creation [OF assms(1-4) _ Inl, of expected after on_record R c] assms(7) by auto
  next
    case False
    then show ?thesis
      using read_file_ok [OF assms(1-3) plain_segment_name assms(4)] Inl code assms(6,7)
      by (auto simp: recover_segments.simps(2) seg_file_def)
  qed
next
  case (Inr h)
  have "scan_records n b d after on_record kSegmentHeaderSize x k c = Some (Scan_end, kSegmentHeaderSize, x, k, c)" for n b x k
    using assms(5) by (subst scan_records.simps) (simp add: parse_record_def no_record_def)
  then show ?thesis
    using read_file_ok [OF assms(1-3) plain_segment_name assms(4)] Inr assms(6,7)
    by (auto simp: recover_segments.simps(2) seg_file_def Let_def)
qed

lemma recover_log_fresh:
  assumes "working s" and "entries s dir = Some m" and "plain_dir dir" and "reaches l segs after"
    and "chain l segs" and "segs \<noteq> []" and "snd (last segs) \<noteq> []" and "lsn_room l (length (all_records segs))"
    and "\<And>l'. segment_file_name l' \<in> dom m \<longleftrightarrow> l' \<in> insert (next_of l segs) (fst ` set segs)"
    and "\<And>seg. seg \<in> set segs \<Longrightarrow> m (segment_file_name (fst seg)) = Some (seg_bytes seg)"
    and "m (segment_file_name (next_of l segs)) = Some d" and "length d \<le> kSegmentHeaderSize"
  shows "recovers fs dir after s (all_records segs)"
proof -
  let ?nx = "next_of l segs"
  let ?segs = "segs @ [(?nx, [])]"
  let ?files = "map (seg_file \<circ> fst) ?segs"
  have ch: "chain l ?segs" by (rule chain_new_segment [OF assms(5-7)])
  have room: "lsn_room l (length (all_records ?segs))" using assms(8) by simp
  have "map seg_file (map fst ?segs) = ?files" by simp
  then have list: "list_segments fs dir s = Some (Inr ?files, s)"
    using list_segments_sorted [OF assms(1,2), of "map fst ?segs"] chain_sorted [OF ch room] assms(9) by simp
  have la: "l \<le> after + 1" using assms(4) by (simp add: reaches_def)
  have ne: "?segs \<noteq> []" and last: "last ?segs = (?nx, [])" by simp_all
  obtain init lk where nd: "drop (first_needed after ?files) ?segs = init @ [(?nx, [])]"
      "set init \<subseteq> set (butlast ?segs)" "chain lk (init @ [(?nx, [])])"
      "lsn_room lk (length (all_records init) + length ([] :: LogRecordView list))" "lk \<le> after + 1"
    and new: "newer after (all_records ?segs) = newer after (all_records init @ [])"
    using needed_segments [OF ch ne room la last] by blast
  have files: "drop (first_needed after ?files) ?files = map (seg_file \<circ> fst) init @ [seg_file ?nx]"
    by (simp only: drop_map nd) simp
  have lki: "chain lk init" "?nx = lk + of_nat (length (all_records init))"
    using chain_take [OF nd(3), of "length init"] chain_drop [OF nd(3), of "length init"] by auto
  have initd: "m (segment_file_name (fst seg)) = Some (seg_bytes seg)" if "seg \<in> set init" for seg
    using that nd(2) by (intro assms(10)) (auto simp: butlast_append)
  let ?x = "if init = [] then 0 else ?nx"
  have run: "recover_segments fs dir after collect (drop (first_needed after ?files) ?files) 0 no_log ([], s) =
      recover_segments fs dir after collect [seg_file ?nx] ?x (fold (note_segment after) init no_log)
        (newer after (all_records segs), s)"
    unfolding files using recover_chain [OF assms(1-3) lki(1) initd _ _ deliver_collect, of 0 after "[seg_file ?nx]" no_log "[]"]
      nd(4,5) new lki(2) by simp
  have nx0: "?nx \<noteq> 0" and unx: "unat ?nx = unat l + length (all_records segs)"
    using lsn_room_plus [of l "length (all_records segs)" 0] assms(8) by (auto simp: next_of_def lsn_room_def)
  have cond: "?x = ?nx \<or> ?x = 0 \<and> ?nx \<le> after + 1" using nd(5) lki(2) by auto
  obtain res s' where res: "recover_segments fs dir after collect [seg_file ?nx] ?x (fold (note_segment after) init no_log)
        (newer after (all_records segs), s) = Some (res, newer after (all_records segs), s')"
      "case res of Inl e \<Rightarrow> err_code e = kCorruption \<or> err_code e = kFailedPrecondition | Inr (x, R') \<Rightarrow> x = ?x \<or> x = ?nx"
    using recover_fresh_file [OF assms(1-3,11,12) nx0 cond, of collect "fold (note_segment after) init no_log"
        "newer after (all_records segs)"] by blast
  have "unat (?nx - 1) = unat ?nx - 1" using nx0 unat_gt_0 [of ?nx] by (simp add: unat_sub word_le_nat_alt Suc_le_eq)
  then have "\<not> ?nx - 1 < after" using assms(4) unx by (auto simp: reaches_def word_less_nat_alt)
  then show ?thesis
    using res(2) unfolding recovers_def recover_log_by [OF list run [unfolded res(1)]]
    by (cases res) (auto simp: Let_def split: if_splits)
qed

lemma fresh_recovers:
  assumes "working s" and "view s dir = Some v" and "plain_dir dir" and "fresh_view v l segs" and "reaches l segs after"
    and "crashed s s'"
  shows "recovers fs dir after s' (all_records segs)"
proof -
  let ?n = "segment_file_name (next_of l segs)"
  obtain f v0 where v: "v = v0(?n \<mapsto> f)" and tv: "tail_view v0 l segs []"
    and last: "snd (last segs) \<noteq> []" and f: "\<not> fv_linked f" "length (fv_data f) \<le> kSegmentHeaderSize"
    using assms(4) by (auto simp: fresh_view_def)
  obtain m where m: "working s'" "entries s' dir = Some m" "\<And>name. survives (v name) (m name)"
    using crash_ok [OF assms(1,2,6)] by blast
  have ch: "chain l segs" "segs \<noteq> []" and room: "lsn_room l (length (all_records segs))"
    and names: "\<And>l'. segment_file_name l' \<in> dom v0 \<longleftrightarrow> l' \<in> fst ` set segs"
    using tv by (auto simp: tail_view_def)
  have new: "v0 ?n = None" using names next_not_in [OF ch last room] by auto
  have sv: "survives (v0 name) ((m(?n := None)) name)" for name
    using m(3) [of name] new by (auto simp: v split: if_splits)
  obtain rs rest where dir0: "log_dir (m(?n := None)) l (extend_last segs rs) rest"
    using tail_view_log_dir [OF tv sv] by blast
  have stable: "m (segment_file_name (fst seg)) = Some (seg_bytes seg)" if "seg \<in> set segs" for seg
  proof -
    have "fst seg \<noteq> next_of l segs" using next_not_in [OF ch last room] that by (metis image_eqI)
    moreover have "v0 (segment_file_name (fst seg)) = Some (on_disk seg)"
      using tv that by (cases "seg = last segs") (auto simp: tail_view_def on_disk_def dest: in_butlast)
    ultimately show ?thesis using m(3) [of "segment_file_name (fst seg)"] survives_on_disk by (simp add: v)
  qed
  show ?thesis
  proof (cases "m ?n")
    case None
    then have "m(?n := None) = m" by auto
    moreover have "reaches l (extend_last segs rs) after" using assms(5) ch(2) by (auto simp: reaches_def)
    ultimately show ?thesis
      using recovers_log_dir [OF m(1,2) assms(3), of l "extend_last segs rs" rest after "all_records segs"] dir0 ch(2) by simp
  next
    case (Some d)
    have "length d \<le> kSegmentHeaderSize" using m(3) [of ?n] f(2) Some by (simp add: v)
    moreover have "segment_file_name l' \<in> dom m \<longleftrightarrow> l' \<in> insert (next_of l segs) (fst ` set segs)" for l'
    proof -
      have "segment_file_name l' \<in> dom (m(?n := None)) \<longleftrightarrow> l' \<in> fst ` set segs"
        using dir0 ch(2) by (simp add: log_dir_def del: dom_fun_upd fun_upd_apply)
      then show ?thesis using Some by (cases "l' = next_of l segs") auto
    qed
    ultimately show ?thesis
      using recover_log_fresh [OF m(1,2) assms(3,5) ch last room _ stable Some] by blast
  qed
qed

lemma fresh_power_loss:
  assumes "working s'" and "entries s' dir = Some (stable \<circ> v)" and "plain_dir dir" and "fresh_view v l segs"
    and "reaches l segs after"
  shows "recovers_exactly fs dir after s' (all_records segs)"
proof -
  obtain f v0 where v: "v = v0(segment_file_name (next_of l segs) \<mapsto> f)" and tv: "tail_view v0 l segs []"
    and last: "snd (last segs) \<noteq> []" and f: "\<not> fv_linked f"
    using assms(4) by (auto simp: fresh_view_def)
  have "v0 (segment_file_name (next_of l segs)) = None"
    using tv next_not_in [of l segs] last by (auto simp: tail_view_def)
  then have "stable \<circ> v = stable \<circ> v0" using f by (auto simp: v stable_def fun_eq_iff)
  then show ?thesis
    using tail_power_loss [OF assms(1) _ assms(3) tv assms(5)] assms(2) by auto
qed

end

end
