(* ===== verification/LogDurable.thy ===== *)
theory LogDurable
  imports LogCrash
begin

text \<open>
  The log writer over the contract of \<open>log_store\<close>, with a sync for every batch. Writing a
  batch never fails on a working file system, adds exactly the records of the batch, and
  passes only through states from which a crash keeps everything that was committed; the
  invariant of owner thread and log thread is kept by every step of \<open>lw_step\<close>.
\<close>

section \<open>Batches and the invariant\<close>

definition batch_holds :: "Lsn \<Rightarrow> LogRecordView list \<Rightarrow> Batch \<Rightarrow> bool" where
  "batch_holds l rs b \<longleftrightarrow> b_bytes b = records_bytes rs \<and> numbered l rs \<and> b_records b = of_nat (length rs) \<and>
     length rs < 2 ^ 32 \<and> (rs \<noteq> [] \<longrightarrow> b_first_lsn b = l \<and> b_last_lsn b = l + of_nat (length rs) - 1)"

text \<open>The views a log of records \<open>segs\<close> may have while a batch \<open>rs\<close> is written to it.\<close>

definition passing_view :: "(bytes \<rightharpoonup> FileView) \<Rightarrow> Lsn \<Rightarrow> LogRecordView list \<Rightarrow> LogRecordView list \<Rightarrow> bool" where
  "passing_view v l known rs \<longleftrightarrow> (\<exists>segs. all_records segs = known \<and>
     (tail_view v l segs [] \<or> tail_view v l segs rs \<or> fresh_view v l segs))"

lemma tail_view_new_file:
  assumes "tail_view v l segs []" and "snd (last segs) \<noteq> []"
  shows "v (segment_file_name (next_of l segs)) = None"
  using assms next_not_in [of l segs] by (auto simp: tail_view_def)

lemma tail_view_last: "tail_view v l segs [] \<Longrightarrow> v (segment_file_name (fst (last segs))) = Some (on_disk (last segs))"
  by (auto simp: tail_view_def on_disk_def)

lemma tail_view_seg:
  assumes "tail_view v l segs []" and "seg \<in> set segs"
  shows "v (segment_file_name (fst seg)) = Some (on_disk seg)"
  using assms tail_view_last [OF assms(1)] by (cases "seg = last segs") (auto simp: tail_view_def dest: in_butlast)

lemma tail_view_names: "tail_view v l segs extra \<Longrightarrow> segment_file_name l' \<in> dom v \<longleftrightarrow> l' \<in> fst ` set segs"
  by (simp add: tail_view_def)

lemma tail_view_linked:
  assumes "tail_view v l segs []" and "snd (last segs) \<noteq> []"
  shows "tail_view (map_option linked \<circ> v(segment_file_name (next_of l segs) \<mapsto>
      \<lparr>fv_data = header_bytes (next_of l segs), fv_synced = kSegmentHeaderSize, fv_linked = False\<rparr>)) l
    (segs @ [(next_of l segs, [])]) []"
proof -
  let ?n = "next_of l segs"
  have tv: "chain l segs" "segs \<noteq> []" "lsn_room l (length (all_records segs))" using assms(1) by (auto simp: tail_view_def)
  have nin: "?n \<notin> fst ` set segs" by (rule next_not_in [OF tv(1,2) assms(2) tv(3)])
  have seg: "map_option linked (v (segment_file_name (fst seg))) = Some (on_disk seg)" if "seg \<in> set segs" for seg
    using tail_view_seg [OF assms(1) that] by (simp add: linked_def on_disk_def)
  have ne: "fst seg \<noteq> ?n" if "seg \<in> set segs" for seg using nin that by (metis image_eqI)
  show ?thesis
    unfolding tail_view_def
    using chain_new_segment [OF tv(1,2) assms(2)] tv(3) seg ne tail_view_names [OF assms(1)]
    by (auto simp: linked_def seg_bytes_def butlast_append dom_def)
qed

lemma tail_view_appended:
  assumes "tail_view v l segs []" and "numbered (next_of l segs) rs"
    and "lsn_room l (length (all_records segs) + length (records_bytes rs))"
    and "k = length (seg_bytes (last segs)) \<or> k = length (seg_bytes (last segs) @ records_bytes rs)"
  shows "tail_view (v(segment_file_name (fst (last segs)) \<mapsto>
      \<lparr>fv_data = seg_bytes (last segs) @ records_bytes rs, fv_synced = k, fv_linked = True\<rparr>)) l segs rs"
proof -
  have tv: "chain l segs" "segs \<noteq> []" "lsn_room l (length (all_records segs))" using assms(1) by (auto simp: tail_view_def)
  have "distinct (map fst segs)" using chain_sorted [OF tv(1,3)] by (simp add: strict_sorted_iff)
  then have ne: "fst seg \<noteq> fst (last segs)" if "seg \<in> set (butlast segs)" for seg
    using tv(2) that by (cases segs rule: rev_cases) auto
  show ?thesis
    unfolding tail_view_def
    using tv(1,2) assms tail_view_names [OF assms(1)] tail_view_seg [OF assms(1)] ne
    by (auto simp: dom_def dest: in_set_butlastD)
qed

lemma tail_view_absorb:
  assumes "tail_view (v(segment_file_name (fst (last segs)) \<mapsto> \<lparr>fv_data = seg_bytes (last segs) @ records_bytes rs,
      fv_synced = length (seg_bytes (last segs) @ records_bytes rs), fv_linked = True\<rparr>)) l segs rs"
  shows "tail_view (v(segment_file_name (fst (last segs)) \<mapsto> \<lparr>fv_data = seg_bytes (last segs) @ records_bytes rs,
      fv_synced = length (seg_bytes (last segs) @ records_bytes rs), fv_linked = True\<rparr>)) l (extend_last segs rs) []"
proof -
  have tv: "chain l segs" "segs \<noteq> []" "numbered (next_of l segs) rs"
    "lsn_room l (length (all_records segs) + length (records_bytes rs))" using assms by (auto simp: tail_view_def)
  show ?thesis
    using assms chain_extend_last [OF tv(1-3)] tv(2,4) length_records_bytes [of rs]
    unfolding tail_view_def by (auto simp: seg_bytes_append lsn_room_def)
qed

section \<open>The owner's operations on batches\<close>

lemma batch_holds_empty [simp]: "batch_holds l rs empty_batch \<longleftrightarrow> rs = []"
  by (auto simp: batch_holds_def empty_batch_def records_bytes_def unat_of_nat dest!: arg_cong [of _ _ unat])

lemma batch_holds_is_empty: "batch_holds l rs b \<Longrightarrow> batch_empty b \<longleftrightarrow> rs = []"
  by (auto simp: batch_holds_def batch_empty_def unat_of_nat dest!: arg_cong [of _ _ unat])

lemma batch_holds_join:
  assumes "batch_holds l rs b" and "batch_holds (l + of_nat (length rs)) rs' b'" and "rs \<noteq> []" and "rs' \<noteq> []"
    and "length (rs @ rs') < 2 ^ 32"
  shows "batch_holds l (rs @ rs') (b\<lparr>b_bytes := b_bytes b @ b_bytes b', b_last_lsn := b_last_lsn b', b_records := b_records b + b_records b'\<rparr>)"
  using assms by (auto simp: batch_holds_def algebra_simps)

lemma append_log_holds:
  assumes "append_log type payload w = Some (lsn, w')" and "batch_holds l rs (lw_pending w)"
    and "lw_next_lsn w = l + of_nat (length rs)" and "length rs + 1 < 2 ^ 32"
  shows "\<exists>p n. lsn = lw_next_lsn w \<and> w' = w\<lparr>lw_next_lsn := lw_next_lsn w + 1, lw_pending := p, lw_appended_bytes := n\<rparr> \<and>
    batch_holds l (rs @ [\<lparr>lv_lsn = lsn, lv_type = type, lv_payload = payload\<rparr>]) p"
proof -
  let ?r = "\<lparr>lv_lsn = lw_next_lsn w, lv_type = type, lv_payload = payload\<rparr>"
  let ?p = "\<lparr>b_bytes = b_bytes (lw_pending w) @ record_bytes ?r,
        b_first_lsn = (if b_records (lw_pending w) = 0 then lw_next_lsn w else b_first_lsn (lw_pending w)),
        b_last_lsn = lw_next_lsn w, b_records = b_records (lw_pending w) + 1\<rparr>"
  have run: "\<not> lw_stopped w" and len: "length payload \<le> kMaxRecordPayload" "lw_next_lsn w \<noteq> 0"
    using assms(1) by (auto simp: append_log_def append_record_eq Let_def baton_check_def split: if_splits bind_splits)
  have "append_log type payload w = Some (lw_next_lsn w, w\<lparr>lw_next_lsn := lw_next_lsn w + 1, lw_pending := ?p,
      lw_appended_bytes := lw_appended_bytes w + of_nat (length (record_bytes ?r))\<rparr>)"
    using run len by (simp add: append_log_def append_record_eq Let_def)
  then have lsn: "lsn = lw_next_lsn w"
    and w': "\<exists>n. w' = w\<lparr>lw_next_lsn := lw_next_lsn w + 1, lw_pending := ?p, lw_appended_bytes := n\<rparr>"
    using assms(1) by (simp_all only: option.inject prod.inject) blast
  have fit: "fits ?r" using len by (simp add: fits_def)
  have "b_records (lw_pending w) = 0 \<longleftrightarrow> rs = []"
    using batch_holds_is_empty [OF assms(2)] by (simp add: batch_empty_def)
  then have "batch_holds l (rs @ [?r]) ?p"
    using assms(2-4) fit by (auto simp: batch_holds_def)
  then show ?thesis using w' lsn by (intro exI [of _ ?p]) simp
qed

lemma flush_log_holds:
  assumes "batch_holds l is (lw_inbox w)" and "batch_holds (l + of_nat (length is)) ps (lw_pending w)"
    and "length (is @ ps) < 2 ^ 32"
  shows "\<exists>i p. flush_log w = w\<lparr>lw_inbox := i, lw_pending := p\<rparr> \<and> batch_holds l (is @ ps) i \<and> batch_empty p \<and>
    batch_holds (l + of_nat (length (is @ ps))) [] p"
proof (cases "ps = []")
  case True
  then show ?thesis
    using assms batch_holds_is_empty [OF assms(2)]
    by (intro exI [of _ "lw_inbox w"] exI [of _ "lw_pending w"]) (simp add: flush_log_def)
next
  case False
  have "batch_empty empty_batch" by (simp add: batch_empty_def empty_batch_def)
  then show ?thesis
    using False assms batch_holds_is_empty [OF assms(1)] batch_holds_is_empty [OF assms(2)] batch_holds_join [OF assms(1,2)]
    by (intro exI [of _ "lw_inbox (flush_log w)"] exI [of _ empty_batch], cases "is = []")
      (auto simp: flush_log_def Let_def)
qed

section \<open>The invariant of a writer\<close>

definition in_hand :: "Phase \<Rightarrow> Lsn \<Rightarrow> LogRecordView list \<Rightarrow> bool" where
  "in_hand ph l rs \<longleftrightarrow> (case ph of Writing b \<Rightarrow> batch_holds l rs b \<and> rs \<noteq> [] | _ \<Rightarrow> rs = [])"

text \<open>
  The records appended so far are on disk (\<open>known\<close>), in the hands of the log thread, in the
  inbox or pending, in this order; exactly those on disk are committed.
\<close>

definition synced_writer :: "bytes \<Rightarrow> 'h LogWriter \<Rightarrow> bool" where
  "synced_writer dir w \<longleftrightarrow> \<not> lw_dirty w \<and> lo_dir (lw_options w) = dir \<and> lo_fsync_policy (lw_options w) = kAlways \<and>
     kSegmentHeaderSize + kRecordHeaderSize \<le> lo_segment_size (lw_options w)"

definition writer_holds :: "bytes \<Rightarrow> Lsn \<Rightarrow> LogRecordView list \<Rightarrow> LogRecordView list \<Rightarrow> 'h LogWriter \<Rightarrow> Phase \<Rightarrow> bool" where
  "writer_holds dir l known appended w ph \<longleftrightarrow> (\<exists>bs is ps. appended = known @ bs @ is @ ps \<and>
     in_hand ph (l + of_nat (length known)) bs \<and>
     batch_holds (l + of_nat (length (known @ bs))) is (lw_inbox w) \<and>
     batch_holds (l + of_nat (length (known @ bs)) + of_nat (length is)) ps (lw_pending w) \<and>
     lw_next_lsn w = l + of_nat (length appended) \<and> lw_committed_lsn w = l + of_nat (length known) - 1 \<and>
     synced_writer dir w)"

lemma writer_holdsI:
  assumes "appended = known @ bs @ is @ ps" and "in_hand ph (l + of_nat (length known)) bs"
    and "batch_holds (l + of_nat (length (known @ bs))) is (lw_inbox w)"
    and "batch_holds (l + of_nat (length (known @ bs)) + of_nat (length is)) ps (lw_pending w)"
    and "lw_next_lsn w = l + of_nat (length appended)" and "lw_committed_lsn w = l + of_nat (length known) - 1"
    and "synced_writer dir w"
  shows "writer_holds dir l known appended w ph"
  using assms unfolding writer_holds_def by blast

lemma writer_holdsE:
  assumes "writer_holds dir l known appended w ph"
  obtains bs "is" ps where "appended = known @ bs @ is @ ps" and "in_hand ph (l + of_nat (length known)) bs"
    and "batch_holds (l + of_nat (length (known @ bs))) is (lw_inbox w)"
    and "batch_holds (l + of_nat (length (known @ bs)) + of_nat (length is)) ps (lw_pending w)"
    and "lw_next_lsn w = l + of_nat (length appended)" and "lw_committed_lsn w = l + of_nat (length known) - 1"
    and "synced_writer dir w"
  using assms unfolding writer_holds_def by blast

text \<open>Room for the records of a run: their LSNs, their bytes and the counter of a batch.\<close>

definition log_room :: "Lsn \<Rightarrow> LogRecordView list \<Rightarrow> bool" where
  "log_room l rs \<longleftrightarrow> lsn_room l (length (records_bytes rs)) \<and> length rs < 2 ^ 32"

lemma log_room_append: "log_room l (rs @ rs') \<Longrightarrow> log_room l rs"
  by (simp add: log_room_def lsn_room_def)

lemma writer_holds_append:
  assumes "writer_holds dir l known appended w ph" and "append_log type payload w = Some (lsn, w')"
    and "log_room l (appended @ [\<lparr>lv_lsn = lsn, lv_type = type, lv_payload = payload\<rparr>])"
  shows "writer_holds dir l known (appended @ [\<lparr>lv_lsn = lsn, lv_type = type, lv_payload = payload\<rparr>]) w' ph \<and>
    lw_active w' = lw_active w"
proof -
  let ?r = "\<lparr>lv_lsn = lsn, lv_type = type, lv_payload = payload\<rparr>"
  from assms(1) obtain bs "is" ps where wh: "appended = known @ bs @ is @ ps" "in_hand ph (l + of_nat (length known)) bs"
      "batch_holds (l + of_nat (length (known @ bs))) is (lw_inbox w)"
      "batch_holds (l + of_nat (length (known @ bs)) + of_nat (length is)) ps (lw_pending w)"
      "lw_next_lsn w = l + of_nat (length appended)"
    and rest: "lw_committed_lsn w = l + of_nat (length known) - 1" "synced_writer dir w"
    by (rule writer_holdsE)
  have nx: "lw_next_lsn w = l + of_nat (length (known @ bs)) + of_nat (length is) + of_nat (length ps)"
    using wh(1,5) by (simp add: add.assoc)
  have "length ps + 1 < 2 ^ 32" using assms(3) wh(1) by (simp add: log_room_def)
  from append_log_holds [OF assms(2) wh(4) nx this]
  obtain p n where p: "lsn = lw_next_lsn w" "w' = w\<lparr>lw_next_lsn := lw_next_lsn w + 1, lw_pending := p, lw_appended_bytes := n\<rparr>"
    "batch_holds (l + of_nat (length (known @ bs)) + of_nat (length is)) (ps @ [?r]) p" by blast
  have "writer_holds dir l known (appended @ [?r]) w' ph"
    by (rule writer_holdsI [of _ _ bs "is" "ps @ [?r]"]) (use wh rest p in \<open>simp_all add: synced_writer_def\<close>)
  then show ?thesis by (simp add: p(2))
qed

lemma writer_holds_flush:
  assumes "writer_holds dir l known appended w ph" and "log_room l appended"
  shows "writer_holds dir l known appended (flush_log w) ph \<and> lw_active (flush_log w) = lw_active w"
proof -
  from assms(1) obtain bs "is" ps where wh: "appended = known @ bs @ is @ ps" "in_hand ph (l + of_nat (length known)) bs"
      "batch_holds (l + of_nat (length (known @ bs))) is (lw_inbox w)"
      "batch_holds (l + of_nat (length (known @ bs)) + of_nat (length is)) ps (lw_pending w)"
      "lw_next_lsn w = l + of_nat (length appended)"
    and rest: "lw_committed_lsn w = l + of_nat (length known) - 1" "synced_writer dir w"
    by (rule writer_holdsE)
  have "length (is @ ps) < 2 ^ 32" using assms(2) wh(1) by (simp add: log_room_def)
  from flush_log_holds [OF wh(3,4) this] obtain i p where fl: "flush_log w = w\<lparr>lw_inbox := i, lw_pending := p\<rparr>"
    "batch_holds (l + of_nat (length (known @ bs))) (is @ ps) i"
    "batch_holds (l + of_nat (length (known @ bs)) + of_nat (length (is @ ps))) [] p" by blast
  have "writer_holds dir l known appended (flush_log w) ph"
    by (rule writer_holdsI [of _ _ bs "is @ ps" "[]"]) (use wh rest fl in \<open>simp_all add: synced_writer_def\<close>)
  then show ?thesis by (simp add: fl(1))
qed

lemma writer_holds_phase:
  assumes "writer_holds dir l known appended w ph" and "\<And>b. ph \<noteq> Writing b" and "\<And>b. ph' \<noteq> Writing b"
  shows "writer_holds dir l known appended w ph'"
proof -
  have "in_hand ph x bs = in_hand ph' x bs" for x bs
    using assms(2,3) by (cases ph; cases ph') (auto simp: in_hand_def)
  then show ?thesis using assms(1) by (simp add: writer_holds_def)
qed

lemma writer_holds_take:
  assumes "writer_holds dir l known appended w Waiting" and "\<not> batch_empty (lw_inbox w)"
  shows "writer_holds dir l known appended (w\<lparr>lw_inbox := empty_batch\<rparr>) (Writing (lw_inbox w))"
proof -
  from assms(1) obtain bs "is" ps where wh: "appended = known @ bs @ is @ ps" "in_hand Waiting (l + of_nat (length known)) bs"
      "batch_holds (l + of_nat (length (known @ bs))) is (lw_inbox w)"
      "batch_holds (l + of_nat (length (known @ bs)) + of_nat (length is)) ps (lw_pending w)"
      "lw_next_lsn w = l + of_nat (length appended)"
    and rest: "lw_committed_lsn w = l + of_nat (length known) - 1" "synced_writer dir w"
    by (rule writer_holdsE)
  have "bs = []" using wh(2) by (simp add: in_hand_def)
  then show ?thesis
    using wh rest assms(2) batch_holds_is_empty [OF wh(3)]
    by (intro writer_holdsI [of _ _ "is" "[]" ps]) (simp_all add: synced_writer_def in_hand_def add.assoc)
qed

text \<open>A step either leaves the disk alone or writes the batch in hand.\<close>

lemma lw_step_holds:
  assumes "lw_step fs (w, ph, s) r (w', ph', s')" and "writer_holds dir l known appended w ph" and "log_room l (appended @ r)"
  shows "s' = s \<and> writer_holds dir l known (appended @ r) w' ph' \<and> lw_active w' = lw_active w \<or>
    (\<exists>b m1 m2. ph = Writing b \<and> ph' = Checking \<and> r = [] \<and> write_batch fs b m1 m2 (w, s) = Some (w', s'))"
  using assms(1)
proof cases
  case (step_append type payload lsn)
  then show ?thesis using writer_holds_append [OF assms(2)] assms(3) by simp
next
  case step_flush
  then show ?thesis using writer_holds_flush [OF assms(2)] assms(3) by simp
next
  case step_stop
  then show ?thesis
    using writer_holds_flush [OF assms(2)] assms(3) by (simp add: stop_begin_def writer_holds_def synced_writer_def)
next
  case step_joined
  then show ?thesis using assms(2) by (simp add: stop_end_def writer_holds_def synced_writer_def)
next
  case step_take
  then show ?thesis using writer_holds_take assms(2) by simp
next
  case step_sync
  then show ?thesis using assms(2) by (simp add: writer_holds_def synced_writer_def)
next
  case (step_write b m1 m2)
  then show ?thesis by auto
qed (use assms(2) writer_holds_phase in \<open>force simp: \<close>)+

section \<open>Writing a batch\<close>

text \<open>A file that has just been created.\<close>

definition new_file :: "bytes \<Rightarrow> nat \<Rightarrow> FileView" where
  "new_file d k = \<lparr>fv_data = d, fv_synced = k, fv_linked = False\<rparr>"

text \<open>The fields of a writer that writing a batch leaves alone.\<close>

definition same_owner :: "'h LogWriter \<Rightarrow> 'h LogWriter \<Rightarrow> bool" where
  "same_owner w' w \<longleftrightarrow> lw_options w' = lw_options w \<and> lw_pending w' = lw_pending w \<and> lw_next_lsn w' = lw_next_lsn w \<and>
     lw_stopped w' = lw_stopped w \<and> lw_inbox w' = lw_inbox w \<and> lw_stop w' = lw_stop w"

context log_store
begin

lemma create_segment_run:
  assumes "working s" and "view s dir = Some v" and "plain_dir dir" and "v (segment_file_name n) = None"
    and "lo_dir (lw_options w) = dir"
  shows "\<exists>s1 s2 s3 s4 h. create_segment (traced fs) n (w, s, t0) = Some (Inr (),
      w\<lparr>lw_active := Some h, lw_dirty := False, lw_stats := (lw_stats w)\<lparr>ls_segments_created := ls_segments_created (lw_stats w) + 1\<rparr>\<rparr>,
      s4, t0 @ [s1, s2, s3, s4]) \<and>
    working s1 \<and> view s1 dir = Some (v(segment_file_name n \<mapsto> new_file [] 0)) \<and>
    working s2 \<and> view s2 dir = Some (v(segment_file_name n \<mapsto> new_file (header_bytes n) 0)) \<and>
    working s3 \<and> view s3 dir = Some (v(segment_file_name n \<mapsto> new_file (header_bytes n) kSegmentHeaderSize)) \<and>
    working s4 \<and> view s4 dir = Some (map_option linked \<circ> v(segment_file_name n \<mapsto> new_file (header_bytes n) kSegmentHeaderSize)) \<and>
    handle s4 dir (segment_file_name n) h"
proof -
  let ?n = "segment_file_name n" and ?hd = "header_bytes n"
  obtain h s1 where 1: "fs_open_append fs (join_path dir ?n) kCreateNew s = Some (Inr h, s1)" "working s1"
    "handle s1 dir ?n h" "view s1 dir = Some (v(?n \<mapsto> new_file [] 0))"
    using create_ok [OF assms(1-3) plain_segment_name assms(4)] by (auto simp: new_file_def)
  obtain s2 where 2: "fh_append fs h ?hd s1 = Some (Inr (), s2)" "working s2" "handle s2 dir ?n h"
    "view s2 dir = Some (v(?n \<mapsto> new_file ?hd 0))"
    using append_ok [OF 1(2,4,3), of "new_file [] 0" ?hd] by (auto simp: new_file_def)
  obtain s3 where 3: "fh_sync fs h s2 = Some (Inr (), s3)" "working s3" "handle s3 dir ?n h"
    "view s3 dir = Some (v(?n \<mapsto> new_file ?hd kSegmentHeaderSize))"
    using sync_ok [OF 2(2,4,3), of "new_file ?hd 0"] by (auto simp: new_file_def)
  obtain s4 where 4: "fs_sync_dir fs dir s3 = Some (Inr (), s4)" "working s4" "handle s4 dir ?n h"
    "view s4 dir = Some (map_option linked \<circ> v(?n \<mapsto> new_file ?hd kSegmentHeaderSize))"
    using sync_dir_view [OF 3(2,4)] 3(3) by blast
  have "append_segment_header [] n = ?hd" by (simp add: header_bytes_def)
  then show ?thesis
    using 1 2 3 4
    by (intro exI [of _ s1] exI [of _ s2] exI [of _ s3] exI [of _ s4] exI [of _ h])
      (simp add: create_segment_def assms(5) del: fun_upd_apply)
qed

lemma create_segment_ok:
  assumes "working s" and "view s dir = Some v" and "plain_dir dir" and "tail_view v l segs []"
    and "snd (last segs) \<noteq> []" and "lo_dir (lw_options w) = dir"
  shows "\<exists>w' s' t v' h. create_segment (traced fs) (next_of l segs) (w, s, t0) = Some (Inr (), w', s', t0 @ t) \<and>
    working s' \<and> view s' dir = Some v' \<and> tail_view v' l (segs @ [(next_of l segs, [])]) [] \<and>
    handle s' dir (segment_file_name (next_of l segs)) h \<and> lw_active w' = Some h \<and> \<not> lw_dirty w' \<and>
    same_owner w' w \<and> lw_committed_lsn w' = lw_committed_lsn w \<and>
    (\<forall>x \<in> set t. working x \<and> (\<exists>u. view x dir = Some u \<and> passing_view u l (all_records segs) rs))"
proof -
  let ?l = "next_of l segs"
  let ?n = "segment_file_name ?l" and ?hd = "header_bytes ?l"
  have passing: "passing_view (v(?n \<mapsto> new_file d k)) l (all_records segs) rs" if "length d \<le> kSegmentHeaderSize" for d k
    using that assms(4,5) unfolding passing_view_def fresh_view_def
    by (intro exI [of _ segs]) (auto simp: new_file_def intro!: exI [of _ v] exI [of _ "new_file d k"])
  note tv = tail_view_linked [OF assms(4,5), folded new_file_def]
  have "passing_view (map_option linked \<circ> v(?n \<mapsto> new_file ?hd kSegmentHeaderSize)) l (all_records segs) rs"
    unfolding passing_view_def using tv by (intro exI [of _ "segs @ [(?l, [])]"]) simp
  with create_segment_run [OF assms(1-3) tail_view_new_file [OF assms(4,5)] assms(6), of t0] show ?thesis
    using tv passing
    by (elim exE conjE) (intro exI conjI, assumption+, auto simp: same_owner_def simp del: fun_upd_apply)
qed

lemma write_rest_ok:
  assumes "working s" and "view s dir = Some v" and "tail_view v l segs []"
    and "handle s dir (segment_file_name (fst (last segs))) h"
    and "numbered (next_of l segs) rs" and "lsn_room l (length (all_records segs) + length (records_bytes rs))"
  shows "\<exists>s1 s2 v'. fh_append fs h (records_bytes rs) s = Some (Inr (), s1) \<and> fh_sync fs h s1 = Some (Inr (), s2) \<and>
    working s2 \<and> view s2 dir = Some v' \<and> tail_view v' l (extend_last segs rs) [] \<and>
    handle s2 dir (segment_file_name (fst (last segs))) h \<and>
    (\<forall>x \<in> {s1, s2}. working x \<and> (\<exists>u. view x dir = Some u \<and> passing_view u l (all_records segs) rs))"
proof -
  let ?n = "segment_file_name (fst (last segs))" and ?b = "seg_bytes (last segs)"
  let ?f = "\<lambda>k. \<lparr>fv_data = ?b @ records_bytes rs, fv_synced = k, fv_linked = True\<rparr>"
  have f: "v ?n = Some \<lparr>fv_data = ?b, fv_synced = length ?b, fv_linked = True\<rparr>"
    using tail_view_last [OF assms(3)] by (simp add: on_disk_def)
  obtain s1 where 1: "fh_append fs h (records_bytes rs) s = Some (Inr (), s1)" "working s1" "handle s1 dir ?n h"
    "view s1 dir = Some (v(?n \<mapsto> ?f (length ?b)))"
    using append_ok [OF assms(1,2,4) f, of "records_bytes rs"] by auto
  obtain s2 where 2: "fh_sync fs h s1 = Some (Inr (), s2)" "working s2" "handle s2 dir ?n h"
    "view s2 dir = Some (v(?n \<mapsto> ?f (length (?b @ records_bytes rs))))"
    using sync_ok [OF 1(2,4,3), of "?f (length ?b)"] by auto
  have t1: "tail_view (v(?n \<mapsto> ?f (length ?b))) l segs rs" and t2: "tail_view (v(?n \<mapsto> ?f (length (?b @ records_bytes rs)))) l segs rs"
    using tail_view_appended [OF assms(3,5,6)] by simp_all
  have "passing_view (v(?n \<mapsto> ?f (length ?b))) l (all_records segs) rs"
    "passing_view (v(?n \<mapsto> ?f (length (?b @ records_bytes rs)))) l (all_records segs) rs"
    using t1 t2 unfolding passing_view_def by blast+
  then show ?thesis
    using 1 2 tail_view_absorb [OF t2]
    by (intro exI [of _ s1] exI [of _ s2] exI [of _ "v(?n \<mapsto> ?f (length (?b @ records_bytes rs)))"]) blast
qed

lemma write_batch_ok:
  assumes "working s" and "view s dir = Some v" and "plain_dir dir" and "tail_view v l segs []"
    and "handle s dir (segment_file_name (fst (last segs))) h" and "lw_active w = Some h" and "\<not> lw_dirty w"
    and "lo_dir (lw_options w) = dir" and "lo_fsync_policy (lw_options w) = kAlways"
    and "kSegmentHeaderSize + kRecordHeaderSize \<le> lo_segment_size (lw_options w)"
    and "batch_holds (next_of l segs) rs b" and "rs \<noteq> []"
    and "lsn_room l (length (all_records segs) + length (records_bytes rs))"
  shows "\<exists>w' s' t v' segs' h'. write_batch (traced fs) b micros1 micros2 (w, s, t0) = Some (w', s', t0 @ t) \<and>
    working s' \<and> view s' dir = Some v' \<and> tail_view v' l segs' [] \<and> all_records segs' = all_records segs @ rs \<and>
    handle s' dir (segment_file_name (fst (last segs'))) h' \<and> lw_active w' = Some h' \<and> \<not> lw_dirty w' \<and>
    same_owner w' w \<and> lw_committed_lsn w' = b_last_lsn b \<and>
    (\<forall>x \<in> set t. working x \<and> (\<exists>u. view x dir = Some u \<and> passing_view u l (all_records segs) rs))"
proof -
  have size: "fh_size fs h s = length (seg_bytes (last segs))"
    using size_ok [OF assms(1,2,5) tail_view_last [OF assms(4)]] by (simp add: on_disk_def)
  have bytes: "b_bytes b = records_bytes rs" and num: "numbered (next_of l segs) rs" and first: "b_first_lsn b = next_of l segs"
    using assms(11,12) by (auto simp: batch_holds_def)
  define roll where "roll = (lo_segment_size (lw_options w) \<le> fh_size fs h s)"
  obtain w1 s1 t1 v1 segs1 h1 where 1: "(if roll then roll_segment (traced fs) b micros1 (w, s, t0) else Some (w, s, t0)) =
        Some (w1, s1, t0 @ t1)"
      "working s1" "view s1 dir = Some v1" "tail_view v1 l segs1 []" "all_records segs1 = all_records segs"
      "handle s1 dir (segment_file_name (fst (last segs1))) h1" "lw_active w1 = Some h1" "\<not> lw_dirty w1" "same_owner w1 w"
      "\<forall>x \<in> set t1. working x \<and> (\<exists>u. view x dir = Some u \<and> passing_view u l (all_records segs) rs)"
  proof (cases roll)
    case True
    have "snd (last segs) \<noteq> []"
      using True assms(10) size by (auto simp: roll_def length_seg_bytes kRecordHeaderSize_def)
    moreover have "lo_dir (lw_options (w\<lparr>lw_active := None\<rparr>)) = dir" using assms(8) by simp
    ultimately obtain w' s' t v' h' where c: "create_segment (traced fs) (next_of l segs) (w\<lparr>lw_active := None\<rparr>, s, t0) = Some (Inr (), w', s', t0 @ t)"
        "working s'" "view s' dir = Some v'" "tail_view v' l (segs @ [(next_of l segs, [])]) []"
        "handle s' dir (segment_file_name (next_of l segs)) h'" "lw_active w' = Some h'" "\<not> lw_dirty w'"
        "same_owner w' (w\<lparr>lw_active := None\<rparr>)"
        "\<forall>x \<in> set t. working x \<and> (\<exists>u. view x dir = Some u \<and> passing_view u l (all_records segs) rs)"
      using create_segment_ok [OF assms(1-4)] by blast
    have "roll_segment (traced fs) b micros1 (w, s, t0) = Some (w', s', t0 @ t)"
      using c(1) assms(7) by (simp add: roll_segment_def or_die_def first)
    then show thesis
      using c True by (intro that [of w' s' t v' "segs @ [(next_of l segs, [])]" h']) (simp_all add: same_owner_def)
  next
    case False
    then show thesis using assms(1,2,4-7) by (intro that [of w s "[]" v segs h]) (simp_all add: same_owner_def)
  qed
  have nx: "next_of l segs1 = next_of l segs" by (simp add: next_of_def 1(5))
  obtain s2 s3 v' where 2: "fh_append fs h1 (records_bytes rs) s1 = Some (Inr (), s2)" "fh_sync fs h1 s2 = Some (Inr (), s3)"
      "working s3" "view s3 dir = Some v'" "tail_view v' l (extend_last segs1 rs) []"
      "handle s3 dir (segment_file_name (fst (last segs1))) h1"
      "\<forall>x \<in> {s2, s3}. working x \<and> (\<exists>u. view x dir = Some u \<and> passing_view u l (all_records segs) rs)"
    using write_rest_ok [OF 1(2-4,6), of rs] num assms(13) by (auto simp: nx 1(5))
  have ne: "segs1 \<noteq> []" using 1(4) by (auto simp: tail_view_def)
  have pol: "lo_fsync_policy (lw_options w1) = kAlways" using 1(9) assms(9) by (simp add: same_owner_def)
  have "\<exists>w'. write_batch (traced fs) b micros1 micros2 (w, s, t0) = Some (w', s3, t0 @ t1 @ [s2, s3]) \<and>
      lw_active w' = Some h1 \<and> \<not> lw_dirty w' \<and> same_owner w' w \<and> lw_committed_lsn w' = b_last_lsn b"
    using 1(1,7,9) 2(1,2) pol assms(6)
    by (simp add: write_batch_def roll_def [symmetric] bytes or_die_def sync_active_def same_owner_def Let_def)
  then show ?thesis
    using 1(10) 2(3-7) ne by (auto simp: 1(5) intro!: exI [of _ s3] exI [of _ "t1 @ [s2, s3]"] exI [of _ "extend_last segs1 rs"])
qed

end

end
