(* ===== verification/LogRun.thy ===== *)
theory LogRun
  imports LogDurable
begin

text \<open>
  Runs of the log writer over the contract of \<open>log_store\<close>: the owner thread and the log
  thread take turns in any order, the file system crashes at any of its operations, and
  the start-up scan of what is left hands over every committed record.
\<close>

section \<open>Committed records\<close>

text \<open>Of the records appended to a log, those that the writer reports as committed.\<close>

definition committed :: "'h LogWriter \<Rightarrow> LogRecordView list \<Rightarrow> LogRecordView list" where
  "committed w rs = filter (\<lambda>r. lv_lsn r \<le> lw_committed_lsn w) rs"

lemma numbered_below:
  "numbered l rs \<Longrightarrow> unat l + length rs \<le> 2 ^ 64 \<Longrightarrow> r \<in> set rs \<Longrightarrow> unat l \<le> unat (lv_lsn r) \<and> unat (lv_lsn r) < unat l + length rs"
proof (induction rs arbitrary: l)
  case (Cons a rs)
  show ?case
  proof (cases "rs = []")
    case False
    then have "Suc (unat l) < 2 ^ 64" using Cons.prems(2) by (cases rs) auto
    then have "unat (l + 1) = Suc (unat l)" using unat_plus_nat [of l 1] by simp
    then show ?thesis using Cons.prems Cons.IH [of "l + 1"] by auto
  qed (use Cons.prems in auto)
qed simp

lemma unat_plus_of_nat: "unat (l :: Lsn) + n < 2 ^ 64 \<Longrightarrow> unat (l + of_nat n) = unat l + n"
  using unat_plus_nat [of l "of_nat n"] by (simp add: unat_of_nat)

text \<open>The committed records are the first ones, up to the committed LSN.\<close>

lemma committed_split:
  assumes "numbered l (known @ rs)" and "lsn_room l (length (known @ rs))"
    and "lw_committed_lsn w = l + of_nat (length known) - 1"
  shows "committed w (known @ rs) = known"
proof -
  have l: "0 < unat l" "unat l + length known + length rs < 2 ^ 64"
    using assms(2) by (auto simp: lsn_room_def unat_gt_0)
  have nx: "unat (l + of_nat (length known)) = unat l + length known" using l by (intro unat_plus_of_nat) simp
  have "unat (lw_committed_lsn w) = unat l + length known - 1"
    unfolding assms(3) using nx l(1) by (subst unat_sub) (auto simp: word_le_nat_alt)
  then have c: "r \<in> set known \<Longrightarrow> lv_lsn r \<le> lw_committed_lsn w" "r \<in> set rs \<Longrightarrow> \<not> lv_lsn r \<le> lw_committed_lsn w" for r
    using assms(1) l numbered_below [of l known r] numbered_below [of "l + of_nat (length known)" rs r] nx
    by (auto simp: numbered_append word_le_nat_alt)
  then show ?thesis by (auto simp: committed_def filter_empty_conv)
qed

lemma writer_holds_numbered:
  assumes "writer_holds dir l known appended w ph" and "numbered l known"
  shows "numbered l appended"
proof -
  from assms(1) obtain bs "is" ps where wh: "appended = known @ bs @ is @ ps" "in_hand ph (l + of_nat (length known)) bs"
      "batch_holds (l + of_nat (length (known @ bs))) is (lw_inbox w)"
      "batch_holds (l + of_nat (length (known @ bs)) + of_nat (length is)) ps (lw_pending w)"
    by (rule writer_holdsE)
  have "numbered (l + of_nat (length known)) bs" using wh(2) by (cases ph) (auto simp: in_hand_def batch_holds_def)
  then show ?thesis
    using assms(2) wh by (simp add: numbered_append batch_holds_def add.assoc)
qed

lemma all_records_numbered: "chain l segs \<Longrightarrow> numbered l (all_records segs)"
  by (induction segs arbitrary: l) (auto simp: numbered_append)

section \<open>Steps\<close>

context log_store
begin

text \<open>What a writer and its file system look like between two steps.\<close>

definition log_ok :: "bytes \<Rightarrow> Lsn \<Rightarrow> LogRecordView list \<Rightarrow> LogRecordView list \<Rightarrow> 'h LogWriter \<times> Phase \<times> 's \<Rightarrow> bool" where
  "log_ok dir l known appended = (\<lambda>(w, ph, s). working s \<and> writer_holds dir l known appended w ph \<and>
     (\<exists>v segs h. view s dir = Some v \<and> tail_view v l segs [] \<and> all_records segs = known \<and>
       handle s dir (segment_file_name (fst (last segs))) h \<and> lw_active w = Some h))"

text \<open>States in which a crash costs none of the known records.\<close>

definition safe_in :: "bytes \<Rightarrow> Lsn \<Rightarrow> LogRecordView list \<Rightarrow> 's \<Rightarrow> bool" where
  "safe_in dir l known s \<longleftrightarrow> working s \<and> (\<exists>v rs. view s dir = Some v \<and> passing_view v l known rs)"

lemma log_ok_safe: "log_ok dir l known appended (w, ph, s) \<Longrightarrow> safe_in dir l known s"
  unfolding log_ok_def safe_in_def passing_view_def by auto

lemma safe_in_recovers:
  assumes "safe_in dir l known s" and "plain_dir dir" and "l \<le> after + 1" and "unat after < unat l + length known" and "crashed s s'"
  shows "recovers fs dir after s' known"
proof -
  obtain v segs rs where v: "working s" "view s dir = Some v" "all_records segs = known"
      "tail_view v l segs [] \<or> tail_view v l segs rs \<or> fresh_view v l segs"
    using assms(1) unfolding safe_in_def passing_view_def by blast
  have "reaches l segs after" using assms(3,4) v(3) by (simp add: reaches_def)
  then show ?thesis
    using v tail_recovers [OF v(1,2) assms(2) _ _ assms(5)] fresh_recovers [OF v(1,2) assms(2) _ _ assms(5)] by blast
qed

lemma log_ok_power_loss:
  assumes "log_ok dir l known appended (w, ph, s)" and "plain_dir dir" and "l \<le> after + 1"
    and "unat after < unat l + length known" and "power_lost s s'"
  shows "recovers_exactly fs dir after s' known"
proof -
  obtain v segs where v: "working s" "view s dir = Some v" "all_records segs = known" "tail_view v l segs []"
    using assms(1) unfolding log_ok_def by blast
  have "reaches l segs after" using assms(3,4) v(3) by (simp add: reaches_def)
  then show ?thesis
    using tail_power_loss [OF _ _ assms(2) v(4)] power_loss_ok [OF v(1,2) assms(5)] v(3) by auto
qed

lemma log_ok_write:
  assumes "log_ok dir l known appended (w, Writing b, s)" and "plain_dir dir" and "log_room l appended"
  shows "\<exists>known' w' s' tr. write_batch (traced fs) b m1 m2 (w, s, t) = Some (w', s', t @ tr) \<and> prefix known known' \<and>
    log_ok dir l known' appended (w', Checking, s') \<and> (\<forall>x \<in> set tr. safe_in dir l known x) \<and>
    lw_inbox w' = lw_inbox w \<and> lw_pending w' = lw_pending w"
proof -
  obtain v segs h where s: "working s" "view s dir = Some v" "tail_view v l segs []" "all_records segs = known"
      "handle s dir (segment_file_name (fst (last segs))) h" "lw_active w = Some h"
    and wh: "writer_holds dir l known appended w (Writing b)"
    using assms(1) unfolding log_ok_def by blast
  from wh obtain bs "is" ps where bs: "appended = known @ bs @ is @ ps" "in_hand (Writing b) (l + of_nat (length known)) bs"
      "batch_holds (l + of_nat (length (known @ bs))) is (lw_inbox w)"
      "batch_holds (l + of_nat (length (known @ bs)) + of_nat (length is)) ps (lw_pending w)"
      "lw_next_lsn w = l + of_nat (length appended)"
    and sync: "synced_writer dir w"
    by (rule writer_holdsE)
  have b: "batch_holds (next_of l segs) bs b" "bs \<noteq> []"
    using bs(2) s(4) by (simp_all add: in_hand_def next_of_def)
  have room: "lsn_room l (length (all_records segs) + length (records_bytes bs))"
    using assms(3) bs(1) s(4) length_records_bytes [of known] by (auto simp: log_room_def lsn_room_def)
  obtain w1 s1 tr v' segs' h' where st: "write_batch (traced fs) b m1 m2 (w, s, t) = Some (w1, s1, t @ tr)"
      "working s1" "view s1 dir = Some v'" "tail_view v' l segs' []" "all_records segs' = all_records segs @ bs"
      "handle s1 dir (segment_file_name (fst (last segs'))) h'" "lw_active w1 = Some h'" "\<not> lw_dirty w1"
      "same_owner w1 w" "lw_committed_lsn w1 = b_last_lsn b"
      "\<forall>x \<in> set tr. working x \<and> (\<exists>u. view x dir = Some u \<and> passing_view u l (all_records segs) bs)"
    using write_batch_ok [OF s(1,2) assms(2) s(3,5,6) _ _ _ _ b room, of m1 m2 t] sync by (auto simp: synced_writer_def)
  have "writer_holds dir l (known @ bs) appended w1 Checking"
    using bs st(8,9,10) b sync s(4)
    by (intro writer_holdsI [of _ _ "[]" "is" ps])
      (auto simp: same_owner_def synced_writer_def in_hand_def batch_holds_def next_of_def add.assoc)
  then have "log_ok dir l (known @ bs) appended (w1, Checking, s1)"
    using st s(4) by (auto simp: log_ok_def)
  moreover have "\<forall>x \<in> set tr. safe_in dir l known x" using st(11) unfolding safe_in_def s(4) by blast
  ultimately show ?thesis
    using st(1,9) by (intro exI [of _ "known @ bs"] exI [of _ w1] exI [of _ s1] exI [of _ tr]) (simp add: same_owner_def)
qed

text \<open>When nothing is on its way to the disk, everything appended is on it.\<close>

lemma log_ok_idle:
  assumes "log_ok dir l known appended (w, ph, s)" and "\<And>b. ph \<noteq> Writing b" and "batch_empty (lw_inbox w)" and "batch_empty (lw_pending w)"
  shows "appended = known"
proof -
  from assms(1) obtain bs "is" ps where "appended = known @ bs @ is @ ps" "in_hand ph (l + of_nat (length known)) bs"
      "batch_holds (l + of_nat (length (known @ bs))) is (lw_inbox w)"
      "batch_holds (l + of_nat (length (known @ bs)) + of_nat (length is)) ps (lw_pending w)"
    by (auto simp: log_ok_def elim: writer_holdsE)
  then show ?thesis using assms(2-4) by (cases ph) (auto simp: in_hand_def batch_holds_is_empty)
qed

lemma log_ok_step:
  assumes "log_ok dir l known appended (w, ph, s)" and "plain_dir dir" and "log_room l (appended @ r)"
    and "lw_step (traced fs) (w, ph, s, t) r (w', ph', s', t')"
  shows "\<exists>known' tr. t' = t @ tr \<and> prefix known known' \<and> log_ok dir l known' (appended @ r) (w', ph', s') \<and>
    (\<forall>x \<in> set tr. safe_in dir l known x)"
proof -
  have "writer_holds dir l known appended w ph" using assms(1) by (simp add: log_ok_def)
  from lw_step_holds [OF assms(4) this assms(3)] show ?thesis
  proof (elim disjE exE conjE)
    assume "(s', t') = (s, t)" "writer_holds dir l known (appended @ r) w' ph'" "lw_active w' = lw_active w"
    then show ?thesis using assms(1) by (auto simp: log_ok_def)
  next
    fix b m1 m2
    assume "ph = Writing b" "ph' = Checking" "r = []" "write_batch (traced fs) b m1 m2 (w, s, t) = Some (w', s', t')"
    then show ?thesis using log_ok_write [of dir l known appended w b s m1 m2 t] assms(1,2,3) by auto
  qed
qed

lemma log_ok_run:
  assumes "lw_run (traced fs) c rs c'" and "c = (w0, ph0, s0, t0)" and "c' = (w, ph, s, t)"
    and "log_ok dir l known appended (w0, ph0, s0)" and "plain_dir dir" and "log_room l (appended @ rs)"
  shows "\<exists>known'. prefix known known' \<and> log_ok dir l known' (appended @ rs) (w, ph, s)"
  using assms
proof (induction arbitrary: w ph s t rule: lw_run.induct)
  case run_start
  then show ?case by auto
next
  case (run_step rs c' r c'')
  obtain w1 ph1 s1 t1 where c': "c' = (w1, ph1, s1, t1)" by (cases c')
  have "log_room l (appended @ rs)" using run_step.prems(5) log_room_append [of l "appended @ rs" r] by simp
  then obtain known' where k: "prefix known known'" "log_ok dir l known' (appended @ rs) (w1, ph1, s1)"
    using run_step.IH [OF run_step.prems(1) c'] run_step.prems by blast
  have "log_room l ((appended @ rs) @ r)" using run_step.prems(5) by simp
  from log_ok_step [OF k(2) run_step.prems(4) this] run_step.hyps(2) k(1) show ?case
    unfolding c' run_step.prems(2) by (metis append_assoc prefix_order.trans)
qed

lemma log_ok_committed:
  assumes "log_ok dir l known appended (w, ph, s)" and "log_room l appended"
  shows "committed w appended = known"
proof -
  obtain v segs where v: "tail_view v l segs []" "all_records segs = known" and wh: "writer_holds dir l known appended w ph"
    using assms(1) unfolding log_ok_def by blast
  have "numbered l known" using v by (auto simp: tail_view_def intro!: all_records_numbered)
  from writer_holds_numbered [OF wh this] have "numbered l appended" .
  moreover from wh obtain rs where "appended = known @ rs" "lw_committed_lsn w = l + of_nat (length known) - 1"
    by (elim writer_holdsE) auto
  ultimately show ?thesis
    using committed_split [of l known rs w] assms(2) length_records_bytes [of appended] by (auto simp: log_room_def lsn_room_def)
qed

text \<open>A writer opened on a directory without segments.\<close>

lemma open_writer_fresh:
  assumes "working s" and "view s dir = Some v" and "plain_dir dir" and "\<And>l. v (segment_file_name l) = None"
    and "lo_dir options = dir" and "lo_fsync_policy options = kAlways"
    and "kSegmentHeaderSize + kRecordHeaderSize \<le> lo_segment_size options"
  shows "\<exists>w s' t. open_writer (traced fs) options no_log (s, t0) = Some (Inr w, s', t0 @ t) \<and>
    log_ok dir 1 [] [] (w, Waiting, s') \<and> \<not> lw_stopped w \<and> lw_next_lsn w = 1 \<and> lw_pending w = empty_batch"
proof -
  let ?w = "mk_writer options 1 :: 'h LogWriter"
  obtain w s1 s2 s3 s4 h where c: "create_segment (traced fs) 1 (?w, s, t0) = Some (Inr (), w, s4, t0 @ [s1, s2, s3, s4])"
      "working s4" "handle s4 dir (segment_file_name 1) h"
      "view s4 dir = Some (map_option linked \<circ> v(segment_file_name 1 \<mapsto> new_file (header_bytes 1) kSegmentHeaderSize))"
    and w: "w = ?w\<lparr>lw_active := Some h, lw_dirty := False,
      lw_stats := (lw_stats ?w)\<lparr>ls_segments_created := ls_segments_created (lw_stats ?w) + 1\<rparr>\<rparr>"
    using create_segment_run [OF assms(1-3) assms(4), of ?w 1 t0] assms(5) by (auto simp: mk_writer_def)
  have "open_writer (traced fs) options no_log (s, t0) = Some (Inr w, s4, t0 @ [s1, s2, s3, s4])"
    using c(1) assms(6,7) by (simp add: open_writer_def open_active_segment_def no_log_def mk_writer_def)
  moreover have "tail_view (map_option linked \<circ> v(segment_file_name 1 \<mapsto> new_file (header_bytes 1) kSegmentHeaderSize)) 1 [(1, [])] []"
    using assms(4) by (auto simp: tail_view_def lsn_room_def new_file_def linked_def seg_bytes_def next_of_def domIff)
  moreover have "writer_holds dir 1 [] [] w Waiting"
    by (rule writer_holdsI [of _ _ "[]" "[]" "[]"])
      (use assms(5-7) in \<open>simp_all add: w mk_writer_def in_hand_def synced_writer_def batch_holds_empty\<close>)
  ultimately show ?thesis
    using c(2-4) by (intro exI [of _ w] exI [of _ s4] exI [of _ "[s1, s2, s3, s4]"])
      (auto simp: log_ok_def w mk_writer_def intro!: exI [of _ "[(1, [])]"] simp del: fun_upd_apply)
qed

end

end
