(* ===== verification/SimStore.thy ===== *)
theory SimStore
  imports SimFs LogRun
begin

text \<open>
  The simulated file system keeps the contracts of \<open>file_store\<close> and \<open>log_store\<close>, as long as no
  fault is armed and its syncs are not held: the invariant of its state, what each
  operation does to the contents of a directory, and what a crash image holds. The two
  interpretations at the end carry the lemmas on recovery and on the log writer over to it.
\<close>

section \<open>The invariant\<close>

fun op_ref :: "DirOp \<Rightarrow> FileRef option" where
  "op_ref (kLink name r) = Some r"
| "op_ref (kUnlink name) = None"
| "op_ref (kRename name new_name r) = Some r"

definition dir_ok :: "nat \<Rightarrow> SimDir \<Rightarrow> bool" where
  "dir_ok n d \<longleftrightarrow> omap_wf (sd_current d) \<and> omap_wf (sd_durable d) \<and>
     inj_on (map_of (sd_current d)) (dom (map_of (sd_current d))) \<and>
     ran (map_of (sd_current d)) \<subseteq> {..<n} \<and> ran (map_of (sd_durable d)) \<subseteq> {..<n} \<and>
     (\<forall>op r. op \<in> set (sd_pending d) \<longrightarrow> op_ref op = Some r \<longrightarrow> r < n)"

definition no_faults :: "SimFs \<Rightarrow> bool" where
  "no_faults fs \<longleftrightarrow> sim_sync_failure fs = None \<and> \<not> sim_sync_broken fs \<and> sim_append_failure fs = None \<and>
     sim_capacity fs = None \<and> \<not> sim_syncs_held fs"

definition sim_ok :: "SimFs \<Rightarrow> bool" where
  "sim_ok fs \<longleftrightarrow> no_faults fs \<and> omap_wf (sim_dirs fs) \<and> (\<forall>f \<in> set (sim_files fs). sf_synced f \<le> length (sf_data f)) \<and>
     (\<forall>dir d. map_of (sim_dirs fs) dir = Some d \<longrightarrow> dir_ok (length (sim_files fs)) d)"

lemma map_of_omap_erase [simp]: "map_of (omap_erase k m) = (map_of m)(k := None)"
  by (induction m) (auto simp: omap_erase_def fun_eq_iff)

lemma omap_wf_erase [simp]: "omap_wf m \<Longrightarrow> omap_wf (omap_erase k m)"
  by (auto simp: omap_wf_def omap_erase_def sorted_wrt_map intro: sorted_wrt_filter)

lemma count_op_frame [simp]:
  "sim_files (count_op_locked fs) = sim_files fs" "sim_dirs (count_op_locked fs) = sim_dirs fs"
  "sim_rng (count_op_locked fs) = sim_rng fs" "no_faults (count_op_locked fs) = no_faults fs"
  by (simp_all add: count_op_locked_def Let_def no_faults_def split: option.split)

lemma count_op_ok [simp]: "sim_ok (count_op_locked fs) = sim_ok fs"
  by (simp add: sim_ok_def)

lemma set_file_frame [simp]:
  "sim_dirs (set_file r f fs) = sim_dirs fs" "length (sim_files (set_file r f fs)) = length (sim_files fs)"
  "no_faults (set_file r f fs) = no_faults fs"
  by (simp_all add: set_file_def no_faults_def)

lemma file_at_set_file: "r < length (sim_files fs) \<Longrightarrow> file_at (set_file r f fs) r' = (if r' = r then f else file_at fs r')"
  by (simp add: file_at_def set_file_def)

lemma file_at_count_op [simp]: "file_at (count_op_locked fs) r = file_at fs r"
  by (simp add: file_at_def)

lemma set_dir_frame [simp]:
  "sim_files (set_dir dir d fs) = sim_files fs" "no_faults (set_dir dir d fs) = no_faults fs"
  "file_at (set_dir dir d fs) r = file_at fs r"
  by (simp_all add: set_dir_def no_faults_def file_at_def)

lemma set_dir_lookup:
  "map_of (sim_dirs fs) dir = Some d0 \<Longrightarrow> map_of (sim_dirs (set_dir dir d fs)) = (map_of (sim_dirs fs))(dir \<mapsto> d)"
  by (simp add: set_dir_def)

lemma sim_ok_set_file:
  "sim_ok fs \<Longrightarrow> sf_synced f \<le> length (sf_data f) \<Longrightarrow> sim_ok (set_file r f fs)"
  using set_update_subset_insert [of "sim_files fs" r f] by (auto simp: sim_ok_def set_file_def no_faults_def)

lemma sim_ok_set_dir:
  "sim_ok fs \<Longrightarrow> map_of (sim_dirs fs) dir = Some d0 \<Longrightarrow> dir_ok (length (sim_files fs)) d \<Longrightarrow> sim_ok (set_dir dir d fs)"
  by (auto simp: sim_ok_def set_dir_def no_faults_def)

lemma sim_ok_synced: "sim_ok fs \<Longrightarrow> r < length (sim_files fs) \<Longrightarrow> sf_synced (file_at fs r) \<le> length (sf_data (file_at fs r))"
  by (simp add: sim_ok_def file_at_def)

lemma sim_ok_dir: "sim_ok fs \<Longrightarrow> map_of (sim_dirs fs) dir = Some d \<Longrightarrow> dir_ok (length (sim_files fs)) d"
  by (simp add: sim_ok_def)

lemma dir_ok_ref: "dir_ok n d \<Longrightarrow> map_of (sd_current d) name = Some r \<Longrightarrow> r < n"
  by (auto simp: dir_ok_def ran_def)

lemma dir_ok_other:
  "dir_ok n d \<Longrightarrow> map_of (sd_current d) name = Some r \<Longrightarrow> map_of (sd_current d) a = Some r' \<Longrightarrow> a \<noteq> name \<Longrightarrow> r' \<noteq> r"
  by (simp add: dir_ok_def inj_on_def) (metis domI)

lemma dir_ok_more: "dir_ok n d \<Longrightarrow> n \<le> n' \<Longrightarrow> dir_ok n' d"
  by (force simp: dir_ok_def)

section \<open>Contents and views\<close>

definition sim_entries :: "SimFs dir_view" where
  "sim_entries fs dir = map_option (\<lambda>d name. map_option (\<lambda>r. sf_data (file_at fs r)) (map_of (sd_current d) name))
     (map_of (sim_dirs fs) dir)"

definition file_view :: "SimFs \<Rightarrow> SimDir \<Rightarrow> bytes \<rightharpoonup> FileView" where
  "file_view fs d name = map_option (\<lambda>r. \<lparr>fv_data = sf_data (file_at fs r), fv_synced = sf_synced (file_at fs r),
     fv_linked = (map_of (sd_durable d) name = Some r)\<rparr>) (map_of (sd_current d) name)"

text \<open>The only directory changes a crash can undo are creations.\<close>

definition links_only :: "SimDir \<Rightarrow> bool" where
  "links_only d \<longleftrightarrow> map_of (sd_durable d) \<subseteq>\<^sub>m map_of (sd_current d) \<and>
     (\<forall>op \<in> set (sd_pending d). case op of kLink name r \<Rightarrow> map_of (sd_current d) name = Some r | _ \<Rightarrow> False)"

definition sim_view :: "SimFs \<Rightarrow> bytes \<Rightarrow> (bytes \<rightharpoonup> FileView) option" where
  "sim_view fs dir = (case map_of (sim_dirs fs) dir of
      None \<Rightarrow> None
    | Some d \<Rightarrow> if links_only d then Some (file_view fs d) else None)"

definition sim_handle :: "SimFs \<Rightarrow> bytes \<Rightarrow> bytes \<Rightarrow> SimHandle \<Rightarrow> bool" where
  "sim_handle fs dir name h \<longleftrightarrow> (\<exists>d. map_of (sim_dirs fs) dir = Some d \<and> map_of (sd_current d) name = Some (hd_file h))"

lemma sim_entriesE:
  assumes "sim_entries fs dir = Some m"
  obtains d where "map_of (sim_dirs fs) dir = Some d"
    and "m = (\<lambda>name. map_option (\<lambda>r. sf_data (file_at fs r)) (map_of (sd_current d) name))"
  using assms by (auto simp: sim_entries_def)

lemma sim_viewE:
  assumes "sim_view fs dir = Some v"
  obtains d where "map_of (sim_dirs fs) dir = Some d" and "links_only d" and "v = file_view fs d"
  using assms by (auto simp: sim_view_def split: option.splits if_splits)

lemma split_join: "plain_dir dir \<Longrightarrow> plain_name name \<Longrightarrow> split_path (join_path dir name) = Some (dir, name)"
  by (auto simp: split_path_def join_path_def plain_dir_def plain_name_def takeWhile_append Let_def)

lemma find_locked_join:
  "plain_dir dir \<Longrightarrow> plain_name name \<Longrightarrow> map_of (sim_dirs fs) dir = Some d \<Longrightarrow>
    find_locked fs (join_path dir name) = Some (map_of (sd_current d) name)"
  by (simp add: find_locked_def split_join)

lemma entries_set_file:
  assumes "sim_ok fs" and "map_of (sim_dirs fs) dir = Some d" and "map_of (sd_current d) name = Some r"
  shows "sim_entries (set_file r f fs) dir = map_option (\<lambda>m. m(name \<mapsto> sf_data f)) (sim_entries fs dir)"
  using assms dir_ok_ref [OF sim_ok_dir [OF assms(1,2)] assms(3)] dir_ok_other [OF sim_ok_dir [OF assms(1,2)] assms(3)]
  by (auto simp: sim_entries_def file_at_set_file fun_eq_iff map_option_case split: option.split)

lemma view_set_file:
  assumes "sim_ok fs" and "map_of (sim_dirs fs) dir = Some d" and "map_of (sd_current d) name = Some r"
  shows "file_view (set_file r f fs) d =
    (file_view fs d)(name \<mapsto> \<lparr>fv_data = sf_data f, fv_synced = sf_synced f, fv_linked = (map_of (sd_durable d) name = Some r)\<rparr>)"
  using assms dir_ok_ref [OF sim_ok_dir [OF assms(1,2)] assms(3)] dir_ok_other [OF sim_ok_dir [OF assms(1,2)] assms(3)]
  by (auto simp: file_view_def file_at_set_file fun_eq_iff map_option_case split: option.split)

lemma entries_count_op [simp]: "sim_entries (count_op_locked fs) = sim_entries fs"
  by (simp add: sim_entries_def fun_eq_iff)

lemma view_count_op [simp]: "file_view (count_op_locked fs) = file_view fs" "sim_view (count_op_locked fs) = sim_view fs"
  "sim_handle (count_op_locked fs) = sim_handle fs"
  by (simp_all add: file_view_def sim_view_def sim_handle_def fun_eq_iff split: option.split)

section \<open>The contract of readers\<close>

lemma sim_truncate_ok:
  assumes "sim_ok s" and "sim_entries s dir = Some m" and "plain_dir dir" and "plain_name name" and "m name = Some b" and "n \<le> length b"
  shows "\<exists>s'. sim_truncate (join_path dir name) n s = Some (Inr (), s') \<and> sim_ok s' \<and> sim_entries s' dir = Some (m(name \<mapsto> take n b))"
proof -
  obtain d where d: "map_of (sim_dirs s) dir = Some d"
      "m = (\<lambda>name. map_option (\<lambda>r. sf_data (file_at s r)) (map_of (sd_current d) name))"
    using assms(2) by (rule sim_entriesE)
  obtain r where r: "map_of (sd_current d) name = Some r" "b = sf_data (file_at s r)" using assms(5) d(2) by auto
  have "sim_ok (set_file r \<lparr>sf_data = take n b, sf_synced = n\<rparr> s)" using assms(1,6) by (intro sim_ok_set_file) auto
  then show ?thesis
    using assms(6) r find_locked_join [OF assms(3,4) d(1)] entries_set_file [OF assms(1) d(1) r(1)]
    by (auto simp: sim_truncate_def assms(2))
qed

lemma sim_remove_ok:
  assumes "sim_ok s" and "sim_entries s dir = Some m" and "plain_dir dir" and "plain_name name" and "m name = Some b"
  shows "\<exists>s'. sim_remove (join_path dir name) s = Some (Inr (), s') \<and> sim_ok s' \<and> sim_entries s' dir = Some (m(name := None))"
proof -
  obtain d where d: "map_of (sim_dirs s) dir = Some d"
      "m = (\<lambda>name. map_option (\<lambda>r. sf_data (file_at s r)) (map_of (sd_current d) name))"
    using assms(2) by (rule sim_entriesE)
  let ?d = "d\<lparr>sd_current := omap_erase name (sd_current d), sd_pending := sd_pending d @ [kUnlink name]\<rparr>"
  obtain r where r: "map_of (sd_current d) name = Some r" using assms(5) d(2) by auto
  have "dir_ok (length (sim_files s)) ?d"
    using sim_ok_dir [OF assms(1) d(1)] by (fastforce simp: dir_ok_def ran_def inj_on_def)
  then have "sim_ok (set_dir dir ?d s)" by (rule sim_ok_set_dir [OF assms(1) d(1)])
  moreover have "sim_entries (set_dir dir ?d s) dir = Some (m(name := None))"
    by (auto simp: sim_entries_def set_dir_lookup [OF d(1)] d(2))
  ultimately show ?thesis using d(1) r by (auto simp: sim_remove_def split_join [OF assms(3,4)])
qed

lemma sim_sync_dir_run:
  assumes "sim_ok s" and "map_of (sim_dirs s) dir = Some d"
  defines "d' \<equiv> d\<lparr>sd_durable := sd_current d, sd_pending := []\<rparr>"
  shows "sim_sync_dir dir s = Some (Inr (), count_op_locked (set_dir dir d' s))" and "sim_ok (set_dir dir d' s)"
proof -
  show "sim_sync_dir dir s = Some (Inr (), count_op_locked (set_dir dir d' s))"
    using assms(2) by (simp add: sim_sync_dir_def d'_def)
  have "dir_ok (length (sim_files s)) d'" using sim_ok_dir [OF assms(1,2)] by (simp add: dir_ok_def d'_def)
  then show "sim_ok (set_dir dir d' s)" by (rule sim_ok_set_dir [OF assms(1,2)])
qed

interpretation sim: file_store sim_fs sim_ok sim_entries
proof unfold_locales
  fix s dir and m :: "bytes \<rightharpoonup> bytes"
  assume s: "sim_ok s" and m: "sim_entries s dir = Some m"
  from m obtain d where d: "map_of (sim_dirs s) dir = Some d"
      "m = (\<lambda>name. map_option (\<lambda>r. sf_data (file_at s r)) (map_of (sd_current d) name))"
    by (rule sim_entriesE)
  have "distinct (map fst (sd_current d))"
    using sim_ok_dir [OF s d(1)] by (simp add: dir_ok_def omap_wf_distinct)
  moreover have "dom m = fst ` set (sd_current d)" unfolding d(2) by (simp add: dom_def flip: dom_map_of_conv_image_fst)
  ultimately show "\<exists>names. fs_list_dir sim_fs dir s = Some (Inr names, s) \<and> distinct names \<and> set names = dom m"
    using d(1) by (simp add: sim_fs_def sim_list_dir_def)
  show "\<exists>s'. fs_sync_dir sim_fs dir s = Some (Inr (), s') \<and> sim_ok s' \<and> sim_entries s' dir = Some m"
    using sim_sync_dir_run [OF s d(1)] by (auto simp: sim_fs_def sim_entries_def set_dir_lookup [OF d(1)] d(2))
  fix name b
  assume names: "plain_dir dir" "plain_name name" and b: "m name = Some b"
  show "fs_read_file sim_fs (join_path dir name) s = Some (Inr b, s)"
    using b find_locked_join [OF names d(1)] by (auto simp: sim_fs_def sim_read_file_def d(2))
  show "\<exists>s'. fs_remove sim_fs (join_path dir name) s = Some (Inr (), s') \<and> sim_ok s' \<and> sim_entries s' dir = Some (m(name := None))"
    using sim_remove_ok [OF s m names b] by (simp add: sim_fs_def)
  show "\<exists>s'. fs_truncate sim_fs (join_path dir name) n s = Some (Inr (), s') \<and> sim_ok s' \<and> sim_entries s' dir = Some (m(name \<mapsto> take n b))"
    if "n \<le> length b" for n
    using sim_truncate_ok [OF s m names b that] by (simp add: sim_fs_def)
qed

section \<open>Crash images\<close>

lemma image_entries_lookup:
  "map fst (fst (image_entries fs rng mode ents n)) = map fst ents"
  "\<exists>k. map_of (fst (image_entries fs rng mode ents n)) name =
    map_option (\<lambda>r. fst (surviving_data rng mode (file_at fs r) k)) (map_of ents name)"
  by (induction ents arbitrary: n) (auto simp: split_beta Let_def)

lemma image_dirs_names: "map fst (image_dirs fs rng mode dirs n) = map fst dirs"
  by (induction dirs arbitrary: n) (auto simp: split_beta Let_def)

lemma image_dirs_lookup:
  "map_of dirs dir = Some d \<Longrightarrow> \<exists>j k. map_of (image_dirs fs rng mode dirs n) dir =
    Some (fst (image_entries fs rng mode (fst (surviving_entries rng mode d j)) k))"
proof (induction dirs arbitrary: n)
  case (Cons x dirs)
  show ?case
  proof (cases "fst x = dir")
    case True
    then show ?thesis
      using Cons.prems by (cases x) (simp add: split_beta Let_def, blast)
  qed (use Cons in \<open>cases x, simp add: split_beta Let_def\<close>)
qed simp

lemma surviving_data_prefix:
  assumes "sf_synced f \<le> length (sf_data f)"
  shows "prefix (take (sf_synced f) (sf_data f)) (fst (surviving_data rng mode f n)) \<and>
    length (fst (surviving_data rng mode f n)) \<le> length (sf_data f)"
proof -
  define keep where "keep = sf_synced f + unat (rng n) mod (length (sf_data f) - sf_synced f + 1)"
  have keep: "sf_synced f \<le> keep" "keep \<le> length (sf_data f)"
    using assms mod_less_divisor [of "length (sf_data f) - sf_synced f + 1" "unat (rng n)"] unfolding keep_def by linarith+
  have pre: "prefix (take (sf_synced f) (sf_data f)) (take k (sf_data f) @ xs)" if "sf_synced f \<le> k" for k xs
    using that by (metis append_assoc le_add_diff_inverse prefixI take_add)
  show ?thesis
  proof (cases "mode = kTorn \<and> sf_synced f < keep \<and> rng (n + 1) AND 1 \<noteq> 0")
    case True
    define g where "g = min (keep - sf_synced f) (1 + unat (rng (n + 1 + 1)) mod 64)"
    have "fst (surviving_data rng mode f n) =
        take (keep - g) (sf_data f) @ map (\<lambda>i. ucast (rng (n + 1 + 2 + i))) [0 ..< g]"
      using True keep unfolding surviving_data_def Let_def keep_def [symmetric] by (simp add: g_def min_def)
    then show ?thesis using pre keep by (simp add: g_def)
  next
    case False
    then have "\<exists>k. fst (surviving_data rng mode f n) = take k (sf_data f) \<and> sf_synced f \<le> k"
      unfolding surviving_data_def Let_def keep_def [symmetric] using assms keep(1)
      by (cases mode) (auto intro: exI [of _ "length (sf_data f)"])
    then show ?thesis using pre [where xs = "[]"] by auto
  qed
qed

lemma surviving_data_lost: "fst (surviving_data rng kLoseUnsynced f n) = take (sf_synced f) (sf_data f)"
  by (simp add: surviving_data_def Let_def)

lemma keep_some_wf: "omap_wf ents \<Longrightarrow> omap_wf (fst (keep_some rng ops ents n))"
  by (induction rng ops ents n rule: keep_some.induct) (auto simp: apply_dir_op_def split: DirOp.split)

lemma keep_some_links:
  assumes "\<forall>op \<in> set ops. case op of kLink name r \<Rightarrow> cur name = Some r | _ \<Rightarrow> False"
  shows "map_of (fst (keep_some rng ops ents n)) name = map_of ents name \<or>
    map_of (fst (keep_some rng ops ents n)) name = cur name"
  using assms
proof (induction rng ops ents n rule: keep_some.induct)
  case (2 rng op ops ents n)
  obtain a r where op: "op = kLink a r" "cur a = Some r" using 2(3) by (cases op) auto
  show ?case using 2 op by (auto simp: apply_dir_op_def split: if_splits)
qed simp

lemma surviving_entries_wf: "dir_ok k d \<Longrightarrow> omap_wf (fst (surviving_entries rng mode d n))"
  by (simp add: surviving_entries_def dir_ok_def keep_some_wf Let_def)

lemma surviving_entries_links:
  assumes "links_only d"
  shows "map_of (fst (surviving_entries rng mode d n)) name \<in> {map_of (sd_durable d) name, map_of (sd_current d) name}"
  using assms keep_some_links [of "sd_pending d" "map_of (sd_current d)" rng "sd_durable d" n name]
  by (auto simp: surviving_entries_def links_only_def Let_def)

section \<open>Installing an image\<close>

lemma install_file_ok:
  assumes "sim_ok fs" and "map_of (sim_dirs fs) dn = Some d"
  shows "sim_ok (install_file dn (name, b) fs)"
    and "sim_entries (install_file dn (name, b) fs) =
      (sim_entries fs)(dn := map_option (\<lambda>m. m(name \<mapsto> b)) (sim_entries fs dn))"
    and "dom (map_of (sim_dirs (install_file dn (name, b) fs))) = dom (map_of (sim_dirs fs))"
proof -
  let ?n = "length (sim_files fs)"
  have dok: "dir_ok ?n d" by (rule sim_ok_dir [OF assms])
  have "dir_ok (Suc ?n) (d\<lparr>sd_current := omap_insert name ?n (sd_current d), sd_durable := omap_insert name ?n (sd_durable d)\<rparr>)"
    using dok by (force simp: dir_ok_def inj_on_def ran_def)
  then show "sim_ok (install_file dn (name, b) fs)"
    using assms by (auto simp: sim_ok_def install_file_def Let_def no_faults_def intro: dir_ok_more [OF _ le_SucI [OF order_refl]])
  have other: "file_at (install_file dn (name, b) fs) r = file_at fs r" if "r < ?n" for r
    using that by (simp add: install_file_def file_at_def nth_append Let_def)
  have "r < ?n" if "map_of (sim_dirs fs) dir = Some d'" "map_of (sd_current d') a = Some r" for dir d' a r
    using dir_ok_ref [OF sim_ok_dir [OF assms(1) that(1)] that(2)] .
  then have same: "map_option (\<lambda>r. sf_data (file_at (install_file dn (name, b) fs) r)) (map_of (sd_current d') a) =
      map_option (\<lambda>r. sf_data (file_at fs r)) (map_of (sd_current d') a)" if "map_of (sim_dirs fs) dir = Some d'" for dir d' a
    using that other by (cases "map_of (sd_current d') a") auto
  have new: "file_at (install_file dn (name, b) fs) ?n = \<lparr>sf_data = b, sf_synced = length b\<rparr>"
    by (simp add: install_file_def file_at_def Let_def)
  have dirs: "map_of (sim_dirs (install_file dn (name, b) fs)) = (map_of (sim_dirs fs))(dn \<mapsto>
      d\<lparr>sd_current := omap_insert name ?n (sd_current d), sd_durable := omap_insert name ?n (sd_durable d)\<rparr>)"
    using assms(2) by (simp add: install_file_def Let_def)
  show "sim_entries (install_file dn (name, b) fs) =
      (sim_entries fs)(dn := map_option (\<lambda>m. m(name \<mapsto> b)) (sim_entries fs dn))"
  proof
    fix dir
    show "sim_entries (install_file dn (name, b) fs) dir =
        ((sim_entries fs)(dn := map_option (\<lambda>m. m(name \<mapsto> b)) (sim_entries fs dn))) dir"
      using same [of dir] same [OF assms(2)] new assms(2)
      by (cases "dir = dn"; cases "map_of (sim_dirs fs) dir") (simp_all add: sim_entries_def dirs fun_eq_iff)
  qed
  show "dom (map_of (sim_dirs (install_file dn (name, b) fs))) = dom (map_of (sim_dirs fs))"
    using assms(2) by (auto simp: install_file_def Let_def)
qed

lemma install_files_ok:
  assumes "sim_ok fs" and "sim_entries fs dn = Some m"
  shows "sim_ok (fold (install_file dn) es fs) \<and>
    sim_entries (fold (install_file dn) es fs) = (sim_entries fs)(dn \<mapsto> m ++ map_of (rev es))"
  using assms
proof (induction es arbitrary: fs m)
  case (Cons e es)
  obtain name b where e: "e = (name, b)" by (cases e)
  obtain d where d: "map_of (sim_dirs fs) dn = Some d" using Cons.prems(2) by (rule sim_entriesE)
  note st = install_file_ok [OF Cons.prems(1) d, of name b]
  have "sim_entries (install_file dn e fs) dn = Some (m(name \<mapsto> b))" using st(2) Cons.prems(2) e by simp
  from Cons.IH [OF _ this] st(1,2) show ?case by (simp add: e map_add_upd_left) (simp add: map_add_def fun_eq_iff split: option.split)
qed auto

lemma install_dir_ok:
  assumes "sim_ok fs"
  shows "sim_ok (install_dir (dn, es) fs) \<and> sim_entries (install_dir (dn, es) fs) = (sim_entries fs)(dn \<mapsto> map_of (rev es))"
proof -
  let ?fs = "fs\<lparr>sim_dirs := omap_insert dn empty_dir (sim_dirs fs)\<rparr>"
  have "dir_ok n empty_dir" for n by (simp add: dir_ok_def empty_dir_def)
  then have "sim_ok ?fs" using assms by (auto simp: sim_ok_def no_faults_def)
  moreover have "sim_entries ?fs = (sim_entries fs)(dn \<mapsto> Map.empty)"
    by (auto simp: sim_entries_def file_at_def empty_dir_def fun_eq_iff)
  ultimately show ?thesis using install_files_ok [of ?fs dn Map.empty es] by (simp add: install_dir_def)
qed

lemma install_dirs_ok:
  assumes "sim_ok fs"
  shows "sim_ok (fold install_dir img fs) \<and>
    sim_entries (fold install_dir img fs) = sim_entries fs ++ map_of (rev (map (\<lambda>(dn, es). (dn, map_of (rev es))) img))"
  using assms
proof (induction img arbitrary: fs)
  case (Cons x img)
  obtain dn es where x: "x = (dn, es)" by (cases x)
  note st = install_dir_ok [OF Cons.prems, of dn es]
  then show ?case using Cons.IH [of "install_dir x fs"] by (simp add: x) (simp add: map_add_def fun_eq_iff split: option.split)
qed simp

lemma map_of_rev_distinct: "distinct (map fst es) \<Longrightarrow> map_of (rev es) = map_of es"
proof (induction es)
  case (Cons e es)
  then have "map_of es (fst e) = None" by (auto simp: map_of_eq_None_iff)
  with Cons show ?case by (cases e) (auto simp: map_add_def fun_eq_iff split: option.split)
qed simp

lemma crash_image_entries:
  assumes "sim_ok fs" and "map_of (sim_dirs fs) dir = Some d"
  shows "sim_ok (crash_image fs mode seed) \<and> (\<exists>j k. sim_entries (crash_image fs mode seed) dir =
    Some (map_of (fst (image_entries fs (sim_rng fs seed) mode (fst (surviving_entries (sim_rng fs seed) mode d j)) k))))"
proof -
  let ?img = "build_image_locked fs mode seed"
  let ?es = "\<lambda>j k. fst (image_entries fs (sim_rng fs seed) mode (fst (surviving_entries (sim_rng fs seed) mode d j)) k)"
  have empty: "sim_entries (empty_sim rng) = Map.empty" for rng by (simp add: sim_entries_def empty_sim_def fun_eq_iff)
  have "sim_ok (empty_sim (sim_rng fs))" by (simp add: sim_ok_def empty_sim_def no_faults_def)
  from install_dirs_ok [OF this, of ?img]
  have ok: "sim_ok (crash_image fs mode seed)"
    and ents: "sim_entries (crash_image fs mode seed) =
      map_of (rev (map (\<lambda>(dn, es). (dn, map_of (rev es))) ?img))"
    by (simp_all add: crash_image_def fs_of_image_def empty)
  have dist: "distinct (map fst ?img)"
    using assms(1) by (simp add: build_image_locked_def image_dirs_names sim_ok_def omap_wf_distinct)
  obtain j k where jk: "map_of ?img dir = Some (?es j k)"
    using image_dirs_lookup [OF assms(2)] unfolding build_image_locked_def by blast
  have "distinct (map fst (?es j k))"
    by (simp add: image_entries_lookup(1) omap_wf_distinct surviving_entries_wf [OF sim_ok_dir [OF assms]])
  moreover have "map_of (rev (map (\<lambda>(dn, es). (dn, map_of (rev es))) ?img)) dir = Some (map_of (rev (?es j k)))"
    using dist jk by (subst map_of_rev_distinct) (auto simp: map_of_map comp_def split_beta)
  ultimately have "sim_entries (crash_image fs mode seed) dir = Some (map_of (?es j k))"
    using ents map_of_rev_distinct [of "?es j k"] by simp
  then show ?thesis using ok by blast
qed

section \<open>The contract of the log\<close>

lemma sim_create_ok:
  assumes "sim_ok s" and "sim_view s dir = Some v" and "plain_dir dir" and "plain_name name" and "v name = None"
  shows "\<exists>h s'. sim_open_append (join_path dir name) kCreateNew s = Some (Inr h, s') \<and> sim_ok s' \<and> sim_handle s' dir name h \<and>
    sim_view s' dir = Some (v(name \<mapsto> \<lparr>fv_data = [], fv_synced = 0, fv_linked = False\<rparr>))"
proof -
  obtain d where d: "map_of (sim_dirs s) dir = Some d" "links_only d" "v = file_view s d"
    using assms(2) by (rule sim_viewE)
  let ?n = "length (sim_files s)"
  let ?s = "s\<lparr>sim_files := sim_files s @ [\<lparr>sf_data = [], sf_synced = 0\<rparr>]\<rparr>"
  let ?d = "d\<lparr>sd_current := omap_insert name ?n (sd_current d), sd_pending := sd_pending d @ [kLink name ?n]\<rparr>"
  have fresh: "map_of (sd_current d) name = None" using assms(5) by (simp add: d(3) file_view_def)
  have dok: "dir_ok ?n d" by (rule sim_ok_dir [OF assms(1) d(1)])
  have "dir_ok (Suc ?n) ?d"
    using dok fresh by (force simp: dir_ok_def inj_on_def ran_def less_Suc_eq)
  moreover have "sim_ok ?s"
    using assms(1) by (auto simp: sim_ok_def no_faults_def intro: dir_ok_more [OF _ le_SucI [OF order_refl]])
  ultimately have "sim_ok (set_dir dir ?d ?s)" using d(1) by (intro sim_ok_set_dir) auto
  have notdur: "map_of (sd_durable d) name = None"
    using d(2) fresh by (auto simp: links_only_def map_le_def dom_def)
  then have links: "links_only ?d"
    using d(2) fresh by (fastforce simp: links_only_def map_le_def split: DirOp.splits)
  have view: "file_view ?s ?d = v(name \<mapsto> \<lparr>fv_data = [], fv_synced = 0, fv_linked = False\<rparr>)"
    using dir_ok_ref [OF dok] notdur
    by (auto simp: d(3) file_view_def file_at_def nth_append fun_eq_iff map_option_case split: option.split)
  have "file_view (set_dir dir ?d ?s) ?d = file_view ?s ?d" by (simp add: file_view_def fun_eq_iff)
  then have "sim_view (set_dir dir ?d ?s) dir = Some (v(name \<mapsto> \<lparr>fv_data = [], fv_synced = 0, fv_linked = False\<rparr>))"
    using d(1) links view by (simp add: sim_view_def set_dir_lookup)
  moreover have "sim_handle (set_dir dir ?d ?s) dir name \<lparr>hd_file = ?n, hd_name = name\<rparr>"
    using d(1) by (simp add: sim_handle_def set_dir_lookup)
  ultimately show ?thesis
    using d(1) fresh \<open>sim_ok (set_dir dir ?d ?s)\<close> by (simp add: sim_open_append_def split_join [OF assms(3,4)] Let_def)
qed

lemma sim_set_file_view:
  assumes "sim_ok s" and "sim_view s dir = Some v" and "sim_handle s dir name h" and "v name = Some g"
    and "sf_synced f \<le> length (sf_data f)"
  shows "sim_ok (set_file (hd_file h) f s)" and "sim_handle (set_file (hd_file h) f s) dir name h"
    and "sim_view (set_file (hd_file h) f s) dir = Some (v(name \<mapsto> g\<lparr>fv_data := sf_data f, fv_synced := sf_synced f\<rparr>))"
proof -
  obtain d where d: "map_of (sim_dirs s) dir = Some d" "links_only d" "v = file_view s d"
    using assms(2) by (rule sim_viewE)
  have h: "map_of (sd_current d) name = Some (hd_file h)" using assms(3) d(1) by (auto simp: sim_handle_def)
  show "sim_ok (set_file (hd_file h) f s)" by (rule sim_ok_set_file [OF assms(1,5)])
  show "sim_handle (set_file (hd_file h) f s) dir name h" using assms(3) by (simp add: sim_handle_def)
  have "g = \<lparr>fv_data = sf_data (file_at s (hd_file h)), fv_synced = sf_synced (file_at s (hd_file h)),
      fv_linked = (map_of (sd_durable d) name = Some (hd_file h))\<rparr>"
    using assms(4) h by (simp add: d(3) file_view_def)
  then show "sim_view (set_file (hd_file h) f s) dir = Some (v(name \<mapsto> g\<lparr>fv_data := sf_data f, fv_synced := sf_synced f\<rparr>))"
    using view_set_file [OF assms(1) d(1) h, of f] d by (simp add: sim_view_def)
qed

lemma sim_handle_file:
  assumes "sim_view s dir = Some v" and "sim_handle s dir name h" and "v name = Some g"
  shows "sf_data (file_at s (hd_file h)) = fv_data g" and "sf_synced (file_at s (hd_file h)) = fv_synced g"
proof -
  obtain d where d: "map_of (sim_dirs s) dir = Some d" "v = file_view s d" using assms(1) by (rule sim_viewE)
  then have "map_of (sd_current d) name = Some (hd_file h)" using assms(2) by (auto simp: sim_handle_def)
  then show "sf_data (file_at s (hd_file h)) = fv_data g" "sf_synced (file_at s (hd_file h)) = fv_synced g"
    using assms(3) d by (auto simp: file_view_def)
qed

lemma sim_handle_synced:
  assumes "sim_ok s" and "sim_handle s dir name h"
  shows "sf_synced (file_at s (hd_file h)) \<le> length (sf_data (file_at s (hd_file h)))"
proof -
  obtain d where d: "map_of (sim_dirs s) dir = Some d" "map_of (sd_current d) name = Some (hd_file h)"
    using assms(2) by (auto simp: sim_handle_def)
  show ?thesis by (rule sim_ok_synced [OF assms(1) dir_ok_ref [OF sim_ok_dir [OF assms(1) d(1)] d(2)]])
qed

lemma sim_append_ok:
  assumes "sim_ok s" and "sim_view s dir = Some v" and "sim_handle s dir name h" and "v name = Some g"
  shows "\<exists>s'. handle_append h b s = Some (Inr (), s') \<and> sim_ok s' \<and> sim_handle s' dir name h \<and>
    sim_view s' dir = Some (v(name \<mapsto> g\<lparr>fv_data := fv_data g @ b\<rparr>))"
proof -
  let ?f = "file_at s (hd_file h)\<lparr>sf_data := sf_data (file_at s (hd_file h)) @ b\<rparr>"
  have "no_faults s" using assms(1) by (simp add: sim_ok_def)
  then have same: "s\<lparr>sim_append_failure := None\<rparr> = s" and "sim_append_failure s = None" "sim_capacity s = None"
    by (simp_all add: no_faults_def)
  then have "handle_append h b s = Some (Inr (), count_op_locked (set_file (hd_file h) ?f s))"
    by (simp add: handle_append_def count_down_def add_data_def Let_def same)
  moreover have "sf_synced ?f \<le> length (sf_data ?f)" using sim_handle_synced [OF assms(1,3)] by simp
  ultimately show ?thesis
    using sim_set_file_view [OF assms, of ?f] sim_handle_file [OF assms(2-4)] by simp
qed

lemma sim_sync_ok:
  assumes "sim_ok s" and "sim_view s dir = Some v" and "sim_handle s dir name h" and "v name = Some g"
  shows "\<exists>s'. handle_sync h s = Some (Inr (), s') \<and> sim_ok s' \<and> sim_handle s' dir name h \<and>
    sim_view s' dir = Some (v(name \<mapsto> g\<lparr>fv_synced := length (fv_data g)\<rparr>))"
proof -
  let ?f = "file_at s (hd_file h)\<lparr>sf_synced := length (sf_data (file_at s (hd_file h)))\<rparr>"
  have "no_faults s" using assms(1) by (simp add: sim_ok_def)
  then have same: "s\<lparr>sim_sync_failure := None, sim_sync_broken := False\<rparr> = s" and "sim_sync_failure s = None" "\<not> sim_sync_broken s"
    "\<not> sim_syncs_held s"
    by (simp_all add: no_faults_def)
  then have "handle_sync h s = Some (Inr (), count_op_locked (set_file (hd_file h) ?f s))"
    by (simp add: handle_sync_def count_down_def Let_def same)
  then show ?thesis
    using sim_set_file_view [OF assms, of ?f] sim_handle_file [OF assms(2-4)] by simp
qed

lemma sim_sync_dir_view:
  assumes "sim_ok s" and "sim_view s dir = Some v"
  shows "\<exists>s'. sim_sync_dir dir s = Some (Inr (), s') \<and> sim_ok s' \<and> (\<forall>name h. sim_handle s dir name h \<longrightarrow> sim_handle s' dir name h) \<and>
    sim_view s' dir = Some (map_option linked \<circ> v)"
proof -
  obtain d where d: "map_of (sim_dirs s) dir = Some d" "v = file_view s d" using assms(2) by (rule sim_viewE)
  let ?d = "d\<lparr>sd_durable := sd_current d, sd_pending := []\<rparr>"
  have "links_only ?d" by (simp add: links_only_def)
  moreover have "file_view (set_dir dir ?d s) ?d = map_option linked \<circ> v"
    by (auto simp: file_view_def d(2) linked_def fun_eq_iff map_option_case split: option.split)
  ultimately show ?thesis
    using sim_sync_dir_run [OF assms(1) d(1)] d(1) by (auto simp: sim_view_def sim_handle_def set_dir_lookup)
qed

lemma sim_crash_ok:
  assumes "sim_ok s" and "sim_view s dir = Some v"
  shows "sim_ok (crash_image s mode seed)"
    and "\<exists>m. sim_entries (crash_image s mode seed) dir = Some m \<and> (\<forall>name. survives (v name) (m name))"
    and "sim_entries (crash_image s kLoseUnsynced seed) dir = Some (stable \<circ> v)"
proof -
  obtain d where d: "map_of (sim_dirs s) dir = Some d" "links_only d" "v = file_view s d"
    using assms(2) by (rule sim_viewE)
  let ?rng = "sim_rng s seed"
  show "sim_ok (crash_image s mode seed)" using crash_image_entries [OF assms(1) d(1)] by blast
  have durable: "map_of (sd_current d) name = Some r" if "map_of (sd_durable d) name = Some r" for name r
    using d(2) that by (auto simp: links_only_def map_le_def dom_def)
  obtain j k where m: "sim_entries (crash_image s mode seed) dir =
      Some (map_of (fst (image_entries s ?rng mode (fst (surviving_entries ?rng mode d j)) k)))"
    using crash_image_entries [OF assms(1) d(1)] by blast
  have "survives (v name) (map_of (fst (image_entries s ?rng mode (fst (surviving_entries ?rng mode d j)) k)) name)" for name
  proof -
    obtain i where i: "map_of (fst (image_entries s ?rng mode (fst (surviving_entries ?rng mode d j)) k)) name =
        map_option (\<lambda>r. fst (surviving_data ?rng mode (file_at s r) i)) (map_of (fst (surviving_entries ?rng mode d j)) name)"
      using image_entries_lookup(2) by blast
    have "sf_synced (file_at s r) \<le> length (sf_data (file_at s r))" if "map_of (sd_current d) name = Some r" for r
      using sim_ok_synced [OF assms(1) dir_ok_ref [OF sim_ok_dir [OF assms(1) d(1)] that]] .
    then show ?thesis
      using surviving_entries_links [OF d(2), of ?rng mode j name] durable [of name] surviving_data_prefix
      unfolding i d(3) file_view_def
      by (cases "map_of (sd_current d) name"; cases "map_of (sd_durable d) name") auto
  qed
  then show "\<exists>m. sim_entries (crash_image s mode seed) dir = Some m \<and> (\<forall>name. survives (v name) (m name))" using m by blast
  obtain j k where m: "sim_entries (crash_image s kLoseUnsynced seed) dir =
      Some (map_of (fst (image_entries s ?rng kLoseUnsynced (fst (surviving_entries ?rng kLoseUnsynced d j)) k)))"
    using crash_image_entries [OF assms(1) d(1)] by blast
  have "map_of (fst (image_entries s ?rng kLoseUnsynced (fst (surviving_entries ?rng kLoseUnsynced d j)) k)) name = stable (v name)" for name
    using image_entries_lookup(2) [of s ?rng kLoseUnsynced "fst (surviving_entries ?rng kLoseUnsynced d j)" k name] durable [of name]
    by (cases "map_of (sd_durable d) name"; cases "map_of (sd_current d) name")
      (auto simp: surviving_data_lost surviving_entries_def stable_def d(3) file_view_def)
  then show "sim_entries (crash_image s kLoseUnsynced seed) dir = Some (stable \<circ> v)" by (simp add: m fun_eq_iff)
qed

interpretation sim_log: log_store sim_fs sim_ok sim_entries sim_view sim_handle
  "\<lambda>s s'. \<exists>mode seed. s' = crash_image s mode seed" "\<lambda>s s'. \<exists>seed. s' = crash_image s kLoseUnsynced seed"
  using sim_create_ok sim_append_ok sim_sync_ok sim_sync_dir_view sim_crash_ok sim_handle_file
  by unfold_locales (fastforce simp: sim_fs_def handle_size_def)+

end
