(* ===== verification/LogSafe.thy ===== *)
theory LogSafe
  imports SimStore
begin

text \<open>
  The durability promise of the log on the simulated file system: records that the writer
  reports as committed survive every crash, whatever the interleaving of the owner thread
  and the log thread and whatever operation of the file system the crash interrupts.
\<close>

section \<open>Helpers\<close>

lemma lw_run_trans:
  assumes "lw_run fs c rs c'" and "lw_run fs c' rs' c''"
  shows "lw_run fs c (rs @ rs') c''"
  using assms(2)
proof induction
  case (run_step rs' c1 r c2)
  then show ?case using lw_run.run_step [of fs c "rs @ rs'" c1 r c2] by simp
qed (use assms(1) in simp)

context log_store
begin

lemma opened_log_ok:
  assumes "working s" and "view s dir = Some v" and "plain_dir dir" and "\<And>l. v (segment_file_name l) = None"
    and "lo_dir options = dir" and "lo_fsync_policy options = kAlways"
    and "open_writer (traced fs) options no_log (s, []) = Some (Inr w, s', t)"
  shows "log_ok dir 1 [] [] (w, Waiting, s')"
proof -
  have "kSegmentHeaderSize + kRecordHeaderSize \<le> lo_segment_size options"
    using assms(7) by (auto simp: open_writer_def split: if_splits)
  from open_writer_fresh [OF assms(1-6) this, of "[]"] assms(7) show ?thesis by auto
qed

lemma run_keeps_committed:
  assumes "log_ok dir 1 [] [] (w0, Waiting, s0)" and "plain_dir dir"
    and "lw_run (traced fs) (w0, Waiting, s0, t0) rs (w, ph, s1, t1)"
    and "lw_step (traced fs) (w, ph, s1, t1) r (w', ph', s2, t2)"
    and "log_room 1 (rs @ r)" and "x \<in> set (s1 # drop (length t1) t2)" and "crashed x x'"
  shows "recovers fs dir 0 x' (committed w rs)"
proof -
  have room: "log_room 1 ([] @ rs)" using log_room_append [OF assms(5)] by simp
  obtain known where known: "log_ok dir 1 known rs (w, ph, s1)"
    using log_ok_run [OF assms(3) refl refl assms(1,2) room] by auto
  obtain known' tr where tr: "t2 = t1 @ tr" "\<forall>x \<in> set tr. safe_in dir 1 known x"
    using log_ok_step [OF known assms(2,5,4)] by blast
  have "safe_in dir 1 known x" using assms(6) tr log_ok_safe [OF known] by auto
  from safe_in_recovers [OF this assms(2) _ _ assms(7), of 0] log_ok_committed [OF known] room
  show ?thesis by simp
qed

lemma run_power_loss:
  assumes "log_ok dir 1 [] [] (w0, Waiting, s0)" and "plain_dir dir"
    and "lw_run (traced fs) (w0, Waiting, s0, t0) rs (w, ph, s1, t1)" and "log_room 1 rs" and "power_lost s1 x'"
  shows "recovers_exactly fs dir 0 x' (committed w rs)"
proof -
  have room: "log_room 1 ([] @ rs)" using assms(4) by simp
  obtain known where known: "log_ok dir 1 known rs (w, ph, s1)"
    using log_ok_run [OF assms(3) refl refl assms(1,2) room] by auto
  from log_ok_power_loss [OF known assms(2) _ _ assms(5), of 0] log_ok_committed [OF known assms(4)]
  show ?thesis by simp
qed

text \<open>From \<open>Waiting\<close>, the batch that a flush leaves in the inbox is all that is not yet committed.\<close>

lemma flush_commits:
  assumes "log_ok dir l known appended (w, Waiting, s)" and "plain_dir dir" and "log_room l appended"
  shows "if batch_empty (lw_inbox (flush_log w))
    then log_ok dir l appended appended (flush_log w, Waiting, s)
    else \<exists>w' s' tr. write_batch (traced fs) (lw_inbox (flush_log w)) micros1 micros2
        ((flush_log w)\<lparr>lw_inbox := empty_batch\<rparr>, s, t) = Some (w', s', t @ tr) \<and>
      log_ok dir l appended appended (w', Checking, s')"
proof -
  let ?w = "flush_log w"
  have wh: "writer_holds dir l known appended ?w Waiting" and act: "lw_active ?w = lw_active w"
    using writer_holds_flush [of dir l known appended w Waiting] assms(1,3) by (auto simp: log_ok_def)
  then have ok: "log_ok dir l known appended (?w, Waiting, s)" using assms(1) by (auto simp: log_ok_def)
  have pend: "batch_empty (lw_pending ?w)" by (simp add: flush_log_def Let_def batch_empty_def empty_batch_def)
  show ?thesis
  proof (cases "batch_empty (lw_inbox ?w)")
    case True
    then have "appended = known" using log_ok_idle [OF ok _ _ pend] by simp
    then show ?thesis using ok True by simp
  next
    case False
    let ?w1 = "?w\<lparr>lw_inbox := empty_batch\<rparr>" and ?b = "lw_inbox ?w"
    have "log_ok dir l known appended (?w1, Writing ?b, s)"
      using ok writer_holds_take [OF wh False] by (auto simp: log_ok_def)
    from log_ok_write [OF this assms(2,3), of micros1 micros2 t]
    obtain known' w' s' tr where wr: "write_batch (traced fs) ?b micros1 micros2 (?w1, s, t) = Some (w', s', t @ tr)"
        "log_ok dir l known' appended (w', Checking, s')" "lw_inbox w' = empty_batch" "lw_pending w' = lw_pending ?w"
      by auto
    have "appended = known'"
      using log_ok_idle [OF wr(2)] wr(3,4) pend by (simp add: batch_empty_def empty_batch_def)
    then show ?thesis using wr False by auto
  qed
qed

lemma log_ok_last:
  assumes "log_ok dir l known appended (w, ph, s)" and "log_ok dir l appended appended (w', ph', s')"
  shows "lw_committed_lsn w' = last_appended_lsn w"
  using assms by (auto simp: log_ok_def last_appended_lsn_def elim!: writer_holdsE)

end

section \<open>Durability\<close>

text \<open>
  C1. Committed records survive every crash. A writer with the policy \<open>kAlways\<close> is opened on a
  directory of the simulated file system that holds no log. The owner thread and the log
  thread run in any interleaving and reach a writer \<open>w\<close>. The file system crashes, in any
  mode and with any seed, in that state or in any state it goes through in the step that
  follows. The start-up scan of the crash image then returns and has handed over, first and in
  order, every record that \<open>w\<close> reports as committed; it succeeds or refuses the log with a
  corruption or precondition error.
\<close>

theorem log_crash_keeps_committed:
  assumes "sim_ok s" and "sim_view s dir = Some v" and "plain_dir dir" and "\<And>l. v (segment_file_name l) = None"
    and "lo_dir options = dir" and "lo_fsync_policy options = kAlways"
    and "open_writer (traced sim_fs) options no_log (s, []) = Some (Inr w0, s0, t0)"
    and "lw_run (traced sim_fs) (w0, Waiting, s0, t0) rs (w, ph, s1, t1)"
    and "lw_step (traced sim_fs) (w, ph, s1, t1) r (w', ph', s2, t2)" and "log_room 1 (rs @ r)"
    and "x \<in> set (s1 # drop (length t1) t2)"
  shows "recovers sim_fs dir 0 (crash_image x mode seed) (committed w rs)"
  by (rule sim_log.run_keeps_committed [OF sim_log.opened_log_ok [OF assms(1-7)] assms(3,8,9,10,11)]) blast

text \<open>
  C6. After a loss of power with nothing in flight (unsynced bytes and unsynced directory
  changes are gone) between two steps of such a run, the start-up scan succeeds and hands over exactly the
  committed records.
\<close>

theorem log_power_loss_recovers:
  assumes "sim_ok s" and "sim_view s dir = Some v" and "plain_dir dir" and "\<And>l. v (segment_file_name l) = None"
    and "lo_dir options = dir" and "lo_fsync_policy options = kAlways"
    and "open_writer (traced sim_fs) options no_log (s, []) = Some (Inr w0, s0, t0)"
    and "lw_run (traced sim_fs) (w0, Waiting, s0, t0) rs (w, ph, s1, t1)" and "log_room 1 rs"
  shows "recovers_exactly sim_fs dir 0 (crash_image s1 kLoseUnsynced seed) (committed w rs)"
  by (rule sim_log.run_power_loss [OF sim_log.opened_log_ok [OF assms(1-7)] assms(3,8,9)]) blast

text \<open>
  C7. Group commit makes progress. Whenever the log thread waits, the owner's flush leaves either
  nothing in the inbox, and then every record appended so far is committed already, or a batch. Taking
  that batch and writing it, which is one pass of the log thread, does not die, however long its syncs
  take, and commits every record appended so far.
\<close>

theorem log_flush_commits:
  assumes "sim_ok s" and "sim_view s dir = Some v" and "plain_dir dir" and "\<And>l. v (segment_file_name l) = None"
    and "lo_dir options = dir" and "lo_fsync_policy options = kAlways"
    and "open_writer (traced sim_fs) options no_log (s, []) = Some (Inr w0, s0, t0)"
    and "lw_run (traced sim_fs) (w0, Waiting, s0, t0) rs (w, Waiting, s1, t1)" and "log_room 1 rs"
  shows "if batch_empty (lw_inbox (flush_log w))
    then lw_committed_lsn (flush_log w) = last_appended_lsn w \<and> committed (flush_log w) rs = rs
    else \<exists>w' s' t'. write_batch (traced sim_fs) (lw_inbox (flush_log w)) micros1 micros2
        ((flush_log w)\<lparr>lw_inbox := empty_batch\<rparr>, s1, t1) = Some (w', s', t') \<and>
      lw_committed_lsn w' = last_appended_lsn w \<and> committed w' rs = rs"
proof -
  have room: "log_room 1 ([] @ rs)" using assms(9) by simp
  obtain known where known: "sim_log.log_ok dir 1 known rs (w, Waiting, s1)"
    using sim_log.log_ok_run [OF assms(8) refl refl sim_log.opened_log_ok [OF assms(1-7)] assms(3) room] by auto
  note c = sim_log.log_ok_last [OF known] sim_log.log_ok_committed [OF _ assms(9)]
  show ?thesis
    using sim_log.flush_commits [OF known assms(3,9), of micros1 micros2 t1] c by (auto split: if_splits)
qed

section \<open>A run\<close>

text \<open>One record is appended to a new log and committed.\<close>

definition demo_fs :: SimFs where
  "demo_fs = (empty_sim (\<lambda>seed n. 7))\<lparr>sim_dirs := [(str ''d'', empty_dir)]\<rparr>"

definition demo_options :: LogWriterOptions where
  "demo_options = \<lparr>lo_dir = str ''d'', lo_fsync_policy = kAlways, lo_fsync_interval_ms = 0, lo_segment_size = 64\<rparr>"

definition demo_record :: LogRecordView where
  "demo_record = \<lparr>lv_lsn = 1, lv_type = 3, lv_payload = str ''job''\<rparr>"

lemma demo_facts:
  "sim_ok demo_fs" "sim_view demo_fs (str ''d'') = Some Map.empty" "plain_dir (str ''d'')"
  "lo_dir demo_options = str ''d''" "lo_fsync_policy demo_options = kAlways" "log_room 1 [demo_record]"
  by (simp_all add: demo_fs_def demo_options_def demo_record_def sim_ok_def no_faults_def empty_sim_def omap_wf_def dir_ok_def empty_dir_def
      sim_view_def links_only_def file_view_def plain_dir_def str_def log_room_def lsn_room_def kRecordHeaderSize_def fun_eq_iff)

lemma open_writer_inbox: "open_writer fs options recovered s = Some (Inr w, s') \<Longrightarrow> lw_inbox w = empty_batch"
  by (auto simp: open_writer_def open_active_segment_def create_segment_def try_op_def on_fs_def mk_writer_def Let_def
      split: if_splits option.splits sum.splits prod.splits)

lemma demo_run:
  "\<exists>w0 s0 t0 w s t. open_writer (traced sim_fs) demo_options no_log (demo_fs, []) = Some (Inr w0, s0, t0) \<and>
    lw_run (traced sim_fs) (w0, Waiting, s0, t0) [demo_record] (w, Waiting, s, t) \<and> b_records (lw_pending w) = 1 \<and>
    batch_empty (lw_inbox w)"
proof -
  have "kSegmentHeaderSize + kRecordHeaderSize \<le> lo_segment_size demo_options"
    by (simp add: demo_options_def kRecordHeaderSize_def kSegmentHeaderSize_def)
  from sim_log.open_writer_fresh [OF demo_facts(1-3) _ demo_facts(4,5) this, of "[]"]
  obtain w0 s0 t0 where o: "open_writer (traced sim_fs) demo_options no_log (demo_fs, []) = Some (Inr w0, s0, t0)"
      "\<not> lw_stopped w0" "lw_next_lsn w0 = 1" "lw_pending w0 = empty_batch"
    by auto
  have in0: "batch_empty (lw_inbox w0)" using open_writer_inbox [OF o(1)] by (simp add: batch_empty_def empty_batch_def)
  have "\<exists>w. append_log 3 (str ''job'') w0 = Some (1, w) \<and> b_records (lw_pending w) = 1 \<and> lw_inbox w = lw_inbox w0"
    using o(2-4) by (simp add: append_log_def append_record_eq kMaxRecordPayload_eq Let_def empty_batch_def)
  then obtain w where w: "append_log 3 (str ''job'') w0 = Some (1, w)" "b_records (lw_pending w) = 1" "lw_inbox w = lw_inbox w0" by blast
  from run_step [OF run_start step_append [OF w(1)]] o(1) w(2,3) in0 show ?thesis
    unfolding demo_record_def by (metis append_Nil)
qed

lemma demo_committed:
  "\<exists>w0 s0 t0 w ph s t. open_writer (traced sim_fs) demo_options no_log (demo_fs, []) = Some (Inr w0, s0, t0) \<and>
    lw_run (traced sim_fs) (w0, Waiting, s0, t0) [demo_record] (w, ph, s, t) \<and> committed w [demo_record] = [demo_record]"
proof -
  obtain w0 s0 t0 w s t where r: "open_writer (traced sim_fs) demo_options no_log (demo_fs, []) = Some (Inr w0, s0, t0)"
      "lw_run (traced sim_fs) (w0, Waiting, s0, t0) [demo_record] (w, Waiting, s, t)"
    using demo_run by blast
  have "sim_log.log_ok (str ''d'') 1 [] [] (w0, Waiting, s0)"
    using sim_log.opened_log_ok [OF demo_facts(1-3) _ demo_facts(4,5) r(1)] by simp
  then obtain known where known: "sim_log.log_ok (str ''d'') 1 known [demo_record] (w, Waiting, s)"
    using sim_log.log_ok_run [OF r(2) refl refl _ demo_facts(3), of 1 "[]" "[]"] demo_facts(6) by auto
  have flush: "lw_run (traced sim_fs) (w, Waiting, s, t) [] (flush_log w, Waiting, s, t)"
    using run_step [OF run_start step_flush] by simp
  obtain w' ph' s' t' where "lw_run (traced sim_fs) (w, Waiting, s, t) [] (w', ph', s', t')"
      "sim_log.log_ok (str ''d'') 1 [demo_record] [demo_record] (w', ph', s')"
  proof (cases "batch_empty (lw_inbox (flush_log w))")
    case True
    then show ?thesis using that [OF flush] sim_log.flush_commits [OF known demo_facts(3,6), of 0 0 t] by simp
  next
    case False
    then obtain w' s' tr where wr: "write_batch (traced sim_fs) (lw_inbox (flush_log w)) 0 0
        ((flush_log w)\<lparr>lw_inbox := empty_batch\<rparr>, s, t) = Some (w', s', t @ tr)"
        "sim_log.log_ok (str ''d'') 1 [demo_record] [demo_record] (w', Checking, s')"
      using sim_log.flush_commits [OF known demo_facts(3,6), of 0 0 t] by auto
    show ?thesis using that [OF _ wr(2)] run_step [OF run_step [OF flush step_take [OF False]] step_write [OF wr(1)]] by simp
  qed
  then show ?thesis using r(1) lw_run_trans [OF r(2)] sim_log.log_ok_committed [OF _ demo_facts(6)] by fastforce
qed

theorem log_crash_keeps_committed_witness:
  "\<exists>s. recovers sim_fs (str ''d'') 0 (crash_image s kTorn 9) [demo_record]"
proof -
  obtain w0 s0 t0 w ph s t where o: "open_writer (traced sim_fs) demo_options no_log (demo_fs, []) = Some (Inr w0, s0, t0)"
      and r: "lw_run (traced sim_fs) (w0, Waiting, s0, t0) [demo_record] (w, ph, s, t)" and c: "committed w [demo_record] = [demo_record]"
    using demo_committed by blast
  have "log_room 1 ([demo_record] @ [])" using demo_facts(6) by simp
  from log_crash_keeps_committed [OF demo_facts(1-3) _ demo_facts(4,5) o r step_flush this, of s kTorn 9]
  have "recovers sim_fs (str ''d'') 0 (crash_image s kTorn 9) [demo_record]" by (simp add: c)
  then show ?thesis by blast
qed

theorem log_power_loss_recovers_witness:
  "\<exists>s. recovers_exactly sim_fs (str ''d'') 0 (crash_image s kLoseUnsynced 9) [demo_record]"
proof -
  obtain w0 s0 t0 w ph s t where o: "open_writer (traced sim_fs) demo_options no_log (demo_fs, []) = Some (Inr w0, s0, t0)"
      and r: "lw_run (traced sim_fs) (w0, Waiting, s0, t0) [demo_record] (w, ph, s, t)" and c: "committed w [demo_record] = [demo_record]"
    using demo_committed by blast
  from log_power_loss_recovers [OF demo_facts(1-3) _ demo_facts(4,5) o r demo_facts(6), of 9]
  have "recovers_exactly sim_fs (str ''d'') 0 (crash_image s kLoseUnsynced 9) [demo_record]" by (simp add: c)
  then show ?thesis by blast
qed

theorem log_flush_commits_witness:
  "\<exists>w s t w' s' t'. \<not> batch_empty (lw_inbox (flush_log w)) \<and>
     write_batch (traced sim_fs) (lw_inbox (flush_log w)) 5 5 ((flush_log w)\<lparr>lw_inbox := empty_batch\<rparr>, s, t) = Some (w', s', t') \<and>
     committed w' [demo_record] = [demo_record]"
proof -
  obtain w0 s0 t0 w s t where r: "open_writer (traced sim_fs) demo_options no_log (demo_fs, []) = Some (Inr w0, s0, t0)"
      "lw_run (traced sim_fs) (w0, Waiting, s0, t0) [demo_record] (w, Waiting, s, t)" "b_records (lw_pending w) = 1"
      "batch_empty (lw_inbox w)"
    using demo_run by blast
  have "\<not> batch_empty (lw_inbox (flush_log w))"
    using r(3,4) by (simp add: flush_log_def batch_empty_def Let_def)
  moreover have "if batch_empty (lw_inbox (flush_log w))
      then lw_committed_lsn (flush_log w) = last_appended_lsn w \<and> committed (flush_log w) [demo_record] = [demo_record]
      else \<exists>w' s' t'. write_batch (traced sim_fs) (lw_inbox (flush_log w)) 5 5
          ((flush_log w)\<lparr>lw_inbox := empty_batch\<rparr>, s, t) = Some (w', s', t') \<and>
        lw_committed_lsn w' = last_appended_lsn w \<and> committed w' [demo_record] = [demo_record]"
    by (rule log_flush_commits [OF demo_facts(1-3) _ demo_facts(4,5) r(1,2) demo_facts(6)]) simp
  ultimately show ?thesis by (simp only: if_False) blast
qed

end
