(* ===== verification/Image.thy ===== *)
theory Image
  imports StateProps
begin

text \<open>
  \<^verbatim>\<open>state/image.h\<close>, \<^verbatim>\<open>state/image.cpp\<close> and the serialization part of \<^verbatim>\<open>state/state.cpp\<close>: the copy of
  the durable part of a state, its encoding in pieces, and the builder that decodes the
  pieces and validates everything. Every caller drops a builder that has reported an error, so an
  operation of the builder answers the error or the builder after it. The order in which the hash map
  of jobs is copied is an argument.
\<close>

section \<open>Data\<close>

datatype PersistedState = pPending | pLeased | pSucceeded | pDead | pCancelled

fun to_persisted :: "JobState \<Rightarrow> PersistedState" where
  "to_persisted kScheduled = pPending"
| "to_persisted kReady = pPending"
| "to_persisted kLeased = pLeased"
| "to_persisted kSucceeded = pSucceeded"
| "to_persisted kDead = pDead"
| "to_persisted kCancelled = pCancelled"

fun from_persisted :: "PersistedState \<Rightarrow> JobState" where
  "from_persisted pPending = kScheduled"
| "from_persisted pLeased = kLeased"
| "from_persisted pSucceeded = kSucceeded"
| "from_persisted pDead = kDead"
| "from_persisted pCancelled = kCancelled"

text \<open>The casts between the enumeration and its byte.\<close>

fun persisted_byte :: "PersistedState \<Rightarrow> byte" where
  "persisted_byte pPending = 0"
| "persisted_byte pLeased = 1"
| "persisted_byte pSucceeded = 2"
| "persisted_byte pDead = 3"
| "persisted_byte pCancelled = 4"

definition byte_persisted :: "byte \<Rightarrow> PersistedState" where
  "byte_persisted b = (if b = 0 then pPending else if b = 1 then pLeased else if b = 2 then pSucceeded
     else if b = 3 then pDead else pCancelled)"

record QueueImage =
  qi_name :: bytes
  qi_totals :: QueueTotals

record JobImage =
  ji_id :: JobId
  ji_queue :: u32
  ji_payload :: bytes
  ji_priority :: int
  ji_attempts :: u32
  ji_max_attempts :: u32
  ji_backoff_base_ms :: u32
  ji_backoff_cap_ms :: u32
  ji_state :: PersistedState
  ji_run_at :: WallTime
  ji_created_at :: WallTime
  ji_finished_at :: WallTime
  ji_lease_expires_at :: WallTime
  ji_lease_token :: LeaseToken
  ji_idem_key :: bytes
  ji_last_error :: bytes

record StateImage =
  im_next_job_id :: JobId
  im_next_token :: LeaseToken
  im_queues :: "QueueImage list"
  im_jobs :: "JobImage list"
  im_idem :: "IdemEntry list"

section \<open>Encoding\<close>

definition kPieceVersion :: byte where
  "kPieceVersion = 1"

definition encode_totals :: "QueueTotals \<Rightarrow> bytes" where
  "encode_totals t = w_varint (qt_enqueued t) @ w_varint (qt_succeeded t) @ w_varint (qt_failed_attempts t) @
     w_varint (qt_dead t) @ w_varint (qt_cancelled t)"

definition encode_queue :: "QueueImage \<Rightarrow> bytes" where
  "encode_queue queue = w_bytes (qi_name queue) @ encode_totals (qi_totals queue)"

definition encode_image_meta :: "StateImage \<Rightarrow> bytes" where
  "encode_image_meta img = w_u8 kPieceVersion @ w_varint (im_next_job_id img) @ w_varint (im_next_token img) @
     w_varint (of_nat (length (im_queues img))) @ concat (map encode_queue (im_queues img))"

definition encode_job :: "JobImage \<Rightarrow> bytes" where
  "encode_job job = w_varint (ji_id job) @ w_varint (ucast (ji_queue job)) @ w_bytes (ji_payload job) @
     w_svarint (ji_priority job) @ w_varint (ucast (ji_attempts job)) @ w_varint (ucast (ji_max_attempts job)) @
     w_varint (ucast (ji_backoff_base_ms job)) @ w_varint (ucast (ji_backoff_cap_ms job)) @
     w_u8 (persisted_byte (ji_state job)) @ w_svarint (ji_run_at job) @ w_svarint (ji_created_at job) @
     w_svarint (ji_finished_at job) @ w_svarint (ji_lease_expires_at job) @ w_varint (ji_lease_token job) @
     w_bytes (ji_idem_key job) @ w_bytes (ji_last_error job)"

definition encode_image_jobs :: "JobImage list \<Rightarrow> bytes" where
  "encode_image_jobs jobs = w_u8 kPieceVersion @ w_varint (of_nat (length jobs)) @ concat (map encode_job jobs)"

definition encode_idem :: "IdemEntry \<Rightarrow> bytes" where
  "encode_idem entry = w_bytes (ie_key entry) @ w_varint (ie_job_id entry) @ w_svarint (ie_expires_at entry)"

definition encode_image_idem :: "IdemEntry list \<Rightarrow> bytes" where
  "encode_image_idem entries = w_u8 kPieceVersion @ w_varint (of_nat (length entries)) @ concat (map encode_idem entries)"

section \<open>StateBuilder\<close>

record Builder =
  sb_state :: State
  sb_queue_by_index :: "bytes list"
  sb_have_meta :: bool
  sb_jobs_added :: u64
  sb_idem_added :: u64

definition mk_builder :: "Abi \<Rightarrow> StateOptions \<Rightarrow> Builder" where
  "mk_builder abi options = \<lparr>sb_state = (mk_state abi options)\<lparr>st_replaying := True\<rparr>, sb_queue_by_index = [],
     sb_have_meta = False, sb_jobs_added = 0, sb_idem_added = 0\<rparr>"

definition corrupt_image :: "string \<Rightarrow> 'a Result" where
  "corrupt_image what = Inl (mk_error kCorruption [FS ''state image: '', FS what])"

fun add_queues :: "nat \<Rightarrow> Builder \<Rightarrow> Reader \<Rightarrow> (Builder \<times> Reader) Result" where
  "add_queues 0 b r = Inr (b, r)"
| "add_queues (Suc n) b r =
     (let (name, r) = r_bytes r in
      if \<not> rok r \<or> name = [] then corrupt_image ''bad queue name''
      else if find_queue name (sb_state b) \<noteq> None then corrupt_image ''duplicate queue''
      else
        let st = get_or_create_queue name (sb_state b);
            (enqueued, r) = r_varint r;
            (succeeded, r) = r_varint r;
            (failed_attempts, r) = r_varint r;
            (dead, r) = r_varint r;
            (cancelled, r) = r_varint r;
            totals = \<lparr>qt_enqueued = enqueued, qt_succeeded = succeeded, qt_failed_attempts = failed_attempts,
              qt_dead = dead, qt_cancelled = cancelled\<rparr>;
            st = write_queue name (\<lambda>q. q\<lparr>q_totals := totals\<rparr>) st in
        add_queues n (b\<lparr>sb_state := st, sb_queue_by_index := sb_queue_by_index b @ [name]\<rparr>) r)"

definition add_meta :: "bytes \<Rightarrow> Builder \<Rightarrow> Builder Result" where
  "add_meta piece b =
     (if sb_have_meta b then corrupt_image ''more than one meta piece''
      else
        let (version, r) = r_u8 (mk_reader piece) in
        if version \<noteq> kPieceVersion \<or> \<not> rok r then corrupt_image ''unknown meta version''
        else
          let (next_job_id, r) = r_varint r;
              (next_token, r) = r_varint r in
          if \<not> rok r \<or> next_job_id = 0 \<or> next_token = 0 then corrupt_image ''bad counters''
          else
            let (queue_count, r) = r_varint r in
            if unat queue_count > remaining r then corrupt_image ''queue count exceeds input''
            else
              case add_queues (unat queue_count)
                  (b\<lparr>sb_state := (sb_state b)\<lparr>st_next_job_id := next_job_id, st_next_token := next_token\<rparr>\<rparr>) r of
                Inl e \<Rightarrow> Inl e
              | Inr (b, r) \<Rightarrow>
                  if \<not> rok r then corrupt_image ''truncated meta piece''
                  else if \<not> at_end r then corrupt_image ''trailing bytes in meta piece''
                  else Inr (b\<lparr>sb_have_meta := True\<rparr>))"

text \<open>The bookkeeping that \<open>apply\<close> maintains during replay.\<close>

definition install_job :: "JobId \<Rightarrow> Job \<Rightarrow> State \<Rightarrow> State" where
  "install_job i job st =
     (let st1 = st\<lparr>st_jobs := (st_jobs st)(i \<mapsto> job)\<rparr>;
          st2 = write_queue (j_queue job)
            (\<lambda>q. q\<lparr>q_counts := (q_counts q)(j_state job := q_counts q (j_state job) + 1)\<rparr>) st1;
          st3 = (if j_state job = kDead
                 then write_queue (j_queue job) (\<lambda>q. q\<lparr>q_dead := insort_insert i (q_dead q)\<rparr>) st2 else st2)
      in st3\<lparr>st_memory_bytes := st_memory_bytes st3 + job_bytes (st_abi st3) job\<rparr>)"

definition add_job_entry :: "Builder \<Rightarrow> Reader \<Rightarrow> (Builder \<times> Reader) Result" where
  "add_job_entry b r =
     (let st = sb_state b;
          (v_id, r) = r_varint r;
          (queue, r) = r_varint r in
      if \<not> rok r \<or> v_id = 0 \<or> v_id \<ge> st_next_job_id st then corrupt_image ''bad job id''
      else if unat queue \<ge> length (sb_queue_by_index b) then corrupt_image ''job refers to an unknown queue''
      else if st_jobs st v_id \<noteq> None then corrupt_image ''duplicate job id''
      else
        let (payload, r) = r_bytes r;
            (priority, r) = r_svarint r;
            (attempts, r) = r_varint r;
            (max_attempts, r) = r_varint r;
            (backoff_base, r) = r_varint r;
            (backoff_cap, r) = r_varint r;
            (persisted, r) = r_u8 r in
        if priority < - (2 ^ 31) \<or> priority > 2 ^ 31 - 1 \<or> attempts > 0xFFFFFFFF \<or> max_attempts > 0xFFFFFFFF \<or>
           backoff_base > 0xFFFFFFFF \<or> backoff_cap > 0xFFFFFFFF \<or> persisted > 4
        then corrupt_image ''job field out of range''
        else
          let (run_at, r) = r_svarint r;
              (created_at, r) = r_svarint r;
              (finished_at, r) = r_svarint r;
              (lease_expires_at, r) = r_svarint r;
              (lease_token, r) = r_varint r;
              (idem_key, r) = r_bytes r;
              (last_error, r) = r_bytes r;
              job = (fresh_job (st_abi st))\<lparr>j_id := v_id, j_queue := sb_queue_by_index b ! unat queue,
                j_payload := payload, j_priority := priority, j_attempts := ucast attempts,
                j_max_attempts := ucast max_attempts, j_backoff_base_ms := ucast backoff_base,
                j_backoff_cap_ms := ucast backoff_cap, j_state := from_persisted (byte_persisted persisted),
                j_run_at := run_at, j_created_at := created_at, j_finished_at := finished_at,
                j_lease_expires_at := lease_expires_at, j_lease_token := lease_token, j_idem_key := idem_key,
                j_idem_key_capacity := abi_fresh_capacity (st_abi st) (length idem_key), j_last_error := last_error,
                j_last_error_capacity := abi_fresh_capacity (st_abi st) (length last_error)\<rparr> in
          if \<not> rok r then corrupt_image ''truncated job''
          else if \<not> time_in_range run_at \<or> \<not> time_in_range created_at \<or> \<not> time_in_range finished_at \<or>
            \<not> time_in_range lease_expires_at then corrupt_image ''job timestamp out of range''
          else if j_lease_token job \<ge> st_next_token st then corrupt_image ''bad lease token''
          else if holds_token (j_state job) \<noteq> (j_lease_token job \<noteq> 0)
          then corrupt_image ''lease token does not match job state''
          else if j_attempts job > j_max_attempts job then corrupt_image ''job has more attempts than allowed''
          else Inr (b\<lparr>sb_state := install_job v_id job st, sb_jobs_added := sb_jobs_added b + 1\<rparr>, r))"

fun add_job_entries :: "nat \<Rightarrow> Builder \<Rightarrow> Reader \<Rightarrow> (Builder \<times> Reader) Result" where
  "add_job_entries 0 b r = Inr (b, r)"
| "add_job_entries (Suc n) b r =
     (case add_job_entry b r of Inl e \<Rightarrow> Inl e | Inr (b, r) \<Rightarrow> add_job_entries n b r)"

definition add_jobs :: "bytes \<Rightarrow> Builder \<Rightarrow> Builder Result" where
  "add_jobs piece b =
     (if \<not> sb_have_meta b then corrupt_image ''jobs before meta''
      else
        let (version, r) = r_u8 (mk_reader piece) in
        if version \<noteq> kPieceVersion \<or> \<not> rok r then corrupt_image ''unknown jobs version''
        else
          let (count, r) = r_varint r in
          if unat count > remaining r then corrupt_image ''job count exceeds input''
          else
            case add_job_entries (unat count) b r of
              Inl e \<Rightarrow> Inl e
            | Inr (b, r) \<Rightarrow> if \<not> at_end r then corrupt_image ''trailing bytes in jobs piece'' else Inr b)"

fun add_idem_entries :: "nat \<Rightarrow> Builder \<Rightarrow> Reader \<Rightarrow> (Builder \<times> Reader) Result" where
  "add_idem_entries 0 b r = Inr (b, r)"
| "add_idem_entries (Suc n) b r =
     (let (key, r) = r_bytes r;
          (job_id, r) = r_varint r;
          (expires_at, r) = r_svarint r in
      if \<not> rok r \<or> key = [] then corrupt_image ''bad idempotency entry''
      else if \<not> time_in_range expires_at then corrupt_image ''idempotency expiry out of range''
      else if find_idem key (sb_state b) \<noteq> None then corrupt_image ''duplicate idempotency key''
      else add_idem_entries n (b\<lparr>sb_state := upsert_idem key job_id expires_at (sb_state b),
             sb_idem_added := sb_idem_added b + 1\<rparr>) r)"

definition add_idem :: "bytes \<Rightarrow> Builder \<Rightarrow> Builder Result" where
  "add_idem piece b =
     (if \<not> sb_have_meta b then corrupt_image ''idempotency keys before meta''
      else
        let (version, r) = r_u8 (mk_reader piece) in
        if version \<noteq> kPieceVersion \<or> \<not> rok r then corrupt_image ''unknown idempotency version''
        else
          let (count, r) = r_varint r in
          if unat count > remaining r then corrupt_image ''idempotency count exceeds input''
          else
            case add_idem_entries (unat count) b r of
              Inl e \<Rightarrow> Inl e
            | Inr (b, r) \<Rightarrow> if \<not> at_end r then corrupt_image ''trailing bytes in idempotency piece'' else Inr b)"

definition builder_finish :: "Builder \<Rightarrow> State Result" where
  "builder_finish b =
     (if \<not> sb_have_meta b then corrupt_image ''no meta piece''
      else Inr ((sb_state b)\<lparr>st_idem_order := sort_key ie_expires_at (st_idem_order (sb_state b))\<rparr>))"

section \<open>Capture and serialization\<close>

definition queue_index :: "bytes \<Rightarrow> State \<Rightarrow> u32 option" where
  "queue_index name st =
     (if name \<in> fst ` set (st_queues st) then Some (of_nat (length (takeWhile (\<lambda>nq. fst nq \<noteq> name) (st_queues st)))) else None)"

definition job_image :: "u32 \<Rightarrow> JobId \<Rightarrow> Job \<Rightarrow> JobImage" where
  "job_image q i job = \<lparr>ji_id = i, ji_queue = q, ji_payload = j_payload job, ji_priority = j_priority job,
     ji_attempts = j_attempts job, ji_max_attempts = j_max_attempts job, ji_backoff_base_ms = j_backoff_base_ms job,
     ji_backoff_cap_ms = j_backoff_cap_ms job, ji_state = to_persisted (j_state job), ji_run_at = j_run_at job,
     ji_created_at = j_created_at job, ji_finished_at = j_finished_at job,
     ji_lease_expires_at = j_lease_expires_at job, ji_lease_token = j_lease_token job, ji_idem_key = j_idem_key job,
     ji_last_error = j_last_error job\<rparr>"

primrec capture_jobs :: "JobId list \<Rightarrow> State \<Rightarrow> JobImage list option" where
  "capture_jobs [] st = Some []"
| "capture_jobs (i # order) st = do {
     q \<leftarrow> queue_index (j_queue (job_of st i)) st;
     jobs \<leftarrow> capture_jobs order st;
     Some (job_image q i (job_of st i) # jobs)
   }"

text \<open>\<open>order\<close> is the iteration order over the hash map of jobs; a job in an unknown queue ends the process.\<close>

definition capture_image :: "JobId list \<Rightarrow> State \<Rightarrow> StateImage option" where
  "capture_image order st = do {
     jobs \<leftarrow> capture_jobs order st;
     Some \<lparr>im_next_job_id = st_next_job_id st, im_next_token = st_next_token st,
       im_queues = map (\<lambda>(name, q). \<lparr>qi_name = name, qi_totals = q_totals q\<rparr>) (st_queues st),
       im_jobs = jobs, im_idem = st_idem_order st\<rparr>
   }"

definition kSerializationVersion :: byte where
  "kSerializationVersion = 1"

definition serialize :: "JobId list \<Rightarrow> State \<Rightarrow> bytes option" where
  "serialize order st = do {
     img \<leftarrow> capture_image order st;
     let img = img\<lparr>im_jobs := sort_key ji_id (im_jobs img), im_idem := sort_key ie_key (im_idem img)\<rparr>;
     Some (w_u8 kSerializationVersion @ w_bytes (encode_image_meta img) @ w_bytes (encode_image_jobs (im_jobs img)) @
       w_bytes (encode_image_idem (im_idem img)))
   }"

definition corrupt_state :: "string \<Rightarrow> 'a Result" where
  "corrupt_state what = Inl (mk_error kCorruption [FS ''state: '', FS what])"

definition deserialize :: "Abi \<Rightarrow> bytes \<Rightarrow> StateOptions \<Rightarrow> State Result" where
  "deserialize abi data options =
     (let (version, r) = r_u8 (mk_reader data) in
      if version \<noteq> kSerializationVersion \<or> \<not> rok r then corrupt_state ''unknown version''
      else
        let (meta, r) = r_bytes r;
            (jobs, r) = r_bytes r;
            (idem, r) = r_bytes r in
        if \<not> rok r then corrupt_state ''truncated''
        else if \<not> at_end r then corrupt_state ''trailing bytes''
        else
          assign_or_return (add_meta meta (mk_builder abi options)) (\<lambda>b.
          assign_or_return (add_jobs jobs b) (\<lambda>b.
          assign_or_return (add_idem idem b) builder_finish)))"

end
