(* ===== verification/Snapshot.thy ===== *)
theory Snapshot
  imports Image LogRecovery
begin

text \<open>
  \<^verbatim>\<open>snapshot/snapshot.h\<close>, \<^verbatim>\<open>snapshot/snapshot.cpp\<close>, \<^verbatim>\<open>snapshot/recovery.*\<close> and
  \<^verbatim>\<open>snapshot/snapshotter.*\<close>: writing and loading snapshot files, compaction, and the start-up
  recovery of the state from the newest readable snapshot and the log after it. All of it works
  over any \<open>FileSystem\<close>. The two reading loops may not end on an arbitrary reader and are
  partial functions. Warnings to the process log and the durations that
  are only reported are left out; the order in which the hash map of jobs is walked when the
  replay ends is an argument.
\<close>

section \<open>Names and constants\<close>

definition kSnapshotMagic :: bytes where
  "kSnapshotMagic = str ''BATONSNP''"

definition kSnapshotFormatVersion :: u32 where
  "kSnapshotFormatVersion = 1"

definition kSnapshotHeaderSize :: nat where
  "kSnapshotHeaderSize = 40"

definition kSnapshotJobsPerChunk :: nat where
  "kSnapshotJobsPerChunk = 4096"

definition kSnapshotKeepCount :: nat where
  "kSnapshotKeepCount = 2"

definition kSnapshotPrefix :: bytes where
  "kSnapshotPrefix = str ''snapshot-''"

definition kFinalSuffix :: bytes where
  "kFinalSuffix = str ''.snap''"

definition kTempSuffix :: bytes where
  "kTempSuffix = str ''.tmp''"

definition kTargetChunkBytes :: nat where
  "kTargetChunkBytes = push_bit 20 4"

definition kWriteBufferBytes :: nat where
  "kWriteBufferBytes = push_bit 20 1"

definition kReadBytes :: nat where
  "kReadBytes = push_bit 10 256"

datatype SnapshotChunk = cMeta | cJobs | cIdem | cEnd

fun chunk_byte :: "SnapshotChunk \<Rightarrow> byte" where
  "chunk_byte cMeta = 1"
| "chunk_byte cJobs = 2"
| "chunk_byte cIdem = 3"
| "chunk_byte cEnd = 255"

record SnapshotInfo =
  sn_lsn :: Lsn
  sn_created_at :: WallTime
  sn_bytes :: u64
  sn_chunks :: u64
  sn_jobs :: u64
  sn_idem_keys :: u64

definition no_snapshot :: SnapshotInfo where
  "no_snapshot = \<lparr>sn_lsn = 0, sn_created_at = 0, sn_bytes = 0, sn_chunks = 0, sn_jobs = 0, sn_idem_keys = 0\<rparr>"

definition corrupt_snapshot :: "bytes \<Rightarrow> fmt_arg list \<Rightarrow> Error" where
  "corrupt_snapshot path what = mk_error kCorruption (FS ''snapshot '' # FB path # FS '': '' # what)"

definition parse_snapshot_name :: "bytes \<Rightarrow> bytes \<Rightarrow> Lsn option" where
  "parse_snapshot_name name suff =
     (if length name \<noteq> length kSnapshotPrefix + kLsnDigits + length suff then None
      else if \<not> prefix kSnapshotPrefix name \<or> \<not> suffix suff name then None
      else
        let digits = take kLsnDigits (drop (length kSnapshotPrefix) name) in
        case from_chars_u64 digits of
          None \<Rightarrow> None
        | Some (lsn, end) \<Rightarrow> if end \<noteq> [] then None else Some lsn)"

definition snapshot_file_name :: "Lsn \<Rightarrow> bytes" where
  "snapshot_file_name lsn = kSnapshotPrefix @ dec_padded 20 (unat lsn) @ kFinalSuffix"

definition snapshot_temp_name :: "Lsn \<Rightarrow> bytes" where
  "snapshot_temp_name lsn = kSnapshotPrefix @ dec_padded 20 (unat lsn) @ kTempSuffix"

definition parse_snapshot_file_name :: "bytes \<Rightarrow> Lsn option" where
  "parse_snapshot_file_name name = parse_snapshot_name name kFinalSuffix"

definition is_snapshot_temp_name :: "bytes \<Rightarrow> bool" where
  "is_snapshot_temp_name name \<longleftrightarrow> parse_snapshot_name name kTempSuffix \<noteq> None"

definition append_snapshot_header :: "bytes \<Rightarrow> Lsn \<Rightarrow> WallTime \<Rightarrow> bytes" where
  "append_snapshot_header out lsn created_at =
     (let start = length out;
          out = out @ kSnapshotMagic @ w_u32 kSnapshotFormatVersion @ w_u32 0 @ w_u64 lsn @ w_u64 (word_of_int created_at);
          out = out @ w_u32 (crc32c (take 32 (drop start out)))
      in out @ w_u32 0)"

section \<open>Writing\<close>

record 'h ChunkWriter =
  cw_file :: 'h
  cw_buffer :: bytes
  cw_sequence :: u64
  cw_bytes :: u64

definition mk_chunk_writer :: "'h \<Rightarrow> 'h ChunkWriter" where
  "mk_chunk_writer file = \<lparr>cw_file = file, cw_buffer = [], cw_sequence = 0, cw_bytes = 0\<rparr>"

definition cw_flush :: "('s, 'h, 'r) FileSystem \<Rightarrow> ('h ChunkWriter \<times> 's, unit) fs_op" where
  "cw_flush fs = (\<lambda>(w, s).
     try_op (on_fs w (fh_append fs (cw_file w) (cw_buffer w) s)) (\<lambda>_ (w, s).
       Some (Inr (), w\<lparr>cw_bytes := cw_bytes w + of_nat (length (cw_buffer w)), cw_buffer := []\<rparr>, s)))"

definition cw_add :: "('s, 'h, 'r) FileSystem \<Rightarrow> SnapshotChunk \<Rightarrow> bytes \<Rightarrow> ('h ChunkWriter \<times> 's, unit) fs_op" where
  "cw_add fs type payload = (\<lambda>(w, s). do {
     let w = w\<lparr>cw_sequence := cw_sequence w + 1\<rparr>;
     buffer \<leftarrow> append_record (cw_buffer w) (cw_sequence w) (chunk_byte type) payload;
     let w = w\<lparr>cw_buffer := buffer\<rparr>;
     if length (cw_buffer w) \<ge> kWriteBufferBytes then cw_flush fs (w, s) else Some (Inr (), w, s)
   })"

definition cw_add_raw :: "bytes \<Rightarrow> 'h ChunkWriter \<Rightarrow> 'h ChunkWriter" where
  "cw_add_raw bytes w = w\<lparr>cw_buffer := cw_buffer w @ bytes\<rparr>"

definition cw_total :: "'h ChunkWriter \<Rightarrow> u64" where
  "cw_total w = cw_bytes w + of_nat (length (cw_buffer w))"

text \<open>How many jobs go into the next chunk.\<close>

fun chunk_len :: "JobImage list \<Rightarrow> nat \<Rightarrow> nat \<Rightarrow> nat" where
  "chunk_len [] count bytes = count"
| "chunk_len (job # jobs) count bytes =
     (if count < kSnapshotJobsPerChunk \<and> bytes < kTargetChunkBytes
      then chunk_len jobs (count + 1) (bytes + length (ji_payload job) + 256) else count)"

lemma chunk_len_ge: "count \<le> chunk_len jobs count bytes"
  by (induction jobs count bytes rule: chunk_len.induct) auto

lemma chunk_len_pos: "0 < chunk_len (job # jobs) 0 0"
  using chunk_len_ge [of 1 jobs "length (ji_payload job) + 256"]
  by (simp add: kSnapshotJobsPerChunk_def kTargetChunkBytes_def push_bit_eq_mult)

function write_job_chunks :: "('s, 'h, 'r) FileSystem \<Rightarrow> JobImage list \<Rightarrow> ('h ChunkWriter \<times> 's, unit) fs_op" where
  "write_job_chunks fs [] ws = Some (Inr (), ws)"
| "write_job_chunks fs (job # jobs) ws =
     (let n = chunk_len (job # jobs) 0 0 in
      try_op (cw_add fs cJobs (encode_image_jobs (take n (job # jobs))) ws) (\<lambda>_ ws.
        write_job_chunks fs (drop n (job # jobs)) ws))"
  by pat_completeness auto
termination
  by (relation "measure (\<lambda>(fs, jobs, ws). length jobs)") (use chunk_len_pos in \<open>auto simp: diff_less\<close>)

function write_idem_chunks :: "('s, 'h, 'r) FileSystem \<Rightarrow> IdemEntry list \<Rightarrow> ('h ChunkWriter \<times> 's, unit) fs_op" where
  "write_idem_chunks fs [] ws = Some (Inr (), ws)"
| "write_idem_chunks fs (key # keys) ws =
     try_op (cw_add fs cIdem (encode_image_idem (take kSnapshotJobsPerChunk (key # keys))) ws) (\<lambda>_ ws.
       write_idem_chunks fs (drop kSnapshotJobsPerChunk (key # keys)) ws)"
  by pat_completeness auto
termination
  by (relation "measure (\<lambda>(fs, keys, ws). length keys)") (auto simp: kSnapshotJobsPerChunk_def)

declare write_job_chunks.simps(2) [simp del] write_idem_chunks.simps(2) [simp del]

definition end_piece :: "u64 \<Rightarrow> StateImage \<Rightarrow> bytes" where
  "end_piece chunks img = w_varint chunks @ w_varint (of_nat (length (im_jobs img))) @ w_varint (of_nat (length (im_idem img)))"

definition write_chunks :: "('s, 'h, 'r) FileSystem \<Rightarrow> StateImage \<Rightarrow> ('h ChunkWriter \<times> 's, unit) fs_op" where
  "write_chunks fs img ws =
     try_op (cw_add fs cMeta (encode_image_meta img) ws) (\<lambda>_ ws.
     try_op (write_job_chunks fs (im_jobs img) ws) (\<lambda>_ ws.
     try_op (write_idem_chunks fs (im_idem img) ws) (\<lambda>_ (w, s).
     try_op (cw_add fs cEnd (end_piece (cw_sequence w) img) (w, s)) (\<lambda>_ ws.
       cw_flush fs ws))))"

definition write_snapshot :: "('s, 'h, 'r) FileSystem \<Rightarrow> bytes \<Rightarrow> StateImage \<Rightarrow> Lsn \<Rightarrow> WallTime \<Rightarrow> ('s, SnapshotInfo) fs_op" where
  "write_snapshot fs dir img lsn created_at s =
     (let temp_path = join_path dir (snapshot_temp_name lsn);
          final_path = join_path dir (snapshot_file_name lsn) in
      case fs_file_size fs temp_path s of
        None \<Rightarrow> None
      | Some (stale, s) \<Rightarrow>
          try_op (if ok stale then fs_remove fs temp_path s else Some (Inr (), s)) (\<lambda>_ s.
          try_op (fs_open_append fs temp_path kCreateNew s) (\<lambda>file s.
            let w = cw_add_raw (append_snapshot_header [] lsn created_at) (mk_chunk_writer file) in
            case try_op (write_chunks fs img (w, s)) (\<lambda>_ (w, s).
                 try_op (on_fs w (fh_sync fs file s)) (\<lambda>_ (w, s). on_fs w (fs_rename fs temp_path final_path s))) of
              None \<Rightarrow> None
            | Some (Inl e, w, s) \<Rightarrow> map_option (\<lambda>(_, s). (Inl e, s)) (fs_remove fs temp_path s)
            | Some (Inr _, w, s) \<Rightarrow>
                try_op (fs_sync_dir fs dir s) (\<lambda>_ s.
                  Some (Inr \<lparr>sn_lsn = lsn, sn_created_at = created_at, sn_bytes = cw_total w, sn_chunks = cw_sequence w,
                    sn_jobs = of_nat (length (im_jobs img)), sn_idem_keys = of_nat (length (im_idem img))\<rparr>, s)))))"

section \<open>Loading\<close>

record 'r ChunkReader =
  cr_file :: 'r
  cr_buffer :: bytes
  cr_pos :: nat

definition cr_compact :: "'r ChunkReader \<Rightarrow> 'r ChunkReader" where
  "cr_compact c = (if cr_pos c \<ge> kWriteBufferBytes then c\<lparr>cr_buffer := drop (cr_pos c) (cr_buffer c), cr_pos := 0\<rparr> else c)"

partial_function (option) ensure :: "('s, 'h, 'r) FileSystem \<Rightarrow> nat \<Rightarrow> 'r ChunkReader \<Rightarrow> (bool Result \<times> 'r ChunkReader) option" where
  "ensure fs n c =
     (if length (cr_buffer c) - cr_pos c < n then
        (case fr_read fs (cr_file c) (max kReadBytes n) of
           (Inl e, file) \<Rightarrow> Some (Inl e, (cr_compact c)\<lparr>cr_file := file\<rparr>)
         | (Inr got, file) \<Rightarrow>
             if got = [] then Some (Inr False, (cr_compact c)\<lparr>cr_file := file\<rparr>)
             else ensure fs n ((cr_compact c)\<lparr>cr_file := file, cr_buffer := cr_buffer (cr_compact c) @ got\<rparr>))
      else Some (Inr True, c))"

definition peek :: "nat \<Rightarrow> 'r ChunkReader \<Rightarrow> bytes" where
  "peek n c = take n (drop (cr_pos c) (cr_buffer c))"

definition consume :: "nat \<Rightarrow> 'r ChunkReader \<Rightarrow> 'r ChunkReader" where
  "consume n c = c\<lparr>cr_pos := cr_pos c + n\<rparr>"

record LoadedSnapshot =
  ld_info :: SnapshotInfo
  ld_state :: State

definition base_name :: "bytes \<Rightarrow> bytes" where
  "base_name path = rev (takeWhile (\<lambda>b. b \<noteq> 47) (rev path))"

definition load_header :: "bytes \<Rightarrow> bytes \<Rightarrow> SnapshotInfo Result" where
  "load_header path raw_header =
     (let (magic, r) = r_raw (length kSnapshotMagic) (mk_reader raw_header) in
      if magic \<noteq> kSnapshotMagic then Inl (corrupt_snapshot path [FS ''bad magic''])
      else
        let (version, r) = r_u32 r;
            (_, r) = r_u32 r;
            (lsn, r) = r_u64 r;
            (created_at, r) = r_u64 r;
            (crc, r) = r_u32 r in
        if crc \<noteq> crc32c (take 32 raw_header) then Inl (corrupt_snapshot path [FS ''bad header checksum''])
        else
          let (padding, r) = r_u32 r in
          if padding \<noteq> 0 then Inl (corrupt_snapshot path [FS ''bad header padding''])
          else if version \<noteq> kSnapshotFormatVersion then
            Inl (mk_error kFailedPrecondition [FS ''snapshot '', FB path, FS '': unsupported format version '', FU (unat version)])
          else if parse_snapshot_file_name (base_name path) \<noteq> Some lsn then
            Inl (corrupt_snapshot path [FS ''header LSN does not match the file name''])
          else Inr (no_snapshot\<lparr>sn_lsn := lsn, sn_created_at := sint created_at, sn_bytes := of_nat kSnapshotHeaderSize\<rparr>))"

text \<open>The end chunk: the totals it carries, if they match the contents.\<close>

definition end_totals :: "bytes \<Rightarrow> u64 \<Rightarrow> Builder \<Rightarrow> (u64 \<times> u64) option" where
  "end_totals payload expected_sequence b =
     (let (chunks, r) = r_varint (mk_reader payload);
          (jobs, r) = r_varint r;
          (keys, r) = r_varint r in
      if \<not> rok r \<or> \<not> at_end r \<or> chunks \<noteq> expected_sequence - 1 \<or> jobs \<noteq> sb_jobs_added b \<or> keys \<noteq> sb_idem_added b
      then None else Some (jobs, keys))"

text \<open>What one chunk other than the end chunk adds to the builder.\<close>

definition add_chunk :: "bytes \<Rightarrow> u64 \<Rightarrow> LogRecordView \<Rightarrow> Builder \<Rightarrow> Builder Result" where
  "add_chunk path expected_sequence record b =
     (let wrap = (\<lambda>res. case res of
            Inl e \<Rightarrow> Inl (corrupt_snapshot path [FS ''chunk '', FU (unat expected_sequence), FS '': '', FB (err_message e)])
          | Inr b \<Rightarrow> Inr b) in
      if lv_type record = chunk_byte cMeta then wrap (add_meta (lv_payload record) b)
      else if lv_type record = chunk_byte cJobs then wrap (add_jobs (lv_payload record) b)
      else if lv_type record = chunk_byte cIdem then wrap (add_idem (lv_payload record) b)
      else Inl (corrupt_snapshot path [FS ''chunk '', FU (unat expected_sequence), FS '' has unknown type '',
             FU (unat (lv_type record))]))"

definition finish_load :: "('s, 'h, 'r) FileSystem \<Rightarrow> bytes \<Rightarrow> LogRecordView \<Rightarrow> nat \<Rightarrow> 'r ChunkReader \<Rightarrow> Builder \<Rightarrow> u64 \<Rightarrow>
    SnapshotInfo \<Rightarrow> LoadedSnapshot Result option" where
  "finish_load fs path record tot c b expected_sequence info =
     (case end_totals (lv_payload record) expected_sequence b of
        None \<Rightarrow> Some (Inl (corrupt_snapshot path [FS ''end chunk totals do not match the contents'']))
      | Some (jobs, keys) \<Rightarrow>
          (case ensure fs 1 (consume tot c) of
             None \<Rightarrow> None
           | Some (Inl e, c) \<Rightarrow> Some (Inl e)
           | Some (Inr True, c) \<Rightarrow> Some (Inl (corrupt_snapshot path [FS ''data after the end chunk'']))
           | Some (Inr False, c) \<Rightarrow>
               Some (assign_or_return (builder_finish b) (\<lambda>st.
                 Inr \<lparr>ld_info = info\<lparr>sn_bytes := sn_bytes info + of_nat tot, sn_chunks := expected_sequence,
                   sn_jobs := jobs, sn_idem_keys := keys\<rparr>, ld_state = st\<rparr>))))"

text \<open>The frame at the reader's position: its length, if the file has it.\<close>

definition read_frame :: "('s, 'h, 'r) FileSystem \<Rightarrow> bytes \<Rightarrow> u64 \<Rightarrow> 'r ChunkReader \<Rightarrow> ((LogRecordView \<times> nat) Result \<times> 'r ChunkReader) option" where
  "read_frame fs path expected_sequence c =
     try_op (ensure fs kRecordHeaderSize c) (\<lambda>have_frame c.
       if \<not> have_frame then Some (Inl (corrupt_snapshot path [FS ''truncated: no end chunk'']), c)
       else
         let len = unat (load_u32 (peek 4 c) 0) in
         if len > kMaxRecordPayload then Some (Inl (corrupt_snapshot path [FS ''implausible chunk length'']), c)
         else
           let tot = kRecordHeaderSize + len in
           try_op (ensure fs tot c) (\<lambda>have_chunk c.
             if \<not> have_chunk then Some (Inl (corrupt_snapshot path [FS ''truncated chunk'']), c)
             else
               let parsed = parse_record (peek tot c) in
               if rp_status parsed \<noteq> RP_Ok then
                 Some (Inl (corrupt_snapshot path [FS ''chunk '', FU (unat expected_sequence), FS '': '',
                   FB (to_string_status (rp_status parsed))]), c)
               else if lv_lsn (rp_record parsed) \<noteq> expected_sequence then
                 Some (Inl (corrupt_snapshot path [FS ''chunk '', FU (unat expected_sequence), FS '' is out of sequence'']), c)
               else Some (Inr (rp_record parsed, tot), c)))"

partial_function (option) load_chunks :: "('s, 'h, 'r) FileSystem \<Rightarrow> bytes \<Rightarrow> 'r ChunkReader \<Rightarrow> Builder \<Rightarrow> u64 \<Rightarrow> SnapshotInfo \<Rightarrow>
    LoadedSnapshot Result option" where
  "load_chunks fs path c b expected_sequence info =
     (case read_frame fs path expected_sequence c of
        None \<Rightarrow> None
      | Some (Inl e, c) \<Rightarrow> Some (Inl e)
      | Some (Inr (record, tot), c) \<Rightarrow>
          if lv_type record = chunk_byte cEnd then finish_load fs path record tot c b expected_sequence info
          else
            (case add_chunk path expected_sequence record b of
               Inl e \<Rightarrow> Some (Inl e)
             | Inr b \<Rightarrow>
                 load_chunks fs path (consume tot c) b (expected_sequence + 1)
                   (info\<lparr>sn_bytes := sn_bytes info + of_nat tot\<rparr>)))"

definition load_file :: "('s, 'h, 'r) FileSystem \<Rightarrow> bytes \<Rightarrow> Abi \<Rightarrow> StateOptions \<Rightarrow> 'r \<Rightarrow> LoadedSnapshot Result option" where
  "load_file fs path abi options file =
     (case ensure fs kSnapshotHeaderSize \<lparr>cr_file = file, cr_buffer = [], cr_pos = 0\<rparr> of
        None \<Rightarrow> None
      | Some (Inl e, c) \<Rightarrow> Some (Inl e)
      | Some (Inr False, c) \<Rightarrow> Some (Inl (corrupt_snapshot path [FS ''truncated header'']))
      | Some (Inr True, c) \<Rightarrow>
          (case load_header path (peek kSnapshotHeaderSize c) of
             Inl e \<Rightarrow> Some (Inl e)
           | Inr info \<Rightarrow> load_chunks fs path (consume kSnapshotHeaderSize c) (mk_builder abi options) 1 info))"

definition load_snapshot :: "('s, 'h, 'r) FileSystem \<Rightarrow> bytes \<Rightarrow> Abi \<Rightarrow> StateOptions \<Rightarrow> ('s, LoadedSnapshot) fs_op" where
  "load_snapshot fs path abi options s =
     try_op (fs_open_read fs path s) (\<lambda>file s. map_option (\<lambda>res. (res, s)) (load_file fs path abi options file))"

section \<open>Directories\<close>

definition list_snapshots :: "('s, 'h, 'r) FileSystem \<Rightarrow> bytes \<Rightarrow> ('s, Lsn list) fs_op" where
  "list_snapshots fs dir s = try_op (fs_list_dir fs dir s) (\<lambda>names s.
     Some (Inr (rev (sort (List.map_filter parse_snapshot_file_name names))), s))"

record CompactionReport =
  cp_snapshots_removed :: u64
  cp_segments_removed :: u64

text \<open>Removing files one after the other; the number removed.\<close>

fun remove_files :: "('s, 'h, 'r) FileSystem \<Rightarrow> bytes \<Rightarrow> bytes list \<Rightarrow> u64 \<Rightarrow> ('s, u64) fs_op" where
  "remove_files fs dir [] n s = Some (Inr n, s)"
| "remove_files fs dir (name # names) n s =
     try_op (fs_remove fs (join_path dir name) s) (\<lambda>_ s. remove_files fs dir names (n + 1) s)"

text \<open>The segments that lie at or before the covered LSN; the newest is never one of them.\<close>

fun covered_segments :: "Lsn \<Rightarrow> Lsn list \<Rightarrow> Lsn list" where
  "covered_segments covered (first # second # segments) =
     (if second > covered + 1 then [] else first # covered_segments covered (second # segments))"
| "covered_segments covered segments = []"

definition compact :: "('s, 'h, 'r) FileSystem \<Rightarrow> bytes \<Rightarrow> ('s, CompactionReport) fs_op" where
  "compact fs dir s =
     try_op (list_snapshots fs dir s) (\<lambda>snapshots s.
     try_op (remove_files fs dir (map snapshot_file_name (drop kSnapshotKeepCount snapshots)) 0 s) (\<lambda>snapshots_removed s.
     try_op (if length snapshots \<ge> kSnapshotKeepCount then
               try_op (fs_list_dir fs dir s) (\<lambda>names s.
                 let covered = snapshots ! (kSnapshotKeepCount - 1);
                     segments = sort (List.map_filter parse_segment_file_name names) in
                 remove_files fs dir (map segment_file_name (covered_segments covered segments)) 0 s)
             else Some (Inr 0, s)) (\<lambda>segments_removed s.
     try_op (if snapshots_removed + segments_removed > 0 then fs_sync_dir fs dir s else Some (Inr (), s)) (\<lambda>_ s.
       Some (Inr \<lparr>cp_snapshots_removed = snapshots_removed, cp_segments_removed = segments_removed\<rparr>, s)))))"

definition remove_snapshot_temp_files :: "('s, 'h, 'r) FileSystem \<Rightarrow> bytes \<Rightarrow> ('s, unit) fs_op" where
  "remove_snapshot_temp_files fs dir s =
     try_op (fs_list_dir fs dir s) (\<lambda>names s.
     try_op (remove_files fs dir (filter is_snapshot_temp_name names) 0 s) (\<lambda>_ s.
       if filter is_snapshot_temp_name names \<noteq> [] then fs_sync_dir fs dir s else Some (Inr (), s)))"

section \<open>Recovery of the state\<close>

record StateRecovery =
  sr_state :: State
  sr_log :: RecoveredLog
  sr_snapshot :: SnapshotInfo
  sr_snapshots_rejected :: u64

fun load_newest :: "('s, 'h, 'r) FileSystem \<Rightarrow> bytes \<Rightarrow> Abi \<Rightarrow> StateOptions \<Rightarrow> Lsn list \<Rightarrow> u64 \<Rightarrow> 's \<Rightarrow>
    (LoadedSnapshot option \<times> u64 \<times> 's) option" where
  "load_newest fs dir abi options [] rejected s = Some (None, rejected, s)"
| "load_newest fs dir abi options (lsn # lsns) rejected s =
     (case load_snapshot fs (join_path dir (snapshot_file_name lsn)) abi options s of
        None \<Rightarrow> None
      | Some (Inl e, s) \<Rightarrow> load_newest fs dir abi options lsns (rejected + 1) s
      | Some (Inr loaded, s) \<Rightarrow> Some (Some loaded, rejected, s))"

definition replay_record :: "State RecordCallback" where
  "replay_record view st =
     (case decode_record (lv_type view) (lv_payload view) of
        Inl e \<Rightarrow> Some (Inl (mk_error kCorruption [FS ''LSN '', FU (unat (lv_lsn view)), FS '': '', FB (err_message e)]), st)
      | Inr record \<Rightarrow>
          (case apply_rec record st of
             None \<Rightarrow> None
           | Some (Inl e, st) \<Rightarrow>
               Some (Inl (mk_error kCorruption [FS ''LSN '', FU (unat (lv_lsn view)),
                 FS '' does not fit the state rebuilt so far: '', FB (err_message e)]), st)
           | Some (Inr _, st) \<Rightarrow> Some (Inr (), st)))"

text \<open>\<open>order\<close> is the iteration order over the jobs of a state.\<close>

definition recover_state :: "('s, 'h, 'r) FileSystem \<Rightarrow> bytes \<Rightarrow> Abi \<Rightarrow> StateOptions \<Rightarrow> (State \<Rightarrow> JobId list) \<Rightarrow>
    WallTime \<Rightarrow> int \<Rightarrow> DurationMs \<Rightarrow> ('s, StateRecovery) fs_op" where
  "recover_state fs dir abi options order wall_now mono_now lease_grace_ms s =
     try_op (remove_snapshot_temp_files fs dir s) (\<lambda>_ s.
     try_op (list_snapshots fs dir s) (\<lambda>snapshots s.
       case load_newest fs dir abi options snapshots 0 s of
         None \<Rightarrow> None
       | Some (loaded, rejected, s) \<Rightarrow>
           let (st, info) = (case loaded of
                 None \<Rightarrow> (begin_replay (mk_state abi options), no_snapshot)
               | Some l \<Rightarrow> (ld_state l, ld_info l)) in
           case recover_log fs dir \<lparr>replay_after = sn_lsn info\<rparr> replay_record (st, s) of
             None \<Rightarrow> None
           | Some (Inl e, st, s) \<Rightarrow> Some (Inl e, s)
           | Some (Inr log, st, s) \<Rightarrow>
               (case end_replay (order st) lease_grace_ms (set_now wall_now mono_now st) of
                  None \<Rightarrow> None
                | Some st \<Rightarrow> Some (Inr \<lparr>sr_state = st, sr_log = log, sr_snapshot = info, sr_snapshots_rejected = rejected\<rparr>, s))))"

section \<open>Snapshotter\<close>

record SnapshotReport =
  rep_info :: SnapshotInfo
  rep_compaction :: CompactionReport

text \<open>The background thread: none, at work on an image, or finished and not yet joined.\<close>

datatype SnapshotThread = NoThread | Working StateImage Lsn WallTime | Finished

record Snapshotter =
  ss_busy :: bool
  ss_thread :: SnapshotThread
  ss_result :: "SnapshotReport Result option"

definition mk_snapshotter :: Snapshotter where
  "mk_snapshotter = \<lparr>ss_busy = False, ss_thread = NoThread, ss_result = None\<rparr>"

text \<open>\<open>start\<close>; a thread that is joined here has finished, since it is not busy.\<close>

definition start_snapshot :: "StateImage \<Rightarrow> Lsn \<Rightarrow> WallTime \<Rightarrow> Snapshotter \<Rightarrow> Snapshotter option" where
  "start_snapshot img lsn created_at sn = do {
     baton_check (\<not> ss_busy sn);
     Some (sn\<lparr>ss_busy := True, ss_thread := Working img lsn created_at\<rparr>)
   }"

definition snapshot_outcome :: "('s, 'h, 'r) FileSystem \<Rightarrow> bytes \<Rightarrow> StateImage \<Rightarrow> Lsn \<Rightarrow> WallTime \<Rightarrow> ('s, SnapshotReport) fs_op" where
  "snapshot_outcome fs dir img lsn created_at s =
     try_op (write_snapshot fs dir img lsn created_at s) (\<lambda>info s.
     try_op (compact fs dir s) (\<lambda>compaction s.
       Some (Inr \<lparr>rep_info = info, rep_compaction = compaction\<rparr>, s)))"

definition run_snapshot :: "('s, 'h, 'r) FileSystem \<Rightarrow> bytes \<Rightarrow> Snapshotter \<times> 's \<Rightarrow> (Snapshotter \<times> 's) option" where
  "run_snapshot fs dir = (\<lambda>(sn, s).
     case ss_thread sn of
       Working img lsn created_at \<Rightarrow>
         map_option (\<lambda>(outcome, s). (sn\<lparr>ss_result := Some outcome, ss_busy := False, ss_thread := Finished\<rparr>, s))
           (snapshot_outcome fs dir img lsn created_at s)
     | _ \<Rightarrow> Some (sn, s))"

text \<open>\<open>take_result\<close>: it joins the thread when there is a result.\<close>

definition take_snapshot_result :: "Snapshotter \<Rightarrow> SnapshotReport Result option \<times> Snapshotter" where
  "take_snapshot_result sn =
     (ss_result sn, sn\<lparr>ss_result := None, ss_thread := (if ss_result sn \<noteq> None then NoThread else ss_thread sn)\<rparr>)"

text \<open>\<open>wait\<close>, which is also what the destructor does: the thread runs to its end and is joined; the result stays.\<close>

definition wait_snapshot :: "('s, 'h, 'r) FileSystem \<Rightarrow> bytes \<Rightarrow> Snapshotter \<times> 's \<Rightarrow> (Snapshotter \<times> 's) option" where
  "wait_snapshot fs dir c = map_option (\<lambda>(sn, s). (sn\<lparr>ss_thread := NoThread\<rparr>, s)) (run_snapshot fs dir c)"

end
