(* ===== verification/ImageProps.thy ===== *)
theory ImageProps
  imports Image
begin

text \<open>
  The image of a state can be read back: whatever pieces it is cut into, the builder accepts them and
  rebuilds a consistent state with the same durable contents. \<open>builds st b J K\<close> is the
  invariant of a builder that has so far received the queues of \<open>st\<close>, its jobs \<open>J\<close> and the
  idempotency entries \<open>K\<close>.
\<close>

section \<open>States that fit the encoding\<close>

definition job_fits :: "Job \<Rightarrow> bool" where
  "job_fits j \<longleftrightarrow> size_ok (j_payload j) \<and> size_ok (j_idem_key j) \<and> size_ok (j_last_error j) \<and> in_i32 (j_priority j) \<and>
     time_in_range (j_run_at j) \<and> time_in_range (j_created_at j) \<and> time_in_range (j_finished_at j) \<and>
     time_in_range (j_lease_expires_at j)"

definition idem_fits :: "IdemEntry \<Rightarrow> bool" where
  "idem_fits e \<longleftrightarrow> ie_key e \<noteq> [] \<and> size_ok (ie_key e) \<and> time_in_range (ie_expires_at e)"

definition storable :: "State \<Rightarrow> bool" where
  "storable st \<longleftrightarrow> st_next_job_id st \<noteq> 0 \<and> st_jobs st 0 = None \<and> length (st_queues st) < 2 ^ 32 \<and>
     (\<forall>n \<in> fst ` set (st_queues st). n \<noteq> [] \<and> size_ok n) \<and>
     (\<forall>i j. st_jobs st i = Some j \<longrightarrow> job_fits j) \<and> (\<forall>e \<in> set (st_idem_order st). idem_fits e) \<and>
     length (st_idem_order st) < 2 ^ 64"

definition idem_row :: "IdemEntry \<Rightarrow> bytes \<times> JobId \<times> WallTime" where
  "idem_row e = (ie_key e, ie_job_id e, ie_expires_at e)"

definition builds :: "State \<Rightarrow> Builder \<Rightarrow> JobId set \<Rightarrow> (bytes \<times> JobId \<times> WallTime) list \<Rightarrow> bool" where
  "builds st b J K \<longleftrightarrow> state_inv (sb_state b) \<and> st_replaying (sb_state b) \<and> sb_have_meta b \<and>
     sb_queue_by_index b = map fst (st_queues st) \<and>
     durable (sb_state b) = (durable st)\<lparr>d_jobs := d_jobs (durable st) |` J, d_idem := K\<rparr> \<and>
     finite J \<and> J \<subseteq> dom (st_jobs st) \<and> sb_jobs_added b = of_nat (card J) \<and> sb_idem_added b = of_nat (length K)"

lemma idem_row_eq: "idem_row = (\<lambda>e. (ie_key e, ie_job_id e, ie_expires_at e))"
  by (simp add: fun_eq_iff idem_row_def)

section \<open>Installing a job\<close>

lemma good_install_job:
  assumes inv: "good st {} {} E" and rep: "st_replaying st" and new: "st_jobs st i = None"
    and q: "j_queue job \<in> dom (map_of (st_queues st))" and room: "card (dom (st_jobs st)) < kNil"
    and job: "j_id job = i" "j_heap_index job = kNotInHeap" "j_timer job = no_timer" "j_state job \<noteq> kReady"
    and dur: "i \<notin> E' \<Longrightarrow> dur_job (st_next_job_id st) (st_next_token st) i job" and E: "E \<subseteq> E'"
  shows "good (install_job i job st) {} {} E'"
proof -
  let ?js = "st_jobs st" and ?js' = "(st_jobs st)(i \<mapsto> job)"
  let ?f = "\<lambda>q. q\<lparr>q_counts := (q_counts q)(j_state job := q_counts q (j_state job) + 1)\<rparr>"
  define st1 where "st1 = write_queue (j_queue job) ?f (st\<lparr>st_jobs := ?js'\<rparr>)"
  define st2 where "st2 = (if j_state job = kDead
     then write_queue (j_queue job) (\<lambda>q. q\<lparr>q_dead := insort_insert i (q_dead q)\<rparr>) st1 else st1)"
  have fin: "finite (dom ?js)" and b: "base st E" and I: "idx ?js (st_queues st) (st_wheel st) True {} {}"
    using inv rep by (simp_all add: good_def base_def idx_inv_def)
  have "idx ?js (st_queues st) (st_wheel st) True {} {i}"
    using idx_cong [OF I, of "{i}"] new by auto
  then have "idx ?js' (st_queues st) (st_wheel st) True {} {i}"
    by (rule idx_write) (use q job room fin new in \<open>auto simp: domIff\<close>)
  from idx_queue_write [OF this] have idx1: "idx_inv st1 {} {i}" using rep by (simp add: idx_inv_def st1_def)
  have j1: "st_jobs st1 i = Some job" by (simp add: st1_def)
  have idx2: "idx_inv st2 {} {}"
  proof (cases "j_state job = kDead")
    case True
    then show ?thesis using insort_dead_ok [OF idx1 j1] by (simp add: st2_def)
  next
    case False
    have "st_replaying st1" using rep by (simp add: st1_def)
    then have "idx_inv st1 {} {}"
      using idx_inv_unindexed [OF idx1 j1, of "{}"] False job(4) by (simp add: wants_timer_def)
    then show ?thesis using False by (simp add: st2_def)
  qed
  have cnt: "q_counts q s = of_nat (card (jobs_in ?js' {} n s))" if q: "map_of (st_queues st1) n = Some q" for n q s
  proof -
    have ni: "i \<notin> jobs_in ?js {} n s" using new by (simp add: jobs_in_def)
    have c: "q_counts q0 s = of_nat (card (jobs_in ?js {} n s))" if "map_of (st_queues st) n = Some q0" for q0
      using b that by (simp add: base_def cnt_inv_def)
    show ?thesis
      using q c ni finite_jobs_in [OF fin, of "{}" n s] by (auto simp: jobs_in_upd st1_def split: if_splits)
  qed
  have js2: "st_jobs st2 = ?js'" by (simp add: st2_def st1_def)
  have "\<exists>q1. map_of (st_queues st1) n = Some q1 \<and> q_counts q = q_counts q1" if "map_of (st_queues st2) n = Some q" for n q
    using that unfolding st2_def by (auto split: if_splits)
  then have "cnt_inv st2 {}"
    unfolding cnt_inv_def js2 using cnt by metis
  moreover have "mem_inv (st2\<lparr>st_memory_bytes := st_memory_bytes st2 + job_bytes (st_abi st2) job\<rparr>)"
    using b new jobs_bytes_upd [OF fin, of "st_abi st" i job] by (simp add: st2_def st1_def base_def mem_inv_def)
  moreover have "dur_inv st2 E'" using b dur E by (auto simp: st2_def st1_def base_def dur_inv_def)
  moreover have "install_job i job st = st2\<lparr>st_memory_bytes := st_memory_bytes st2 + job_bytes (st_abi st2) job\<rparr>"
    by (simp add: install_job_def Let_def st2_def st1_def)
  moreover have "idem_inv st2" "finite (dom (st_jobs st2))" using b fin by (simp_all add: st2_def st1_def base_def idem_inv_def)
  ultimately show ?thesis
    using idx2 by (simp add: good_def base_def idx_inv_def cnt_inv_def idem_inv_def dur_inv_def)
qed

lemma durable_install_job: "durable (install_job i job st) = put_job i (persist job) (durable st)"
proof -
  have "durable (install_job i job st) = durable (st\<lparr>st_jobs := (st_jobs st)(i \<mapsto> job)\<rparr>)"
    by (auto simp: install_job_def Let_def durable_def fun_eq_iff option.map_comp o_def)
  then show ?thesis by (auto simp: durable_def put_job_def)
qed

section \<open>One entry of a piece\<close>

lemma queue_index_nth:
  assumes "queue_index n st = Some q" and "length (st_queues st) < 2 ^ 32"
  shows "unat q < length (st_queues st)" and "fst (st_queues st ! unat q) = n"
proof -
  let ?k = "length (takeWhile (\<lambda>nq. fst nq \<noteq> n) (st_queues st))"
  have q: "q = of_nat ?k" "n \<in> fst ` set (st_queues st)" using assms(1) by (auto simp: queue_index_def split: if_splits)
  have "n \<in> fst ` set xs \<Longrightarrow> length (takeWhile (\<lambda>nq. fst nq \<noteq> n) xs) < length xs" for xs :: "(bytes \<times> Queue) list"
    by (induction xs) auto
  then have k: "?k < length (st_queues st)" using q(2) .
  then have "unat q = ?k" using assms(2) by (simp add: q(1) unat_of_nat)
  then show "unat q < length (st_queues st)" "fst (st_queues st ! unat q) = n"
    using k nth_length_takeWhile [of "\<lambda>nq. fst nq \<noteq> n" "st_queues st"] by simp_all
qed

lemma ucast_u32 [simp]:
  "\<not> (0xFFFFFFFF :: u64) < ucast (v :: u32)" "ucast (ucast (v :: u32) :: u64) = v" "unat (ucast (v :: u32) :: u64) = unat v"
proof -
  show "unat (ucast v :: u64) = unat v"
    using unat_less_32 [of v] by (simp add: unsigned_ucast_eq take_bit_nat_eq_self)
  then show "\<not> (0xFFFFFFFF :: u64) < ucast v" using unat_less_32 [of v] by (simp add: word_less_nat_alt)
  show "ucast (ucast v :: u64) = v" by (rule bit_word_eqI) (simp add: bit_simps)
qed

lemma svarint_time [simp]:
  "time_in_range t \<Longrightarrow> r_svarint \<lparr>rin = w_svarint t @ rest, rok = True\<rparr> = (t, \<lparr>rin = rest, rok = True\<rparr>)"
  by (rule r_svarint_w) (auto simp: time_in_range_def kMaxWallTimeMs_def)

lemma svarint_i32 [simp]:
  "in_i32 v \<Longrightarrow> r_svarint \<lparr>rin = w_svarint v @ rest, rok = True\<rparr> = (v, \<lparr>rin = rest, rok = True\<rparr>)"
  by (rule r_svarint_w) (auto simp: in_i32_def)

lemma bytes_size_ok [simp]: "size_ok v \<Longrightarrow> r_bytes \<lparr>rin = w_bytes v @ rest, rok = True\<rparr> = (v, \<lparr>rin = rest, rok = True\<rparr>)"
  by (rule r_bytes_w) (simp add: size_ok_def)

lemma persisted_round [simp]: "\<not> persisted_byte p > 4" "byte_persisted (persisted_byte p) = p"
  by (cases p; simp add: byte_persisted_def)+

lemma from_to_persisted: "from_persisted (to_persisted s) = (if is_pending s then kScheduled else s)"
  by (cases s) simp_all

text \<open>The job that an entry is read back as.\<close>

definition read_back :: "Abi \<Rightarrow> Job \<Rightarrow> Job" where
  "read_back abi j = j\<lparr>j_state := from_persisted (to_persisted (j_state j)), j_heap_index := kNotInHeap, j_timer := no_timer,
     j_idem_key_capacity := abi_fresh_capacity abi (length (j_idem_key j)),
     j_last_error_capacity := abi_fresh_capacity abi (length (j_last_error j))\<rparr>"

lemma persist_read_back [simp]: "persist (read_back abi j) = persist j"
  by (simp add: persist_def read_back_def from_to_persisted)

lemma read_back_fields:
  "j_id (read_back abi j) = j_id j" "j_queue (read_back abi j) = j_queue j" "j_heap_index (read_back abi j) = kNotInHeap"
  "j_timer (read_back abi j) = no_timer" "j_state (read_back abi j) \<noteq> kReady"
  "dur_job ni nt i (read_back abi j) = dur_job ni nt i j" "j_attempts (read_back abi j) = j_attempts j"
  "j_max_attempts (read_back abi j) = j_max_attempts j" "j_lease_token (read_back abi j) = j_lease_token j"
  "holds_token (j_state (read_back abi j)) = holds_token (j_state j)"
  by (cases "j_state j"; simp add: read_back_def from_to_persisted dur_job_def)+

lemma add_job_entry_w:
  assumes "job_fits j" and "i \<noteq> 0" and "j_id j = i" and "st_jobs (sb_state b) i = None"
    and "unat q < length (sb_queue_by_index b)" and "sb_queue_by_index b ! unat q = j_queue j"
    and "dur_job (st_next_job_id (sb_state b)) (st_next_token (sb_state b)) i j"
  shows "add_job_entry b \<lparr>rin = encode_job (job_image q i j) @ rest, rok = True\<rparr> =
    Inr (b\<lparr>sb_state := install_job i (read_back (st_abi (sb_state b)) j) (sb_state b), sb_jobs_added := sb_jobs_added b + 1\<rparr>,
      \<lparr>rin = rest, rok = True\<rparr>)"
proof -
  let ?abi = "st_abi (sb_state b)"
  have pr: "\<not> j_priority j < - (2 ^ 31)" "\<not> j_priority j > 2 ^ 31 - 1" using assms(1) by (auto simp: job_fits_def in_i32_def)
  have le: "\<not> i \<ge> st_next_job_id (sb_state b)" "\<not> j_lease_token j \<ge> st_next_token (sb_state b)"
      "\<not> j_attempts j > j_max_attempts j" "holds_token (j_state j) = (j_lease_token j \<noteq> 0)"
      "\<not> length (sb_queue_by_index b) \<le> unat q"
    using assms(5,7) by (auto simp: dur_job_def)
  have "(fresh_job ?abi)\<lparr>j_id := i, j_queue := j_queue j,
        j_payload := j_payload j, j_priority := j_priority j, j_attempts := j_attempts j,
        j_max_attempts := j_max_attempts j, j_backoff_base_ms := j_backoff_base_ms j,
        j_backoff_cap_ms := j_backoff_cap_ms j, j_state := from_persisted (to_persisted (j_state j)),
        j_run_at := j_run_at j, j_created_at := j_created_at j, j_finished_at := j_finished_at j,
        j_lease_expires_at := j_lease_expires_at j, j_lease_token := j_lease_token j, j_idem_key := j_idem_key j,
        j_idem_key_capacity := abi_fresh_capacity ?abi (length (j_idem_key j)), j_last_error := j_last_error j,
        j_last_error_capacity := abi_fresh_capacity ?abi (length (j_last_error j))\<rparr> = read_back ?abi j"
    using assms(3) by (simp add: read_back_def fresh_job_def)
  then show ?thesis
    using assms(1-4,6) pr le
    by (simp add: add_job_entry_def encode_job_def job_image_def r_varint_w r_u8_w job_fits_def Let_def read_back_fields)
qed

lemma builds_job:
  assumes "builds st b J K" and "state_inv st" and "storable st" and "st_jobs st i = Some j" and "i \<notin> J"
    and "queue_index (j_queue j) st = Some q"
  shows "\<exists>b'. add_job_entry b \<lparr>rin = encode_job (job_image q i j) @ rest, rok = True\<rparr> = Inr (b', \<lparr>rin = rest, rok = True\<rparr>) \<and>
    builds st b' (insert i J) K"
proof -
  let ?st = "sb_state b"
  let ?j = "read_back (st_abi ?st) j"
  have b: "state_inv ?st" "st_replaying ?st" "sb_queue_by_index b = map fst (st_queues st)"
      "durable ?st = (durable st)\<lparr>d_jobs := d_jobs (durable st) |` J, d_idem := K\<rparr>" "finite J" "J \<subseteq> dom (st_jobs st)"
    using assms(1) by (simp_all add: builds_def)
  have I: "idx (st_jobs st) (st_queues st) (st_wheel st) (st_replaying st) {} {}" and base: "base st {}"
    using assms(2) by (simp_all add: state_inv_def good_def idx_inv_def)
  note D = idxD [OF I]
  have ji: "j_id j = i" using D(5) [OF assms(4)] by (simp add: job_ok_def)
  have i0: "i \<noteq> 0" using assms(3,4) by (auto simp: storable_def)
  have same: "st_next_job_id ?st = st_next_job_id st" "st_next_token ?st = st_next_token st"
      "map_option q_totals \<circ> map_of (st_queues ?st) = map_option q_totals \<circ> map_of (st_queues st)"
      "map_option persist \<circ> st_jobs ?st = (map_option persist \<circ> st_jobs st) |` J"
    using b(4) by (simp_all add: durable_def)
  have doms: "dom (st_jobs ?st) = J" using arg_cong [OF same(4), of dom] b(6) by auto
  then have new: "st_jobs ?st i = None" using assms(5) by blast
  have names: "dom (map_of (st_queues ?st)) = dom (map_of (st_queues st))" using arg_cong [OF same(3), of dom] by simp
  have qd: "j_queue j \<in> dom (map_of (st_queues st))" using D(5) [OF assms(4)] by (simp add: job_ok_def)
  have dur: "dur_job (st_next_job_id st) (st_next_token st) i j" using base assms(4) by (simp add: base_def dur_inv_def)
  have q: "unat q < length (st_queues st)" "fst (st_queues st ! unat q) = j_queue j"
    using queue_index_nth [OF assms(6)] assms(3) by (auto simp: storable_def)
  have fits: "job_fits j" using assms(3,4) by (auto simp: storable_def)
  let ?b = "b\<lparr>sb_state := install_job i ?j ?st, sb_jobs_added := sb_jobs_added b + 1\<rparr>"
  have run: "add_job_entry b \<lparr>rin = encode_job (job_image q i j) @ rest, rok = True\<rparr> = Inr (?b, \<lparr>rin = rest, rok = True\<rparr>)"
    by (rule add_job_entry_w) (use fits i0 ji new q dur b(3) same in simp_all)
  have "J \<subset> dom (st_jobs st)" using assms(4,5) b(6) by blast
  from psubset_card_mono [OF D(1) this] have card: "card (dom (st_jobs ?st)) < kNil" unfolding doms using D(2) by linarith
  have "state_inv (install_job i ?j ?st)"
    unfolding state_inv_def
    by (rule good_install_job [OF b(1) [unfolded state_inv_def] b(2) new _ card]) (use qd names ji dur in \<open>simp_all add: read_back_fields same(1,2)\<close>)
  moreover have "d_jobs (durable st) |` insert i J = (d_jobs (durable st) |` J)(i \<mapsto> persist j)"
    using assms(4) by (auto simp: restrict_map_def durable_def fun_eq_iff)
  then have "durable (install_job i ?j ?st) = (durable st)\<lparr>d_jobs := d_jobs (durable st) |` insert i J, d_idem := K\<rparr>"
    by (simp add: durable_install_job b(4) put_job_def)
  moreover have "st_replaying (install_job i ?j ?st)" using b(2) by (simp add: install_job_def Let_def)
  ultimately have "builds st ?b (insert i J) K"
    using assms(1,4,5) b(5,6) by (auto simp: builds_def)
  then show ?thesis using run by blast
qed

section \<open>Whole pieces\<close>

lemma length_concat_ge: "(\<And>x. f x \<noteq> []) \<Longrightarrow> length xs \<le> length (concat (map f xs))"
proof (induction xs)
  case (Cons x xs)
  then have "0 < length (f x)" "length xs \<le> length (concat (map f xs))" by simp_all
  then have "Suc (length xs) \<le> length (f x) + length (concat (map f xs))" by linarith
  then show ?case by simp
qed simp

lemma w_varint_nonempty: "w_varint v \<noteq> []"
  using length_w_varint [of v] by (metis list.size(3) not_one_le_zero)

lemma encode_nonempty [simp]: "encode_job j \<noteq> []" "encode_queue q \<noteq> []" "encode_idem e \<noteq> []"
  by (simp_all add: encode_job_def encode_queue_def encode_idem_def w_bytes_def w_varint_nonempty)

definition image_of :: "State \<Rightarrow> JobId \<Rightarrow> JobImage" where
  "image_of st i = job_image (the (queue_index (j_queue (job_of st i)) st)) i (job_of st i)"

lemma capture_jobs_eq:
  assumes "state_inv st" and "set order \<subseteq> dom (st_jobs st)"
  shows "capture_jobs order st = Some (map (image_of st) order)"
  using assms(2)
proof (induction order)
  case (Cons i order)
  then obtain j where j: "st_jobs st i = Some j" by auto
  have "j_queue j \<in> fst ` set (st_queues st)"
    using assms(1) j by (auto simp: state_inv_def good_def idx_inv_def idx_def job_ok_def dom_map_of_conv_image_fst)
  then have "queue_index (j_queue j) st \<noteq> None" by (simp add: queue_index_def)
  then show ?case using Cons j by (auto simp: image_of_def job_of_Some)
qed simp

lemma builds_job_list:
  assumes "builds st b J K" and "state_inv st" and "storable st" and "set order \<subseteq> dom (st_jobs st)"
    and "distinct order" and "set order \<inter> J = {}"
  shows "\<exists>b'. add_job_entries (length order) b \<lparr>rin = concat (map (\<lambda>k. encode_job (image_of st k)) order) @ rest, rok = True\<rparr> =
      Inr (b', \<lparr>rin = rest, rok = True\<rparr>) \<and> builds st b' (J \<union> set order) K"
  using assms(1,4-6)
proof (induction order arbitrary: b J)
  case (Cons i order)
  then obtain j where j: "st_jobs st i = Some j" by auto
  have "j_queue j \<in> fst ` set (st_queues st)"
    using assms(2) j by (auto simp: state_inv_def good_def idx_inv_def idx_def job_ok_def dom_map_of_conv_image_fst)
  then obtain q where q: "queue_index (j_queue j) st = Some q" by (auto simp: queue_index_def)
  have img: "image_of st i = job_image q i j" using j q by (simp add: image_of_def job_of_Some)
  obtain b1 where b1: "add_job_entry b \<lparr>rin = encode_job (job_image q i j) @ concat (map (\<lambda>k. encode_job (image_of st k)) order) @ rest, rok = True\<rparr> =
        Inr (b1, \<lparr>rin = concat (map (\<lambda>k. encode_job (image_of st k)) order) @ rest, rok = True\<rparr>)" "builds st b1 (insert i J) K"
    using builds_job [OF Cons.prems(1) assms(2,3) j _ q] Cons.prems(4) by auto
  obtain b' where "add_job_entries (length order) b1 \<lparr>rin = concat (map (\<lambda>k. encode_job (image_of st k)) order) @ rest, rok = True\<rparr> =
      Inr (b', \<lparr>rin = rest, rok = True\<rparr>)" "builds st b' (insert i J \<union> set order) K"
    using Cons.IH [OF b1(2)] Cons.prems(2-4) by (simp only: list.set insert_subset distinct.simps) blast
  then show ?case using b1(1) by (auto simp: img)
qed simp

lemma builds_jobs_piece:
  assumes "builds st b J K" and "state_inv st" and "storable st" and "set order \<subseteq> dom (st_jobs st)"
    and "distinct order" and "set order \<inter> J = {}"
  shows "\<exists>b'. add_jobs (encode_image_jobs (map (image_of st) order)) b = Inr b' \<and> builds st b' (J \<union> set order) K"
proof -
  let ?body = "concat (map (\<lambda>k. encode_job (image_of st k)) order)"
  have "card (dom (st_jobs st)) \<le> kNil" "finite (dom (st_jobs st))"
    using assms(2) by (simp_all add: state_inv_def good_def idx_inv_def idx_def)
  then have "length order \<le> kNil"
    using card_mono [of "dom (st_jobs st)" "set order"] assms(4,5) by (simp add: distinct_card)
  then have len: "unat (of_nat (length order) :: u64) = length order" by (simp add: unat_of_nat kNil_def)
  have ge: "length order \<le> length ?body" by (rule length_concat_ge) simp
  obtain b' where b': "add_job_entries (length order) b \<lparr>rin = ?body @ [], rok = True\<rparr> = Inr (b', \<lparr>rin = [], rok = True\<rparr>)"
      "builds st b' (J \<union> set order) K"
    using builds_job_list [OF assms, of "[]"] by blast
  have "sb_have_meta b" using assms(1) by (simp add: builds_def)
  then have "add_jobs (encode_image_jobs (map (image_of st) order)) b = Inr b'"
    using b'(1) ge by (simp add: add_jobs_def encode_image_jobs_def mk_reader_def r_u8_w r_varint_w remaining_def len at_end_def comp_def)
  then show ?thesis using b'(2) by blast
qed

lemma find_idem_none: "idem_inv st \<Longrightarrow> find_idem k st = None \<longleftrightarrow> k \<notin> fst ` set (d_idem (durable st))"
  by (auto simp: find_idem_def idem_inv_def durable_def map_of_eq_None_iff image_image)

lemma builds_idem_list:
  assumes "builds st b J K" and "\<forall>e \<in> set es. idem_fits e" and "distinct (map ie_key es)"
    and "fst ` set K \<inter> ie_key ` set es = {}"
  shows "\<exists>b'. add_idem_entries (length es) b \<lparr>rin = concat (map encode_idem es) @ rest, rok = True\<rparr> =
      Inr (b', \<lparr>rin = rest, rok = True\<rparr>) \<and> builds st b' J (K @ map idem_row es)"
  using assms
proof (induction es arbitrary: b K)
  case (Cons e es)
  let ?st = "sb_state b"
  define b1 where "b1 = b\<lparr>sb_state := upsert_idem (ie_key e) (ie_job_id e) (ie_expires_at e) ?st, sb_idem_added := sb_idem_added b + 1\<rparr>"
  have inv: "state_inv ?st" and d: "d_idem (durable ?st) = K" using Cons.prems(1) by (simp_all add: builds_def)
  then have idem: "idem_inv ?st" by (simp add: state_inv_def good_def base_def)
  have new: "find_idem (ie_key e) ?st = None" using find_idem_none [OF idem] d Cons.prems(4) by auto
  have fits: "ie_key e \<noteq> []" "size_ok (ie_key e)" "time_in_range (ie_expires_at e)"
    using Cons.prems(2) by (simp_all add: idem_fits_def)
  have "filter (\<lambda>(k', _). k' \<noteq> ie_key e) K = K"
    using Cons.prems(4) by (intro filter_True) force
  then have dur: "durable (sb_state b1) = (durable ?st)\<lparr>d_idem := K @ [idem_row e]\<rparr>"
    using durable_upsert_idem [OF idem] d by (simp add: b1_def idem_row_def)
  have "state_inv (sb_state b1)"
    using inv base_upsert_idem by (simp add: b1_def state_inv_def good_def idx_inv_def)
  then have b1: "builds st b1 J (K @ [idem_row e])"
    using Cons.prems(1) dur by (simp add: builds_def) (simp add: b1_def)
  have disj: "fst ` set (K @ [idem_row e]) \<inter> ie_key ` set es = {}"
    using Cons.prems(3,4) by (auto simp: idem_row_def)
  obtain b' where b': "add_idem_entries (length es) b1 \<lparr>rin = concat (map encode_idem es) @ rest, rok = True\<rparr> =
      Inr (b', \<lparr>rin = rest, rok = True\<rparr>)" "builds st b' J ((K @ [idem_row e]) @ map idem_row es)"
    using Cons.IH [OF b1 _ _ disj] Cons.prems(2,3) by auto
  have "add_idem_entries (length (e # es)) b \<lparr>rin = concat (map encode_idem (e # es)) @ rest, rok = True\<rparr> =
      add_idem_entries (length es) b1 \<lparr>rin = concat (map encode_idem es) @ rest, rok = True\<rparr>"
    using fits new by (simp add: encode_idem_def r_varint_w b1_def)
  then show ?case using b' by auto
qed (use assms(1) in simp)

lemma builds_idem_piece:
  assumes "builds st b J K" and "\<forall>e \<in> set es. idem_fits e" and "distinct (map ie_key es)"
    and "fst ` set K \<inter> ie_key ` set es = {}" and "length es < 2 ^ 64"
  shows "\<exists>b'. add_idem (encode_image_idem es) b = Inr b' \<and> builds st b' J (K @ map idem_row es)"
proof -
  let ?body = "concat (map encode_idem es)"
  have len: "unat (of_nat (length es) :: u64) = length es" using assms(5) by (simp add: unat_of_nat)
  have ge: "length es \<le> length ?body" by (rule length_concat_ge) simp
  obtain b' where b': "add_idem_entries (length es) b \<lparr>rin = ?body @ [], rok = True\<rparr> = Inr (b', \<lparr>rin = [], rok = True\<rparr>)"
      "builds st b' J (K @ map idem_row es)"
    using builds_idem_list [OF assms(1-4), of "[]"] by blast
  have "sb_have_meta b" using assms(1) by (simp add: builds_def)
  then have "add_idem (encode_image_idem es) b = Inr b'"
    using b'(1) ge by (simp add: add_idem_def encode_image_idem_def mk_reader_def r_u8_w r_varint_w remaining_def len at_end_def)
  then show ?thesis using b'(2) by blast
qed

subsection \<open>The meta piece\<close>

lemma totals_eta: "\<lparr>qt_enqueued = qt_enqueued t, qt_succeeded = qt_succeeded t,
    qt_failed_attempts = qt_failed_attempts t, qt_dead = qt_dead t, qt_cancelled = qt_cancelled t\<rparr> = t"
  by simp

lemma add_queues_w:
  assumes "state_inv (sb_state b)" and "\<forall>q \<in> set qs. qi_name q \<noteq> [] \<and> size_ok (qi_name q)" and "distinct (map qi_name qs)"
    and "dom (d_totals (durable (sb_state b))) \<inter> qi_name ` set qs = {}"
  shows "\<exists>b'. add_queues (length qs) b \<lparr>rin = concat (map encode_queue qs) @ rest, rok = True\<rparr> =
      Inr (b', \<lparr>rin = rest, rok = True\<rparr>) \<and> state_inv (sb_state b') \<and>
      sb_queue_by_index b' = sb_queue_by_index b @ map qi_name qs \<and> st_replaying (sb_state b') = st_replaying (sb_state b) \<and>
      durable (sb_state b') = (durable (sb_state b))\<lparr>d_totals :=
        d_totals (durable (sb_state b)) ++ map_of (map (\<lambda>q. (qi_name q, qi_totals q)) qs)\<rparr> \<and>
      sb_jobs_added b' = sb_jobs_added b \<and> sb_idem_added b' = sb_idem_added b"
  using assms
proof (induction qs arbitrary: b)
  case (Cons q qs)
  let ?st = "sb_state b" and ?n = "qi_name q" and ?f = "\<lambda>x. x\<lparr>q_totals := qi_totals q\<rparr>"
  define st1 where "st1 = write_queue ?n ?f (get_or_create_queue ?n ?st)"
  define b1 where "b1 = b\<lparr>sb_state := st1, sb_queue_by_index := sb_queue_by_index b @ [?n]\<rparr>"
  let ?m = "d_totals (durable ?st)"
  have none: "?m ?n = None" using Cons.prems(4) by auto
  then have new: "find_queue ?n ?st = None" by (simp add: find_queue_def durable_def)
  have "good (get_or_create_queue ?n ?st) {} {} {}"
    using good_get_or_create_queue(1) Cons.prems(1) by (simp add: state_inv_def)
  then have inv1: "state_inv (sb_state b1)"
    using good_write_queue [of _ _ _ _ ?f] by (simp add: state_inv_def b1_def st1_def)
  have dur1: "durable (sb_state b1) = (durable ?st)\<lparr>d_totals := ?m(?n \<mapsto> qi_totals q)\<rparr>"
    using totals_write_queue [of ?f "\<lambda>_. qi_totals q" ?n] durable_get_or_create_queue [of ?n ?st] none
    by (simp add: b1_def st1_def add_total_def)
  have disj: "dom (d_totals (durable (sb_state b1))) \<inter> qi_name ` set qs = {}"
    using Cons.prems(3,4) dur1 by auto
  have upd: "?m(?n \<mapsto> qi_totals q) ++ map_of (map (\<lambda>q. (qi_name q, qi_totals q)) qs) =
      ?m ++ map_of (map (\<lambda>q. (qi_name q, qi_totals q)) (q # qs))"
    using Cons.prems(3) by (subst map_add_upd_left) (auto simp: dom_map_of_conv_image_fst image_image)
  have step: "add_queues (length (q # qs)) b \<lparr>rin = concat (map encode_queue (q # qs)) @ rest, rok = True\<rparr> =
      add_queues (length qs) b1 \<lparr>rin = concat (map encode_queue qs) @ rest, rok = True\<rparr>"
    using Cons.prems(2) new by (simp add: encode_queue_def encode_totals_def r_varint_w b1_def st1_def totals_eta)
  have "\<forall>q \<in> set qs. qi_name q \<noteq> [] \<and> size_ok (qi_name q)" "distinct (map qi_name qs)" using Cons.prems(2,3) by simp_all
  from Cons.IH [OF inv1 this disj] obtain b' where B: "add_queues (length qs) b1 \<lparr>rin = concat (map encode_queue qs) @ rest, rok = True\<rparr> =
      Inr (b', \<lparr>rin = rest, rok = True\<rparr>)" "state_inv (sb_state b')"
      "sb_queue_by_index b' = sb_queue_by_index b1 @ map qi_name qs" "st_replaying (sb_state b') = st_replaying (sb_state b1)"
      "durable (sb_state b') = (durable (sb_state b1))\<lparr>d_totals :=
        d_totals (durable (sb_state b1)) ++ map_of (map (\<lambda>q. (qi_name q, qi_totals q)) qs)\<rparr>"
      "sb_jobs_added b' = sb_jobs_added b1" "sb_idem_added b' = sb_idem_added b1" by blast
  have "durable (sb_state b') = (durable ?st)\<lparr>d_totals := ?m(?n \<mapsto> qi_totals q) ++ map_of (map (\<lambda>q. (qi_name q, qi_totals q)) qs)\<rparr>"
    by (simp only: B(5) dur1 Durable.select_convs Durable.update_convs) simp
  then have dur': "durable (sb_state b') = (durable ?st)\<lparr>d_totals := ?m ++ map_of (map (\<lambda>q. (qi_name q, qi_totals q)) (q # qs))\<rparr>"
    unfolding upd .
  have keep: "sb_queue_by_index b1 = sb_queue_by_index b @ [?n]" "st_replaying (sb_state b1) = st_replaying ?st"
    "sb_jobs_added b1 = sb_jobs_added b" "sb_idem_added b1 = sb_idem_added b" by (simp_all add: b1_def st1_def)
  show ?case unfolding step using B(1-4,6,7) dur' keep by (intro exI [of _ b'] conjI dur') simp_all
qed simp

lemma builder_start:
  assumes "0 < t"
  shows "state_inv ((mk_state abi opts)\<lparr>st_replaying := True, st_next_job_id := n, st_next_token := t\<rparr>)" (is "state_inv ?st")
proof -
  have "state_inv (begin_replay (mk_state abi opts))" by (rule begin_replay_inv [OF mk_state_inv]) (simp add: mk_state_def)
  moreover have "st_jobs (mk_state abi opts) = Map.empty" by (simp add: mk_state_def)
  ultimately show ?thesis using assms
    by (simp add: begin_replay_def state_inv_def good_def idx_inv_def base_def cnt_inv_def mem_inv_def idem_inv_def dur_inv_def)
qed

definition queue_images :: "State \<Rightarrow> QueueImage list" where
  "queue_images st = map (\<lambda>(name, q). \<lparr>qi_name = name, qi_totals = q_totals q\<rparr>) (st_queues st)"

lemma queue_images_simps [simp]:
  "map qi_name (queue_images st) = map fst (st_queues st)" "qi_name ` set (queue_images st) = fst ` set (st_queues st)"
  "length (queue_images st) = length (st_queues st)"
  "map_of (map (\<lambda>q. (qi_name q, qi_totals q)) (queue_images st)) = map_option q_totals \<circ> map_of (st_queues st)"
proof -
  show "map_of (map (\<lambda>q. (qi_name q, qi_totals q)) (queue_images st)) = map_option q_totals \<circ> map_of (st_queues st)"
    unfolding queue_images_def map_map by (subst map_of_map [symmetric]) (auto intro!: arg_cong [of _ _ map_of])
qed (force simp: queue_images_def case_prod_beta)+

lemma builds_meta:
  assumes inv: "state_inv st" and st: "storable st"
    and img: "im_next_job_id img = st_next_job_id st" "im_next_token img = st_next_token st" "im_queues img = queue_images st"
  shows "\<exists>b. add_meta (encode_image_meta img) (mk_builder abi opts) = Inr b \<and> builds st b {} []"
proof -
  let ?qs = "queue_images st" and ?b = "mk_builder abi opts"
  define b0 where "b0 = ?b\<lparr>sb_state := (sb_state ?b)\<lparr>st_next_job_id := st_next_job_id st, st_next_token := st_next_token st\<rparr>\<rparr>"
  have tok: "0 < st_next_token st" using inv by (simp add: state_inv_def good_def base_def dur_inv_def)
  then have tok': "st_next_token st \<noteq> 0" by auto
  have inv0: "state_inv (sb_state b0)" using builder_start [OF tok] by (simp add: b0_def mk_builder_def)
  have d0: "durable (sb_state b0) = \<lparr>d_jobs = Map.empty, d_totals = Map.empty, d_next_job_id = st_next_job_id st,
      d_next_token = st_next_token st, d_idem = []\<rparr>" by (simp add: b0_def mk_builder_def mk_state_def durable_def)
  have names: "\<forall>q \<in> set ?qs. qi_name q \<noteq> [] \<and> size_ok (qi_name q)"
    using st by (auto simp: storable_def queue_images_def)
  have "distinct (map fst (st_queues st))"
    using inv by (simp add: state_inv_def good_def idx_inv_def idx_def omap_wf_def strict_sorted_iff)
  then have dist: "distinct (map qi_name ?qs)" by simp
  have len: "unat (of_nat (length ?qs) :: u64) = length ?qs" using st by (simp add: storable_def unat_of_nat)
  have ge: "length ?qs \<le> length (concat (map encode_queue ?qs))" by (rule length_concat_ge) simp
  obtain b' where b': "add_queues (length ?qs) b0 \<lparr>rin = concat (map encode_queue ?qs) @ [], rok = True\<rparr> =
      Inr (b', \<lparr>rin = [], rok = True\<rparr>)" "state_inv (sb_state b')"
      "sb_queue_by_index b' = sb_queue_by_index b0 @ map qi_name ?qs" "st_replaying (sb_state b') = st_replaying (sb_state b0)"
      "durable (sb_state b') = (durable (sb_state b0))\<lparr>d_totals := d_totals (durable (sb_state b0)) ++
        map_of (map (\<lambda>q. (qi_name q, qi_totals q)) ?qs)\<rparr>"
      "sb_jobs_added b' = sb_jobs_added b0" "sb_idem_added b' = sb_idem_added b0"
    using add_queues_w [OF inv0 names dist, of "[]"] d0 by auto
  have "add_meta (encode_image_meta img) ?b = Inr (b'\<lparr>sb_have_meta := True\<rparr>)"
    using b'(1) ge len tok' st img
    by (simp add: add_meta_def encode_image_meta_def mk_reader_def r_u8_w r_varint_w remaining_def at_end_def b0_def [symmetric]
      storable_def) (simp add: mk_builder_def)
  moreover have "builds st (b'\<lparr>sb_have_meta := True\<rparr>) {} []"
    using b'(2-7) d0 by (simp add: builds_def b0_def mk_builder_def) (simp add: durable_def)
  ultimately show ?thesis by blast
qed

section \<open>The whole state\<close>

lemma insort_key_map: "insort_key f (g x) (map g ys) = map g (insort_key (f \<circ> g) x ys)"
  by (induction ys) auto

lemma sort_key_map: "sort_key f (map g xs) = map g (sort_key (f \<circ> g) xs)"
  by (induction xs) (simp_all add: insort_key_map [unfolded o_def] o_def)

lemma sum_list_sort_key: "sum_list (map f (sort_key g xs)) = (sum_list (map f xs) :: u64)"
proof -
  have "sum_list (map f (insort_key g x ys)) = f x + sum_list (map f ys)" for x ys
    by (induction ys) (simp_all add: ac_simps)
  then show ?thesis by (induction xs) simp_all
qed

lemma serialize_eq:
  assumes inv: "state_inv st" and "set order = dom (st_jobs st)"
  shows "serialize order st = Some (let img = \<lparr>im_next_job_id = st_next_job_id st, im_next_token = st_next_token st,
       im_queues = queue_images st, im_jobs = map (image_of st) (sort order), im_idem = sort_key ie_key (st_idem_order st)\<rparr> in
     w_u8 kSerializationVersion @ w_bytes (encode_image_meta img) @ w_bytes (encode_image_jobs (im_jobs img)) @
       w_bytes (encode_image_idem (im_idem img)))"
proof -
  have "ji_id \<circ> image_of st = (\<lambda>i. i)" by (auto simp: image_of_def job_image_def)
  then have "sort_key ji_id (map (image_of st) order) = map (image_of st) (sort order)" by (simp add: sort_key_map)
  then show ?thesis
    using capture_jobs_eq [OF inv, of order] assms(2) by (simp add: serialize_def capture_image_def queue_images_def Let_def)
qed

lemma good_sort_idem:
  assumes "good st {} {} E"
  shows "good (st\<lparr>st_idem_order := sort_key ie_expires_at (st_idem_order st)\<rparr>) {} {} E"
proof -
  let ?l = "st_idem_order st" and ?s = "sort_key ie_expires_at (st_idem_order st)"
  have idem: "distinct (map ie_key ?l)" "st_idem_index st = map_of (map (\<lambda>e. (ie_key e, e)) ?l)"
    using assms by (simp_all add: good_def base_def idem_inv_def)
  have d: "distinct (map ie_key ?s)" using idem(1) by (simp add: distinct_map)
  have "map_of (map (\<lambda>e. (ie_key e, e)) ?s) = map_of (map (\<lambda>e. (ie_key e, e)) ?l)"
    by (subst map_of_inject_set) (use idem(1) d in \<open>simp_all add: o_def\<close>)
  then have "idem_inv (st\<lparr>st_idem_order := ?s\<rparr>)" using idem(2) d by (simp add: idem_inv_def)
  then show ?thesis
    using assms by (simp add: good_def base_def idx_inv_def cnt_inv_def mem_inv_def dur_inv_def sum_list_sort_key)
qed

lemma builder_finish_builds:
  assumes b: "builds st b (dom (st_jobs st)) K"
  shows "\<exists>st'. builder_finish b = Inr st' \<and> state_inv st' \<and> st_replaying st' \<and>
    durable st' = (durable st)\<lparr>d_idem := sort_key (snd \<circ> snd) K\<rparr>"
proof -
  let ?st = "sb_state b"
  define st' where "st' = ?st\<lparr>st_idem_order := sort_key ie_expires_at (st_idem_order ?st)\<rparr>"
  have "state_inv st'" using b good_sort_idem by (simp add: builds_def state_inv_def st'_def)
  moreover have "d_idem (durable st') = sort_key (snd \<circ> snd) K"
  proof -
    have "K = map idem_row (st_idem_order ?st)" using b by (simp add: builds_def durable_def idem_row_eq)
    then show ?thesis by (simp add: st'_def durable_def sort_key_map o_def idem_row_def)
  qed
  then have "durable st' = (durable ?st)\<lparr>d_idem := sort_key (snd \<circ> snd) K\<rparr>" by (simp add: st'_def durable_def)
  then have "durable st' = (durable st)\<lparr>d_idem := sort_key (snd \<circ> snd) K\<rparr>"
    using b by (simp add: builds_def) (simp add: durable_def restrict_map_def fun_eq_iff domIff)
  ultimately show ?thesis using b by (simp add: builder_finish_def builds_def st'_def)
qed

lemma deserialize_serialize:
  assumes inv: "state_inv st" and st: "storable st" and order: "distinct order" "set order = dom (st_jobs st)"
    and data: "serialize order st = Some data" and len: "size_ok data"
  shows "\<exists>st'. deserialize abi data opts = Inr st' \<and> state_inv st' \<and> st_replaying st' \<and>
    durable st' = (durable st)\<lparr>d_idem := sort_key (snd \<circ> snd) (sort_key fst (d_idem (durable st)))\<rparr>"
proof -
  let ?img = "\<lparr>im_next_job_id = st_next_job_id st, im_next_token = st_next_token st,
       im_queues = queue_images st, im_jobs = map (image_of st) (sort order), im_idem = sort_key ie_key (st_idem_order st)\<rparr>"
  let ?m = "encode_image_meta ?img" and ?j = "encode_image_jobs (im_jobs ?img)" and ?i = "encode_image_idem (im_idem ?img)"
  have eq: "data = w_u8 kSerializationVersion @ w_bytes ?m @ w_bytes ?j @ w_bytes ?i"
    using data serialize_eq [OF inv order(2)] by (simp add: Let_def)
  have sz: "size_ok ?m" "size_ok ?j" "size_ok ?i" using len unfolding eq by (simp_all add: size_ok_def w_bytes_def)
  obtain b1 where b1: "add_meta ?m (mk_builder abi opts) = Inr b1" "builds st b1 {} []"
    using builds_meta [OF inv st, of ?img] by auto
  obtain b2 where b2: "add_jobs ?j b1 = Inr b2" "builds st b2 (dom (st_jobs st)) []"
    using builds_jobs_piece [OF b1(2) inv st, of "sort order"] order by auto
  have "distinct (map ie_key (st_idem_order st))" using inv by (simp add: state_inv_def good_def base_def idem_inv_def)
  then obtain b3 where b3: "add_idem ?i b2 = Inr b3" "builds st b3 (dom (st_jobs st)) (map idem_row (sort_key ie_key (st_idem_order st)))"
    using builds_idem_piece [OF b2(2), of "sort_key ie_key (st_idem_order st)"] st by (auto simp: storable_def distinct_map)
  have K: "map idem_row (sort_key ie_key (st_idem_order st)) = sort_key fst (d_idem (durable st))"
    by (simp add: durable_def sort_key_map o_def idem_row_def)
  have "deserialize abi data opts = builder_finish b3"
    using sz b1(1) b2(1) b3(1) unfolding eq
    by (simp add: deserialize_def mk_reader_def r_u8_w at_end_def assign_or_return_def bytes_size_ok [where rest = "[]", simplified])
  then show ?thesis using builder_finish_builds [OF b3(2)] unfolding K by simp
qed

section \<open>The canonical form\<close>

lemma queue_index_names: "queue_index n st =
    (if n \<in> set (map fst (st_queues st)) then Some (of_nat (length (takeWhile (\<lambda>m. m \<noteq> n) (map fst (st_queues st))))) else None)"
  by (simp add: queue_index_def takeWhile_map o_def)

lemma queue_images_totals:
  assumes "state_inv st"
  shows "queue_images st = map (\<lambda>n. \<lparr>qi_name = n, qi_totals = the (d_totals (durable st) n)\<rparr>) (map fst (st_queues st))"
proof -
  have "distinct (map fst (st_queues st))"
    using assms by (simp add: state_inv_def good_def idx_inv_def idx_def omap_wf_def strict_sorted_iff)
  then have "map_of (st_queues st) (fst nq) = Some (snd nq)" if "nq \<in> set (st_queues st)" for nq
    using that by (simp add: map_of_is_SomeI)
  then show ?thesis by (auto simp: queue_images_def durable_def)
qed

lemma persist_queue: "j_queue (persist j) = j_queue j"
  by (simp add: persist_def)

lemma job_image_persist: "persist j = persist j' \<Longrightarrow> job_image q i j = job_image q i j'"
proof -
  assume p: "persist j = persist j'"
  have "to_persisted (j_state (persist k)) = to_persisted (j_state k)" for k
    by (cases "j_state k") (simp_all add: persist_def)
  then have "to_persisted (j_state j) = to_persisted (j_state j')" using p by metis
  then show ?thesis using p by (cases j; cases j') (simp add: persist_def job_image_def)
qed

lemma encode_sorted_idem:
  assumes "distinct (map ie_key xs)" and "distinct (map ie_key ys)" and rows: "idem_row ` set xs = idem_row ` set ys"
  shows "encode_image_idem (sort_key ie_key xs) = encode_image_idem (sort_key ie_key ys)"
proof -
  have key: "ie_key = fst \<circ> idem_row" by (simp add: fun_eq_iff idem_row_def)
  have s: "map idem_row (sort_key ie_key zs) = sort_key fst (map idem_row zs)" for zs by (simp add: key sort_key_map)
  have eq: "map idem_row (sort_key ie_key xs) = map idem_row (sort_key ie_key ys)"
  proof (rule map_sorted_distinct_set_unique [where f = fst])
    show "inj_on fst (set (map idem_row (sort_key ie_key xs)) \<union> set (map idem_row (sort_key ie_key ys)))"
      using assms by (auto simp: inj_on_def distinct_map idem_row_def)
    show "distinct (map fst (map idem_row (sort_key ie_key xs)))" "distinct (map fst (map idem_row (sort_key ie_key ys)))"
      using assms(1,2) by (simp_all add: key [symmetric], simp_all add: distinct_map)
  qed (use rows in \<open>simp_all add: s\<close>)
  have enc: "encode_idem e = (case idem_row e of (k, i, t) \<Rightarrow> w_bytes k @ w_varint i @ w_svarint t)" for e
    by (simp add: idem_row_def encode_idem_def)
  have rowwise: "map encode_idem zs = map (\<lambda>(k, i, t). w_bytes k @ w_varint i @ w_svarint t) (map idem_row zs)" for zs
    by (simp add: enc)
  have "length xs = length ys" using arg_cong [OF eq, of length] by simp
  then show ?thesis unfolding encode_image_idem_def rowwise eq by simp
qed

lemma serialize_same:
  assumes inv: "state_inv st" "state_inv st'"
    and order: "distinct order" "set order = dom (st_jobs st)" "distinct order'" "set order' = dom (st_jobs st')"
    and same: "(durable st')\<lparr>d_idem := []\<rparr> = (durable st)\<lparr>d_idem := []\<rparr>"
      "set (d_idem (durable st')) = set (d_idem (durable st))"
  shows "serialize order' st' = serialize order st"
proof -
  have d: "d_jobs (durable st') = d_jobs (durable st)" "d_totals (durable st') = d_totals (durable st)"
    "st_next_job_id st' = st_next_job_id st" "st_next_token st' = st_next_token st"
    using same(1) by (simp_all add: durable_def)
  have "dom (d_jobs (durable st)) = dom (st_jobs st)" for st by (simp add: durable_def)
  then have dom: "dom (st_jobs st') = dom (st_jobs st)" using d(1) by metis
  have "sort order' = sort order"
    using order dom by (intro sorted_distinct_set_unique) simp_all
  moreover have names: "map fst (st_queues st') = map fst (st_queues st)"
  proof (rule sorted_distinct_set_unique)
    have "dom (d_totals (durable st)) = set (map fst (st_queues st))" for st
      by (simp add: durable_def dom_map_of_conv_image_fst)
    then show "set (map fst (st_queues st')) = set (map fst (st_queues st))" using d(2) by metis
  qed (use inv in \<open>simp_all add: state_inv_def good_def idx_inv_def idx_def omap_wf_def strict_sorted_iff\<close>)
  moreover have "queue_images st' = queue_images st"
    by (simp add: queue_images_totals inv names d(2) del: map_map)
  moreover have "image_of st' i = image_of st i" if "i \<in> set order" for i
  proof -
    have "i \<in> dom (st_jobs st)" "i \<in> dom (st_jobs st')" using order(2) dom that by simp_all
    then obtain j j' where j: "st_jobs st i = Some j" "st_jobs st' i = Some j'" by blast
    have p: "persist j = persist j'" using fun_cong [OF d(1), of i] j by (simp add: durable_def)
    then have "j_queue j = j_queue j'" using persist_queue by metis
    then show ?thesis using job_image_persist [OF p] j by (simp add: image_of_def job_of_Some queue_index_names names)
  qed
  then have images: "map (image_of st') (sort order) = map (image_of st) (sort order)" by simp
  moreover have "encode_image_idem (sort_key ie_key (st_idem_order st')) = encode_image_idem (sort_key ie_key (st_idem_order st))"
    by (rule encode_sorted_idem)
      (use inv same(2) in \<open>simp_all add: state_inv_def good_def base_def idem_inv_def durable_def idem_row_eq\<close>)
  ultimately show ?thesis
    using d by (simp add: serialize_eq [OF inv(1) order(2)] serialize_eq [OF inv(2) order(4)] Let_def encode_image_meta_def images)
qed

section \<open>Properties\<close>

text \<open>
  C15 (image round trip). Whatever order the hash map yields its jobs in, a consistent state whose
  fields fit the encoding is serialized, and deserializing the bytes gives a consistent state in replay mode with
  the same jobs, totals and counters, and the same idempotency keys, ordered by expiry and then by key.
\<close>

theorem image_round_trip:
  assumes "state_inv st" and "storable st" and "distinct order" and "set order = dom (st_jobs st)"
  shows "\<exists>data. serialize order st = Some data \<and> (size_ok data \<longrightarrow>
    (\<exists>st'. deserialize abi data opts = Inr st' \<and> state_inv st' \<and> st_replaying st' \<and>
      durable st' = (durable st)\<lparr>d_idem := sort_key (snd \<circ> snd) (sort_key fst (d_idem (durable st)))\<rparr>))"
  using serialize_eq [OF assms(1,4)] deserialize_serialize [OF assms] by blast

definition image_job :: Job where
  "image_job = (fresh_job sample_abi)\<lparr>j_id := 1, j_queue := str ''mail'', j_payload := str ''hi'', j_state := kLeased,
     j_attempts := 1, j_max_attempts := 3, j_lease_token := 1, j_lease_expires_at := 9\<rparr>"

definition image_state :: State where
  "image_state = upsert_idem (str ''key'') 1 50 (install_job 1 image_job (get_or_create_queue (str ''mail'')
     ((mk_state sample_abi \<lparr>so_retain_finished_ms = 1000, so_retain_dead_ms = 5000\<rparr>)\<lparr>st_replaying := True,
       st_next_job_id := 2, st_next_token := 2\<rparr>)))"

lemma image_state_inv: "state_inv image_state" and image_state_dom: "set [1] = dom (st_jobs image_state)"
proof -
  let ?s = "(mk_state sample_abi \<lparr>so_retain_finished_ms = 1000, so_retain_dead_ms = 5000\<rparr>)\<lparr>st_replaying := True,
       st_next_job_id := 2, st_next_token := 2\<rparr>"
  define q where "q = get_or_create_queue (str ''mail'') ?s"
  have "good ?s {} {} {}" using builder_start [of 2] by (simp add: state_inv_def)
  note g = good_get_or_create_queue [OF this, of "str ''mail''", folded q_def]
  have f: "st_jobs q = Map.empty" "st_replaying q" "st_next_job_id q = 2" "st_next_token q = 2"
    by (simp_all add: q_def mk_state_def)
  have "good (install_job 1 image_job q) {} {} {}"
    by (rule good_install_job [OF g(1)]) (use f g(2) in \<open>simp_all add: image_job_def fresh_job_def dur_job_def kNil_def\<close>)
  then have "good (upsert_idem (str ''key'') 1 50 (install_job 1 image_job q)) {} {} {}"
    using base_upsert_idem by (simp add: good_def idx_inv_def)
  then show "state_inv image_state" by (simp add: image_state_def q_def state_inv_def)
  show "set [1] = dom (st_jobs image_state)" by (simp add: image_state_def install_job_def Let_def mk_state_def)
qed

lemma image_state_fields:
  "st_jobs image_state = [1 \<mapsto> image_job]" "st_next_job_id image_state = 2" "map fst (st_queues image_state) = [str ''mail'']"
  "st_idem_order image_state = [\<lparr>ie_key = str ''key'', ie_key_capacity = 15, ie_job_id = 1, ie_expires_at = 50\<rparr>]"
proof -
  have q: "j_state image_job = kLeased" "j_queue image_job = str ''mail''" by (simp_all add: image_job_def)
  note defs = image_state_def install_job_def Let_def q mk_state_def get_or_create_queue_def find_queue_def
  show "st_jobs image_state = [1 \<mapsto> image_job]" "st_next_job_id image_state = 2" by (simp_all add: defs)
  show "map fst (st_queues image_state) = [str ''mail'']" by (simp add: defs)
  show "st_idem_order image_state = [\<lparr>ie_key = str ''key'', ie_key_capacity = 15, ie_job_id = 1, ie_expires_at = 50\<rparr>]"
    by (simp add: defs upsert_idem_def write_queue_def sample_abi_def str_def)
qed

lemma image_state_storable: "storable image_state"
proof -
  have "fst ` set (st_queues image_state) = {str ''mail''}" "length (st_queues image_state) = 1"
    using arg_cong [OF image_state_fields(3), of set] arg_cong [OF image_state_fields(3), of length] by simp_all
  moreover have "job_fits image_job"
    by (simp add: job_fits_def image_job_def fresh_job_def size_ok_def in_i32_def time_in_range_def kMaxWallTimeMs_def str_def)
  ultimately show ?thesis
    by (simp add: storable_def image_state_fields idem_fits_def size_ok_def time_in_range_def kMaxWallTimeMs_def str_def)
qed

lemma w_varint_small: "v < 0x80 \<Longrightarrow> w_varint v = [ucast v]"
  by (subst w_varint.simps) auto

lemma image_state_size: "length (the (serialize [1] image_state)) < 100"
proof -
  obtain q where q: "st_queues image_state = [(str ''mail'', q)]" "q_totals q = q_totals (mk_queue [])"
    by (simp add: image_state_def install_job_def Let_def image_job_def fresh_job_def mk_state_def get_or_create_queue_def
      find_queue_def mk_queue_def)
  have "st_next_token image_state = 2" by (simp add: image_state_def install_job_def Let_def image_job_def fresh_job_def)
  then show ?thesis
    by (simp add: serialize_eq [OF image_state_inv image_state_dom] Let_def image_state_fields q queue_images_def
      encode_image_meta_def encode_image_jobs_def encode_image_idem_def encode_queue_def encode_totals_def encode_job_def encode_idem_def
      image_of_def job_of_def deref_def zero_totals_def job_image_def queue_index_def image_job_def fresh_job_def mk_queue_def
      w_bytes_def w_svarint_def w_u8_def w_varint_small str_def)
qed

theorem image_round_trip_witness:
  "\<exists>st'. deserialize sample_abi (the (serialize [1] image_state)) (st_options image_state) = Inr st' \<and>
     d_jobs (durable st') = d_jobs (durable image_state) \<and> d_idem (durable st') = d_idem (durable image_state)"
proof -
  obtain data where data: "serialize [1] image_state = Some data" "size_ok data \<longrightarrow>
      (\<exists>st'. deserialize sample_abi data (st_options image_state) = Inr st' \<and> state_inv st' \<and> st_replaying st' \<and>
        durable st' = (durable image_state)\<lparr>d_idem := sort_key (snd \<circ> snd) (sort_key fst (d_idem (durable image_state)))\<rparr>)"
    using image_round_trip [OF image_state_inv image_state_storable _ image_state_dom, of sample_abi "st_options image_state"]
    by auto
  have "size_ok data" using image_state_size data(1) by (simp add: size_ok_def)
  moreover obtain x where "d_idem (durable image_state) = [x]" by (simp add: durable_def image_state_fields)
  ultimately show ?thesis using data by auto
qed

text \<open>
  C16 (canonical bytes). Two consistent states with the same jobs, totals and counters and the same set of
  idempotency keys serialize to the same bytes, in whatever order their hash maps yield the jobs.
\<close>

theorem serialize_canonical:
  assumes "state_inv st" and "state_inv st'"
    and "distinct order" and "set order = dom (st_jobs st)" and "distinct order'" and "set order' = dom (st_jobs st')"
    and "(durable st')\<lparr>d_idem := []\<rparr> = (durable st)\<lparr>d_idem := []\<rparr>"
    and "set (d_idem (durable st')) = set (d_idem (durable st))"
  shows "serialize order' st' = serialize order st"
  using assms by (rule serialize_same)

theorem serialize_canonical_witness: "serialize [1] (set_now 7 3 image_state) = serialize [1] image_state"
proof -
  have "state_inv (set_now 7 3 image_state)" using image_state_inv by (simp add: state_inv_def set_now_good)
  moreover have "durable (set_now 7 3 image_state) = durable image_state" "st_jobs (set_now 7 3 image_state) = st_jobs image_state"
    by (simp_all add: set_now_def durable_def)
  ultimately show ?thesis
    using serialize_canonical [OF image_state_inv, of "set_now 7 3 image_state" "[1]" "[1]"] image_state_dom by simp
qed

end
