(* ===== verification/ImageAccept.thy ===== *)
theory ImageAccept
  imports ImageProps
begin

text \<open>
  What the builder of \<^verbatim>\<open>state/image.cpp\<close> guarantees about bytes it did not write itself: whatever it
  accepts is a state with every field in range and with all its indexes and counters consistent. The one clause of the
  state's invariant it does not enforce is that a leased job has been attempted.
\<close>

section \<open>What the builder keeps\<close>

definition job_typed :: "bytes set \<Rightarrow> Job \<Rightarrow> bool" where
  "job_typed names j \<longleftrightarrow> j_id j \<noteq> 0 \<and> j_queue j \<in> names \<and> in_i32 (j_priority j) \<and> time_in_range (j_run_at j) \<and>
     time_in_range (j_created_at j) \<and> time_in_range (j_finished_at j) \<and> time_in_range (j_lease_expires_at j) \<and>
     j_state j \<noteq> kReady"

definition state_typed :: "State \<Rightarrow> bool" where
  "state_typed st \<longleftrightarrow> st_next_job_id st \<noteq> 0 \<and> (\<forall>n \<in> fst ` set (st_queues st). n \<noteq> []) \<and>
     (\<forall>i j. st_jobs st i = Some j \<longrightarrow> job_typed (fst ` set (st_queues st)) j) \<and>
     (\<forall>e \<in> set (st_idem_order st). ie_key e \<noteq> [] \<and> time_in_range (ie_expires_at e))"

text \<open>Leased jobs without an attempt.\<close>

definition unattempted :: "State \<Rightarrow> JobId set" where
  "unattempted st = {i. \<exists>j. st_jobs st i = Some j \<and> j_state j = kLeased \<and> j_attempts j = 0}"

definition accepts :: "Builder \<Rightarrow> bool" where
  "accepts b \<longleftrightarrow> good (sb_state b) {} {} (unattempted (sb_state b)) \<and> st_replaying (sb_state b) \<and>
     state_typed (sb_state b) \<and> set (sb_queue_by_index b) \<subseteq> fst ` set (st_queues (sb_state b))"

lemma in_names: "n \<in> dom (map_of qs) \<longleftrightarrow> n \<in> fst ` set qs"
  by (simp add: dom_map_of_conv_image_fst)

section \<open>The pieces\<close>

lemma accepts_queue:
  assumes b: "accepts b" and n: "name \<noteq> []" and new: "find_queue name (sb_state b) = None"
  shows "accepts (b\<lparr>sb_state := write_queue name (\<lambda>q. q\<lparr>q_totals := t\<rparr>) (get_or_create_queue name (sb_state b)),
    sb_queue_by_index := sb_queue_by_index b @ [name]\<rparr>)"
proof -
  let ?st = "sb_state b"
  define st1 where "st1 = write_queue name (\<lambda>q. q\<lparr>q_totals := t\<rparr>) (get_or_create_queue name ?st)"
  have f: "st_jobs st1 = st_jobs ?st" "st_replaying st1 = st_replaying ?st" "st_next_job_id st1 = st_next_job_id ?st"
    "st_idem_order st1 = st_idem_order ?st" by (simp_all add: st1_def get_or_create_queue_def write_queue_def split: option.split)
  have "dom (map_of (st_queues st1)) = insert name (dom (map_of (st_queues ?st)))"
    using new by (auto simp: st1_def get_or_create_queue_def split: if_splits)
  then have q: "fst ` set (st_queues st1) = insert name (fst ` set (st_queues ?st))" by (simp add: dom_map_of_conv_image_fst)
  have "good (get_or_create_queue name ?st) {} {} (unattempted ?st)"
    using good_get_or_create_queue(1) b by (simp add: accepts_def)
  then have "good st1 {} {} (unattempted ?st)" unfolding st1_def by (rule good_write_queue) simp_all
  moreover have "unattempted st1 = unattempted ?st" by (simp add: unattempted_def f(1))
  moreover have "state_typed st1" using b n by (auto simp: accepts_def state_typed_def f q job_typed_def)
  ultimately show ?thesis using b by (auto simp: accepts_def f q st1_def [symmetric])
qed

lemma accepts_queues: "add_queues n b r = Inr (b', r') \<Longrightarrow> accepts b \<Longrightarrow>
    accepts b' \<and> st_jobs (sb_state b') = st_jobs (sb_state b)"
proof (induction n arbitrary: b r)
  case (Suc n)
  from Suc.prems(1) obtain name t r1 where name: "name \<noteq> []" "find_queue name (sb_state b) = None"
    and rest: "add_queues n (b\<lparr>sb_state := write_queue name (\<lambda>q. q\<lparr>q_totals := t\<rparr>) (get_or_create_queue name (sb_state b)),
      sb_queue_by_index := sb_queue_by_index b @ [name]\<rparr>) r1 = Inr (b', r')"
    by (auto simp: Let_def corrupt_image_def split: prod.splits if_splits)
  from Suc.IH [OF rest accepts_queue [OF Suc.prems(2) name]] show ?case by simp
qed simp

lemma add_job_entryE:
  assumes "add_job_entry b r = Inr (b', r')"
  obtains i job where "b' = b\<lparr>sb_state := install_job i job (sb_state b), sb_jobs_added := sb_jobs_added b + 1\<rparr>"
    "st_jobs (sb_state b) i = None" "i \<noteq> 0" "i < st_next_job_id (sb_state b)" "j_id job = i" "j_heap_index job = kNotInHeap"
    "j_timer job = no_timer" "j_state job \<noteq> kReady" "j_queue job \<in> set (sb_queue_by_index b)" "in_i32 (j_priority job)"
    "time_in_range (j_run_at job)" "time_in_range (j_created_at job)" "time_in_range (j_finished_at job)"
    "time_in_range (j_lease_expires_at job)" "j_lease_token job < st_next_token (sb_state b)"
    "holds_token (j_state job) \<longleftrightarrow> j_lease_token job \<noteq> 0" "j_attempts job \<le> j_max_attempts job"
proof -
  obtain v r1 where e1: "r_varint r = (v, r1)" by fastforce
  obtain q r2 where e2: "r_varint r1 = (q, r2)" by fastforce
  obtain payload r3 where e3: "r_bytes r2 = (payload, r3)" by fastforce
  obtain priority r4 where e4: "r_svarint r3 = (priority, r4)" by fastforce
  obtain attempts r5 where e5: "r_varint r4 = (attempts, r5)" by fastforce
  obtain max_attempts r6 where e6: "r_varint r5 = (max_attempts, r6)" by fastforce
  obtain backoff_base r7 where e7: "r_varint r6 = (backoff_base, r7)" by fastforce
  obtain backoff_cap r8 where e8: "r_varint r7 = (backoff_cap, r8)" by fastforce
  obtain p r9 where e9: "r_u8 r8 = (p, r9)" by fastforce
  obtain run_at r10 where e10: "r_svarint r9 = (run_at, r10)" by fastforce
  obtain created_at r11 where e11: "r_svarint r10 = (created_at, r11)" by fastforce
  obtain finished_at r12 where e12: "r_svarint r11 = (finished_at, r12)" by fastforce
  obtain lease_at r13 where e13: "r_svarint r12 = (lease_at, r13)" by fastforce
  obtain token r14 where e14: "r_varint r13 = (token, r14)" by fastforce
  obtain key r15 where e15: "r_bytes r14 = (key, r15)" by fastforce
  obtain err r16 where e16: "r_bytes r15 = (err, r16)" by fastforce
  define job where "job = (fresh_job (st_abi (sb_state b)))\<lparr>j_id := v, j_queue := sb_queue_by_index b ! unat q,
    j_payload := payload, j_priority := priority, j_attempts := ucast attempts,
    j_max_attempts := ucast max_attempts, j_backoff_base_ms := ucast backoff_base,
    j_backoff_cap_ms := ucast backoff_cap, j_state := from_persisted (byte_persisted p),
    j_run_at := run_at, j_created_at := created_at, j_finished_at := finished_at,
    j_lease_expires_at := lease_at, j_lease_token := token, j_idem_key := key,
    j_idem_key_capacity := abi_fresh_capacity (st_abi (sb_state b)) (length key), j_last_error := err,
    j_last_error_capacity := abi_fresh_capacity (st_abi (sb_state b)) (length err)\<rparr>"
  have unfolded: "(if \<not> rok r2 \<or> v = 0 \<or> v \<ge> st_next_job_id (sb_state b) then corrupt_image ''bad job id''
      else if unat q \<ge> length (sb_queue_by_index b) then corrupt_image ''job refers to an unknown queue''
      else if st_jobs (sb_state b) v \<noteq> None then corrupt_image ''duplicate job id''
      else if priority < - (2 ^ 31) \<or> priority > 2 ^ 31 - 1 \<or> attempts > 0xFFFFFFFF \<or> max_attempts > 0xFFFFFFFF \<or>
           backoff_base > 0xFFFFFFFF \<or> backoff_cap > 0xFFFFFFFF \<or> p > 4
        then corrupt_image ''job field out of range''
      else if \<not> rok r16 then corrupt_image ''truncated job''
      else if \<not> time_in_range run_at \<or> \<not> time_in_range created_at \<or> \<not> time_in_range finished_at \<or>
            \<not> time_in_range lease_at then corrupt_image ''job timestamp out of range''
      else if j_lease_token job \<ge> st_next_token (sb_state b) then corrupt_image ''bad lease token''
      else if holds_token (j_state job) \<noteq> (j_lease_token job \<noteq> 0)
          then corrupt_image ''lease token does not match job state''
      else if j_attempts job > j_max_attempts job then corrupt_image ''job has more attempts than allowed''
      else Inr (b\<lparr>sb_state := install_job v job (sb_state b), sb_jobs_added := sb_jobs_added b + 1\<rparr>, r16)) = Inr (b', r')"
    using assms unfolding add_job_entry_def by (simp only: Let_def e1 e2 e3 e4 e5 e6 e7 e8 e9 e10 e11 e12 e13 e14 e15 e16 prod.case job_def)
  have "j_state job \<noteq> kReady" by (cases "byte_persisted p") (simp_all add: job_def)
  moreover have fields: "j_id job = v" "j_heap_index job = kNotInHeap" "j_timer job = no_timer" "j_priority job = priority"
    "j_queue job = sb_queue_by_index b ! unat q" "j_run_at job = run_at" "j_created_at job = created_at"
    "j_finished_at job = finished_at" "j_lease_expires_at job = lease_at" by (simp_all add: job_def fresh_job_def)
  ultimately show thesis using unfolded
    by (intro that [of v job]) (auto simp: corrupt_image_def in_i32_def not_le not_less fields split: if_splits)
qed

lemma st_queues_install_job: "fst ` set (st_queues (install_job i job st)) = fst ` set (st_queues st)"
  by (auto simp: install_job_def Let_def simp flip: dom_map_of_conv_image_fst split: if_splits)

lemma install_job_fields:
  "st_jobs (install_job i job st) = (st_jobs st)(i \<mapsto> job)" "st_replaying (install_job i job st) = st_replaying st"
  "st_next_job_id (install_job i job st) = st_next_job_id st" "st_idem_order (install_job i job st) = st_idem_order st"
  by (simp_all add: install_job_def Let_def write_queue_def)

lemma accepts_job:
  assumes b: "accepts b" and room: "card (dom (st_jobs (sb_state b))) < kNil" and ok: "add_job_entry b r = Inr (b', r')"
  shows "accepts b' \<and> card (dom (st_jobs (sb_state b'))) = Suc (card (dom (st_jobs (sb_state b))))"
  using ok
proof (rule add_job_entryE)
  fix i job
  let ?st = "sb_state b"
  assume b': "b' = b\<lparr>sb_state := install_job i job ?st, sb_jobs_added := sb_jobs_added b + 1\<rparr>"
    and new: "st_jobs ?st i = None" and i: "i \<noteq> 0" "i < st_next_job_id ?st"
    and job: "j_id job = i" "j_heap_index job = kNotInHeap" "j_timer job = no_timer" "j_state job \<noteq> kReady"
      "j_queue job \<in> set (sb_queue_by_index b)" "in_i32 (j_priority job)" "time_in_range (j_run_at job)"
      "time_in_range (j_created_at job)" "time_in_range (j_finished_at job)" "time_in_range (j_lease_expires_at job)"
      "j_lease_token job < st_next_token ?st" "holds_token (j_state job) \<longleftrightarrow> j_lease_token job \<noteq> 0" "j_attempts job \<le> j_max_attempts job"
  have g: "good ?st {} {} (unattempted ?st)" and rep: "st_replaying ?st" and ty: "state_typed ?st"
    and names: "set (sb_queue_by_index b) \<subseteq> fst ` set (st_queues ?st)" using b by (simp_all add: accepts_def)
  have q: "j_queue job \<in> fst ` set (st_queues ?st)" using job(5) names by blast
  have E: "unattempted ?st \<subseteq> unattempted (install_job i job ?st)" using new by (auto simp: unattempted_def install_job_fields)
  have "good (install_job i job ?st) {} {} (unattempted (install_job i job ?st))"
    by (rule good_install_job [OF g rep new _ room job(1-4) _ E])
      (use q i job in \<open>auto simp: dom_map_of_conv_image_fst dur_job_def unattempted_def install_job_fields\<close>)
  moreover have "state_typed (install_job i job ?st)"
    using ty job i q by (auto simp: state_typed_def install_job_fields st_queues_install_job job_typed_def)
  moreover have "finite (dom (st_jobs ?st))" using g by (simp add: good_def base_def)
  ultimately show ?thesis
    using rep names new b' by (auto simp: accepts_def install_job_fields st_queues_install_job domIff)
qed

lemma accepts_jobs:
  "add_job_entries n b r = Inr (b', r') \<Longrightarrow> accepts b \<Longrightarrow> card (dom (st_jobs (sb_state b))) + n \<le> kNil \<Longrightarrow> accepts b'"
proof (induction n arbitrary: b r)
  case (Suc n)
  from Suc.prems(1) obtain b1 r1 where b1: "add_job_entry b r = Inr (b1, r1)" "add_job_entries n b1 r1 = Inr (b', r')"
    by (auto split: sum.splits)
  have "accepts b1 \<and> card (dom (st_jobs (sb_state b1))) = Suc (card (dom (st_jobs (sb_state b))))"
    using accepts_job [OF Suc.prems(2) _ b1(1)] Suc.prems(3) by simp
  then show ?case using Suc.IH [OF b1(2)] Suc.prems(3) by simp
qed simp

lemma accepts_idem: "add_idem_entries n b r = Inr (b', r') \<Longrightarrow> accepts b \<Longrightarrow> accepts b'"
proof (induction n arbitrary: b r)
  case (Suc n)
  from Suc.prems(1) obtain key i t r1 where ok: "key \<noteq> []" "time_in_range t" "find_idem key (sb_state b) = None"
    and rest: "add_idem_entries n (b\<lparr>sb_state := upsert_idem key i t (sb_state b), sb_idem_added := sb_idem_added b + 1\<rparr>) r1 = Inr (b', r')"
    by (auto simp: Let_def corrupt_image_def split: prod.splits if_splits)
  let ?st = "upsert_idem key i t (sb_state b)"
  have "st_idem_order ?st = st_idem_order (sb_state b) @ [\<lparr>ie_key = key,
      ie_key_capacity = abi_fresh_capacity (st_abi (sb_state b)) (length key), ie_job_id = i, ie_expires_at = t\<rparr>]"
    using ok(3) by (simp add: upsert_idem_def Let_def find_idem_def)
  then have "state_typed ?st" using Suc.prems(2) ok by (simp add: accepts_def state_typed_def)
  moreover have "good (sb_state b) {} {} (unattempted (sb_state b))" using Suc.prems(2) by (simp add: accepts_def)
  then have "good ?st {} {} (unattempted ?st)" using base_upsert_idem by (simp add: good_def idx_inv_def unattempted_def)
  ultimately have "accepts (b\<lparr>sb_state := ?st, sb_idem_added := sb_idem_added b + 1\<rparr>)"
    using Suc.prems(2) by (simp add: accepts_def)
  then show ?case by (rule Suc.IH [OF rest])
qed simp

section \<open>Deserialization\<close>

lemma r_varint_from_shrinks: "length (rin (snd (r_varint_from shift acc r))) \<le> length (rin r)"
proof (induction shift acc r rule: r_varint_from.induct)
  case (1 shift acc r)
  then show ?case
    by (subst r_varint_from.simps) (fastforce simp: Let_def remove_prefix_def)
qed

lemma r_bytes_shrinks: "r_bytes r = (v, r') \<Longrightarrow> length v + length (rin r') \<le> length (rin r)"
  using r_varint_from_shrinks [of 0 0 r]
  by (auto simp: r_bytes_def r_varint_def r_raw_def need_def remove_prefix_def split: prod.splits if_splits)

lemma r_u8_shrinks: "r_u8 r = (v, r') \<Longrightarrow> length (rin r') \<le> length (rin r)"
  by (auto simp: r_u8_def remove_prefix_def split: if_splits)

lemma add_metaE:
  assumes "add_meta piece b = Inr b'"
  obtains n t count r r' b1 where "n \<noteq> 0" "t \<noteq> 0" "b' = b1\<lparr>sb_have_meta := True\<rparr>"
    "add_queues count (b\<lparr>sb_state := (sb_state b)\<lparr>st_next_job_id := n, st_next_token := t\<rparr>\<rparr>) r = Inr (b1, r')"
  using assms that by (auto simp: add_meta_def Let_def corrupt_image_def split: prod.splits if_splits sum.splits)

lemma add_jobsE:
  assumes "add_jobs piece b = Inr b'"
  obtains n r r' where "n \<le> length piece" "add_job_entries n b r = Inr (b', r')"
proof -
  obtain v r1 where 1: "r_u8 (mk_reader piece) = (v, r1)" by fastforce
  obtain count r2 where 2: "r_varint r1 = (count, r2)" by fastforce
  from assms 1 2 obtain r' where *: "unat count \<le> remaining r2" "add_job_entries (unat count) b r2 = Inr (b', r')"
    by (auto simp: add_jobs_def Let_def corrupt_image_def not_less split: if_splits sum.splits)
  have "length (rin r2) \<le> length piece"
    using r_u8_shrinks [OF 1] r_varint_from_shrinks [of 0 0 r1] 2 by (simp add: r_varint_def mk_reader_def)
  then show thesis using that [of "unat count" r2 r'] * by (simp add: remaining_def)
qed

lemma add_idemE:
  assumes "add_idem piece b = Inr b'"
  obtains n r r' where "add_idem_entries n b r = Inr (b', r')"
  using assms that by (auto simp: add_idem_def Let_def corrupt_image_def split: prod.splits if_splits sum.splits)

lemma deserializeE:
  assumes "deserialize abi data opts = Inr st"
  obtains meta jobs idem b1 b2 b3 where "length jobs \<le> length data" "add_meta meta (mk_builder abi opts) = Inr b1"
    "add_jobs jobs b1 = Inr b2" "add_idem idem b2 = Inr b3" "builder_finish b3 = Inr st"
proof -
  obtain v r1 where 1: "r_u8 (mk_reader data) = (v, r1)" by fastforce
  obtain meta r2 where 2: "r_bytes r1 = (meta, r2)" by fastforce
  obtain jobs r3 where 3: "r_bytes r2 = (jobs, r3)" by fastforce
  obtain idem r4 where 4: "r_bytes r3 = (idem, r4)" by fastforce
  have "length jobs \<le> length data"
    using r_u8_shrinks [OF 1] r_bytes_shrinks [OF 2] r_bytes_shrinks [OF 3] by (simp add: mk_reader_def)
  then show thesis
    using assms that 1 2 3 4
    by (auto simp: deserialize_def Let_def corrupt_state_def assign_or_return_def split: if_splits sum.splits)
qed

lemma accepts_start:
  assumes "n \<noteq> 0" and "t \<noteq> 0"
  shows "accepts ((mk_builder abi opts)\<lparr>sb_state := (sb_state (mk_builder abi opts))\<lparr>st_next_job_id := n, st_next_token := t\<rparr>\<rparr>)"
proof -
  have "0 < t" using assms(2) by (simp add: word_neq_0_conv)
  then show ?thesis
    using builder_start [where abi = abi and opts = opts and n = n] assms(1)
    by (simp add: accepts_def mk_builder_def state_inv_def state_typed_def unattempted_def) (simp add: mk_state_def)
qed

lemma deserialize_accepts:
  assumes "deserialize abi data opts = Inr st" and "length data \<le> kNil"
  shows "good st {} {} (unattempted st)" and "st_replaying st" and "state_typed st"
proof -
  obtain meta jobs idem b1 b2 b3 where p: "length jobs \<le> length data" "add_meta meta (mk_builder abi opts) = Inr b1"
    "add_jobs jobs b1 = Inr b2" "add_idem idem b2 = Inr b3" "builder_finish b3 = Inr st"
    using deserializeE [OF assms(1)] by metis
  have 1: "accepts b1" "st_jobs (sb_state b1) = Map.empty"
  proof -
    from add_metaE [OF p(2)] obtain n t count r r' b where b: "n \<noteq> 0" "t \<noteq> 0" "b1 = b\<lparr>sb_have_meta := True\<rparr>"
      "add_queues count ((mk_builder abi opts)\<lparr>sb_state := (sb_state (mk_builder abi opts))\<lparr>st_next_job_id := n, st_next_token := t\<rparr>\<rparr>) r = Inr (b, r')"
      by metis
    from accepts_queues [OF b(4) accepts_start [OF b(1,2)]] b(3) show "accepts b1" "st_jobs (sb_state b1) = Map.empty"
      by (simp_all add: accepts_def mk_builder_def mk_state_def)
  qed
  obtain n r r' where "n \<le> length jobs" "add_job_entries n b1 r = Inr (b2, r')" using add_jobsE [OF p(3)] by metis
  then have "accepts b2" using accepts_jobs [OF _ 1(1)] 1(2) p(1) assms(2) by simp
  moreover obtain n r r' where "add_idem_entries n b2 r = Inr (b3, r')" using add_idemE [OF p(4)] by metis
  ultimately have 3: "accepts b3" using accepts_idem by blast
  have st: "st = (sb_state b3)\<lparr>st_idem_order := sort_key ie_expires_at (st_idem_order (sb_state b3))\<rparr>"
    using p(5) by (simp add: builder_finish_def corrupt_image_def split: if_splits)
  show "good st {} {} (unattempted st)" using 3 good_sort_idem by (simp add: accepts_def st unattempted_def)
  show "st_replaying st" "state_typed st" using 3 by (simp_all add: accepts_def st state_typed_def)
qed

section \<open>Properties\<close>

text \<open>
  C17 (accepted images are well typed). Whatever bytes it is given, \<open>deserialize\<close> either reports an error or
  answers a state in replay mode in which every job refers to a queue of the state, every priority and time is in the
  range of its type, names and keys are not empty, and all indexes, counters, tokens and the memory estimate are
  consistent; only a leased job without an attempt is let through.
\<close>

theorem image_accepts_typed:
  assumes "deserialize abi data opts = Inr st" and "length data \<le> kNil"
  shows "state_typed st \<and> st_replaying st \<and> good st {} {} (unattempted st) \<and> (unattempted st = {} \<longrightarrow> state_inv st)"
  using deserialize_accepts [OF assms] by (auto simp: state_inv_def)

theorem image_accepts_typed_witness:
  "\<exists>st. deserialize sample_abi (the (serialize [1] image_state)) (st_options image_state) = Inr st \<and> state_typed st"
proof -
  obtain data where data: "serialize [1] image_state = Some data"
    using serialize_eq [OF image_state_inv image_state_dom] by simp
  have "length data < 100" using image_state_size data by simp
  moreover obtain st where "deserialize sample_abi data (st_options image_state) = Inr st"
    using deserialize_serialize [OF image_state_inv image_state_storable _ image_state_dom data] calculation
    by (auto simp: size_ok_def)
  moreover have "length data \<le> kNil" using calculation(1) by (simp add: kNil_def)
  ultimately show ?thesis using image_accepts_typed data by fastforce
qed

end
