(* ===== verification/LeaseModel.thy ===== *)
theory LeaseModel
  imports EngineProps ImageProps
begin

text \<open>
  \<^verbatim>\<open>check/lease_model.h\<close> and \<^verbatim>\<open>check/lease_model.cpp\<close>: the independent model of the lease rules that checks a
  log after the fact. The records of every run of the engine satisfy it.
\<close>

section \<open>The model\<close>

record Lease =
  ls_token :: LeaseToken
  ls_expires_at :: WallTime

record Counters =
  lc_enqueued :: u64
  lc_leases_granted :: u64
  lc_heartbeats :: u64
  lc_acks :: u64
  lc_worker_failures :: u64
  lc_lease_expiries :: u64
  lc_cancellations :: u64

record LeaseModel =
  lm_lsn :: Lsn
  lm_next_job_id :: JobId
  lm_max_token :: LeaseToken
  lm_leases :: "JobId \<rightharpoonup> Lease"
  lm_violations :: "bytes list"
  lm_violation_count :: u64
  lm_counters :: Counters

definition mk_lease_model :: LeaseModel where
  "mk_lease_model = \<lparr>lm_lsn = 0, lm_next_job_id = 1, lm_max_token = 0, lm_leases = Map.empty, lm_violations = [],
     lm_violation_count = 0, lm_counters = \<lparr>lc_enqueued = 0, lc_leases_granted = 0, lc_heartbeats = 0, lc_acks = 0,
       lc_worker_failures = 0, lc_lease_expiries = 0, lc_cancellations = 0\<rparr>\<rparr>"

fun add_leases :: "JobImage list \<Rightarrow> (JobId \<rightharpoonup> Lease) \<Rightarrow> JobId \<rightharpoonup> Lease" where
  "add_leases [] ls = ls"
| "add_leases (job # jobs) ls = add_leases jobs
     (if ji_state job = pLeased
      then ls(ji_id job \<mapsto> \<lparr>ls_token = ji_lease_token job, ls_expires_at = ji_lease_expires_at job\<rparr>) else ls)"

definition start_from :: "StateImage \<Rightarrow> LeaseModel \<Rightarrow> LeaseModel" where
  "start_from img m = m\<lparr>lm_next_job_id := im_next_job_id img, lm_max_token := im_next_token img - 1,
     lm_leases := add_leases (im_jobs img) Map.empty\<rparr>"

definition kMaxReported :: nat where
  "kMaxReported = 50"

definition violation :: "fmt_arg list \<Rightarrow> LeaseModel \<Rightarrow> LeaseModel" where
  "violation what m = m\<lparr>lm_violation_count := lm_violation_count m + 1,
     lm_violations := (if length (lm_violations m) < kMaxReported
       then lm_violations m @ [fmt ([FS ''LSN '', FU (unat (lm_lsn m)), FS '': ''] @ what)] else lm_violations m)\<rparr>"

definition current :: "JobId \<Rightarrow> LeaseToken \<Rightarrow> string \<Rightarrow> LeaseModel \<Rightarrow> Lease option \<times> LeaseModel" where
  "current i token what m =
     (case lm_leases m i of
        None \<Rightarrow> (None, violation [FS what, FS '' for job '', FU (unat i), FS '' with token '', FU (unat token),
                        FS '', but the job has no current lease''] m)
      | Some lease \<Rightarrow>
          if ls_token lease \<noteq> token
          then (None, violation [FS what, FS '' for job '', FU (unat i), FS '' with stale token '', FU (unat token),
                        FS '' was accepted; the current token is '', FU (unat (ls_token lease))] m)
          else (Some lease, m))"

definition erase_lease :: "JobId \<Rightarrow> LeaseModel \<Rightarrow> LeaseModel" where
  "erase_lease i m = m\<lparr>lm_leases := (lm_leases m)(i := None)\<rparr>"

definition count :: "(Counters \<Rightarrow> Counters) \<Rightarrow> LeaseModel \<Rightarrow> LeaseModel" where
  "count f m = m\<lparr>lm_counters := f (lm_counters m)\<rparr>"

definition check_JobEnqueued :: "JobEnqueued \<Rightarrow> LeaseModel \<Rightarrow> LeaseModel" where
  "check_JobEnqueued r m =
     (let m1 = count (\<lambda>c. c\<lparr>lc_enqueued := lc_enqueued c + 1\<rparr>) m;
          m2 = (if je_id r < lm_next_job_id m1 then violation [FS ''job id '', FU (unat (je_id r)), FS '' was used before''] m1 else m1)
      in m2\<lparr>lm_next_job_id := max (lm_next_job_id m2) (je_id r + 1)\<rparr>)"

definition check_JobLeased :: "JobLeased \<Rightarrow> LeaseModel \<Rightarrow> LeaseModel" where
  "check_JobLeased r m =
     (let m1 = count (\<lambda>c. c\<lparr>lc_leases_granted := lc_leases_granted c + 1\<rparr>) m;
          m2 = (if jl_token r \<le> lm_max_token m1
                then violation [FS ''job '', FU (unat (jl_id r)), FS '' got token '', FU (unat (jl_token r)),
                       FS '', which is not larger than the earlier token '', FU (unat (lm_max_token m1))] m1 else m1);
          m3 = m2\<lparr>lm_max_token := max (lm_max_token m2) (jl_token r)\<rparr>;
          m4 = (case lm_leases m3 (jl_id r) of
                  None \<Rightarrow> m3
                | Some lease \<Rightarrow> violation [FS ''job '', FU (unat (jl_id r)), FS '' was leased with token '', FU (unat (jl_token r)),
                       FS '' while token '', FU (unat (ls_token lease)), FS '' was still current: two valid leases''] m3)
      in m4\<lparr>lm_leases := (lm_leases m4)(jl_id r \<mapsto> \<lparr>ls_token = jl_token r, ls_expires_at = jl_lease_expires_at r\<rparr>)\<rparr>)"

definition check_LeaseExtended :: "LeaseExtended \<Rightarrow> LeaseModel \<Rightarrow> LeaseModel" where
  "check_LeaseExtended r m =
     (case current (le_id r) (le_token r) ''heartbeat'' (count (\<lambda>c. c\<lparr>lc_heartbeats := lc_heartbeats c + 1\<rparr>) m) of
        (None, m1) \<Rightarrow> m1
      | (Some lease, m1) \<Rightarrow>
          m1\<lparr>lm_leases := (lm_leases m1)(le_id r \<mapsto> lease\<lparr>ls_expires_at := le_lease_expires_at r\<rparr>)\<rparr>)"

definition check_JobSucceeded :: "JobSucceeded \<Rightarrow> LeaseModel \<Rightarrow> LeaseModel" where
  "check_JobSucceeded r m =
     (let (_, m1) = current (js_id r) (js_token r) ''ack'' (count (\<lambda>c. c\<lparr>lc_acks := lc_acks c + 1\<rparr>) m)
      in erase_lease (js_id r) m1)"

definition check_AttemptFailed :: "AttemptFailed \<Rightarrow> LeaseModel \<Rightarrow> LeaseModel" where
  "check_AttemptFailed r m =
     (let expired = (af_reason r = kLeaseExpired);
          m1 = count (\<lambda>c. if expired then c\<lparr>lc_lease_expiries := lc_lease_expiries c + 1\<rparr>
                          else c\<lparr>lc_worker_failures := lc_worker_failures c + 1\<rparr>) m;
          (lease, m2) = current (af_id r) (af_token r) (if expired then ''lease expiry'' else ''failure'') m1;
          m3 = (case lease of
                  None \<Rightarrow> m2
                | Some l \<Rightarrow> if expired \<and> af_at r < ls_expires_at l
                    then violation [FS ''the lease of job '', FU (unat (af_id r)), FS '' (token '', FU (unat (af_token r)),
                           FS '') was expired at '', FI (af_at r), FS '' ms, before its recorded expiry at '',
                           FI (ls_expires_at l), FS '' ms''] m2
                    else m2)
      in erase_lease (af_id r) m3)"

definition check_JobCancelled :: "JobCancelled \<Rightarrow> LeaseModel \<Rightarrow> LeaseModel" where
  "check_JobCancelled r m =
     erase_lease (jc_id r) (count (\<lambda>c. c\<lparr>lc_cancellations := lc_cancellations c + 1\<rparr>) m)"

definition check_DeadJobRetried :: "DeadJobRetried \<Rightarrow> LeaseModel \<Rightarrow> LeaseModel" where
  "check_DeadJobRetried r m =
     (if lm_leases m (dr_id r) \<noteq> None
      then violation [FS ''dead job '', FU (unat (dr_id r)), FS '' was retried while it had a lease''] m else m)"

definition check_JobsPurged :: "JobsPurged \<Rightarrow> LeaseModel \<Rightarrow> LeaseModel" where
  "check_JobsPurged r m = fold (\<lambda>i m. if lm_leases m i \<noteq> None
     then violation [FS ''job '', FU (unat i), FS '' was purged while leased''] m else m) (jp_ids r) m"

fun check_record :: "Record \<Rightarrow> LeaseModel \<Rightarrow> LeaseModel" where
  "check_record (RJobEnqueued r) m = check_JobEnqueued r m"
| "check_record (RJobLeased r) m = check_JobLeased r m"
| "check_record (RLeaseExtended r) m = check_LeaseExtended r m"
| "check_record (RJobSucceeded r) m = check_JobSucceeded r m"
| "check_record (RAttemptFailed r) m = check_AttemptFailed r m"
| "check_record (RJobCancelled r) m = check_JobCancelled r m"
| "check_record (RDeadJobRetried r) m = check_DeadJobRetried r m"
| "check_record (RJobsPurged r) m = check_JobsPurged r m"

definition on_record :: "Lsn \<Rightarrow> Record \<Rightarrow> LeaseModel \<Rightarrow> LeaseModel" where
  "on_record lsn r m = check_record r (m\<lparr>lm_lsn := lsn\<rparr>)"

fun on_records :: "(Lsn \<times> Record) list \<Rightarrow> LeaseModel \<Rightarrow> LeaseModel" where
  "on_records [] m = m"
| "on_records ((lsn, r) # rs) m = on_records rs (on_record lsn r m)"

section \<open>The model follows the durable state\<close>

definition job_lease :: "Job \<Rightarrow> Lease option" where
  "job_lease j = (if j_state j = kLeased then Some \<lparr>ls_token = j_lease_token j, ls_expires_at = j_lease_expires_at j\<rparr> else None)"

definition tracks :: "LeaseModel \<Rightarrow> Durable \<Rightarrow> bool" where
  "tracks m d \<longleftrightarrow> lm_next_job_id m = d_next_job_id d \<and> lm_max_token m = d_next_token d - 1 \<and> 0 < d_next_token d \<and>
     (\<forall>i. lm_leases m i = Option.bind (d_jobs d i) job_lease) \<and> (\<forall>i j. d_jobs d i = Some j \<longrightarrow> i < d_next_job_id d)"

text \<open>No violation was added.\<close>

definition clean :: "LeaseModel \<Rightarrow> LeaseModel \<Rightarrow> bool" where
  "clean m m' \<longleftrightarrow> lm_violations m' = lm_violations m \<and> lm_violation_count m' = lm_violation_count m"

lemma job_lease_simps [simp]:
  "j_state j \<noteq> kLeased \<Longrightarrow> job_lease j = None"
  "j_state j = kLeased \<Longrightarrow> job_lease j = Some \<lparr>ls_token = j_lease_token j, ls_expires_at = j_lease_expires_at j\<rparr>"
  by (simp_all add: job_lease_def)

lemma current_tracked:
  assumes "tracks m d" and "leased_to i token d = Some j" and "lm_leases m' = lm_leases m"
  shows "current i token what m' = (Some \<lparr>ls_token = token, ls_expires_at = j_lease_expires_at j\<rparr>, m')"
  using assms leased_toD [OF assms(2)] by (simp add: current_def tracks_def)

lemma tracks_put:
  assumes "tracks m d" and "d_jobs d i \<noteq> None" and "lm_next_job_id m' = lm_next_job_id m" "lm_max_token m' = lm_max_token m"
    and "lm_leases m' = (lm_leases m)(i := job_lease j)" and "d_jobs d' = (d_jobs d)(i \<mapsto> j)"
    and "d_next_job_id d' = d_next_job_id d" "d_next_token d' = d_next_token d"
  shows "tracks m' d'"
  using assms by (auto simp: tracks_def)

lemma tracks_enqueue:
  assumes t: "tracks m d" and s: "spec_enqueue x d = Some d'" and grow: "d_next_job_id d \<le> d_next_job_id d'"
  shows "tracks (on_record lsn (RJobEnqueued x) m) d' \<and> clean m (on_record lsn (RJobEnqueued x) m)"
proof -
  let ?n = "d_next_job_id d"
  have e: "je_id x = ?n" "d_next_job_id d' = ?n + 1" "d_next_token d' = d_next_token d"
    "d_jobs d' = (d_jobs d)(?n \<mapsto> spec_job x)"
    using s by (auto simp: spec_enqueue_def Let_def put_job_def add_total_def split: if_splits option.splits)
  have up: "max ?n (?n + 1) = ?n + 1" using grow e(2) by simp
  have less: "?n < ?n + 1" using grow e(2) by (metis add_cancel_left_right order_le_neq_trans zero_neq_one)
  have new: "d_jobs d ?n = None" using t by (cases "d_jobs d ?n") (auto simp: tracks_def)
  have below: "i < ?n + 1" if "d_jobs d i = Some j" for i j using t less that by (force simp: tracks_def)
  have "job_lease (spec_job x) = None" by (simp add: spec_job_def)
  then show ?thesis
    using t e up less new below
    by (auto simp: tracks_def clean_def on_record_def check_JobEnqueued_def Let_def count_def)
qed

lemma tracks_lease:
  assumes t: "tracks m d" and s: "spec_lease x d = Some d'" and grow: "d_next_token d \<le> d_next_token d'"
  shows "tracks (on_record lsn (RJobLeased x) m) d' \<and> clean m (on_record lsn (RJobLeased x) m)"
proof -
  let ?n = "d_next_token d"
  obtain j where j: "d_jobs d (jl_id x) = Some j" "j_state j = kScheduled" "jl_token x = ?n"
    "d' = (put_job (jl_id x) (j\<lparr>j_state := kLeased, j_attempts := j_attempts j + 1, j_lease_token := ?n,
         j_lease_expires_at := jl_lease_expires_at x\<rparr>) d)\<lparr>d_next_token := ?n + 1\<rparr>"
    using s by (auto simp: spec_lease_def split: option.splits if_splits)
  have n: "0 < ?n" "lm_max_token m = ?n - 1" and free: "lm_leases m (jl_id x) = None" using t j(1,2) by (simp_all add: tracks_def)
  have "unat (?n - 1) = unat ?n - 1" using n(1) by (intro unat_minus_one) auto
  then have "?n - 1 < ?n" using n(1) by (simp add: word_less_nat_alt)
  moreover then have "max (?n - 1) ?n = ?n" by simp
  moreover have "0 < ?n + 1" using grow j(4) n(1) by (auto simp: put_job_def intro: order_less_le_trans)
  ultimately show ?thesis
    using t j n free by (auto simp: tracks_def clean_def on_record_def check_JobLeased_def Let_def count_def put_job_def)
qed

lemma tracks_fail:
  assumes t: "tracks m d" and s: "spec_fail x d = Some d'" and f: "fits (RAttemptFailed x) d"
  shows "tracks (on_record lsn (RAttemptFailed x) m) d' \<and> clean m (on_record lsn (RAttemptFailed x) m)"
proof -
  obtain j where j: "leased_to (af_id x) (af_token x) d = Some j" using s by (auto simp: spec_fail_def)
  note jd = leased_toD [OF j]
  have early: "\<not> (af_reason x = kLeaseExpired \<and> af_at x < j_lease_expires_at j)" using f jd by auto
  obtain j' where d': "d_jobs d' = (d_jobs d)(af_id x \<mapsto> j')" "j_state j' \<noteq> kLeased" "d_next_job_id d' = d_next_job_id d"
      "d_next_token d' = d_next_token d"
    using s j by (auto simp: spec_fail_def Let_def put_job_def add_total_def split: if_splits)
  have cur: "current (af_id x) (af_token x) what m' = (Some \<lparr>ls_token = af_token x, ls_expires_at = j_lease_expires_at j\<rparr>, m')"
    if "lm_leases m' = lm_leases m" for what m' using current_tracked [OF t j that] .
  have eq: "on_record lsn (RAttemptFailed x) m = erase_lease (af_id x) (count (\<lambda>c. if af_reason x = kLeaseExpired
      then c\<lparr>lc_lease_expiries := lc_lease_expiries c + 1\<rparr> else c\<lparr>lc_worker_failures := lc_worker_failures c + 1\<rparr>) (m\<lparr>lm_lsn := lsn\<rparr>))"
    using early by (auto simp: on_record_def check_AttemptFailed_def Let_def cur count_def)
  show ?thesis
    unfolding eq using tracks_put [OF t _ _ _ _ d'(1,3,4)] jd d'(2)
    by (simp add: erase_lease_def count_def clean_def)
qed

lemma tracks_step:
  assumes t: "tracks m d" and s: "spec_step r d = Some d'" and f: "fits r d"
    and grow: "d_next_job_id d \<le> d_next_job_id d'" "d_next_token d \<le> d_next_token d'"
  shows "tracks (on_record lsn r m) d' \<and> clean m (on_record lsn r m)"
proof (cases r)
  case (RJobEnqueued x)
  then show ?thesis using tracks_enqueue [OF t _ grow(1)] s by simp
next
  case (RJobLeased x)
  then show ?thesis using tracks_lease [OF t _ grow(2)] s by simp
next
  case (RLeaseExtended x)
  then obtain j where j: "leased_to (le_id x) (le_token x) d = Some j"
      "d' = put_job (le_id x) (j\<lparr>j_lease_expires_at := le_lease_expires_at x\<rparr>) d"
    using s by (auto simp: spec_extend_def)
  show ?thesis
    using tracks_put [OF t, where i = "le_id x" and j = "j\<lparr>j_lease_expires_at := le_lease_expires_at x\<rparr>"] leased_toD [OF j(1)] current_tracked [OF t j(1)]
    by (simp add: RLeaseExtended on_record_def check_LeaseExtended_def count_def clean_def j(2) put_job_def)
next
  case (RJobSucceeded x)
  then obtain j where j: "leased_to (js_id x) (js_token x) d = Some j"
      "d' = add_total (j_queue j) (\<lambda>t. t\<lparr>qt_succeeded := qt_succeeded t + 1\<rparr>)
        (put_job (js_id x) (j\<lparr>j_state := kSucceeded, j_finished_at := js_at x\<rparr>) d)"
    using s by (auto simp: spec_succeed_def)
  show ?thesis
    using tracks_put [OF t, where i = "js_id x" and j = "j\<lparr>j_state := kSucceeded, j_finished_at := js_at x\<rparr>"] leased_toD [OF j(1)] current_tracked [OF t j(1)]
    by (simp add: RJobSucceeded on_record_def check_JobSucceeded_def count_def clean_def j(2) put_job_def add_total_def erase_lease_def)
next
  case (RAttemptFailed x)
  then show ?thesis using tracks_fail [OF t] s f by simp
next
  case (RJobCancelled x)
  then obtain j where j: "d_jobs d (jc_id x) = Some j"
      "d' = add_total (j_queue j) (\<lambda>t. t\<lparr>qt_cancelled := qt_cancelled t + 1\<rparr>)
         (put_job (jc_id x) (j\<lparr>j_state := kCancelled, j_finished_at := jc_at x, j_lease_token := 0\<rparr>) d)"
    using s by (auto simp: spec_cancel_def split: option.splits if_splits)
  show ?thesis
    using tracks_put [OF t, where i = "jc_id x" and j = "j\<lparr>j_state := kCancelled, j_finished_at := jc_at x, j_lease_token := 0\<rparr>"] j(1)
    by (simp add: RJobCancelled on_record_def check_JobCancelled_def count_def clean_def j(2) put_job_def add_total_def erase_lease_def)
next
  case (RDeadJobRetried x)
  then obtain j where j: "d_jobs d (dr_id x) = Some j" "j_state j = kDead"
      "d' = put_job (dr_id x) (j\<lparr>j_state := kScheduled, j_attempts := 0, j_finished_at := 0, j_run_at := dr_run_at x\<rparr>) d"
    using s by (auto simp: spec_retry_def split: option.splits if_splits)
  have "lm_leases m (dr_id x) = None" using t j by (simp add: tracks_def)
  then show ?thesis
    using tracks_put [OF t, where i = "dr_id x" and
      j = "j\<lparr>j_state := kScheduled, j_attempts := 0, j_finished_at := 0, j_run_at := dr_run_at x\<rparr>"] j(1)
    by (simp add: RDeadJobRetried on_record_def check_DeadJobRetried_def clean_def j(3) put_job_def fun_upd_idem)
next
  case (RJobsPurged x)
  have free: "lm_leases m i = None" if "i \<in> set (jp_ids x)" for i
  proof -
    have "case d_jobs d i of None \<Rightarrow> False | Some j \<Rightarrow> is_terminal (j_state j)"
      using s that RJobsPurged by (simp add: spec_purge_def list_all_iff split: if_splits)
    then obtain j where "d_jobs d i = Some j" "is_terminal (j_state j)" by (cases "d_jobs d i") simp_all
    then show ?thesis using t by (auto simp: tracks_def is_terminal_def)
  qed
  have "fold (\<lambda>i m. if lm_leases m i \<noteq> None then violation (F i) m else m) is m' = m'"
    if "\<forall>i \<in> set is. lm_leases m' i = None" for "is" m' F using that by (induction "is") auto
  from this [of "jp_ids x" "m\<lparr>lm_lsn := lsn\<rparr>"] have "on_record lsn r m = m\<lparr>lm_lsn := lsn\<rparr>"
    using free by (simp add: RJobsPurged on_record_def check_JobsPurged_def)
  moreover have "tracks (m\<lparr>lm_lsn := lsn\<rparr>) d'"
    using t s free RJobsPurged by (auto simp: tracks_def spec_purge_def split: if_splits)
  ultimately show ?thesis by (simp add: clean_def)
qed

section \<open>Runs and snapshots\<close>

lemma on_records_snoc: "on_records (xs @ [(l, r)]) m = on_record l r (on_records xs m)"
  by (induction xs arbitrary: m) auto

lemma tracks_kept: "tracks m d \<Longrightarrow> kept d' d \<Longrightarrow> tracks m d'"
proof -
  assume t: "tracks m d" and k: "kept d' d"
  have "Option.bind (d_jobs d' i) job_lease = Option.bind (d_jobs d i) job_lease" for i
  proof -
    have "d_jobs d' i = d_jobs d i \<or> d_jobs d' i = None \<and> (\<exists>j. d_jobs d i = Some j \<and> is_terminal (j_state j))"
      using k by (simp add: kept_def)
    then show ?thesis by (auto simp: is_terminal_def)
  qed
  moreover have "i < d_next_job_id d" if "d_jobs d' i = Some j" for i j using kept_job [OF k that] t by (simp add: tracks_def)
  ultimately show "tracks m d'" using t kept_counters [OF k] by (auto simp: tracks_def)
qed

lemma trace_tracked:
  "trace env rs en en' \<Longrightarrow> tracks m (durable (en_state en)) \<Longrightarrow> map snd xs = rs \<Longrightarrow>
     tracks (on_records xs m) (durable (en_state en')) \<and> clean m (on_records xs m)"
proof (induction arbitrary: xs rule: trace.induct)
  case (trace_log rs en en1 r en2)
  then obtain ys l where xs: "xs = ys @ [(l, r)]" "map snd ys = rs" by (cases xs rule: rev_cases) auto
  have "tracks (on_records ys m) (durable (en_state en1))" "clean m (on_records ys m)"
    using trace_log.IH [OF trace_log.prems(1) xs(2)] by simp_all
  moreover have "tracks (on_record l r (on_records ys m)) (durable (en_state en2)) \<and> clean (on_records ys m) (on_record l r (on_records ys m))"
    by (rule tracks_step [OF calculation(1)]) (use trace_log.hyps(2) in \<open>simp_all add: logged_def\<close>)
  ultimately show ?case by (simp add: xs(1) on_records_snoc clean_def)
next
  case (trace_quiet rs en en1 en2)
  then show ?case using tracks_kept by (auto simp: quiet_def)
qed (simp add: clean_def)

lemma add_leases_images:
  assumes "set order \<subseteq> dom (st_jobs st)"
  shows "add_leases (map (image_of st) order) ls i =
    (if i \<in> set order \<and> j_state (job_of st i) = kLeased then job_lease (job_of st i) else ls i)"
  using assms
proof (induction order arbitrary: ls)
  case (Cons k order)
  have "to_persisted s = pLeased \<longleftrightarrow> s = kLeased" for s by (cases s) simp_all
  then show ?case using Cons by (auto simp: image_of_def job_image_def job_lease_def)
qed simp

lemma start_from_tracks:
  assumes inv: "state_inv st" and order: "set order = dom (st_jobs st)" and img: "capture_image order st = Some img"
  shows "tracks (start_from img m) (durable st)"
proof -
  have im: "im_jobs img = map (image_of st) order" "im_next_job_id img = st_next_job_id st" "im_next_token img = st_next_token st"
    using img capture_jobs_eq [OF inv, of order] order by (auto simp: capture_image_def)
  have j: "i < st_next_job_id st \<and> job_lease (persist j) = job_lease j" if "st_jobs st i = Some j" for i j
    using inv that by (auto simp: state_inv_def good_def base_def dur_inv_def dur_job_def job_lease_def persist_state)
  have "add_leases (im_jobs img) Map.empty i = Option.bind (d_jobs (durable st) i) job_lease" for i
  proof (cases "st_jobs st i")
    case (Some k)
    then have "i \<in> set order" using order by auto
    then show ?thesis
      using order j [OF Some] Some add_leases_images [of order st Map.empty i] by (simp add: im(1) durable_def job_of_Some)
  qed (use add_leases_images [of order st Map.empty i] order in \<open>auto simp: im(1) durable_def\<close>)
  moreover have "0 < st_next_token st" using inv by (simp add: state_inv_def good_def base_def dur_inv_def)
  ultimately show ?thesis using j by (auto simp: tracks_def start_from_def im durable_def)
qed

section \<open>Properties\<close>

text \<open>
  C5 (the lease model accepts every run). Start the model from the image of the engine's state and let the
  engine run any sequence of operations. The records it appends, fed to the model under whatever LSNs, give no violation:
  tokens grow, no job has two leases, only the current token extends or ends a lease, no lease expires before the
  expiry on record, and no job id is used twice.
\<close>

theorem lease_model_accepts:
  assumes "eng_inv en" and "runs env en ops en'"
    and "set order = dom (st_jobs (en_state en))" and "capture_image order (en_state en) = Some img"
  shows "\<exists>rs. (en_last_lsn en', en_sink en') = append_all env rs (en_last_lsn en, en_sink en) \<and>
    (\<forall>xs. map snd xs = rs \<longrightarrow> lm_violations (on_records xs (start_from img mk_lease_model)) = [] \<and>
      lm_violation_count (on_records xs (start_from img mk_lease_model)) = 0)"
proof -
  obtain rs where rs: "trace env rs en en'" using runs_trace [OF assms(2,1)] by blast
  have "state_inv (en_state en)" using assms(1) by (simp add: eng_inv_def eng_good_def state_inv_def)
  note t = trace_tracked [OF rs start_from_tracks [OF this assms(3,4), of mk_lease_model]]
  have "lm_violations (start_from img mk_lease_model) = []" "lm_violation_count (start_from img mk_lease_model) = 0"
    by (simp_all add: start_from_def mk_lease_model_def)
  then show ?thesis using t trace_sink [OF rs] unfolding clean_def by metis
qed

theorem lease_model_accepts_witness:
  "\<exists>img ops en. capture_image [] (en_state sample_engine) = Some img \<and> ops \<noteq> [] \<and> runs sample_env sample_engine ops en \<and>
     (\<exists>rs. (en_last_lsn en, en_sink en) = append_all sample_env rs (en_last_lsn sample_engine, en_sink sample_engine) \<and>
       (\<forall>xs. map snd xs = rs \<longrightarrow> lm_violations (on_records xs (start_from img mk_lease_model)) = []))"
proof -
  obtain en1 rs en2 where a: "enqueue sample_env sample_request sample_engine = Some (Inr \<lparr>enq_id = 1, enq_created = True\<rparr>, en1)"
      "st_next_token (en_state en1) = 1" "reserve sample_env [str ''mail''] 1000 en1 = Some (Inr (Some rs), en2)"
    using sample_reserved by blast
  have run: "runs sample_env sample_engine [OEnqueue sample_request, OReserve [str ''mail''] 1000] en2"
    using sample_engine_room a by (auto intro!: runs.intros)
  have dom: "set [] = dom (st_jobs (en_state sample_engine))"
    by (simp add: sample_engine_def mk_engine_def set_now_def sample_state_def mk_state_def)
  obtain img where "capture_image [] (en_state sample_engine) = Some img" by (simp add: capture_image_def)
  then show ?thesis using run lease_model_accepts [OF sample_engine_inv run dom] by blast
qed

end
