(* ===== verification/Resp.thy ===== *)
theory Resp
  imports CharConv
begin

text \<open>
  \<^verbatim>\<open>net/resp.h\<close> and \<^verbatim>\<open>net/resp.cpp\<close>: the request parser and the reply writer. A position in the
  input is kept as the number of bytes before it and the input from it on. The views of a request are byte strings; a
  request only exists when the status says so, and neither does an error message.
\<close>

section \<open>Parser state and results\<close>

record RespLimits =
  rl_max_args :: nat
  rl_max_bulk_bytes :: nat
  rl_hard_max_bulk_bytes :: nat
  rl_max_request_bytes :: nat

definition default_resp_limits :: RespLimits where
  "default_resp_limits = \<lparr>rl_max_args = 1024, rl_max_bulk_bytes = 2 ^ 20 + 1024, rl_hard_max_bulk_bytes = 512 * 2 ^ 20,
     rl_max_request_bytes = 2 ^ 20 + 64 * 2 ^ 10\<rparr>"

record RespRequest =
  rr_args :: "bytes list"
  rr_oversized :: bool

datatype RespStatus = kRequest RespRequest | kNeedMore | kError bytes

record RespParser =
  rp_limits :: RespLimits
  rp_discarding :: bool
  rp_discard_args_left :: nat
  rp_discard_bytes_left :: nat

definition mk_parser :: "RespLimits \<Rightarrow> RespParser" where
  "mk_parser limits = \<lparr>rp_limits = limits, rp_discarding = False, rp_discard_args_left = 0, rp_discard_bytes_left = 0\<rparr>"

section \<open>Header lines\<close>

definition kMaxHeaderLine :: nat where
  "kMaxHeaderLine = 32"

datatype HeaderLine = LineOk int nat | LineNeedMore | LineBad

text \<open>The line at the start of \<open>data\<close>, whose marker the caller has checked; its end is an offset.\<close>

definition read_header_line :: "bytes \<Rightarrow> HeaderLine" where
  "read_header_line data =
     (let window = take (kMaxHeaderLine - 1) (tl data);
          text = takeWhile (\<lambda>b. b \<noteq> 13) window;
          cr = length text + 1 in
      if length text = length window then (if length data \<ge> kMaxHeaderLine then LineBad else LineNeedMore)
      else if cr + 1 \<ge> length data then LineNeedMore
      else case from_chars_i64 text of
          None \<Rightarrow> LineBad
        | Some (value, rest) \<Rightarrow> if data ! (cr + 1) \<noteq> 10 \<or> rest \<noteq> [] then LineBad else LineOk value (cr + 2))"

definition hex_digit :: "nat \<Rightarrow> byte" where
  "hex_digit n = (if n < 10 then 48 + of_nat n else 87 + of_nat n)"

text \<open>\<^verbatim>\<open>{:02x}\<close> of a byte.\<close>

definition hex_byte :: "byte \<Rightarrow> bytes" where
  "hex_byte b = [hex_digit (unat b div 16), hex_digit (unat b mod 16)]"

definition expected :: "string \<Rightarrow> byte \<Rightarrow> bytes" where
  "expected what b = fmt [FS ''expected '', FS what, FS '', got byte 0x'', FB (hex_byte b)]"

lemma read_header_line_end: "read_header_line data = LineOk v n \<Longrightarrow> 3 \<le> n \<and> n \<le> length data"
  by (auto simp: read_header_line_def Let_def split: if_splits option.splits)

section \<open>Parsing\<close>

text \<open>Empty and null arrays are skipped: the start of the first real request, its first argument and the count.\<close>

function parse_count :: "nat \<Rightarrow> bytes \<Rightarrow> (RespStatus \<times> nat) + (nat \<times> nat \<times> bytes \<times> int)" where
  "parse_count pos data =
     (if data = [] then Inl (kNeedMore, pos)
      else if hd data \<noteq> 42 then Inl (kError (expected [CHR 0x27, CHR ''*'', CHR 0x27] (hd data)), 0)
      else case read_header_line data of
          LineNeedMore \<Rightarrow> Inl (kNeedMore, pos)
        | LineBad \<Rightarrow> Inl (kError (str ''invalid multibulk length''), 0)
        | LineOk count n \<Rightarrow> if count > 0 then Inr (pos, pos + n, drop n data, count) else parse_count (pos + n) (drop n data))"
  by pat_completeness auto
termination
  by (relation "measure (\<lambda>(pos, data). length data)") (auto dest: read_header_line_end)

declare parse_count.simps [simp del]

text \<open>\<open>parse_discarding\<close>: bytes left of the bulk being skipped, and arguments still to come.\<close>

function parse_discarding :: "RespParser \<Rightarrow> nat \<Rightarrow> bytes \<Rightarrow> RespStatus \<times> nat \<times> RespParser" where
  "parse_discarding p pos data =
     (let taken = min (rp_discard_bytes_left p) (length data);
          pos = pos + taken;
          data = drop taken data;
          p = p\<lparr>rp_discard_bytes_left := rp_discard_bytes_left p - taken\<rparr> in
      if rp_discard_bytes_left p > 0 then (kNeedMore, pos, p)
      else if rp_discard_args_left p = 0
      then (kRequest \<lparr>rr_args = [], rr_oversized = True\<rparr>, pos, p\<lparr>rp_discarding := False\<rparr>)
      else if data = [] then (kNeedMore, pos, p)
      else if hd data \<noteq> 36 then (kError (expected [CHR 0x27, CHR 0x24, CHR 0x27] (hd data)), pos, p)
      else case read_header_line data of
          LineNeedMore \<Rightarrow> (kNeedMore, pos, p)
        | LineBad \<Rightarrow> (kError (str ''invalid bulk length''), pos, p)
        | LineOk value n \<Rightarrow>
            if value < 0 \<or> value > int (rl_hard_max_bulk_bytes (rp_limits p))
            then (kError (str ''invalid bulk length''), pos, p)
            else parse_discarding (p\<lparr>rp_discard_bytes_left := nat value + 2, rp_discard_args_left := rp_discard_args_left p - 1\<rparr>)
                   (pos + n) (drop n data))"
  by pat_completeness auto
termination
  by (relation "measure (\<lambda>(p, pos, data). rp_discard_args_left p)") auto

declare parse_discarding.simps [simp del]

primrec parse_args :: "RespParser \<Rightarrow> nat \<Rightarrow> nat \<Rightarrow> nat \<Rightarrow> bytes \<Rightarrow> bytes list \<Rightarrow> RespStatus \<times> nat \<times> RespParser" where
  "parse_args p start 0 pos data args = (kRequest \<lparr>rr_args = args, rr_oversized = False\<rparr>, pos, p)"
| "parse_args p start (Suc left) pos data args =
     (if data = [] then (kNeedMore, start, p)
      else if hd data \<noteq> 36 then (kError (expected [CHR 0x27, CHR 0x24, CHR 0x27] (hd data)), 0, p)
      else case read_header_line data of
          LineNeedMore \<Rightarrow> (kNeedMore, start, p)
        | LineBad \<Rightarrow> (kError (str ''invalid bulk length''), 0, p)
        | LineOk value n \<Rightarrow>
            if value < 0 \<or> value > int (rl_hard_max_bulk_bytes (rp_limits p)) then (kError (str ''invalid bulk length''), 0, p)
            else
              let len = nat value; body = drop n data in
              if len > rl_max_bulk_bytes (rp_limits p) then
                parse_discarding (p\<lparr>rp_discarding := True, rp_discard_bytes_left := len + 2, rp_discard_args_left := left\<rparr>) (pos + n) body
              else if pos + n + len + 2 - start > rl_max_request_bytes (rp_limits p) then
                (kError (fmt [FS ''request larger than '', FU (rl_max_request_bytes (rp_limits p)), FS '' bytes'']), 0, p)
              else if length body < len + 2 then (kNeedMore, start, p)
              else if body ! len \<noteq> 13 \<or> body ! (len + 1) \<noteq> 10 then (kError (str ''bulk string not terminated''), 0, p)
              else parse_args p start left (pos + n + len + 2) (drop (len + 2) body) (args @ [take len body]))"

definition parse :: "RespParser \<Rightarrow> bytes \<Rightarrow> RespStatus \<times> nat \<times> RespParser" where
  "parse p data =
     (if rp_discarding p then parse_discarding p 0 data
      else case parse_count 0 data of
          Inl (status, consumed) \<Rightarrow> (status, consumed, p)
        | Inr (start, pos, rest, count) \<Rightarrow>
            if count > int (rl_max_args (rp_limits p))
            then (kError (fmt [FS ''too many arguments ('', FI count, FS '' > '', FU (rl_max_args (rp_limits p)), FS '')'']), 0, p)
            else parse_args p start (nat count) pos rest [])"

section \<open>Replies\<close>

definition crlf :: bytes where
  "crlf = [13, 10]"

definition resp_simple :: "bytes \<Rightarrow> bytes" where
  "resp_simple text = 43 # text @ crlf"

definition resp_error :: "bytes \<Rightarrow> bytes \<Rightarrow> bytes" where
  "resp_error code message = 45 # code @ 32 # map (\<lambda>c. if c = 13 \<or> c = 10 then 32 else c) message @ crlf"

definition resp_integer :: "int \<Rightarrow> bytes" where
  "resp_integer value = 58 # int_dec value @ crlf"

definition resp_bulk :: "bytes \<Rightarrow> bytes" where
  "resp_bulk data = 36 # nat_dec (length data) @ crlf @ data @ crlf"

definition resp_array_header :: "nat \<Rightarrow> bytes" where
  "resp_array_header count = 42 # nat_dec count @ crlf"

definition resp_null :: "bool \<Rightarrow> bytes" where
  "resp_null resp3 = (if resp3 then 95 # crlf else [42, 45, 49] @ crlf)"

definition resp_map_header :: "nat \<Rightarrow> bool \<Rightarrow> bytes" where
  "resp_map_header pairs resp3 = (if \<not> resp3 then resp_array_header (2 * pairs) else 37 # nat_dec pairs @ crlf)"

end
