(* ===== verification/RespProps.thy ===== *)
theory RespProps
  imports Resp
begin

text \<open>
  What the request parser promises: a request that a client encodes is read back, and the requests read from a stream do
  not depend on how the stream is cut into reads.
\<close>

section \<open>More input does not change what has been decided\<close>

lemma takeWhile_prefix: "length (takeWhile P xs) < length xs \<Longrightarrow> takeWhile P (xs @ ys) = takeWhile P xs"
  by (induction xs) auto

lemma window_append:
  "take k (t @ e) = take k t @ take (k - length t) e"
  by simp

lemma header_line_more:
  assumes "data \<noteq> []" and "read_header_line data \<noteq> LineNeedMore"
  shows "read_header_line (data @ e) = read_header_line data"
proof -
  obtain m t where d: "data = m # t" using assms(1) by (cases data) auto
  let ?w = "take (kMaxHeaderLine - 1) t" and ?w' = "take (kMaxHeaderLine - 1) (t @ e)"
  have w': "?w' = ?w @ take (kMaxHeaderLine - 1 - length t) e" by simp
  show ?thesis
  proof (cases "length (takeWhile (\<lambda>b. b \<noteq> 13) ?w) = length ?w")
    case True
    then have "length data \<ge> kMaxHeaderLine" using assms(2) by (simp add: d read_header_line_def Let_def split: if_splits)
    then have "?w' = ?w" using d by simp
    then show ?thesis using True assms(2) by (auto simp: d read_header_line_def Let_def)
  next
    case False
    then have less: "length (takeWhile (\<lambda>b. b \<noteq> 13) ?w) < length ?w"
      using length_takeWhile_le [of "\<lambda>b. b \<noteq> 13" ?w] by linarith
    then have t: "takeWhile (\<lambda>b. b \<noteq> 13) ?w' = takeWhile (\<lambda>b. b \<noteq> 13) ?w" unfolding w' by (rule takeWhile_prefix)
    have ne: "length (takeWhile (\<lambda>b. b \<noteq> 13) ?w) \<noteq> length ?w'" unfolding w' length_append using less by linarith
    have "length (takeWhile (\<lambda>b. b \<noteq> 13) ?w) + 2 < length data"
      using assms(2) False by (simp add: d read_header_line_def Let_def split: if_splits)
    then show ?thesis using False ne t by (auto simp: d read_header_line_def Let_def nth_append split: option.split)
  qed
qed

definition shifted :: "nat \<Rightarrow> RespStatus \<times> nat \<times> RespParser \<Rightarrow> RespStatus \<times> nat \<times> RespParser \<Rightarrow> bool" where
  "shifted c o1 o2 \<longleftrightarrow> fst o2 = fst o1 \<and> ((\<forall>m. fst o1 \<noteq> kError m) \<longrightarrow> snd o2 = (c + fst (snd o1), snd (snd o1)))"

section \<open>Counting\<close>

lemma parse_count_shift:
  "parse_count (c + pos) data = (case parse_count pos data of
     Inl (kError m, k) \<Rightarrow> Inl (kError m, k) | Inl (s, k) \<Rightarrow> Inl (s, c + k) | Inr (s, q, r, n) \<Rightarrow> Inr (c + s, c + q, r, n))"
proof (induction pos data rule: parse_count.induct)
  case (1 pos data)
  then show ?case
    by (subst (1 2) parse_count.simps) (auto simp: add.assoc split: HeaderLine.split)
qed

lemma parse_count_request:
  "parse_count pos data = Inr (s, q, r, n) \<Longrightarrow> pos \<le> s \<and> s < q \<and> q + length r = pos + length data \<and> r = drop (q - pos) data \<and>
     parse_count s (drop (s - pos) data) = Inr (s, q, r, n) \<and> parse_count pos (data @ e) = Inr (s, q, r @ e, n)"
proof (induction pos data rule: parse_count.induct)
  case (1 pos data)
  have ne: "data \<noteq> []" "hd data = 42" using "1.prems" by (subst (asm) parse_count.simps; simp split: if_splits)+
  obtain v k where h: "read_header_line data = LineOk v k"
    using "1.prems" ne by (subst (asm) parse_count.simps) (auto split: HeaderLine.splits)
  have h': "read_header_line (data @ e) = LineOk v k" using header_line_more [OF ne(1)] h by simp
  note k = read_header_line_end [OF h]
  show ?case
  proof (cases "v > 0")
    case True
    have "s = pos" "q = pos + k" "r = drop k data" "n = v"
      using "1.prems" ne h True by (subst (asm) parse_count.simps; simp)+
    moreover have "parse_count pos (data @ e) = Inr (pos, pos + k, drop k data @ e, v)"
      using ne h' k True by (subst parse_count.simps) simp
    ultimately show ?thesis using "1.prems" k by simp
  next
    case False
    have p: "parse_count pos data = parse_count (pos + k) (drop k data)"
      using ne h False by (subst parse_count.simps) simp
    have p': "parse_count pos (data @ e) = parse_count (pos + k) (drop k data @ e)"
      using ne h' False k by (subst parse_count.simps) simp
    from "1.IH" [OF ne(1) _ h] ne(2) False "1.prems" p show ?thesis
      unfolding p' using k by (auto simp: drop_drop add.commute)
  qed
qed

lemma parse_count_stop:
  "parse_count pos data = Inl (st, c) \<Longrightarrow> (\<exists>m. st = kError m \<and> parse_count pos (data @ e) = Inl (st, c)) \<or>
     (st = kNeedMore \<and> pos \<le> c \<and> c \<le> pos + length data \<and> parse_count pos (data @ e) = parse_count c (drop (c - pos) data @ e))"
proof (induction pos data rule: parse_count.induct)
  case (1 pos data)
  show ?case
  proof (cases "data = [] \<or> hd data \<noteq> 42")
    case True
    then show ?thesis
      using "1.prems" parse_count.simps [of pos "[]"]
      by (cases "data = []") (auto simp: parse_count.simps [of pos data] parse_count.simps [of pos "data @ e"])
  next
    case False
    show ?thesis
    proof (cases "read_header_line data")
      case (LineOk v k)
      have h': "read_header_line (data @ e) = LineOk v k" using header_line_more [of data e] LineOk False by simp
      note k = read_header_line_end [OF LineOk]
      have v: "\<not> v > 0" using "1.prems" False LineOk by (subst (asm) parse_count.simps) (auto split: if_splits)
      have p: "parse_count pos data = parse_count (pos + k) (drop k data)"
        using False LineOk v by (subst parse_count.simps) simp
      have p': "parse_count pos (data @ e) = parse_count (pos + k) (drop k data @ e)"
        using False h' v k by (subst parse_count.simps) simp
      from "1.IH" [OF _ _ LineOk v] False "1.prems" p show ?thesis
        unfolding p' using k by (auto simp: drop_drop add.commute)
    next
      case LineNeedMore
      then show ?thesis using "1.prems" False by (subst (asm) parse_count.simps) simp
    next
      case LineBad
      then show ?thesis using "1.prems" False header_line_more [of data e]
        by (auto simp: parse_count.simps [of pos data] parse_count.simps [of pos "data @ e"])
    qed
  qed
qed

section \<open>Discarding\<close>

lemma parse_discarding_shift:
  "parse_discarding p (c + pos) data = (case parse_discarding p pos data of (s, k, p') \<Rightarrow> (s, c + k, p'))"
proof (induction p pos data rule: parse_discarding.induct)
  case (1 p pos data)
  then show ?case
    by (subst (1 2) parse_discarding.simps) (auto simp: Let_def add.assoc split: HeaderLine.split)
qed

lemma discarding_skip:
  assumes "length d \<le> rp_discard_bytes_left p"
  shows "parse_discarding p pos (d @ e) =
    parse_discarding (p\<lparr>rp_discard_bytes_left := rp_discard_bytes_left p - length d\<rparr>) (pos + length d) e"
proof -
  let ?b = "rp_discard_bytes_left p"
  have "min ?b (length (d @ e)) = length d + min (?b - length d) (length e)" using assms by auto
  then show ?thesis
    by (subst (1 2) parse_discarding.simps) (simp add: Let_def add.assoc split: HeaderLine.split)
qed

lemma discarding_ready:
  assumes "rp_discard_bytes_left p = 0"
  shows "parse_discarding p pos data =
     (if rp_discard_args_left p = 0 then (kRequest \<lparr>rr_args = [], rr_oversized = True\<rparr>, pos, p\<lparr>rp_discarding := False\<rparr>)
      else if data = [] then (kNeedMore, pos, p)
      else if hd data \<noteq> 36 then (kError (expected [CHR 0x27, CHR 0x24, CHR 0x27] (hd data)), pos, p)
      else case read_header_line data of
          LineNeedMore \<Rightarrow> (kNeedMore, pos, p)
        | LineBad \<Rightarrow> (kError (str ''invalid bulk length''), pos, p)
        | LineOk value n \<Rightarrow>
            if value < 0 \<or> value > int (rl_hard_max_bulk_bytes (rp_limits p))
            then (kError (str ''invalid bulk length''), pos, p)
            else parse_discarding (p\<lparr>rp_discard_bytes_left := nat value + 2, rp_discard_args_left := rp_discard_args_left p - 1\<rparr>)
                   (pos + n) (drop n data))"
proof -
  have "p\<lparr>rp_discard_bytes_left := 0\<rparr> = p" using assms by simp
  then show ?thesis using assms by (subst parse_discarding.simps) (simp add: Let_def split: HeaderLine.split)
qed

definition keeps :: "RespStatus \<times> nat \<times> RespParser \<Rightarrow> (bytes \<Rightarrow> RespStatus \<times> nat \<times> RespParser) \<Rightarrow> bytes \<Rightarrow> nat \<Rightarrow> bytes \<Rightarrow> bool \<Rightarrow> bool" where
  "keeps res again data pos e dis \<longleftrightarrow> (case res of (st, c, p') \<Rightarrow> case st of
     kRequest r \<Rightarrow> pos \<le> c \<and> c \<le> pos + length data \<and> \<not> rp_discarding p' \<and> again (data @ e) = res
   | kError m \<Rightarrow> fst (again (data @ e)) = st
   | kNeedMore \<Rightarrow> pos \<le> c \<and> c \<le> pos + length data \<and> rp_discarding p' = dis \<and>
       again (data @ e) = parse_discarding p' c (drop (c - pos) data @ e))"

lemma keeps_later:
  assumes "keeps (again' (drop m d)) again' (drop m d) (pos + m) e dis" and "m \<le> length d"
    and eq: "\<And>y. again (d @ y) = again' (drop m d @ y)"
  shows "keeps (again d) again d pos e dis"
proof -
  obtain st c p' where r: "again' (drop m d) = (st, c, p')" by (cases "again' (drop m d)")
  have d: "again d = (st, c, p')" using eq [of "[]"] r by simp
  have pos: "drop (c - (pos + m)) (drop m d) = drop (c - pos) d" if "pos + m \<le> c" using that by (simp add: drop_drop)
  show ?thesis
    using assms(1,2) pos by (cases st) (auto simp: keeps_def r d eq [of e])
qed

lemma discarding_more: "keeps (parse_discarding p pos d) (parse_discarding p pos) d pos e (rp_discarding p)"
proof (induction "rp_discard_args_left p" arbitrary: p pos d rule: less_induct)
  case less
  let ?b = "rp_discard_bytes_left p"
  show ?case
  proof (cases "?b > length d")
    case True
    then have "parse_discarding p pos d = (kNeedMore, pos + length d, p\<lparr>rp_discard_bytes_left := ?b - length d\<rparr>)"
      by (subst parse_discarding.simps) (simp add: Let_def)
    then show ?thesis using discarding_skip [of d p pos e] True by (simp add: keeps_def)
  next
    case False
    define q where "q = p\<lparr>rp_discard_bytes_left := 0\<rparr>"
    define x where "x = drop ?b d"
    have all: "parse_discarding p pos (d @ y) = parse_discarding q (pos + ?b) (x @ y)" for y
    proof -
      have "d @ y = take ?b d @ (drop ?b d @ y)" by (simp flip: append_assoc)
      then have "parse_discarding p pos (d @ y) = parse_discarding p pos (take ?b d @ (drop ?b d @ y))" by (rule arg_cong)
      then show ?thesis using discarding_skip [of "take ?b d" p pos "drop ?b d @ y"] False by (simp add: q_def x_def)
    qed
    have q: "rp_discard_bytes_left q = 0" "rp_discard_args_left q = rp_discard_args_left p" "rp_discarding q = rp_discarding p"
      by (simp_all add: q_def)
    have "keeps (parse_discarding q (pos + ?b) x) (parse_discarding q (pos + ?b)) x (pos + ?b) e (rp_discarding p)"
    proof (cases "rp_discard_args_left p = 0 \<or> x = [] \<or> hd x \<noteq> 36")
      case True
      then show ?thesis by (auto simp: discarding_ready [OF q(1)] keeps_def q(2,3))
    next
      case False
      show ?thesis
      proof (cases "read_header_line x")
        case (LineOk v n)
        note h = LineOk header_line_more [of x e]
        note n = read_header_line_end [OF LineOk]
        define q' where "q' = q\<lparr>rp_discard_bytes_left := nat v + 2, rp_discard_args_left := rp_discard_args_left q - 1\<rparr>"
        have "keeps (parse_discarding q' (pos + ?b + n) (drop n x)) (parse_discarding q' (pos + ?b + n)) (drop n x) (pos + ?b + n) e (rp_discarding q')"
          by (rule less) (use False q(2) in \<open>simp add: q'_def\<close>)
        moreover have "rp_discarding q' = rp_discarding p" using q(3) by (simp add: q'_def)
        moreover have "parse_discarding q (pos + ?b) (x @ y) =
            (if v < 0 \<or> v > int (rl_hard_max_bulk_bytes (rp_limits q)) then (kError (str ''invalid bulk length''), pos + ?b, q)
             else parse_discarding q' (pos + ?b + n) (drop n x @ y))" for y
          using False header_line_more [of x y] LineOk n q(2) by (simp add: discarding_ready [OF q(1)] q'_def)
        note eq = this
        show ?thesis
        proof (cases "v < 0 \<or> v > int (rl_hard_max_bulk_bytes (rp_limits q))")
          case True
          then show ?thesis using eq [of "[]"] eq [of e] by (simp add: keeps_def)
        next
          case ok: False
          show ?thesis
            by (rule keeps_later [where again' = "parse_discarding q' (pos + ?b + n)" and m = n])
              (use ok calculation n eq in simp_all)
        qed
      next
        case LineNeedMore
        then show ?thesis using False q(2,3) by (simp add: discarding_ready [OF q(1)] keeps_def)
      next
        case LineBad
        then show ?thesis using False q(2) header_line_more [of x e] by (simp add: discarding_ready [OF q(1)] keeps_def)
      qed
    qed
    then have K: "keeps (parse_discarding q (pos + ?b) (drop ?b d)) (parse_discarding q (pos + ?b)) (drop ?b d) (pos + ?b) e (rp_discarding p)"
      by (simp only: x_def)
    have "?b \<le> length d" using False by simp
    from keeps_later [where again = "parse_discarding p pos", OF K this all [unfolded x_def]] show ?thesis .
  qed
qed

section \<open>Arguments\<close>

definition args_keep :: "RespStatus \<times> nat \<times> RespParser \<Rightarrow> (bytes \<Rightarrow> RespStatus \<times> nat \<times> RespParser) \<Rightarrow> bytes \<Rightarrow> nat \<Rightarrow> nat \<Rightarrow>
    RespParser \<Rightarrow> bytes \<Rightarrow> bool" where
  "args_keep res again data pos start p e \<longleftrightarrow> (case res of (st, c, p') \<Rightarrow> case st of
     kRequest r \<Rightarrow> pos \<le> c \<and> c \<le> pos + length data \<and> \<not> rp_discarding p' \<and> again (data @ e) = res
   | kError m \<Rightarrow> fst (again (data @ e)) = st
   | kNeedMore \<Rightarrow> (c = start \<and> p' = p) \<or> (pos \<le> c \<and> c \<le> pos + length data \<and> rp_discarding p' \<and>
       again (data @ e) = parse_discarding p' c (drop (c - pos) data @ e)))"

lemma args_keep_later:
  assumes "args_keep (again' (drop m d)) again' (drop m d) (pos + m) start p e" and "m \<le> length d"
    and eq: "\<And>y. again (d @ y) = again' (drop m d @ y)"
  shows "args_keep (again d) again d pos start p e"
proof -
  obtain st c p' where r: "again' (drop m d) = (st, c, p')" by (cases "again' (drop m d)")
  have d: "again d = (st, c, p')" using eq [of "[]"] r by simp
  have pos: "drop (c - (pos + m)) (drop m d) = drop (c - pos) d" if "pos + m \<le> c" using that by (simp add: drop_drop)
  show ?thesis
    using assms(1,2) pos by (cases st) (auto simp: args_keep_def r d eq [of e])
qed

lemma args_keep_discard:
  assumes "keeps (parse_discarding q (pos + m) (drop m d)) (parse_discarding q (pos + m)) (drop m d) (pos + m) e True" and "m \<le> length d"
    and eq: "\<And>y. again (d @ y) = parse_discarding q (pos + m) (drop m d @ y)"
  shows "args_keep (again d) again d pos start p e"
proof -
  obtain st c p' where r: "parse_discarding q (pos + m) (drop m d) = (st, c, p')" by (cases "parse_discarding q (pos + m) (drop m d)")
  have d: "again d = (st, c, p')" using eq [of "[]"] r by simp
  have pos: "drop (c - (pos + m)) (drop m d) = drop (c - pos) d" if "pos + m \<le> c" using that by (simp add: drop_drop)
  show ?thesis
    using assms(1,2) pos by (cases st) (auto simp: args_keep_def keeps_def r d eq [of e])
qed

lemma parse_args_more:
  "\<not> rp_discarding p \<Longrightarrow> args_keep (parse_args p start n pos d args) (\<lambda>d. parse_args p start n pos d args) d pos start p e"
proof (induction n arbitrary: pos d args)
  case (Suc n)
  let ?f = "\<lambda>d. parse_args p start (Suc n) pos d args"
  show ?case
  proof (cases "d = [] \<or> hd d \<noteq> 36 \<or> read_header_line d = LineNeedMore \<or> read_header_line d = LineBad")
    case True
    then show ?thesis using header_line_more [of d e] by (cases "d = []") (auto simp: args_keep_def)
  next
    case False
    then obtain v k where hd: "read_header_line d = LineOk v k" by (cases "read_header_line d") auto
    have h: "read_header_line (d @ y) = LineOk v k" for y using header_line_more [of d y] hd False by simp
    note k = read_header_line_end [OF hd]
    let ?len = "nat v" and ?body = "drop k d" and ?lim = "rp_limits p"
    have body: "drop k (d @ y) = ?body @ y" for y using k by simp
    have step: "?f (d @ y) = (if v < 0 \<or> v > int (rl_hard_max_bulk_bytes ?lim) then (kError (str ''invalid bulk length''), 0, p)
        else if ?len > rl_max_bulk_bytes ?lim then
          parse_discarding (p\<lparr>rp_discarding := True, rp_discard_bytes_left := ?len + 2, rp_discard_args_left := n\<rparr>) (pos + k) (?body @ y)
        else if pos + k + ?len + 2 - start > rl_max_request_bytes ?lim then
          (kError (fmt [FS ''request larger than '', FU (rl_max_request_bytes ?lim), FS '' bytes'']), 0, p)
        else if length (?body @ y) < ?len + 2 then (kNeedMore, start, p)
        else if (?body @ y) ! ?len \<noteq> 13 \<or> (?body @ y) ! (?len + 1) \<noteq> 10 then (kError (str ''bulk string not terminated''), 0, p)
        else parse_args p start n (pos + k + ?len + 2) (drop (?len + 2) (?body @ y)) (args @ [take ?len (?body @ y)]))" for y
      using False h [of y] by (simp add: Let_def body del: drop_append)
    note step0 = step [of "[]", unfolded append_Nil2]
    consider (stop) "v < 0 \<or> v > int (rl_hard_max_bulk_bytes ?lim) \<or> (\<not> ?len > rl_max_bulk_bytes ?lim \<and>
          pos + k + ?len + 2 - start > rl_max_request_bytes ?lim)"
      | (big) "\<not> (v < 0 \<or> v > int (rl_hard_max_bulk_bytes ?lim))" "?len > rl_max_bulk_bytes ?lim"
      | (bulk) "\<not> (v < 0 \<or> v > int (rl_hard_max_bulk_bytes ?lim))" "\<not> ?len > rl_max_bulk_bytes ?lim"
          "\<not> pos + k + ?len + 2 - start > rl_max_request_bytes ?lim" by blast
    then show ?thesis
    proof cases
      case stop
      then have "\<exists>m. \<forall>y. ?f (d @ y) = (kError m, 0, p)" by (simp only: step) auto
      then obtain m where E: "?f (d @ y) = (kError m, 0, p)" for y by blast
      show ?thesis using E [of "[]"] E [of e] by (simp add: args_keep_def del: parse_args.simps)
    next
      case big
      let ?q = "p\<lparr>rp_discarding := True, rp_discard_bytes_left := ?len + 2, rp_discard_args_left := n\<rparr>"
      show ?thesis
        by (rule args_keep_discard [where q = ?q and m = k and again = ?f])
          (use discarding_more [of ?q "pos + k" ?body e] k big step in \<open>simp_all del: parse_args.simps\<close>)
    next
      case bulk
      show ?thesis
      proof (cases "length ?body < ?len + 2 \<or> ?body ! ?len \<noteq> 13 \<or> ?body ! (?len + 1) \<noteq> 10")
        case short: True
        show ?thesis
        proof (cases "length ?body < ?len + 2")
          case True
          then have "?f d = (kNeedMore, start, p)" using bulk by (simp only: step0 if_False if_True)
          then show ?thesis by (simp add: args_keep_def del: parse_args.simps)
        next
          case False
          then have "?f (d @ y) = (kError (str ''bulk string not terminated''), 0, p)" for y
            using bulk short by (simp only: step if_False) (auto simp: nth_append)
          from this [of "[]"] this [of e] show ?thesis by (simp add: args_keep_def del: parse_args.simps)
        qed
      next
        case good: False
        define m where "m = k + ?len + 2"
        let ?g = "\<lambda>x. parse_args p start n (pos + m) x (args @ [take ?len ?body])"
        have "?f (d @ y) = ?g (drop m d @ y)" for y
          using good bulk unfolding step m_def by (simp add: nth_append add.assoc drop_drop add.commute [of k] del: parse_args.simps)
        moreover have "args_keep (?g (drop m d)) ?g (drop m d) (pos + m) start p e" by (rule Suc.IH [OF Suc.prems])
        moreover have "m \<le> length d" using good k by (auto simp: m_def)
        ultimately show ?thesis by (rule args_keep_later [where again = ?f and again' = ?g and m = m, rotated 2])
      qed
    qed
  qed
qed (simp add: args_keep_def)

lemma parse_args_shift: "shifted c (parse_args p start n pos d args) (parse_args p (c + start) n (c + pos) d args)"
proof (induction n arbitrary: pos d args)
  case (Suc n)
  have diff: "c + pos + k + l + 2 - (c + start) = pos + k + l + 2 - start" for k l :: nat by simp
  have dis: "shifted c (parse_discarding q (pos + k) x) (parse_discarding q (c + pos + k) x)" for q k x
    using parse_discarding_shift [of q c "pos + k" x] by (simp add: shifted_def add.assoc split: prod.split)
  have more: "shifted c (parse_args p start n (pos + k + l + 2) x as) (parse_args p (c + start) n (c + pos + k + l + 2) x as)" for k l x as
    using Suc.IH [of "pos + k + l + 2" x as] by (simp add: add.assoc)
  show ?case
    using dis more diff by (auto simp: shifted_def Let_def split: HeaderLine.split)
qed (simp add: shifted_def)

section \<open>One call\<close>

definition parse_keeps :: "RespParser \<Rightarrow> bytes \<Rightarrow> bytes \<Rightarrow> bool" where
  "parse_keeps p d e \<longleftrightarrow> (case parse p d of (st, c, p') \<Rightarrow> case st of
     kRequest r \<Rightarrow> c \<le> length d \<and> \<not> rp_discarding p' \<and> (0 < c \<or> rp_discarding p) \<and> parse p (d @ e) = parse p d
   | kError m \<Rightarrow> fst (parse p (d @ e)) = st
   | kNeedMore \<Rightarrow> c \<le> length d \<and> shifted c (parse p' (drop c d @ e)) (parse p (d @ e)))"

lemma parse_when_discarding: "rp_discarding p \<Longrightarrow> parse p data = parse_discarding p 0 data"
  by (simp add: parse_def)

lemma parse_keeps_discarding:
  assumes "rp_discarding p"
  shows "parse_keeps p d e"
proof -
  obtain st c p' where r: "parse_discarding p 0 d = (st, c, p')" by (cases "parse_discarding p 0 d")
  have "shifted c (parse_discarding p' 0 x) (parse_discarding p' c x)" for x
    using parse_discarding_shift [of p' c 0 x] by (simp add: shifted_def split: prod.split)
  then show ?thesis
    using discarding_more [of p 0 d e] assms r
    by (cases st) (auto simp: parse_keeps_def keeps_def parse_def)
qed

lemma parse_from_start:
  assumes nd: "\<not> rp_discarding p" and c: "parse_count 0 d = Inr (s, q, rest, n)"
  shows "shifted s (parse p (drop s d @ e)) (parse p (d @ e))"
proof -
  note r = parse_count_request [OF c]
  have s: "s \<le> q" "s < length d" using r [of e] by auto
  have "parse_count s (drop s d @ e) = Inr (s, q, rest @ e, n)"
    using parse_count_request [of s "drop s d" s q rest n e] r [of e] by simp
  then have "parse_count 0 (drop s d @ e) = Inr (0, q - s, rest @ e, n)"
    using parse_count_shift [of s 0 "drop s d @ e"] s by (auto split: sum.splits prod.splits RespStatus.splits)
  moreover have "parse_count 0 (d @ e) = Inr (s, q, rest @ e, n)" using r by simp
  moreover have "shifted s (parse_args p 0 (nat n) (q - s) (rest @ e) []) (parse_args p s (nat n) q (rest @ e) [])"
    using parse_args_shift [of s p 0 "nat n" "q - s" "rest @ e" "[]"] s by simp
  ultimately show ?thesis using nd by (simp add: parse_def) (simp add: shifted_def)
qed

lemma parse_keeps_fresh:
  assumes nd: "\<not> rp_discarding p"
  shows "parse_keeps p d e"
proof (cases "parse_count 0 d")
  case (Inl o1)
  obtain st c where o1: "o1 = (st, c)" by (cases o1)
  from parse_count_stop [OF Inl [unfolded o1], of e] show ?thesis
  proof (elim disjE exE conjE)
    assume "st = kNeedMore" "c \<le> 0 + length d" "parse_count 0 (d @ e) = parse_count c (drop (c - 0) d @ e)"
    moreover have "shifted c (parse p x) (case parse_count c x of Inl (status, consumed) \<Rightarrow> (status, consumed, p)
        | Inr (start, pos, rest, count) \<Rightarrow>
            if count > int (rl_max_args (rp_limits p))
            then (kError (fmt [FS ''too many arguments ('', FI count, FS '' > '', FU (rl_max_args (rp_limits p)), FS '')'']), 0, p)
            else parse_args p start (nat count) pos rest [])" for x
      using parse_count_shift [of c 0 x] parse_args_shift [of c p] nd
      by (auto simp: parse_def shifted_def split: sum.splits prod.splits RespStatus.splits)
    ultimately show ?thesis using nd Inl o1 by (auto simp: parse_keeps_def parse_def [of p "d @ e"] parse_def [of p d])
  next
    fix m assume "st = kError m" "parse_count 0 (d @ e) = Inl (st, c)"
    then show ?thesis using Inl o1 nd by (simp add: parse_keeps_def parse_def)
  qed
next
  case (Inr o2)
  obtain s q rest n where o2: "o2 = (s, q, rest, n)" by (cases o2)
  note c = Inr [unfolded o2]
  note r = parse_count_request [OF c, of e]
  show ?thesis
  proof (cases "n > int (rl_max_args (rp_limits p))")
    case True
    then show ?thesis using r c nd by (simp add: parse_keeps_def parse_def)
  next
    case False
    have d: "parse p d = parse_args p s (nat n) q rest []" "parse p (d @ e) = parse_args p s (nat n) q (rest @ e) []"
      using False r c nd by (simp_all add: parse_def)
    obtain st k p' where o: "parse p d = (st, k, p')" by (cases "parse p d")
    note keep = parse_args_more [OF nd, of s "nat n" q rest "[]" e, folded d, unfolded o]
    have sh: "shifted k (parse_discarding p' 0 x) (parse_discarding p' k x)" for x
      using parse_discarding_shift [of p' k 0 x] by (simp add: shifted_def split: prod.split)
    have rest: "drop (k - q) rest = drop k d" if "q \<le> k" using that r by (simp add: drop_drop)
    show ?thesis
      using keep o r sh rest parse_from_start [OF nd c, of e]
      by (cases st) (auto simp: parse_keeps_def args_keep_def d(2) parse_when_discarding)
  qed
qed

lemma parse_keep: "parse_keeps p d e"
  using parse_keeps_discarding parse_keeps_fresh by blast

section \<open>A whole stream\<close>

text \<open>Every request that is complete, then the rest of the input with the parser that waits for more, or an error.\<close>

function read_requests :: "RespParser \<Rightarrow> bytes \<Rightarrow> RespRequest list \<times> (bytes + RespParser \<times> bytes)" where
  "read_requests p data = (case parse p data of
     (kError m, _, _) \<Rightarrow> ([], Inl m)
   | (kNeedMore, consumed, p') \<Rightarrow> ([], Inr (p', drop consumed data))
   | (kRequest r, consumed, p') \<Rightarrow> (case read_requests p' (drop consumed data) of (rs, final) \<Rightarrow> (r # rs, final)))"
  by pat_completeness auto
termination
proof (relation "measure (\<lambda>(p, data). 2 * length data + (if rp_discarding p then 1 else 0))", goal_cases)
  case (2 p data)
  then show ?case using parse_keep [of p data "[]"] by (auto simp: parse_keeps_def)
qed simp

declare read_requests.simps [simp del]

definition after :: "RespRequest list \<Rightarrow> RespRequest list \<times> 'a \<Rightarrow> RespRequest list \<times> 'a" where
  "after rs x = (rs @ fst x, snd x)"

lemma read_requests_more:
  "read_requests p (d @ e) = (case read_requests p d of
     (rs, Inl m) \<Rightarrow> (rs, Inl m) | (rs, Inr (p', d')) \<Rightarrow> after rs (read_requests p' (d' @ e)))"
proof (induction p d rule: read_requests.induct)
  case (1 p d)
  obtain st c p' where o: "parse p d = (st, c, p')" by (cases "parse p d")
  note keep = parse_keep [of p d e, unfolded parse_keeps_def o prod.case]
  show ?case
  proof (cases st)
    case (kRequest r)
    have "read_requests p' (drop c d @ e) = (case read_requests p' (drop c d) of
        (rs, Inl m) \<Rightarrow> (rs, Inl m) | (rs, Inr (p', d')) \<Rightarrow> after rs (read_requests p' (d' @ e)))"
      by (rule 1) (use o kRequest in auto)
    moreover have "read_requests p d = (case read_requests p' (drop c d) of (rs, final) \<Rightarrow> (r # rs, final))"
      by (subst read_requests.simps) (simp add: o kRequest)
    moreover have "read_requests p (d @ e) = (case read_requests p' (drop c d @ e) of (rs, final) \<Rightarrow> (r # rs, final))"
      using keep kRequest o by (subst read_requests.simps) simp
    ultimately show ?thesis by (auto simp: after_def split: prod.splits sum.splits)
  next
    case kNeedMore
    obtain st2 c2 p2 where o2: "parse p' (drop c d @ e) = (st2, c2, p2)" by (cases "parse p' (drop c d @ e)")
    have "read_requests p d = ([], Inr (p', drop c d))" by (subst read_requests.simps) (simp add: o kNeedMore)
    moreover have "read_requests p (d @ e) = read_requests p' (drop c d @ e)"
      using keep kNeedMore o2 by (subst (1 2) read_requests.simps)
        (auto simp: shifted_def drop_drop add.commute split: RespStatus.splits prod.splits)
    ultimately show ?thesis by (simp add: after_def)
  next
    case (kError m)
    have "read_requests p d = ([], Inl m)" by (subst read_requests.simps) (simp add: o kError)
    moreover have "read_requests p (d @ e) = ([], Inl m)"
      using keep kError by (subst read_requests.simps) (auto split: prod.splits)
    ultimately show ?thesis by simp
  qed
qed

text \<open>The same, with the input arriving in pieces.\<close>

fun read_pieces :: "RespParser \<Rightarrow> bytes \<Rightarrow> bytes list \<Rightarrow> RespRequest list \<times> (bytes + RespParser \<times> bytes)" where
  "read_pieces p buffered [] = ([], Inr (p, buffered))"
| "read_pieces p buffered (piece # pieces) = (case read_requests p (buffered @ piece) of
     (rs, Inl m) \<Rightarrow> (rs, Inl m)
   | (rs, Inr (p', left)) \<Rightarrow> after rs (read_pieces p' left pieces))"

lemma read_pieces_eq:
  assumes "read_requests p buffered = ([], Inr (p, buffered))"
  shows "read_pieces p buffered pieces = read_requests p (buffered @ concat pieces)"
  using assms
proof (induction pieces arbitrary: p buffered)
  case (Cons piece pieces)
  obtain rs final where r: "read_requests p (buffered @ piece) = (rs, final)" by fastforce
  show ?case
  proof (cases final)
    case (Inl m)
    then show ?thesis using r read_requests_more [of p "buffered @ piece" "concat pieces"] by simp
  next
    case (Inr x)
    then obtain p' left where x: "final = Inr (p', left)" by (cases x) auto
    have "read_requests p' left = ([], Inr (p', left))"
      using read_requests_more [of p "buffered @ piece" "[]"] r x by (simp add: after_def) (metis prod.collapse same_append_eq append_Nil2 fst_conv snd_conv)
    from Cons.IH [OF this] show ?thesis
      using r x read_requests_more [of p "buffered @ piece" "concat pieces"] by simp
  qed
qed simp

section \<open>Round trip\<close>

definition encode_request :: "bytes list \<Rightarrow> bytes" where
  "encode_request args = resp_array_header (length args) @ concat (map resp_bulk args)"

lemma header_line_dec:
  assumes "n < 2 ^ 63"
  shows "read_header_line (m # nat_dec n @ crlf @ rest) = LineOk (int n) (length (nat_dec n) + 3)"
proof -
  have len: "length (nat_dec n) \<le> 19" using assms by (intro length_nat_dec) simp_all
  have "\<not> is_digit 13" by (simp add: is_digit_def)
  then have no_cr: "x \<noteq> 13" if "x \<in> set (nat_dec n)" for x using nat_dec_digits that by blast
  have w: "take (kMaxHeaderLine - 1) (nat_dec n @ crlf @ rest) = nat_dec n @ 13 # take (kMaxHeaderLine - 2 - length (nat_dec n)) (10 # rest)"
    using len by (simp add: kMaxHeaderLine_def crlf_def take_Cons')
  have t: "takeWhile (\<lambda>b. b \<noteq> 13) (nat_dec n @ 13 # y) = nat_dec n" for y
    using takeWhile_all [of "nat_dec n" "\<lambda>b. b \<noteq> 13" "13 # y"] no_cr by simp
  have "from_chars_i64 (nat_dec n) = Some (int n, [])"
    using from_chars_i64_dec [of "[]" "int n"] assms by (simp add: int_dec_def)
  then show ?thesis unfolding read_header_line_def Let_def list.sel w t by (simp add: crlf_def nth_append)
qed

lemma drop_header: "drop (length ds + 3) (m # ds @ crlf @ rest) = rest"
proof -
  have "length ds + 3 = length (m # ds @ crlf)" by (simp add: crlf_def)
  moreover have "m # ds @ crlf @ rest = (m # ds @ crlf) @ rest" by simp
  ultimately show ?thesis by (simp only: drop_append) simp
qed

lemma parse_bulk:
  assumes "length x < 2 ^ 63" and "length x \<le> rl_hard_max_bulk_bytes (rp_limits p)" and "length x \<le> rl_max_bulk_bytes (rp_limits p)"
    and "start \<le> pos" and "pos + length (resp_bulk x) - start \<le> rl_max_request_bytes (rp_limits p)"
  shows "parse_args p start (Suc n) pos (resp_bulk x @ rest) args = parse_args p start n (pos + length (resp_bulk x)) rest (args @ [x])"
proof -
  have h: "read_header_line (resp_bulk x @ rest) = LineOk (int (length x)) (length (nat_dec (length x)) + 3)"
    using header_line_dec [OF assms(1), of 36 "x @ crlf @ rest"] by (simp add: resp_bulk_def)
  have b: "drop (length (nat_dec (length x)) + 3) (resp_bulk x @ rest) = x @ crlf @ rest"
    using drop_header [of "nat_dec (length x)" 36 "x @ crlf @ rest"] by (simp add: resp_bulk_def)
  have l: "length (resp_bulk x) = length (nat_dec (length x)) + length x + 5" by (simp add: resp_bulk_def crlf_def)
  have r: "resp_bulk x \<noteq> []" "hd (resp_bulk x @ rest) = 36" by (simp_all add: resp_bulk_def)
  show ?thesis
    using assms(2-5) unfolding parse_args.simps h HeaderLine.case Let_def b
    by (simp add: r l nth_append crlf_def add.commute add.left_commute)
qed

lemma parse_bulks:
  assumes "\<forall>x \<in> set xs. length x < 2 ^ 63 \<and> length x \<le> rl_hard_max_bulk_bytes (rp_limits p) \<and> length x \<le> rl_max_bulk_bytes (rp_limits p)"
    and "start \<le> pos" and "pos + length (concat (map resp_bulk xs)) - start \<le> rl_max_request_bytes (rp_limits p)"
  shows "parse_args p start (length xs) pos (concat (map resp_bulk xs) @ rest) args =
    (kRequest \<lparr>rr_args = args @ xs, rr_oversized = False\<rparr>, pos + length (concat (map resp_bulk xs)), p)"
  using assms
proof (induction xs arbitrary: pos args)
  case (Cons x xs)
  have "parse_args p start (length (x # xs)) pos (concat (map resp_bulk (x # xs)) @ rest) args =
      parse_args p start (length xs) (pos + length (resp_bulk x)) (concat (map resp_bulk xs) @ rest) (args @ [x])"
    using parse_bulk [of x p start pos "length xs" "concat (map resp_bulk xs) @ rest" args] Cons.prems by simp
  then show ?case using Cons.IH [of "pos + length (resp_bulk x)" "args @ [x]"] Cons.prems by (simp add: add.assoc)
qed simp

definition request_fits :: "RespLimits \<Rightarrow> bytes list \<Rightarrow> bool" where
  "request_fits limits args \<longleftrightarrow> args \<noteq> [] \<and> length args \<le> rl_max_args limits \<and> length args < 2 ^ 63 \<and>
     (\<forall>x \<in> set args. length x < 2 ^ 63 \<and> length x \<le> rl_hard_max_bulk_bytes limits \<and> length x \<le> rl_max_bulk_bytes limits) \<and>
     length (encode_request args) \<le> rl_max_request_bytes limits"

lemma parse_encoded:
  assumes "\<not> rp_discarding p" and fits: "request_fits (rp_limits p) args"
  shows "parse p (encode_request args @ rest) = (kRequest \<lparr>rr_args = args, rr_oversized = False\<rparr>, length (encode_request args), p)"
proof -
  let ?b = "concat (map resp_bulk args)" and ?n = "length (nat_dec (length args)) + 3"
  have h: "read_header_line (encode_request args @ rest) = LineOk (int (length args)) ?n"
    using header_line_dec [of "length args" 42 "?b @ rest"] fits by (simp add: encode_request_def resp_array_header_def request_fits_def)
  have b: "drop ?n (encode_request args @ rest) = ?b @ rest" "length (encode_request args) = ?n + length ?b"
    using drop_header [of "nat_dec (length args)" 42 "?b @ rest"]
    by (simp_all add: encode_request_def resp_array_header_def) (simp add: crlf_def)
  have "encode_request args @ rest \<noteq> []" "hd (encode_request args @ rest) = 42" by (simp_all add: encode_request_def resp_array_header_def)
  then have "parse_count 0 (encode_request args @ rest) = Inr (0, ?n, ?b @ rest, int (length args))"
    using h b(1) fits by (subst parse_count.simps) (simp add: request_fits_def)
  then show ?thesis
    using assms parse_bulks [of args p 0 ?n rest "[]"] b(2) by (simp add: parse_def request_fits_def)
qed

lemma read_requests_fresh: "read_requests (mk_parser limits) [] = ([], Inr (mk_parser limits, []))"
  by (subst read_requests.simps) (simp add: mk_parser_def parse_def parse_count.simps)

section \<open>Properties\<close>

text \<open>C38: the RESP parser does not depend on how the kernel cuts the stream into reads. Feeding the pieces
  one after the other, each time keeping the unconsumed bytes and the parser's state as the connection does,
  gives exactly the requests, the protocol error if there is one, and the leftover of parsing the whole stream
  at once; this includes oversized requests that are discarded across several reads.\<close>
theorem resp_incremental:
  "read_pieces (mk_parser limits) [] pieces = read_requests (mk_parser limits) (concat pieces)"
  using read_pieces_eq [OF read_requests_fresh] by simp

text \<open>C39: a request within the limits round trips. The array of bulk strings that encodes the arguments,
  followed by any bytes, parses to exactly those arguments, consumes exactly the encoding and leaves the
  parser as it was.\<close>
theorem resp_round_trip:
  assumes "\<not> rp_discarding p" and "request_fits (rp_limits p) args"
  shows "parse p (encode_request args @ rest) =
    (kRequest \<lparr>rr_args = args, rr_oversized = False\<rparr>, length (encode_request args), p)"
  using parse_encoded [OF assms] .

theorem resp_round_trip_witness:
  "parse (mk_parser default_resp_limits) (encode_request [str ''ACK'', str ''7''] @ [42]) =
    (kRequest \<lparr>rr_args = [str ''ACK'', str ''7''], rr_oversized = False\<rparr>, 20, mk_parser default_resp_limits)"
proof -
  let ?p = "mk_parser default_resp_limits" and ?args = "[str ''ACK'', str ''7'']"
  have n: "nat_dec (Suc 0) = [49]" "nat_dec (Suc (Suc 0)) = [50]" "nat_dec (Suc (Suc (Suc 0))) = [51]" by code_simp+
  have l: "length (encode_request ?args) = 20"
    by (simp add: encode_request_def resp_array_header_def resp_bulk_def crlf_def n str_def)
  then have "request_fits (rp_limits ?p) ?args"
    by (simp add: request_fits_def mk_parser_def default_resp_limits_def str_def)
  then show ?thesis using resp_round_trip [of ?p ?args "[42]"] l by (simp add: mk_parser_def)
qed

end
