(* ===== verification/Spec2Isabelle.thy ===== *)
theory Spec2Isabelle
  imports EngineIdem LogSafe Snapshot ImageAccept LeaseModel RespProps
begin

text \<open>
  A verification library for baton, a durable job queue server written in C++20. Paths below are relative
  to \<^verbatim>\<open>src/src\<close>.

  \<^bold>\<open>The program.\<close> Clients enqueue jobs into named queues; workers reserve them under a lease with
  a fencing token and acknowledge, fail or extend it. The \<^verbatim>\<open>Engine\<close> turns every command into log
  records. \<^verbatim>\<open>State::apply\<close> is the only place that changes the durable state, in live operation and when
  the log is replayed. The state keeps derived indexes: a ready heap per queue, a timing wheel, counters and
  a memory estimate. The \<^verbatim>\<open>LogWriter\<close> appends the records to segment files with group commit. A
  restart loads the newest snapshot, scans the log after it and rebuilds everything derived.

  \<^bold>\<open>Conventions.\<close> Bytes are \<open>8 word\<close>, machine integers whose wrap-around matters are words, and times are
  integers with the code's range checks. \<^verbatim>\<open>Result<T>\<close> is \<open>Error + 'a\<close> with the message. A failed
  \<^verbatim>\<open>BATON_CHECK\<close>, which ends the process, is \<open>None\<close>; theorems say where it cannot happen. \<^verbatim>\<open>std::map\<close> is a
  sorted association list. \<^verbatim>\<open>std::unordered_map\<close> is a map, and the order it is walked in is an argument.
  Clock readings, random draws, the file system, the record sink and processor instructions are parameters.

  \<^bold>\<open>The theories.\<close>
  \<^item> \<open>Prelude\<close>: byte strings, errors, messages, ordered maps. \<open>CharConv\<close>: \<^verbatim>\<open>std::from_chars\<close>.
  \<^item> \<open>Codec\<close> (\<^verbatim>\<open>common/codec.h\<close>): fixed and variable-length integers, the reader with its sticky
    failure flag. The locale \<open>field_codec\<close> is the contract of a field, interpreted on each kind of field.
  \<^item> \<open>Records\<close> (\<^verbatim>\<open>state/records.*\<close>): the eight record types; decoding inverts encoding.
  \<^item> \<open>TimingWheel\<close> (\<^verbatim>\<open>sched/timing_wheel.*\<close>): the slab, its linked lists and every operation.
    \<open>WheelArith\<close> has the slot arithmetic, \<open>WheelLists\<close> the shape of the slab, \<open>WheelSpec\<close> the specification as
    a set of pending timers: firing, cancelling, wake-up times, and that every loop ends.
  \<^item> \<open>Job\<close>, \<open>ReadyHeap\<close> (\<^verbatim>\<open>state/job.h\<close>, \<^verbatim>\<open>state/ready_heap.*\<close>): the indexed heap with positions stored in
    the jobs; its order and the stored positions are kept.
  \<^item> \<open>State\<close> (\<^verbatim>\<open>state/state.*\<close>): every record's \<^verbatim>\<open>apply\<close>, replay, rebuild, timers, garbage collection and
    \<^verbatim>\<open>check_invariants\<close>. \<open>StateIdx\<close>, \<open>StateOps\<close>, \<open>StateInv\<close>, \<open>StateApply\<close> and \<open>StateUpdate\<close> build up the
    invariant \<open>state_inv\<close> and its preservation. \<open>StateCheck\<close> relates it to the code's own check.
    \<open>StateSpec\<close> has the specification \<open>spec_step\<close> on \<open>Durable\<close>, which \<^verbatim>\<open>apply\<close> refines. \<open>StateTimers\<close> and
    \<open>StateRebuild\<close> cover time and replay, \<open>StateProps\<close> states the results. \<open>gc_ok\<close> says that the list of finished
    jobs names no dead job, so that dead jobs have their own retention; every operation keeps it.
  \<^item> \<open>Engine\<close> (\<^verbatim>\<open>state/engine.*\<close>): one definition per command. \<open>EngineInv\<close>, \<open>EngineRun\<close>, \<open>EngineSafe\<close> show
    that no command aborts and that the log of a run replays to the durable state. \<open>EngineProps\<close> states fencing,
    lease expiry, reservation order, enqueueing and backoff. \<open>EngineIdem\<close> follows an idempotency key through any run
    of the engine: it names one job until it expires.
  \<^item> \<open>Crc32c\<close> (\<^verbatim>\<open>common/crc32c.*\<close>): tables, slicing-by-8 and the x86-64 hardware routine against the
    bitwise polynomial; burst detection. The aarch64 variant of the hardware routine is left out.
  \<^item> \<open>LogFormat\<close>, \<open>LogRecovery\<close> (\<^verbatim>\<open>log/format.*\<close>, \<^verbatim>\<open>log/recovery.*\<close>): framing and the start-up scan. \<open>LogScan\<close>
    describes what the scan does to whole, torn and damaged segments.
  \<^item> \<open>FileSystem\<close> (\<^verbatim>\<open>common/fs.h\<close>), \<open>SimFs\<close> (\<^verbatim>\<open>testing/sim_fs.*\<close>): the interface and the simulated file system
    with crashes and injected faults.
  \<^item> \<open>LogWriter\<close> (\<^verbatim>\<open>log/log_writer.*\<close>): owner thread and log thread as an interleaving step relation.
    \<open>LogStore\<close>, \<open>LogCrash\<close>, \<open>LogDurable\<close> and \<open>LogRun\<close> prove durability over the locale \<open>log_store\<close>,
    an extension of \<open>file_store\<close>; \<open>SimStore\<close> interprets both on the simulated file system and \<open>LogSafe\<close>
    states the results there: committed records survive a crash inside any operation, and one
    \<open>write_batch\<close> commits what a flush handed over.
  \<^item> \<open>Histogram\<close> (\<^verbatim>\<open>common/histogram.h\<close>): buckets and the error bound of a percentile.
  \<^item> \<open>Image\<close> (\<^verbatim>\<open>state/image.*\<close>): capture, pieces, builder and serialization. \<open>ImageProps\<close> shows the
    round trip and that the bytes are canonical, \<open>ImageAccept\<close> what any accepted bytes guarantee.
  \<^item> \<open>LeaseModel\<close> (\<^verbatim>\<open>check/lease_model.*\<close>): the independent checker of lease rules; every run of the engine
    satisfies it.
  \<^item> \<open>Resp\<close> (\<^verbatim>\<open>net/resp.*\<close>): the request parser and the reply writers. \<open>RespProps\<close>: parsing does not depend on
    how the stream is cut into reads, and requests round trip.
  \<^item> \<open>Snapshot\<close> (\<^verbatim>\<open>snapshot/*\<close>): writing, loading, compaction, state recovery and the snapshotter.

  \<^bold>\<open>Bounds and termination.\<close> Loops are structural recursions or functions with a termination proof. The
  exceptions are partial functions into \<open>option\<close>: the three loops of the wheel (\<open>drain_due\<close>, \<open>drain_slot\<close>,
  \<open>advance_loop\<close>), which \<open>WheelSpec\<close> proves to return on every consistent wheel, and the two reading loops of \<open>Snapshot\<close>,
  which may not end on an arbitrary reader. The slab of the wheel has 32-bit positions; \<open>room_for\<close> and \<open>tick_ok\<close>
  name the bounds theorems need (fewer than \<open>kNil\<close> jobs, counters below their maximum, clock below 2^63).

  \<^bold>\<open>Not modelled.\<close> \<^verbatim>\<open>common/posix_fs.cpp\<close>, \<^verbatim>\<open>common/fd.*\<close>, \<^verbatim>\<open>common/clock.*\<close>, \<^verbatim>\<open>net/socket.*\<close> and the pollers are
  system calls. \<^verbatim>\<open>server/*\<close> is the event loop around the modelled parts. \<^verbatim>\<open>common/logging.*\<close> and \<^verbatim>\<open>server/main.cpp\<close> are output, signals and process set-up. Benchmarks,
  fuzz targets, tests, tools, the chaos harness and the Python SDK drive the program and are not part of it.
\<close>

end
